(* ===== verification/Prelude.thy ===== *)
theory Prelude
  imports Complex_Main "HOL-Library.Word" "HOL-Library.Sublist"
begin

text \<open>
  Shared vocabulary of the posthog-c development: the machine integers, the byte and
  C-string view of memory, the public result codes and the fixed capacities of
  \<^verbatim>\<open>include/posthog.h\<close> and \<^verbatim>\<open>src/ph_internal.h\<close>, the collections of facts the component
  theories extend, and generic lemmas on lists and words.

  A C byte is a HOL \<^typ>\<open>char\<close> (eight bits); its numeric value is \<open>byte_val\<close>. A
  NUL-terminated C string is modelled by its content, a list of non-NUL bytes; a pointer
  that may be NULL is an \<open>option\<close>. A fixed \<open>char buf[CAP]\<close> holding a string is its
  content, with \<open>length < CAP\<close> as part of the invariant of the structure that has it.
\<close>

unbundle bit_operations_syntax

named_theorems caps \<open>the fixed capacities, unfolded to numerals\<close>
named_theorems wf_intros \<open>well-formedness of results\<close>

type_synonym u8 = "8 word"
type_synonym u16 = "16 word"
type_synonym u32 = "32 word"
type_synonym u64 = "64 word"
type_synonym bytes = "char list"

section \<open>Result codes and capacities\<close>

datatype ph_result =
    PH_OK
  | PH_ERR
  | PH_ERR_DISABLED
  | PH_ERR_FULL
  | PH_ERR_BADARG
  | PH_ERR_TRUNCATED
  | PH_ERR_RATE_LIMITED

definition PH_MAX_PROPS :: nat where [caps]: "PH_MAX_PROPS = 24"
definition PH_KEY_CAP :: nat where [caps]: "PH_KEY_CAP = 48"
definition PH_VAL_CAP :: nat where [caps]: "PH_VAL_CAP = 192"
definition PH_MAX_DENYLIST :: nat where [caps]: "PH_MAX_DENYLIST = 16"
definition PH_DISTINCT_ID_CAP :: nat where [caps]: "PH_DISTINCT_ID_CAP = 128"
definition PH_EVENT_NAME_CAP :: nat where [caps]: "PH_EVENT_NAME_CAP = 128"
definition PH_EVENT_DATA_CAP :: nat where [caps]: "PH_EVENT_DATA_CAP = 4096"

section \<open>Bytes and C strings\<close>

definition byte_val :: "char \<Rightarrow> nat" where
  "byte_val c = of_char c"

definition byte_of :: "nat \<Rightarrow> char" where
  "byte_of n = char_of n"

abbreviation NUL :: char where "NUL \<equiv> CHR 0x00"

definition cstr :: "string \<Rightarrow> bool" where
  "cstr s \<longleftrightarrow> NUL \<notin> set s"

definition cstr_view :: "bytes \<Rightarrow> string" where
  "cstr_view buf = takeWhile (\<lambda>c. c \<noteq> NUL) buf"

lemma byte_val_less [simp]: "byte_val c < 256"
  by (simp add: byte_val_def)

lemma byte_val_less_big [simp]: "byte_val c < 4294967296" "byte_val c < 18446744073709551616"
  by (rule order.strict_trans [OF byte_val_less], simp)+

lemma byte_of_mod_256 [simp]: "byte_of (n mod 256) = byte_of n"
  by (simp add: byte_of_def)

lemma byte_val_byte_of [simp]: "byte_val (byte_of n) = n mod 256"
  by (simp add: byte_val_def byte_of_def)

lemma byte_of_byte_val [simp]: "byte_of (byte_val c) = c"
  by (simp add: byte_val_def byte_of_def)

lemma byte_val_inject [simp]: "byte_val c = byte_val d \<longleftrightarrow> c = d"
  by (simp add: byte_val_def)

lemma byte_val_eq_iff: "n < 256 \<Longrightarrow> byte_val c = n \<longleftrightarrow> c = byte_of n"
  by (metis byte_of_byte_val byte_val_byte_of mod_less)

lemma byte_val_NUL [simp]: "byte_val NUL = 0"
  by (simp add: byte_val_def)

lemma byte_of_NUL_iff [simp]: "byte_of n = NUL \<longleftrightarrow> n mod 256 = 0"
  by (metis byte_val_NUL byte_val_byte_of byte_val_inject)

lemma NUL_byte_of_iff [simp]: "NUL = byte_of n \<longleftrightarrow> n mod 256 = 0"
  by (metis byte_of_NUL_iff)

lemma cstr_Nil [simp]: "cstr []"
  by (simp add: cstr_def)

lemma cstr_Cons [simp]: "cstr (c # s) \<longleftrightarrow> c \<noteq> NUL \<and> cstr s"
  by (auto simp: cstr_def)

lemma cstr_append [simp]: "cstr (s @ t) \<longleftrightarrow> cstr s \<and> cstr t"
  by (auto simp: cstr_def)

lemma cstr_take [intro]: "cstr s \<Longrightarrow> cstr (take n s)"
  by (auto simp: cstr_def dest: in_set_takeD)

lemma cstr_drop [intro]: "cstr s \<Longrightarrow> cstr (drop n s)"
  by (auto simp: cstr_def dest: in_set_dropD)

lemma cstr_view_cstr [simp]: "cstr (cstr_view b)"
  by (auto simp: cstr_view_def cstr_def dest: set_takeWhileD)

lemma cstr_view_id [simp]: "cstr s \<Longrightarrow> cstr_view s = s"
  by (auto simp: cstr_view_def cstr_def)

lemma length_cstr_view_le: "length (cstr_view b) \<le> length b"
  by (simp add: cstr_view_def length_takeWhile_le)

section \<open>Generic lemmas on words\<close>

lemma u64_less: "unat (w :: u64) < 18446744073709551616"
  using unsigned_less [of w, where ?'a = nat] by simp

lemma u64_le: "unat (w :: u64) \<le> 18446744073709551615"
  using u64_less [of w] by simp

lemma u32_less: "unat (w :: u32) < 4294967296"
  using unsigned_less [of w, where ?'a = nat] by simp

lemma unat_sub_le: "b \<le> a \<Longrightarrow> unat (a - b :: u64) = unat a - unat b"
  by (simp add: unat_sub)

lemma unat_add_lt: "unat (a :: u64) + unat b < 18446744073709551616 \<Longrightarrow> unat (a + b) = unat a + unat b"
  by (simp add: unat_word_ariths)

lemma unat_plus_nat:
  "unat (w :: u64) + m < 18446744073709551616 \<Longrightarrow> unat (w + of_nat m) = unat w + m"
  by (simp add: unat_word_ariths unat_of_nat mod_add_right_eq)

lemma unat_mult_lt: "unat (a :: u64) * unat b < 18446744073709551616 \<Longrightarrow> unat (a * b) = unat a * unat b"
  by (simp add: unat_word_ariths)

lemma unat_and_mask: "unat (x AND mask n :: u64) = unat x mod 2 ^ n"
  by (simp only: take_bit_eq_mask [symmetric] unsigned_take_bit_eq take_bit_eq_mod [symmetric])

lemma nat_or_push_bit:
  assumes "r < 2 ^ k"
  shows "push_bit k m OR r = push_bit k m + (r :: nat)"
proof -
  have "take_bit k r = r" using assms by (simp add: take_bit_nat_eq_self_iff)
  moreover have "push_bit k m AND take_bit k r = 0"
    by (rule bit_eqI) (auto simp: bit_and_iff bit_push_bit_iff bit_take_bit_iff)
  ultimately show ?thesis by (simp add: disjunctive_add_eq_or)
qed

section \<open>Generic lemmas on lists\<close>

lemma subseq_appendL: "subseq xs ys \<Longrightarrow> subseq xs (ys @ zs)"
  by (metis list_emb_append2 subseq_order.order_refl list_emb_append_mono append_Nil2
      list_emb_Nil)

lemma drop_4_plus [simp]: "drop (4 + n) (a # b # c # d # xs) = drop n xs"
  by (simp add: numeral_eq_Suc)

lemma subseq_tl: "subseq (tl xs) xs"
  by (cases xs) auto

lemma subseq_drop_append: "subseq xs (ys @ zs) \<Longrightarrow> subseq (xs @ [e]) (ys @ zs @ [e])"
  by (metis append.assoc list_emb_append_mono subseq_order.order_refl)

end
