(* ===== verification/Ph_Queue.thy ===== *)
theory Ph_Queue
  imports Prelude
begin

text \<open>
  The bounded drop-oldest ring of \<^verbatim>\<open>src/ph_queue.c\<close>: the structure \<open>ph_queue\<close>, one
  definition per function, the representation invariant and the refinement to a bounded
  FIFO list. The ring is generic in its element type; the SDK stores \<open>ph_event\<close> records
  in it. Mutex operations delimit the atomic steps, so each function that runs with
  \<open>q->lock\<close> held from entry to exit is one state transformer; \<open>ph_queue_wait\<close>, which
  releases the lock inside \<open>ph_cond_timedwait\<close>, is split into the decision to park and the
  exit step.
\<close>

section \<open>The ring\<close>

record 'e ph_queue =
  q_slots :: "'e list"
  q_cap :: nat
  q_head :: nat
  q_size :: nat
  q_dropped :: u64
  q_woken :: bool

definition PH_QUEUE_MIN_CAP :: nat where [caps]: "PH_QUEUE_MIN_CAP = 8"

text \<open>\<open>alloc_ok\<close> says whether \<open>calloc\<close> succeeds; \<open>e0\<close> is the zeroed element.\<close>

definition ph_queue_init :: "int \<Rightarrow> bool \<Rightarrow> 'e \<Rightarrow> 'e ph_queue option" where
  "ph_queue_init c alloc_ok e0 =
     (let c' = (if c < int PH_QUEUE_MIN_CAP then PH_QUEUE_MIN_CAP else nat c) in
      if \<not> alloc_ok then None
      else Some \<lparr>q_slots = replicate c' e0, q_cap = c', q_head = 0, q_size = 0,
                 q_dropped = 0, q_woken = False\<rparr>)"

text \<open>Evict if full, then the index of the tail slot to fill in place.\<close>

definition ph_queue_begin_push :: "'e ph_queue \<Rightarrow> 'e ph_queue \<times> nat" where
  "ph_queue_begin_push q =
     (let q' = (if q_size q = q_cap q
                then q\<lparr>q_head := (q_head q + 1) mod q_cap q, q_size := q_size q - 1,
                       q_dropped := q_dropped q + 1\<rparr>
                else q)
      in (q', (q_head q' + q_size q') mod q_cap q'))"

definition ph_queue_end_push :: "'e ph_queue \<Rightarrow> 'e ph_queue" where
  "ph_queue_end_push q = q\<lparr>q_size := q_size q + 1\<rparr>"

text \<open>The producer protocol: begin, write the slot, end (the lock is held throughout).\<close>

definition queue_push :: "'e ph_queue \<Rightarrow> 'e \<Rightarrow> 'e ph_queue" where
  "queue_push q e =
     (let (q', i) = ph_queue_begin_push q
      in ph_queue_end_push (q'\<lparr>q_slots := (q_slots q')[i := e]\<rparr>))"

fun ph_queue_pop_batch :: "'e ph_queue \<Rightarrow> nat \<Rightarrow> 'e ph_queue \<times> 'e list" where
  "ph_queue_pop_batch q 0 = (q, [])"
| "ph_queue_pop_batch q (Suc n) =
     (if q_size q > 0
      then (let x = q_slots q ! q_head q;
                q' = q\<lparr>q_head := (q_head q + 1) mod q_cap q, q_size := q_size q - 1\<rparr>;
                (q'', xs) = ph_queue_pop_batch q' n
            in (q'', x # xs))
      else (q, []))"

definition ph_queue_wait_parks :: "'e ph_queue \<Rightarrow> nat \<Rightarrow> bool" where
  "ph_queue_wait_parks q threshold \<longleftrightarrow> q_size q < threshold \<and> \<not> q_woken q"

definition ph_queue_wait_exit :: "'e ph_queue \<Rightarrow> 'e ph_queue" where
  "ph_queue_wait_exit q = q\<lparr>q_woken := False\<rparr>"

definition ph_queue_wake :: "'e ph_queue \<Rightarrow> 'e ph_queue" where
  "ph_queue_wake q = q\<lparr>q_woken := True\<rparr>"

definition ph_queue_size :: "'e ph_queue \<Rightarrow> nat" where
  "ph_queue_size q = q_size q"

definition ph_queue_dropped :: "'e ph_queue \<Rightarrow> u64" where
  "ph_queue_dropped q = q_dropped q"

section \<open>Invariant and abstraction\<close>

definition queue_inv :: "'e ph_queue \<Rightarrow> bool" where
  "queue_inv q \<longleftrightarrow> 0 < q_cap q \<and> length (q_slots q) = q_cap q \<and> q_head q < q_cap q \<and> q_size q \<le> q_cap q"

definition queue_list :: "'e ph_queue \<Rightarrow> 'e list" where
  "queue_list q = map (\<lambda>i. q_slots q ! ((q_head q + i) mod q_cap q)) [0..<q_size q]"

text \<open>Operations of a run and their effect on any queue implementation.\<close>

datatype 'e qop = QPush 'e | QPop nat

fun pushes :: "'e qop list \<Rightarrow> 'e list" where
  "pushes [] = []"
| "pushes (QPush e # ops) = e # pushes ops"
| "pushes (QPop n # ops) = pushes ops"

fun run_queue ::
  "('q \<Rightarrow> 'e \<Rightarrow> 'q) \<Rightarrow> ('q \<Rightarrow> nat \<Rightarrow> 'q \<times> 'e list) \<Rightarrow> 'q \<Rightarrow> 'e qop list \<Rightarrow> 'q \<times> 'e list" where
  "run_queue push pop q [] = (q, [])"
| "run_queue push pop q (QPush e # ops) = run_queue push pop (push q e) ops"
| "run_queue push pop q (QPop n # ops) =
     (let (q', xs) = pop q n; (q'', ys) = run_queue push pop q' ops in (q'', xs @ ys))"

section \<open>The interface of a bounded drop-oldest FIFO\<close>

locale bounded_fifo =
  fixes push :: "'q \<Rightarrow> 'e \<Rightarrow> 'q"
    and pop :: "'q \<Rightarrow> nat \<Rightarrow> 'q \<times> 'e list"
    and contents :: "'q \<Rightarrow> 'e list"
    and capacity :: "'q \<Rightarrow> nat"
    and evicted :: "'q \<Rightarrow> u64"
    and invar :: "'q \<Rightarrow> bool"
  assumes invar_cap: "invar q \<Longrightarrow> 0 < capacity q \<and> length (contents q) \<le> capacity q"
    and invar_push: "invar q \<Longrightarrow> invar (push q e)"
    and invar_pop: "invar q \<Longrightarrow> invar (fst (pop q n))"
    and push_contents: "invar q \<Longrightarrow> contents (push q e) =
          (if length (contents q) = capacity q then tl (contents q) else contents q) @ [e]"
    and push_evicted: "invar q \<Longrightarrow> evicted (push q e) =
          (if length (contents q) = capacity q then evicted q + 1 else evicted q)"
    and push_capacity: "invar q \<Longrightarrow> capacity (push q e) = capacity q"
    and pop_result: "invar q \<Longrightarrow> snd (pop q n) = take n (contents q)"
    and pop_contents: "invar q \<Longrightarrow> contents (fst (pop q n)) = drop n (contents q)"
    and pop_evicted: "invar q \<Longrightarrow> evicted (fst (pop q n)) = evicted q"
    and pop_capacity: "invar q \<Longrightarrow> capacity (fst (pop q n)) = capacity q"
begin

lemma run_invar: "invar q \<Longrightarrow> invar (fst (run_queue push pop q ops))"
proof (induction ops arbitrary: q)
  case Nil
  then show ?case by simp
next
  case (Cons x ops)
  then show ?case
    by (cases x) (auto simp: invar_push split_beta dest: invar_pop)
qed

lemma push_last: "invar q \<Longrightarrow> last (contents (push q e)) = e"
  by (simp add: push_contents)

lemma push_then_pop_all:
  assumes "invar q"
  shows "e \<in> set (snd (pop (push q e) (capacity q)))"
proof -
  have "length (contents (push q e)) \<le> capacity q"
    using invar_cap [OF invar_push [OF assms], of e] push_capacity [OF assms] by simp
  then show ?thesis
    using assms by (simp add: pop_result invar_push push_contents)
qed

text \<open>Delivery order and conservation of every event that was pushed.\<close>

lemma run_order:
  "invar q \<Longrightarrow> run_queue push pop q ops = (q', out) \<Longrightarrow>
     subseq (out @ contents q') (contents q @ pushes ops)"
proof (induction ops arbitrary: q out)
  case Nil
  then show ?case by simp
next
  case (Cons x ops)
  show ?case
  proof (cases x)
    case (QPush e)
    with Cons have "subseq (out @ contents q') (contents (push q e) @ pushes ops)"
      by (simp add: invar_push)
    also have "subseq (contents (push q e) @ pushes ops) ((contents q @ [e]) @ pushes ops)"
    proof (rule list_emb_append_mono)
      show "subseq (contents (push q e)) (contents q @ [e])"
        using Cons.prems(1)
        by (auto simp: push_contents intro!: list_emb_append_mono subseq_tl)
    qed simp
    finally show ?thesis
      using QPush by simp
  next
    case (QPop n)
    with Cons.prems(2) obtain ys where ys:
      "run_queue push pop (fst (pop q n)) ops = (q', ys)" "out = snd (pop q n) @ ys"
      by (cases "run_queue push pop (fst (pop q n)) ops") (auto simp: split_beta)
    with Cons.IH [OF invar_pop [OF Cons.prems(1)] ys(1)] Cons.prems(1)
    have "subseq (ys @ contents q') (drop n (contents q) @ pushes ops)"
      by (simp add: pop_contents)
    then have "subseq (take n (contents q) @ ys @ contents q')
        (take n (contents q) @ drop n (contents q) @ pushes ops)"
      by (rule list_emb_append_mono [OF subseq_order.order_refl])
    also have "take n (contents q) @ drop n (contents q) @ pushes ops = contents q @ pushes ops"
      by (metis append.assoc append_take_drop_id)
    finally show ?thesis
      using QPop ys(2) Cons.prems(1) by (simp add: pop_result)
  qed
qed

lemma run_conservation:
  "invar q \<Longrightarrow> run_queue push pop q ops = (q', out) \<Longrightarrow>
     of_nat (length (contents q) + length (pushes ops)) =
       of_nat (length out + length (contents q')) + (evicted q' - evicted q)"
proof (induction ops arbitrary: q out)
  case Nil
  then show ?case by simp
next
  case (Cons x ops)
  show ?case
  proof (cases x)
    case (QPush e)
    with Cons.prems Cons.IH [OF invar_push [OF Cons.prems(1)], of e out]
    have IH: "of_nat (length (contents (push q e)) + length (pushes ops)) =
       of_nat (length out + length (contents q')) + (evicted q' - evicted (push q e))"
      by simp
    obtain m where "capacity q = Suc m"
      using invar_cap [OF Cons.prems(1)] by (auto simp: gr0_conv_Suc)
    with IH QPush Cons.prems(1) show ?thesis
      by (cases "length (contents q) = capacity q")
        (auto simp: push_contents push_evicted algebra_simps)
  next
    case (QPop n)
    with Cons.prems(2) obtain ys where ys:
      "run_queue push pop (fst (pop q n)) ops = (q', ys)" "out = snd (pop q n) @ ys"
      by (cases "run_queue push pop (fst (pop q n)) ops") (auto simp: split_beta)
    have len: "length (contents q) = length (take n (contents q)) + length (drop n (contents q))"
      by simp
    from Cons.IH [OF invar_pop [OF Cons.prems(1)] ys(1)] Cons.prems(1) QPop ys(2) show ?thesis
      by (subst len) (simp add: pop_contents pop_evicted pop_result algebra_simps
          del: length_take length_drop)
  qed
qed

end

section \<open>The ring implements the interface\<close>

lemma queue_list_length [simp]: "length (queue_list q) = q_size q"
  by (simp add: queue_list_def)

lemma queue_list_nth:
  "i < q_size q \<Longrightarrow> queue_list q ! i = q_slots q ! ((q_head q + i) mod q_cap q)"
  by (simp add: queue_list_def)

lemma mod_offset_neq:
  assumes "i < s" "s < (c::nat)"
  shows "(h + i) mod c \<noteq> (h + s) mod c"
proof
  assume "(h + i) mod c = (h + s) mod c"
  then have "c dvd (h + s) - (h + i)"
    by (metis mod_eq_dvd_iff_nat nat_le_linear add_le_cancel_left assms(1) less_imp_le)
  with assms show False
    by (auto dest: dvd_imp_le)
qed

lemma push_room_list:
  assumes "queue_inv q" "q_size q < q_cap q"
  shows "queue_list (q\<lparr>q_slots := (q_slots q)[(q_head q + q_size q) mod q_cap q := e],
           q_size := q_size q + 1\<rparr>) = queue_list q @ [e]"
  using assms
  by (intro nth_equalityI)
    (auto simp: queue_inv_def queue_list_def nth_append less_Suc_eq mod_offset_neq mod_offset_neq [symmetric]
      nth_list_update)

lemma pop_one_list:
  assumes "queue_inv q" "0 < q_size q"
  shows "queue_list q = q_slots q ! q_head q #
           queue_list (q\<lparr>q_head := (q_head q + 1) mod q_cap q, q_size := q_size q - 1\<rparr>)"
  using assms
  by (intro nth_equalityI)
    (auto simp: queue_inv_def queue_list_def nth_Cons mod_simps split: nat.splits)

lemma evict_list:
  assumes "queue_inv q" "q_size q = q_cap q"
  shows "queue_list (q\<lparr>q_head := (q_head q + 1) mod q_cap q, q_size := q_size q - 1,
           q_dropped := q_dropped q + 1\<rparr>) = tl (queue_list q)"
proof -
  have "0 < q_size q" using assms by (auto simp: queue_inv_def)
  with pop_one_list [OF assms(1)] show ?thesis
    by (simp add: queue_list_def)
qed

lemma queue_push_inv [wf_intros]: "queue_inv q \<Longrightarrow> queue_inv (queue_push q e)"
  by (auto simp: queue_inv_def queue_push_def ph_queue_begin_push_def ph_queue_end_push_def)

lemma queue_push_list:
  assumes "queue_inv q"
  shows "queue_list (queue_push q e) =
           (if q_size q = q_cap q then tl (queue_list q) else queue_list q) @ [e]"
proof (cases "q_size q = q_cap q")
  case True
  let ?q = "q\<lparr>q_head := (q_head q + 1) mod q_cap q, q_size := q_size q - 1,
              q_dropped := q_dropped q + 1\<rparr>"
  from assms True have "queue_inv ?q" "q_size ?q < q_cap ?q"
    by (auto simp: queue_inv_def)
  from push_room_list [OF this, of e] evict_list [OF assms True] True show ?thesis
    by (simp add: queue_push_def ph_queue_begin_push_def ph_queue_end_push_def)
next
  case False
  with assms have "q_size q < q_cap q" by (auto simp: queue_inv_def)
  from push_room_list [OF assms this, of e] False show ?thesis
    by (simp add: queue_push_def ph_queue_begin_push_def ph_queue_end_push_def)
qed

lemma queue_push_frame [simp]:
  "q_cap (queue_push q e) = q_cap q"
  "q_woken (queue_push q e) = q_woken q"
  "q_dropped (queue_push q e) = (if q_size q = q_cap q then q_dropped q + 1 else q_dropped q)"
  by (simp_all add: queue_push_def ph_queue_begin_push_def ph_queue_end_push_def)

lemma pop_batch_inv: "queue_inv q \<Longrightarrow> queue_inv (fst (ph_queue_pop_batch q n))"
  by (induction q n rule: ph_queue_pop_batch.induct) (auto simp: queue_inv_def split_beta Let_def)

lemma pop_batch_frame [simp]:
  "q_cap (fst (ph_queue_pop_batch q n)) = q_cap q"
  "q_dropped (fst (ph_queue_pop_batch q n)) = q_dropped q"
  by (induction q n rule: ph_queue_pop_batch.induct) (auto simp: split_beta Let_def)

lemma pop_batch_list:
  "queue_inv q \<Longrightarrow>
     snd (ph_queue_pop_batch q n) = take n (queue_list q) \<and>
     queue_list (fst (ph_queue_pop_batch q n)) = drop n (queue_list q)"
proof (induction q n rule: ph_queue_pop_batch.induct)
  case (1 q)
  then show ?case by simp
next
  case (2 q n)
  show ?case
  proof (cases "q_size q > 0")
    case True
    let ?q = "q\<lparr>q_head := (q_head q + 1) mod q_cap q, q_size := q_size q - 1\<rparr>"
    have "queue_inv ?q"
      using "2.prems" by (auto simp: queue_inv_def)
    with "2.IH" True pop_one_list [OF "2.prems" True] show ?thesis
      by (simp add: split_beta Let_def)
  next
    case False
    then have "queue_list q = []" by (simp add: queue_list_def)
    with False show ?thesis by simp
  qed
qed

lemma queue_inv_bounds: "queue_inv q \<Longrightarrow> 0 < q_cap q \<and> q_size q \<le> q_cap q"
  by (simp add: queue_inv_def)

interpretation ring: bounded_fifo queue_push ph_queue_pop_batch queue_list q_cap q_dropped queue_inv
  by unfold_locales
    (auto simp: queue_push_inv queue_push_list pop_batch_inv pop_batch_list queue_inv_bounds)

lemma queue_init_inv [wf_intros]:
  "ph_queue_init c ok e0 = Some q \<Longrightarrow> queue_inv q \<and> queue_list q = [] \<and> q_dropped q = 0"
  by (auto simp: ph_queue_init_def queue_inv_def queue_list_def caps Let_def split: if_splits)

lemma pop_batch_woken [simp]: "q_woken (fst (ph_queue_pop_batch q n)) = q_woken q"
  by (induction q n rule: ph_queue_pop_batch.induct) (auto simp: split_beta Let_def)

lemma run_woken: "q_woken (fst (run_queue queue_push ph_queue_pop_batch q ops)) = q_woken q"
proof (induction ops arbitrary: q)
  case Nil
  then show ?case by simp
next
  case (Cons x ops)
  then show ?case
    by (cases x) (simp_all add: split_beta)
qed

section \<open>Properties\<close>

text \<open>
  C16. Over any sequence of pushes and batch pops on a freshly allocated ring, what was
  delivered followed by what is still queued is an order-preserving selection of what was
  pushed, and the events missing from it are exactly those counted by \<open>dropped\<close> (a 64-bit
  counter, so modulo \<open>2^64\<close>); the ring never holds more than its capacity.
\<close>

theorem queue_run_accounts_for_every_event:
  assumes "ph_queue_init c True e0 = Some q"
    and "run_queue queue_push ph_queue_pop_batch q ops = (q', out)"
  shows "subseq (out @ queue_list q') (pushes ops) \<and>
         of_nat (length (pushes ops)) =
           of_nat (length out + ph_queue_size q') + ph_queue_dropped q' \<and>
         ph_queue_size q' \<le> q_cap q'"
proof -
  from queue_init_inv [OF assms(1)] have q: "queue_inv q" "queue_list q = []" "q_dropped q = 0"
    by auto
  have "queue_inv q'"
    using ring.run_invar [OF q(1), of ops] assms(2) by simp
  then show ?thesis
    using ring.run_order [OF q(1) assms(2)] ring.run_conservation [OF q(1) assms(2)] q
    by (simp add: ph_queue_size_def ph_queue_dropped_def queue_inv_bounds)
qed

theorem queue_run_accounts_for_every_event_witness:
  "\<exists>q q' out. ph_queue_init 3 True (0::nat) = Some q \<and>
     run_queue queue_push ph_queue_pop_batch q [QPush 1, QPush 2, QPop 1, QPush 3] = (q', out) \<and>
     subseq (out @ queue_list q') [1, 2, 3] \<and> ph_queue_size q' \<le> q_cap q'"
proof -
  obtain q where q: "ph_queue_init 3 True (0::nat) = Some q"
    by (simp add: ph_queue_init_def Let_def)
  obtain q' out where r:
    "run_queue queue_push ph_queue_pop_batch q [QPush 1, QPush 2, QPop 1, QPush 3] = (q', out)"
    by (meson surj_pair)
  from queue_run_accounts_for_every_event [OF q r] q r show ?thesis by auto
qed

text \<open>
  Pushing on a full ring evicts exactly the oldest event and counts it; pushing on a
  ring with room evicts nothing. Either way the new event is the newest one.
\<close>

theorem queue_push_drops_oldest:
  assumes "queue_inv q"
  shows "queue_list (queue_push q e) =
           (if ph_queue_size q = q_cap q then tl (queue_list q) else queue_list q) @ [e] \<and>
         ph_queue_dropped (queue_push q e) =
           (if ph_queue_size q = q_cap q then ph_queue_dropped q + 1 else ph_queue_dropped q) \<and>
         queue_inv (queue_push q e)"
  using assms
  by (simp add: queue_push_list queue_push_inv ph_queue_size_def ph_queue_dropped_def)

theorem queue_push_drops_oldest_witness:
  "\<exists>q. queue_inv q \<and> ph_queue_size q = q_cap q \<and> queue_list (queue_push q (9::nat)) = [2, 9]"
proof -
  let ?q = "\<lparr>q_slots = [2, 1], q_cap = 2, q_head = 1, q_size = 2, q_dropped = 0, q_woken = False\<rparr> ::
            nat ph_queue"
  have inv: "queue_inv ?q" by (simp add: queue_inv_def)
  from queue_push_drops_oldest [OF inv, of 9] have "queue_list (queue_push ?q 9) = [2, 9]"
    by (simp add: ph_queue_size_def queue_list_def upt_rec)
  with inv show ?thesis by (intro exI [of _ ?q]) (simp add: ph_queue_size_def)
qed

text \<open>
  A wake is not lost: once \<open>ph_queue_wake\<close> has run, no later traffic on the ring lets
  the next \<open>ph_queue_wait\<close> park, until that wait itself clears the latch.
\<close>

theorem queue_wake_is_latched:
  assumes "run_queue queue_push ph_queue_pop_batch (ph_queue_wake q) ops = (q', out)"
  shows "\<not> ph_queue_wait_parks q' threshold \<and>
         (ph_queue_wait_parks (ph_queue_wait_exit q') threshold \<longleftrightarrow> ph_queue_size q' < threshold)"
  using run_woken [of "ph_queue_wake q" ops] assms
  by (simp add: ph_queue_wait_parks_def ph_queue_wait_exit_def ph_queue_wake_def ph_queue_size_def)

theorem queue_wake_is_latched_witness:
  "\<exists>q' out. run_queue queue_push ph_queue_pop_batch
       (ph_queue_wake \<lparr>q_slots = [0, 0], q_cap = 2, q_head = 0, q_size = 0, q_dropped = 0, q_woken = False\<rparr>)
       [QPush (5::nat)] = (q', out) \<and> \<not> ph_queue_wait_parks q' 20"
proof -
  let ?q = "\<lparr>q_slots = [0, 0], q_cap = 2, q_head = 0, q_size = 0, q_dropped = 0, q_woken = False\<rparr> ::
            nat ph_queue"
  obtain q' out where r:
    "run_queue queue_push ph_queue_pop_batch (ph_queue_wake ?q) [QPush 5] = (q', out)"
    by (meson surj_pair)
  from queue_wake_is_latched [OF r, of 20] r show ?thesis by blast
qed

end
