(* ===== verification/Ph_Str.thy ===== *)
theory Ph_Str
  imports Prelude
begin

text \<open>
  The growable byte buffer of \<^verbatim>\<open>src/ph_str.c\<close>. Sizes are 64-bit words, so the size
  computation and the capacity doubling wrap as in C; the doubling loop is a partial function,
  since it does not end once the capacity has wrapped to zero. The heap is described by
  \<open>heap_env\<close>: which requests succeed, and which bytes a fresh block happens to hold.
\<close>

section \<open>Model\<close>

record heap_env =
  can_alloc :: "nat \<Rightarrow> bool"
  heap_junk :: "nat \<Rightarrow> char"

record ph_strbuf =
  sb_data :: bytes
  sb_len :: u64
  sb_cap :: u64
  sb_oom :: bool

definition c_realloc :: "heap_env \<Rightarrow> bytes \<Rightarrow> nat \<Rightarrow> bytes option" where
  "c_realloc H old n =
     (if can_alloc H n then Some (map (\<lambda>i. if i < length old then old ! i else heap_junk H i) [0..<n])
      else None)"

definition ph_strbuf_init :: ph_strbuf where
  "ph_strbuf_init = \<lparr>sb_data = [], sb_len = 0, sb_cap = 0, sb_oom = False\<rparr>"

definition ph_strbuf_free :: "ph_strbuf \<Rightarrow> ph_strbuf" where
  "ph_strbuf_free b = ph_strbuf_init"

partial_function (option) grow_cap :: "u64 \<Rightarrow> u64 \<Rightarrow> u64 option" where
  "grow_cap newcap need = (if newcap < need then grow_cap (newcap * 2) need else Some newcap)"

text \<open>\<open>None\<close> is a call that does not return.\<close>

definition ph_strbuf_reserve :: "heap_env \<Rightarrow> ph_strbuf \<Rightarrow> u64 \<Rightarrow> ph_strbuf option" where
  "ph_strbuf_reserve H b additional =
     (if sb_oom b then Some b
      else let need = sb_len b + additional + 1 in
        if need \<le> sb_cap b then Some b
        else case grow_cap (if sb_cap b \<noteq> 0 then sb_cap b else 64) need of
            None \<Rightarrow> None
          | Some newcap \<Rightarrow>
              (case c_realloc H (sb_data b) (unat newcap) of
                 None \<Rightarrow> Some (b\<lparr>sb_oom := True\<rparr>)
               | Some p \<Rightarrow> Some (b\<lparr>sb_data := p, sb_cap := newcap\<rparr>)))"

text \<open>\<open>memcpy\<close> and the store of one byte into a block.\<close>

definition mem_write :: "bytes \<Rightarrow> nat \<Rightarrow> bytes \<Rightarrow> bytes" where
  "mem_write mem off s = take off mem @ s @ drop (off + length s) mem"

definition ph_strbuf_append :: "heap_env \<Rightarrow> ph_strbuf \<Rightarrow> bytes \<Rightarrow> ph_strbuf option" where
  "ph_strbuf_append H b s =
     (if sb_oom b \<or> s = [] then Some b
      else case ph_strbuf_reserve H b (of_nat (length s)) of
          None \<Rightarrow> None
        | Some b1 \<Rightarrow>
            if sb_oom b1 then Some b1
            else let n = sb_len b1 + of_nat (length s);
                     m = mem_write (sb_data b1) (unat (sb_len b1)) s
                 in Some (b1\<lparr>sb_data := mem_write m (unat n) [NUL], sb_len := n\<rparr>))"

definition ph_strbuf_append_cstr :: "heap_env \<Rightarrow> ph_strbuf \<Rightarrow> string option \<Rightarrow> ph_strbuf option" where
  "ph_strbuf_append_cstr H b s =
     (case s of None \<Rightarrow> Some b | Some s \<Rightarrow> ph_strbuf_append H b s)"

definition ph_strbuf_append_char :: "heap_env \<Rightarrow> ph_strbuf \<Rightarrow> char \<Rightarrow> ph_strbuf option" where
  "ph_strbuf_append_char H b c = ph_strbuf_append H b [c]"

text \<open>A sequence of appends, each with the heap it meets.\<close>

fun append_all :: "ph_strbuf \<Rightarrow> (heap_env \<times> bytes) list \<Rightarrow> ph_strbuf option" where
  "append_all b [] = Some b"
| "append_all b ((H, s) # cs) =
     (case ph_strbuf_append H b s of None \<Rightarrow> None | Some b' \<Rightarrow> append_all b' cs)"

section \<open>Invariant and abstraction\<close>

definition sb_text :: "ph_strbuf \<Rightarrow> bytes" where
  "sb_text b = take (unat (sb_len b)) (sb_data b)"

definition sb_inv :: "ph_strbuf \<Rightarrow> bool" where
  "sb_inv b \<longleftrightarrow> length (sb_data b) = unat (sb_cap b) \<and>
     (if sb_data b = [] then sb_len b = 0
      else sb_len b < sb_cap b \<and> sb_data b ! unat (sb_len b) = NUL) \<and>
     (\<exists>k \<le> 63. sb_cap b = 0 \<or> unat (sb_cap b) = 2 ^ k)"

lemma init_inv: "sb_inv ph_strbuf_init" "sb_text ph_strbuf_init = []"
  by (auto simp: sb_inv_def ph_strbuf_init_def sb_text_def)

section \<open>Facts\<close>

lemma unat_double: "unat (w :: u64) < 2 ^ 63 \<Longrightarrow> unat (w * 2) = 2 * unat w"
  by (simp add: unat_word_ariths)

lemma grow_cap_stop: "\<not> newcap < need \<Longrightarrow> grow_cap newcap need = Some newcap"
  by (simp add: grow_cap.simps)

lemma grow_cap_step: "newcap < need \<Longrightarrow> grow_cap newcap need = grow_cap (newcap * 2) need"
  by (simp add: grow_cap.simps [of newcap])

lemma grow_cap_enough:
  assumes "unat newcap = 2 ^ k" "k \<le> 63" "unat need \<le> 2 ^ 63"
  shows "\<exists>c j. grow_cap newcap need = Some c \<and> need \<le> c \<and> unat c = 2 ^ j \<and> j \<le> 63 \<and> newcap \<le> c"
  using assms
proof (induction "63 - k" arbitrary: k newcap)
  case 0
  then have "\<not> newcap < need" by (simp add: word_less_nat_alt)
  with 0 show ?case using grow_cap_stop by (metis linorder_not_less order_refl)
next
  case (Suc n)
  show ?case
  proof (cases "newcap < need")
    case False
    with Suc.prems show ?thesis using grow_cap_stop by (metis linorder_not_less order_refl)
  next
    case True
    from Suc.hyps(2) have k: "k < 63" "n = 63 - Suc k" "Suc k \<le> 63" by linarith+
    have "(2::nat) ^ k < 2 ^ 63" using k(1) by (rule power_strict_increasing) simp
    then have d: "unat (newcap * 2) = 2 ^ Suc k"
      using Suc.prems(1) unat_double [of newcap] by (simp only: power_Suc)
    obtain c j where
      "grow_cap (newcap * 2) need = Some c" "need \<le> c" "unat c = 2 ^ j" "j \<le> 63"
      using Suc.hyps(1) [OF k(2) d k(3) Suc.prems(3)] by blast
    moreover have "newcap \<le> c" using True \<open>need \<le> c\<close> by (rule order.strict_implies_order [OF less_le_trans])
    ultimately show ?thesis unfolding grow_cap_step [OF True] by blast
  qed
qed

lemma length_c_realloc: "c_realloc H old n = Some p \<Longrightarrow> length p = n"
  by (auto simp: c_realloc_def split: if_splits)

lemma take_c_realloc:
  assumes "c_realloc H old n = Some p" "k \<le> length old" "k \<le> n"
  shows "take k p = take k old"
proof (rule nth_equalityI)
  show "length (take k p) = length (take k old)" using assms length_c_realloc by simp
  fix i assume "i < length (take k p)"
  with assms show "take k p ! i = take k old ! i"
    by (auto simp: c_realloc_def split: if_splits)
qed

lemma length_mem_write: "off + length s \<le> length mem \<Longrightarrow> length (mem_write mem off s) = length mem"
  by (simp add: mem_write_def)

lemma take_mem_write:
  "off + length s \<le> length mem \<Longrightarrow> take (off + length s) (mem_write mem off s) = take off mem @ s"
  by (simp add: mem_write_def)

lemma nth_mem_write: "off < length mem \<Longrightarrow> mem_write mem off [c] ! off = c"
  by (simp add: mem_write_def nth_append)

lemma reserve_ok:
  assumes inv: "sb_inv b" and n: "unat (sb_len b) + n + 1 \<le> 2 ^ 63"
  shows "\<exists>b'. ph_strbuf_reserve H b (of_nat n) = Some b' \<and> sb_len b' = sb_len b \<and>
           sb_text b' = sb_text b \<and> (sb_oom b \<longrightarrow> b' = b) \<and>
           length (sb_data b') = unat (sb_cap b') \<and> (\<exists>k \<le> 63. sb_cap b' = 0 \<or> unat (sb_cap b') = 2 ^ k) \<and>
           (sb_oom b' \<longrightarrow> b' = b\<lparr>sb_oom := True\<rparr>) \<and>
           (\<not> sb_oom b' \<longrightarrow> \<not> sb_oom b \<and> unat (sb_len b) + n < unat (sb_cap b')) \<and>
           ((\<forall>m. can_alloc H m) \<longrightarrow> sb_oom b' = sb_oom b)"
proof -
  define need where "need = sb_len b + of_nat n + 1"
  have need: "unat need = unat (sb_len b) + n + 1"
    using n unat_plus_nat [of "sb_len b" "n + 1"] by (simp add: need_def ac_simps)
  obtain k where k: "k \<le> 63" "unat (if sb_cap b \<noteq> 0 then sb_cap b else 64) = 2 ^ k"
  proof (cases "sb_cap b = 0")
    case True
    with that [of 6] show ?thesis by simp
  next
    case False
    with inv that show ?thesis by (auto simp: sb_inv_def)
  qed
  obtain c j where c: "grow_cap (if sb_cap b \<noteq> 0 then sb_cap b else 64) need = Some c"
    "need \<le> c" "unat c = 2 ^ j" "j \<le> 63" "(if sb_cap b \<noteq> 0 then sb_cap b else 64) \<le> c"
    using grow_cap_enough [OF k(2,1), of need] need n by auto
  have cap: "unat (sb_len b) \<le> unat (sb_cap b)" "unat (sb_cap b) \<le> unat c"
    using inv c(5) by (auto simp: sb_inv_def word_le_nat_alt word_less_nat_alt split: if_splits)
  have len: "length (sb_data b) = unat (sb_cap b)" using inv by (simp add: sb_inv_def)
  have p: "take (unat (sb_len b)) p = take (unat (sb_len b)) (sb_data b) \<and> length p = unat c"
    if "c_realloc H (sb_data b) (unat c) = Some p" for p
    using that cap len length_c_realloc take_c_realloc [OF that, of "unat (sb_len b)"] by simp
  have fit: "unat (sb_len b) + n < unat (sb_cap b)" if "need \<le> sb_cap b"
    using that need by (simp add: word_le_nat_alt)
  have fit': "unat (sb_len b) + n < unat c" using c(2) need by (simp add: word_le_nat_alt)
  have cap': "\<exists>k \<le> 63. sb_cap b = 0 \<or> unat (sb_cap b) = 2 ^ k" using inv by (simp add: sb_inv_def)
  have can: "c_realloc H (sb_data b) (unat c) = None \<Longrightarrow> \<not> (\<forall>m. can_alloc H m)"
    by (auto simp: c_realloc_def split: if_splits)
  show ?thesis
    using c(1,3,4) p fit fit' cap' len can
    by (auto simp: ph_strbuf_reserve_def sb_text_def Let_def simp flip: need_def split: option.split)
qed

lemma append_ok:
  assumes inv: "sb_inv b" and n: "unat (sb_len b) + length s + 1 \<le> 2 ^ 63"
  shows "\<exists>b'. ph_strbuf_append H b s = Some b' \<and> sb_inv b' \<and>
           sb_text b' = (if sb_oom b' then sb_text b else sb_text b @ s) \<and>
           unat (sb_len b') \<le> unat (sb_len b) + length s \<and> (sb_oom b \<longrightarrow> sb_oom b') \<and>
           ((\<forall>m. can_alloc H m) \<longrightarrow> sb_oom b' = sb_oom b)"
proof (cases "sb_oom b \<or> s = []")
  case True
  with inv show ?thesis by (auto simp: ph_strbuf_append_def)
next
  case False
  obtain b1 where r: "ph_strbuf_reserve H b (of_nat (length s)) = Some b1"
    "sb_len b1 = sb_len b" "sb_text b1 = sb_text b" "length (sb_data b1) = unat (sb_cap b1)"
    "\<exists>k \<le> 63. sb_cap b1 = 0 \<or> unat (sb_cap b1) = 2 ^ k"
    "sb_oom b1 \<longrightarrow> b1 = b\<lparr>sb_oom := True\<rparr>"
    "\<not> sb_oom b1 \<longrightarrow> unat (sb_len b) + length s < unat (sb_cap b1)"
    "(\<forall>m. can_alloc H m) \<longrightarrow> sb_oom b1 = sb_oom b"
    using reserve_ok [OF inv n, of H] by auto
  show ?thesis
  proof (cases "sb_oom b1")
    case True
    with r inv False show ?thesis by (auto simp: ph_strbuf_append_def sb_inv_def sb_text_def)
  next
    case oom: False
    let ?l = "unat (sb_len b)"
    have l: "unat (sb_len b + of_nat (length s)) = ?l + length s"
      using n by (intro unat_plus_nat) simp
    let ?m = "mem_write (sb_data b1) ?l s"
    have lm: "length ?m = length (sb_data b1)" and tm: "take (?l + length s) ?m = sb_text b @ s"
      using r oom take_mem_write [of ?l s "sb_data b1"] by (auto simp: length_mem_write sb_text_def)
    let ?b = "b1\<lparr>sb_data := mem_write ?m (?l + length s) [NUL], sb_len := sb_len b + of_nat (length s)\<rparr>"
    have "ph_strbuf_append H b s = Some ?b"
      using False r oom l by (simp add: ph_strbuf_append_def)
    moreover have "sb_text ?b = sb_text b @ s"
    proof -
      have "take (?l + length s) (mem_write ?m (?l + length s) [NUL]) = take (?l + length s) ?m"
        using r(4,7) oom lm by (simp add: mem_write_def [of ?m])
      then show ?thesis by (simp add: sb_text_def [of ?b] l tm)
    qed
    moreover have "sb_inv ?b"
    proof -
      have "mem_write ?m (?l + length s) [NUL] \<noteq> []" by (simp add: mem_write_def)
      with r(4,5,7) oom lm l show ?thesis
        by (simp add: sb_inv_def length_mem_write nth_mem_write word_less_nat_alt)
    qed
    ultimately show ?thesis using r oom l False by auto
  qed
qed

lemma append_all_ok:
  "sb_inv b \<Longrightarrow> unat (sb_len b) + length (concat (map snd cs)) + 1 \<le> 2 ^ 63 \<Longrightarrow>
     \<exists>b' k. append_all b cs = Some b' \<and> sb_inv b' \<and> k \<le> length cs \<and>
       sb_text b' = sb_text b @ concat (map snd (take k cs)) \<and>
       (\<not> sb_oom b' \<longrightarrow> k = length cs) \<and> (sb_oom b \<longrightarrow> k = 0 \<and> sb_oom b') \<and>
       ((\<forall>c \<in> set cs. \<forall>m. can_alloc (fst c) m) \<longrightarrow> sb_oom b' = sb_oom b)"
proof (induction cs arbitrary: b)
  case Nil
  then show ?case by simp
next
  case (Cons c cs)
  obtain H s where c: "c = (H, s)" by (cases c)
  obtain b1 where b1: "ph_strbuf_append H b s = Some b1" "sb_inv b1"
    "sb_text b1 = (if sb_oom b1 then sb_text b else sb_text b @ s)"
    "unat (sb_len b1) \<le> unat (sb_len b) + length s" "sb_oom b \<longrightarrow> sb_oom b1"
    "(\<forall>m. can_alloc H m) \<longrightarrow> sb_oom b1 = sb_oom b"
    using append_ok [OF Cons.prems(1), of s H] Cons.prems(2) c by auto
  have "unat (sb_len b1) + length (concat (map snd cs)) + 1 \<le> 2 ^ 63"
    using b1(4) Cons.prems(2) c by simp
  from Cons.IH [OF b1(2) this] obtain b' k where b': "append_all b1 cs = Some b'" "sb_inv b'"
    "k \<le> length cs" "sb_text b' = sb_text b1 @ concat (map snd (take k cs))"
    "\<not> sb_oom b' \<longrightarrow> k = length cs" "sb_oom b1 \<longrightarrow> k = 0 \<and> sb_oom b'"
    "(\<forall>c \<in> set cs. \<forall>m. can_alloc (fst c) m) \<longrightarrow> sb_oom b' = sb_oom b1" by blast
  have all: "append_all b (c # cs) = Some b'" using b1(1) b'(1) c by simp
  have can: "(\<forall>c \<in> set (c # cs). \<forall>m. can_alloc (fst c) m) \<longrightarrow> sb_oom b' = sb_oom b"
    using b1(6) b'(7) c by simp
  show ?case
  proof (cases "sb_oom b1")
    case True
    with b1(3) b' have "sb_text b' = sb_text b @ concat (map snd (take 0 (c # cs)))" "sb_oom b'"
      by simp_all
    with all b'(2) can show ?thesis by (intro exI [of _ b'] exI [of _ 0]) simp
  next
    case False
    then have "sb_text b' = sb_text b @ concat (map snd (take (Suc k) (c # cs)))"
      using b1(3) b'(4) c by simp
    with all b' b1(5) can False show ?thesis by (intro exI [of _ b'] exI [of _ "Suc k"]) simp
  qed
qed

section \<open>Properties\<close>

text \<open>
  A sequence of appends whose total stays below half the address space always returns, and
  what the buffer holds is a prefix of the appended chunks, in order and each chunk whole,
  terminated by a NUL inside the allocation. The prefix is everything unless an allocation
  failed, and once one has failed nothing is appended any more.
\<close>

theorem strbuf_append_all:
  assumes "length (concat (map snd cs)) < 2 ^ 63"
  shows "\<exists>b k. append_all ph_strbuf_init cs = Some b \<and> sb_inv b \<and> k \<le> length cs \<and>
           sb_text b = concat (map snd (take k cs)) \<and> (\<not> sb_oom b \<longrightarrow> k = length cs) \<and>
           ((\<forall>c \<in> set cs. \<forall>m. can_alloc (fst c) m) \<longrightarrow> \<not> sb_oom b)"
proof -
  have "unat (sb_len ph_strbuf_init) + length (concat (map snd cs)) + 1 \<le> 2 ^ 63"
    using assms by (simp add: ph_strbuf_init_def)
  from append_all_ok [OF init_inv(1) this] show ?thesis
    by (simp add: init_inv) (simp add: ph_strbuf_init_def)
qed

theorem strbuf_append_all_witness:
  "\<exists>b. append_all ph_strbuf_init [(\<lparr>can_alloc = \<lambda>n. True, heap_junk = \<lambda>i. CHR ''?''\<rparr>, ''{}''),
                                   (\<lparr>can_alloc = \<lambda>n. True, heap_junk = \<lambda>i. CHR ''?''\<rparr>, '',{}'')] = Some b \<and>
     sb_text b = ''{},{}''"
proof -
  let ?H = "\<lparr>can_alloc = \<lambda>n. True, heap_junk = \<lambda>i. CHR ''?''\<rparr>"
  have "length (concat (map snd [(?H, ''{}''), (?H, '',{}'')])) < 2 ^ 63" by simp
  from strbuf_append_all [OF this] show ?thesis by auto
qed

end
