(* ===== verification/Libc.thy ===== *)
theory Libc
  imports Prelude
begin

text \<open>
  The parts of the C library the sources use, in the "C" locale: decimal and hexadecimal
  \<open>printf\<close> conversions, \<open>snprintf\<close> truncation, \<open>tolower\<close>, prefix and substring tests,
  \<open>strtol\<close>/\<open>sscanf\<close> digit scanning, and little-endian byte images of integers (the
  \<open>memcpy\<close> of a scalar on the supported little-endian targets, and the \<open>put_u*\<close>/\<open>get_u*\<close>
  helpers of the crash record).
\<close>

section \<open>Digits\<close>

definition dec_digit :: "nat \<Rightarrow> char" where
  "dec_digit n = byte_of (48 + n)"

definition is_digit :: "char \<Rightarrow> bool" where
  "is_digit c \<longleftrightarrow> 48 \<le> byte_val c \<and> byte_val c \<le> 57"

definition digit_val :: "char \<Rightarrow> nat" where
  "digit_val c = byte_val c - 48"

definition hex_digit :: "nat \<Rightarrow> char" where
  "hex_digit n = (if n < 10 then byte_of (48 + n) else byte_of (87 + n))"

fun nat_dec :: "nat \<Rightarrow> string" where
  "nat_dec n = (if n < 10 then [dec_digit n] else nat_dec (n div 10) @ [dec_digit (n mod 10)])"

declare nat_dec.simps [simp del]

definition int_dec :: "int \<Rightarrow> string" where
  "int_dec i = (if i < 0 then CHR ''-'' # nat_dec (nat (- i)) else nat_dec (nat i))"

fun nat_hex :: "nat \<Rightarrow> string" where
  "nat_hex n = (if n < 16 then [hex_digit n] else nat_hex (n div 16) @ [hex_digit (n mod 16)])"

declare nat_hex.simps [simp del]

definition pad0 :: "nat \<Rightarrow> string \<Rightarrow> string" where
  "pad0 w s = replicate (w - length s) (CHR ''0'') @ s"

definition snprintf_trunc :: "nat \<Rightarrow> string \<Rightarrow> string" where
  "snprintf_trunc cap s = take (cap - 1) s"

section \<open>Characters and substrings\<close>

definition tolower_c :: "char \<Rightarrow> char" where
  "tolower_c c = (if 65 \<le> byte_val c \<and> byte_val c \<le> 90 then byte_of (byte_val c + 32) else c)"

fun strstr_c :: "string \<Rightarrow> string \<Rightarrow> bool" where
  "strstr_c needle [] = (needle = [])"
| "strstr_c needle (c # cs) = (prefix needle (c # cs) \<or> strstr_c needle cs)"

fun dec_value :: "nat \<Rightarrow> string \<Rightarrow> nat" where
  "dec_value acc [] = acc"
| "dec_value acc (c # cs) = dec_value (10 * acc + digit_val c) cs"

definition isspace_c :: "char \<Rightarrow> bool" where
  "isspace_c c \<longleftrightarrow> c = CHR '' '' \<or> 9 \<le> byte_val c \<and> byte_val c \<le> 13"

definition atoi_c :: "string \<Rightarrow> int" where
  "atoi_c s =
     (let s = dropWhile isspace_c s; sign = (s \<noteq> [] \<and> (hd s = CHR ''-'' \<or> hd s = CHR ''+''));
          n = int (dec_value 0 (takeWhile is_digit (if sign then tl s else s)))
      in if sign \<and> hd s = CHR ''-'' then - n else n)"

section \<open>Little-endian images\<close>

definition le_bytes :: "nat \<Rightarrow> nat \<Rightarrow> bytes" where
  "le_bytes n v = map (\<lambda>i. byte_of (v div 256 ^ i)) [0..<n]"

fun le_val :: "bytes \<Rightarrow> nat" where
  "le_val [] = 0"
| "le_val (b # bs) = byte_val b + 256 * le_val bs"

section \<open>Facts\<close>

lemma byte_val_dec_digit [simp]: "n < 10 \<Longrightarrow> byte_val (dec_digit n) = 48 + n"
  by (simp add: dec_digit_def)

lemma is_digit_dec_digit [simp]: "n < 10 \<Longrightarrow> is_digit (dec_digit n)"
  by (simp add: is_digit_def)

lemma digit_val_dec_digit [simp]: "n < 10 \<Longrightarrow> digit_val (dec_digit n) = n"
  by (simp add: digit_val_def)

lemma digit_val_less: "is_digit c \<Longrightarrow> digit_val c < 10"
  by (auto simp add: is_digit_def digit_val_def)

lemma dec_digit_literals:
  "dec_digit 0 = CHR ''0''" "dec_digit (Suc 0) = CHR ''1''" "dec_digit 1 = CHR ''1''" "dec_digit 2 = CHR ''2''"
  "dec_digit 3 = CHR ''3''" "dec_digit 4 = CHR ''4''" "dec_digit 5 = CHR ''5''" "dec_digit 6 = CHR ''6''"
  "dec_digit 7 = CHR ''7''" "dec_digit 8 = CHR ''8''" "dec_digit 9 = CHR ''9''"
  by code_simp+

lemma nat_dec_nonempty [simp]: "nat_dec n \<noteq> []"
  by (subst nat_dec.simps) simp

lemma nat_dec_digits: "c \<in> set (nat_dec n) \<Longrightarrow> is_digit c"
proof (induction n rule: nat_dec.induct)
  case (1 n)
  then show ?case
    by (cases "n < 10") (auto simp: nat_dec.simps [of n])
qed

lemma dec_value_append: "dec_value acc (s @ t) = dec_value (dec_value acc s) t"
  by (induction s arbitrary: acc) auto

lemma dec_value_nat_dec [simp]: "dec_value 0 (nat_dec n) = n"
proof (induction n rule: nat_dec.induct)
  case (1 n)
  then show ?case
    by (cases "n < 10") (simp_all add: nat_dec.simps [of n] dec_value_append)
qed

lemma length_nat_dec: "n < 10 ^ k \<Longrightarrow> 0 < k \<Longrightarrow> length (nat_dec n) \<le> k"
proof (induction n arbitrary: k rule: nat_dec.induct)
  case (1 n)
  show ?case
  proof (cases "n < 10")
    case True
    with "1.prems" show ?thesis by (simp add: nat_dec.simps [of n])
  next
    case False
    with "1.prems" obtain j where j: "k = Suc j" "0 < j"
      by (cases k) (auto, cases "k - 1", auto)
    with "1.prems" have "n div 10 < 10 ^ j"
      by (simp add: less_mult_imp_div_less mult.commute)
    with "1.IH" False j show ?thesis by (simp add: nat_dec.simps [of n])
  qed
qed

lemma nat_hex_nonempty [simp]: "nat_hex n \<noteq> []"
  by (subst nat_hex.simps) simp

lemma length_pad0 [simp]: "length (pad0 w s) = max w (length s)"
  by (simp add: pad0_def)

lemma length_le_bytes [simp]: "length (le_bytes n v) = n"
  by (simp add: le_bytes_def)

lemma le_bytes_Suc: "le_bytes (Suc n) v = byte_of v # le_bytes n (v div 256)"
  by (simp add: le_bytes_def upt_conv_Cons map_Suc_upt [symmetric] div_mult2_eq del: upt_Suc)

lemma le_val_le_bytes: "le_val (le_bytes n v) = v mod 256 ^ n"
proof (induction n arbitrary: v)
  case 0
  then show ?case by (simp add: le_bytes_def)
next
  case (Suc n)
  then show ?case
    by (simp add: le_bytes_Suc mod_mult2_eq)
qed

lemma u64_of_le_bytes [simp]: "(of_nat (le_val (le_bytes 8 (unat w))) :: u64) = w"
proof -
  have "unat w < 256 ^ 8" using unsigned_less [of w] by simp
  then show ?thesis by (simp add: le_val_le_bytes)
qed

lemma le_val_less: "le_val bs < 256 ^ length bs"
proof (induction bs)
  case (Cons b bs)
  have "byte_val b + 256 * le_val bs < 256 + 256 * le_val bs" by simp
  also have "\<dots> \<le> 256 * 256 ^ length bs" using Cons by simp
  finally show ?case by simp
qed simp

lemma byte_of_add_256 [simp]: "byte_of (n + 256 * x) = byte_of n"
  unfolding byte_of_def by (metis char_of_mod_256 mod_mult_self2)

lemma le_bytes_le_val: "le_bytes (length bs) (le_val bs) = bs"
  by (induction bs) (simp_all add: le_bytes_Suc le_bytes_def [of 0])

end
