(* ===== verification/Ph_Time.thy ===== *)
theory Ph_Time
  imports Libc
begin

text \<open>
  Clock arithmetic, ISO-8601 formatting and UUIDv7 minting of \<^verbatim>\<open>src/ph_time.c\<close>. The clocks
  themselves are inputs of the operations that read them. All arithmetic is on 64-bit words.
  \<open>gmtime\<close> is the proleptic Gregorian calendar in UTC.
\<close>

section \<open>Wall-clock calibration\<close>

definition UINT64_MAX :: u64 where "UINT64_MAX = 0xFFFFFFFFFFFFFFFF"

definition ph_correct_wall_epoch :: "u64 \<Rightarrow> u64 \<Rightarrow> u64 \<Rightarrow> u64 \<Rightarrow> u64 \<Rightarrow> u64" where
  "ph_correct_wall_epoch epoch_wall epoch_mono now_wall now_mono threshold =
     (if now_mono < epoch_mono then epoch_wall
      else let delta = now_mono - epoch_mono;
               predicted = (if UINT64_MAX - epoch_wall < delta then UINT64_MAX else epoch_wall + delta);
               skew = (if predicted \<le> now_wall then now_wall - predicted else predicted - now_wall)
           in if skew \<le> threshold then epoch_wall
              else if predicted \<le> now_wall then
                (if UINT64_MAX - epoch_wall < skew then UINT64_MAX else epoch_wall + skew)
              else (if epoch_wall < skew then 0 else epoch_wall - skew))"

section \<open>ISO-8601\<close>

record tm =
  tm_year :: int
  tm_mon :: int
  tm_mday :: int
  tm_hour :: int
  tm_min :: int
  tm_sec :: int

text \<open>
  The civil date of a day number (days since 1970-01-01), by the Gregorian cycles: 400 years
  of 146097 days counted from a 1 March, centuries of 36524 days, four years of 1461 days, years
  of 365 days, the longer last century and last year taking the remaining day.
\<close>

definition civil_of_days :: "int \<Rightarrow> int \<times> int \<times> int" where
  "civil_of_days days =
     (let z = days + 719468;
          era = z div 146097;
          doe = z mod 146097;
          c = min 3 (doe div 36524);
          q = (doe - 36524 * c) div 1461;
          r = doe - 36524 * c - 1461 * q;
          y = min 3 (r div 365);
          doy = r - 365 * y;
          mp = (5 * doy + 2) div 153;
          d = doy - (153 * mp + 2) div 5 + 1;
          m = (if mp < 10 then mp + 3 else mp - 9)
      in (400 * era + 100 * c + 4 * q + y + (if m \<le> 2 then 1 else 0), m, d))"

definition gmtime :: "nat \<Rightarrow> tm" where
  "gmtime secs =
     (let days = int (secs div 86400); s = int (secs mod 86400);
          (y, m, d) = civil_of_days days
      in \<lparr>tm_year = y - 1900, tm_mon = m - 1, tm_mday = d,
          tm_hour = s div 3600, tm_min = s mod 3600 div 60, tm_sec = s mod 60\<rparr>)"

text \<open>\<open>%0wd\<close> of a non-negative number.\<close>

definition fmt_0d :: "nat \<Rightarrow> int \<Rightarrow> string" where
  "fmt_0d w i = pad0 w (nat_dec (nat i))"

definition iso8601_text :: "u64 \<Rightarrow> string" where
  "iso8601_text wall_ns =
     (let secs = unat (wall_ns div 1000000000);
          ms = (wall_ns div 1000000) mod 1000;
          t = gmtime secs
      in fmt_0d 4 (tm_year t + 1900) @ ''-'' @ fmt_0d 2 (tm_mon t + 1) @ ''-'' @ fmt_0d 2 (tm_mday t)
         @ ''T'' @ fmt_0d 2 (tm_hour t) @ '':'' @ fmt_0d 2 (tm_min t) @ '':'' @ fmt_0d 2 (tm_sec t)
         @ ''.'' @ fmt_0d 3 (uint ms) @ ''Z'')"

definition ph_format_iso8601 :: "u64 \<Rightarrow> nat \<Rightarrow> string" where
  "ph_format_iso8601 wall_ns cap = snprintf_trunc cap (iso8601_text wall_ns)"

section \<open>UUIDv7\<close>

definition splitmix64 :: "u64 \<Rightarrow> u64" where
  "splitmix64 x0 =
     (let x = x0 + 0x9E3779B97F4A7C15;
          x = (x XOR drop_bit 30 x) * 0xBF58476D1CE4E5B9;
          x = (x XOR drop_bit 27 x) * 0x94D049BB133111EB
      in x XOR drop_bit 31 x)"

text \<open>The truncating conversion \<open>(uint8_t)\<close> of a 64-bit value.\<close>

definition lo8 :: "u64 \<Rightarrow> nat" where
  "lo8 x = unat x mod 256"

definition uuid_bytes :: "u64 \<Rightarrow> u64 \<Rightarrow> u64 \<Rightarrow> nat list" where
  "uuid_bytes wall_ms salt seq =
     (let r0 = splitmix64 (salt XOR (seq * 0x9E3779B97F4A7C15));
          r1 = splitmix64 (r0 XOR 0xD1B54A32D192ED03)
      in [lo8 (drop_bit 40 wall_ms), lo8 (drop_bit 32 wall_ms), lo8 (drop_bit 24 wall_ms),
          lo8 (drop_bit 16 wall_ms), lo8 (drop_bit 8 wall_ms), lo8 wall_ms,
          0x70 OR lo8 (drop_bit 8 r0 AND 0x0F), lo8 (r0 AND 0xFF),
          0x80 OR lo8 (drop_bit 16 r0 AND 0x3F), lo8 (drop_bit 24 r0 AND 0xFF),
          lo8 r1, lo8 (drop_bit 8 r1), lo8 (drop_bit 16 r1), lo8 (drop_bit 24 r1),
          lo8 (drop_bit 32 r1), lo8 (drop_bit 40 r1)])"

definition uuid_byte_text :: "nat \<Rightarrow> nat \<Rightarrow> string" where
  "uuid_byte_text i b =
     (if i = 4 \<or> i = 6 \<or> i = 8 \<or> i = 10 then ''-'' else []) @
     [hex_digit (b div 16 mod 16), hex_digit (b mod 16)]"

definition ph_uuid_v7 :: "u64 \<Rightarrow> u64 \<Rightarrow> u64 \<Rightarrow> string" where
  "ph_uuid_v7 wall_ms salt seq =
     concat (map (\<lambda>(i, b). uuid_byte_text i b) (enumerate 0 (uuid_bytes wall_ms salt seq)))"

section \<open>The emergency seed\<close>

text \<open>\<open>os_random\<close> is what the operating system's random source delivered, if it did; the rest
  mixes the two clocks and the address of the local variable.\<close>

definition ph_seed_u64 :: "u64 option \<Rightarrow> u64 \<Rightarrow> u64 \<Rightarrow> u64 \<Rightarrow> u64" where
  "ph_seed_u64 os_random wall mono_ns addr =
     (case os_random of Some x \<Rightarrow> x
      | None \<Rightarrow>
          let x = wall XOR (mono_ns * 0x9E3779B97F4A7C15) XOR push_bit 17 addr;
              x = (x XOR drop_bit 30 x) * 0xBF58476D1CE4E5B9;
              x = (x XOR drop_bit 27 x) * 0x94D049BB133111EB
          in x XOR drop_bit 31 x)"

section \<open>Facts: calibration\<close>

lemma unat_UINT64_MAX: "unat UINT64_MAX = 2 ^ 64 - 1"
  by (simp add: UINT64_MAX_def)

lemma unat_MAX_minus: "unat (UINT64_MAX - w) = 2 ^ 64 - 1 - unat w"
proof -
  have "w \<le> UINT64_MAX" using u64_le [of w] by (simp add: word_le_nat_alt UINT64_MAX_def)
  then show ?thesis by (simp add: unat_sub UINT64_MAX_def)
qed

definition nat_dist :: "nat \<Rightarrow> nat \<Rightarrow> nat" where
  "nat_dist a b = (a - b) + (b - a)"

lemma wall_epoch_cases:
  assumes "epoch_mono \<le> now_mono"
    and nosat: "unat epoch_wall + (unat now_mono - unat epoch_mono) < 2 ^ 64"
  shows "unat (ph_correct_wall_epoch epoch_wall epoch_mono now_wall now_mono threshold) =
           (if nat_dist (unat now_wall) (unat epoch_wall + (unat now_mono - unat epoch_mono))
                 \<le> unat threshold
            then unat epoch_wall else unat now_wall - (unat now_mono - unat epoch_mono))"
proof -
  define delta where "delta = now_mono - epoch_mono"
  have d: "unat delta = unat now_mono - unat epoch_mono"
    using assms(1) by (simp add: delta_def unat_sub_le)
  have p: "unat (epoch_wall + delta) = unat epoch_wall + unat delta"
    using nosat d by (simp add: unat_add_lt)
  have nolt: "\<not> UINT64_MAX - epoch_wall < delta"
    using nosat d by (simp add: word_less_nat_alt unat_MAX_minus)
  have up: "unat (now_wall - (epoch_wall + delta)) = unat now_wall - (unat epoch_wall + unat delta)"
    if "epoch_wall + delta \<le> now_wall"
    using that p by (simp add: unat_sub_le)
  have dn: "unat (epoch_wall + delta - now_wall) = unat epoch_wall + unat delta - unat now_wall"
    if "\<not> epoch_wall + delta \<le> now_wall"
    using that p by (simp add: unat_sub_le)
  show ?thesis
  proof (cases "epoch_wall + delta \<le> now_wall")
    case True
    let ?skew = "now_wall - (epoch_wall + delta)"
    have le: "unat epoch_wall + unat delta \<le> unat now_wall" using True p by (simp add: word_le_nat_alt)
    have fit: "unat epoch_wall + unat ?skew < 18446744073709551616"
      using le up [OF True] u64_less [of now_wall] by simp
    then have "\<not> UINT64_MAX - epoch_wall < ?skew" by (simp add: word_less_nat_alt unat_MAX_minus)
    then show ?thesis
      using assms(1) True nolt le up [OF True] unat_add_lt [OF fit]
      unfolding d [symmetric]
      by (simp add: ph_correct_wall_epoch_def Let_def word_le_nat_alt word_less_nat_alt nat_dist_def
          not_less flip: delta_def)
  next
    case False
    then have gt: "unat now_wall < unat epoch_wall + unat delta" using p by (simp add: word_le_nat_alt)
    let ?skew = "epoch_wall + delta - now_wall"
    have sub: "unat (epoch_wall - ?skew) = unat epoch_wall - unat ?skew" if "\<not> epoch_wall < ?skew"
      using that by (intro unat_sub_le) (simp add: not_less)
    show ?thesis
      using assms(1) False nolt gt dn [OF False] sub
      unfolding d [symmetric]
      by (simp add: ph_correct_wall_epoch_def Let_def word_le_nat_alt word_less_nat_alt nat_dist_def
          not_less flip: delta_def)
  qed
qed

section \<open>Facts: the calendar\<close>

lemma int_div_bounds:
  assumes "0 < (k :: int)"
  shows "k * (x div k) \<le> x" "x < k * (x div k) + k"
  using assms pos_mod_bound [of k x] pos_mod_sign [of k x] mult_div_mod_eq [of k x] by linarith+

lemma int_div_unique: "0 < (k :: int) \<Longrightarrow> k * q \<le> x \<Longrightarrow> x < k * q + k \<Longrightarrow> x div k = q"
  by (rule int_div_pos_eq [of _ _ _ "x - k * q"]) auto

text \<open>The cycles of a day number: what the definition computes, and that putting the parts
  together gives the day number back.\<close>

lemma civil_cycles:
  obtains era c q y doy mp d where
    "civil_of_days days =
       (400 * era + 100 * c + 4 * q + y + (if (if mp < 10 then mp + 3 else mp - 9) \<le> (2::int) then 1 else 0),
        (if mp < 10 then mp + 3 else mp - 9), d)"
    "days + 719468 = 146097 * era + 36524 * c + 1461 * q + 365 * y + doy"
    "0 \<le> c" "c \<le> 3" "0 \<le> q" "q \<le> 24" "0 \<le> y" "y \<le> 3" "0 \<le> doy" "doy \<le> 365"
    "0 \<le> mp" "mp \<le> 11" "doy = (153 * mp + 2) div 5 + d - 1" "1 \<le> d" "d \<le> 31"
proof -
  define z where "z = days + 719468"
  define era where "era = z div 146097"
  define doe where "doe = z mod 146097"
  define c where "c = min 3 (doe div 36524)"
  define q where "q = (doe - 36524 * c) div 1461"
  define r where "r = doe - 36524 * c - 1461 * q"
  define y where "y = min 3 (r div 365)"
  define doy where "doy = r - 365 * y"
  define mp where "mp = (5 * doy + 2) div 153"
  define d where "d = doy - (153 * mp + 2) div 5 + 1"
  have doe: "0 \<le> doe" "doe \<le> 146096" "z = 146097 * era + doe" by (auto simp: doe_def era_def)
  note b1 = int_div_bounds [of 36524 doe]
  have c: "0 \<le> c" "c \<le> 3" "0 \<le> doe - 36524 * c" "doe - 36524 * c \<le> 36524"
    using b1 doe by (auto simp: c_def pos_imp_zdiv_nonneg_iff min_def)
  note b2 = int_div_bounds [of 1461 "doe - 36524 * c", folded q_def]
  have q: "0 \<le> q" "q \<le> 24" "0 \<le> r" "r \<le> 1460"
    using b2 c by (auto simp: r_def) 
  note b3 = int_div_bounds [of 365 r]
  have y: "0 \<le> y" "y \<le> 3" "0 \<le> doy" "doy \<le> 365"
    using b3 q by (auto simp: y_def doy_def pos_imp_zdiv_nonneg_iff min_def)
  note b4 = int_div_bounds [of 153 "5 * doy + 2", folded mp_def]
  have mp: "0 \<le> mp" "mp \<le> 11" using b4 y by auto
  note b5 = int_div_bounds [of 5 "153 * mp + 2"]
  have d: "1 \<le> d" "d \<le> 31" using b4 b5 by (auto simp: d_def)
  show ?thesis
  proof (rule that [of era c q y mp d doy])
    show "civil_of_days days =
       (400 * era + 100 * c + 4 * q + y + (if (if mp < 10 then mp + 3 else mp - 9) \<le> (2::int) then 1 else 0),
        (if mp < 10 then mp + 3 else mp - 9), d)"
      unfolding civil_of_days_def Let_def
      by (simp add: z_def [symmetric] era_def [symmetric] doe_def [symmetric] c_def [symmetric]
          q_def [symmetric] r_def [symmetric] y_def [symmetric] doy_def [symmetric]
          mp_def [symmetric] d_def [symmetric])
    show "days + 719468 = 146097 * era + 36524 * c + 1461 * q + 365 * y + doy"
      using doe by (simp add: doy_def r_def z_def)
    show "doy = (153 * mp + 2) div 5 + d - 1" by (simp add: d_def)
  qed (use c q y mp d in auto)
qed

lemma civil_ranges:
  assumes "civil_of_days days = (y, m, d)" "0 \<le> days" "days < 2786860"
  shows "1600 \<le> y" "y \<le> 9600" "1 \<le> m" "m \<le> 12" "1 \<le> d" "d \<le> 31"
proof -
  obtain era c q yy doy mp d' where cy: "civil_of_days days =
       (400 * era + 100 * c + 4 * q + yy + (if (if mp < 10 then mp + 3 else mp - 9) \<le> (2::int) then 1 else 0),
        (if mp < 10 then mp + 3 else mp - 9), d')"
    and z: "days + 719468 = 146097 * era + 36524 * c + 1461 * q + 365 * yy + doy"
    and b: "0 \<le> c" "c \<le> 3" "0 \<le> q" "q \<le> 24" "0 \<le> yy" "yy \<le> 3" "0 \<le> doy" "doy \<le> 365"
    and mp: "0 \<le> mp" "mp \<le> 11" "1 \<le> d'" "d' \<le> 31"
    by (rule civil_cycles)
  have era: "4 \<le> era" "era \<le> 23" using z b assms(2,3) by linarith+
  with b mp cy assms(1) show "1600 \<le> y" "y \<le> 9600" "1 \<le> m" "m \<le> 12" "1 \<le> d" "d \<le> 31"
    by (auto split: if_splits)
qed

section \<open>Facts: formatting\<close>

lemma length_fmt_0d: "0 < w \<Longrightarrow> i < 10 ^ w \<Longrightarrow> length (fmt_0d w i) = w"
proof -
  assume w: "0 < w" and i: "i < 10 ^ w"
  have "nat i < 10 ^ w"
  proof (cases "i < 0")
    case False
    then have "int (nat i) < int (10 ^ w)" using i by simp
    then show ?thesis by (simp only: of_nat_less_iff)
  qed simp
  with w show ?thesis using length_nat_dec [of "nat i" w] by (simp add: fmt_0d_def)
qed

lemma dec_value_zeros: "dec_value 0 (replicate n (CHR ''0'') @ s) = dec_value 0 s"
  by (induction n) (simp_all add: digit_val_def byte_val_def)

lemma dec_value_fmt_0d [simp]: "dec_value 0 (fmt_0d w i) = nat i"
  by (simp add: fmt_0d_def pad0_def dec_value_zeros)

lemma fmt_0d_digits: "c \<in> set (fmt_0d w i) \<Longrightarrow> is_digit c"
  by (auto simp: fmt_0d_def pad0_def is_digit_def byte_val_def dest!: nat_dec_digits)

lemma gmtime_fields:
  assumes "civil_of_days (int (secs div 86400)) = (y, m, d)"
  shows "gmtime secs = \<lparr>tm_year = y - 1900, tm_mon = m - 1, tm_mday = d,
    tm_hour = int (secs mod 86400 div 3600), tm_min = int (secs mod 3600 div 60),
    tm_sec = int (secs mod 60)\<rparr>"
  using assms by (simp add: gmtime_def Let_def zdiv_int zmod_int mod_mod_cancel)

lemma iso8601_parts:
  fixes w :: u64
  defines "secs \<equiv> unat w div 1000000000"
  assumes "civil_of_days (int (secs div 86400)) = (y, m, d)"
  shows "iso8601_text w = fmt_0d 4 y @ ''-'' @ fmt_0d 2 m @ ''-'' @ fmt_0d 2 d @ ''T'' @
     fmt_0d 2 (int (secs mod 86400 div 3600)) @ '':'' @ fmt_0d 2 (int (secs mod 3600 div 60)) @ '':'' @
     fmt_0d 2 (int (secs mod 60)) @ ''.'' @ fmt_0d 3 (int (unat w div 1000000 mod 1000)) @ ''Z''"
proof -
  have s: "unat (w div 1000000000) = secs" by (simp add: secs_def unat_div)
  have ms: "uint (w div 1000000 mod 1000) = int (unat w div 1000000 mod 1000)"
    by (simp add: uint_div uint_mod zdiv_int zmod_int)
  show ?thesis unfolding iso8601_text_def s gmtime_fields [OF assms(2)] Let_def ms by simp
qed

section \<open>Facts: UUIDs\<close>

lemma lo8_drop_bit: "lo8 (drop_bit k w) = unat w div 2 ^ k mod 256"
  unfolding lo8_def unat_drop_bit_eq by (simp add: drop_bit_eq_div)

lemma nibbles_of_byte:
  "(n::nat) mod 256 div 16 mod 16 = n div 16 mod 16" "n mod 256 mod 16 = n mod 16"
  using mod_mult2_eq [of n 16 16] mod_mod_cancel [of 16 256 n] by simp_all

lemma hex_digit_literals:
  "hex_digit 7 = CHR ''7''" "hex_digit 8 = CHR ''8''" "hex_digit 9 = CHR ''9''"
  "hex_digit 10 = CHR ''a''" "hex_digit 11 = CHR ''b''"
  by code_simp+

lemma lo8_masks:
  "lo8 (x AND 0x0F) = unat x mod 16" "lo8 (x AND 0x3F) = unat x mod 64" "lo8 (x AND 0xFF) = unat x mod 256"
  using unat_and_mask [of x 4] unat_and_mask [of x 6] unat_and_mask [of x 8]
  by (simp_all add: lo8_def mask_eq_exp_minus_1)

lemma or_fields:
  "r < 16 \<Longrightarrow> 0x70 OR r = 0x70 + (r::nat)" "r < 64 \<Longrightarrow> 0x80 OR r = 0x80 + (r::nat)"
  using nat_or_push_bit [of r 4 7] nat_or_push_bit [of r 6 2] by (simp_all add: push_bit_eq_mult)

lemma uuid_text:
  "ph_uuid_v7 ms salt seq =
     (let b = (\<lambda>i. uuid_bytes ms salt seq ! i); h = (\<lambda>i. hex_digit (b i div 16 mod 16)); l = (\<lambda>i. hex_digit (b i mod 16))
      in [h 0, l 0, h 1, l 1, h 2, l 2, h 3, l 3, CHR ''-'', h 4, l 4, h 5, l 5, CHR ''-'',
          h 6, l 6, h 7, l 7, CHR ''-'', h 8, l 8, h 9, l 9, CHR ''-'', h 10, l 10, h 11, l 11,
          h 12, l 12, h 13, l 13, h 14, l 14, h 15, l 15])"
  by (simp add: ph_uuid_v7_def uuid_bytes_def uuid_byte_text_def Let_def)

lemma uuid_time_bytes:
  "i < 6 \<Longrightarrow> uuid_bytes ms salt seq ! i = unat ms div 2 ^ (40 - 8 * i) mod 256"
proof -
  assume "i < 6"
  then consider "i = 0" | "i = 1" | "i = 2" | "i = 3" | "i = 4" | "i = 5" by linarith
  then show ?thesis
    by cases (simp_all add: uuid_bytes_def Let_def lo8_drop_bit, simp add: lo8_def)
qed

lemma uuid_version_bytes:
  "uuid_bytes ms salt seq ! 6 div 16 mod 16 = 7"
  "uuid_bytes ms salt seq ! 8 div 16 mod 16 \<in> {8, 9, 10, 11}"
proof -
  have "uuid_bytes ms salt seq ! 6 = 0x70 OR r \<Longrightarrow> r < 16 \<Longrightarrow> uuid_bytes ms salt seq ! 6 div 16 mod 16 = 7" for r
    by (simp add: or_fields)
  then show "uuid_bytes ms salt seq ! 6 div 16 mod 16 = 7"
    by (simp add: uuid_bytes_def Let_def lo8_masks or_fields)
  have "(128 + x mod 64) div 16 mod 16 \<in> {8, 9, 10, 11}" for x :: nat by auto
  then show "uuid_bytes ms salt seq ! 8 div 16 mod 16 \<in> {8, 9, 10, 11}"
    by (simp add: uuid_bytes_def Let_def lo8_masks or_fields)
qed

section \<open>Properties\<close>

text \<open>
  Calibration: as long as the predicted wall time does not overflow, the epoch is kept when the
  prediction is within the threshold of the wall clock, and otherwise replaced by the one for
  which the prediction is exactly the wall clock (or zero, when the wall clock reads less than
  the time elapsed). A monotonic reading before the epoch changes nothing.
\<close>

theorem wall_epoch_correction:
  assumes "unat epoch_wall + (unat now_mono - unat epoch_mono) < 2 ^ 64"
  shows "unat (ph_correct_wall_epoch epoch_wall epoch_mono now_wall now_mono threshold) =
     (if now_mono < epoch_mono \<or>
         nat_dist (unat now_wall) (unat epoch_wall + (unat now_mono - unat epoch_mono)) \<le> unat threshold
      then unat epoch_wall
      else unat now_wall - (unat now_mono - unat epoch_mono))"
proof (cases "now_mono < epoch_mono")
  case True
  then show ?thesis by (simp add: ph_correct_wall_epoch_def)
next
  case False
  then show ?thesis using wall_epoch_cases [OF _ assms, of now_wall threshold] by simp
qed

theorem wall_epoch_correction_witness:
  "unat (ph_correct_wall_epoch 1000 10 5000 110 50) = 4900 \<and>
   unat (ph_correct_wall_epoch 1000 10 1120 110 50) = 1000"
proof -
  have h: "unat (1000 :: u64) + (unat (110 :: u64) - unat (10 :: u64)) < 2 ^ 64" by simp
  from wall_epoch_correction [OF h, of 5000 50] wall_epoch_correction [OF h, of 1120 50]
  show ?thesis by (simp add: nat_dist_def)
qed

text \<open>
  A minted UUID is 36 characters with the dashes of the 8-4-4-4-12 layout, version nibble 7
  and a variant nibble of 8, 9, a or b, and its first twelve hexadecimal digits are, most
  significant first, those of the low 48 bits of the millisecond timestamp.
\<close>

theorem uuid_v7_shape:
  "length (ph_uuid_v7 ms salt seq) = 36 \<and>
   list_all (\<lambda>i. ph_uuid_v7 ms salt seq ! i = CHR ''-'') [8, 13, 18, 23] \<and>
   ph_uuid_v7 ms salt seq ! 14 = CHR ''7'' \<and>
   ph_uuid_v7 ms salt seq ! 19 \<in> {CHR ''8'', CHR ''9'', CHR ''a'', CHR ''b''} \<and>
   take 8 (ph_uuid_v7 ms salt seq) @ take 4 (drop 9 (ph_uuid_v7 ms salt seq)) =
     map (\<lambda>i. hex_digit (unat ms div 16 ^ (11 - i) mod 16)) [0..<12]"
proof (intro conjI)
  show "length (ph_uuid_v7 ms salt seq) = 36" "list_all (\<lambda>i. ph_uuid_v7 ms salt seq ! i = CHR ''-'') [8, 13, 18, 23]"
    by (simp_all add: uuid_text Let_def)
  show "ph_uuid_v7 ms salt seq ! 14 = CHR ''7''"
    by (simp add: uuid_text Let_def uuid_version_bytes hex_digit_literals)
  show "ph_uuid_v7 ms salt seq ! 19 \<in> {CHR ''8'', CHR ''9'', CHR ''a'', CHR ''b''}"
    using uuid_version_bytes(2) [of ms salt seq]
    by (auto simp: uuid_text Let_def hex_digit_literals)
  show "take 8 (ph_uuid_v7 ms salt seq) @ take 4 (drop 9 (ph_uuid_v7 ms salt seq)) =
     map (\<lambda>i. hex_digit (unat ms div 16 ^ (11 - i) mod 16)) [0..<12]"
    by (simp add: uuid_text Let_def uuid_time_bytes nibbles_of_byte upt_rec div_mult2_eq [symmetric])
qed

end
