(* ===== verification/Ph_Ratelimit.thy ===== *)
theory Ph_Ratelimit
  imports Ph_Time
begin

text \<open>
  Server-directed backpressure of \<^verbatim>\<open>src/ph_ratelimit.c\<close>: one monotonic deadline, and the
  parser of \<open>Retry-After\<close> values. \<open>unsigned\<close> is 32 bits; \<open>long\<close> and \<open>long long\<close> are 64 bits and,
  as the values stay far below their range, are integers. \<open>sscanf\<close> and \<open>strtol\<close> are those of
  the C library, including the saturation of a conversion that exceeds \<open>unsigned long\<close>.
\<close>

section \<open>The deadline\<close>

definition PH_RL_DEFAULT_BACKOFF_MS :: u64 where "PH_RL_DEFAULT_BACKOFF_MS = 60000"
definition PH_RL_MAX_BACKOFF_MS :: int where "PH_RL_MAX_BACKOFF_MS = 24 * 60 * 60 * 1000"

record ph_ratelimit =
  disabled_until_mono_ns :: u64

definition ph_ratelimit_init :: ph_ratelimit where
  "ph_ratelimit_init = \<lparr>disabled_until_mono_ns = 0\<rparr>"

definition ph_ratelimit_arm :: "ph_ratelimit \<Rightarrow> u64 \<Rightarrow> u64 \<Rightarrow> ph_ratelimit" where
  "ph_ratelimit_arm rl window_ms now =
     (let jitter = now mod (window_ms div 8 + 1);
          w = window_ms + jitter;
          w = (if of_int PH_RL_MAX_BACKOFF_MS < w then of_int PH_RL_MAX_BACKOFF_MS else w)
      in rl\<lparr>disabled_until_mono_ns := now + w * 1000000\<rparr>)"

definition ph_ratelimit_blocked :: "ph_ratelimit \<Rightarrow> u64 \<Rightarrow> bool" where
  "ph_ratelimit_blocked rl now \<longleftrightarrow> now < disabled_until_mono_ns rl"

definition ph_ratelimit_remaining_ms :: "ph_ratelimit \<Rightarrow> u64 \<Rightarrow> u64" where
  "ph_ratelimit_remaining_ms rl now =
     (if disabled_until_mono_ns rl \<le> now then 0 else (disabled_until_mono_ns rl - now) div 1000000)"

section \<open>Dates\<close>

text \<open>Division of \<open>long\<close> truncates toward zero; the era is computed so that it floors.\<close>

definition days_from_civil :: "int \<Rightarrow> u32 \<Rightarrow> u32 \<Rightarrow> int" where
  "days_from_civil y0 m d =
     (let y = (if m \<le> 2 then y0 - 1 else y0);
          n = (if 0 \<le> y then y else y - 399);
          era = (if 0 \<le> n then n div 400 else - ((- n) div 400));
          yoe = (of_int (y - era * 400) :: u32);
          doy = (153 * (m + (if 2 < m then - 3 else 9)) + 2) div 5 + d - 1;
          doe = yoe * 365 + yoe div 4 - yoe div 100 + doy
      in era * 146097 + uint doe - 719468)"

definition month_names :: "string list" where
  "month_names = [''Jan'', ''Feb'', ''Mar'', ''Apr'', ''May'', ''Jun'', ''Jul'', ''Aug'', ''Sep'', ''Oct'',
     ''Nov'', ''Dec'']"

text \<open>\<open>strncmp(a, b, 3) == 0\<close> for a three-letter \<open>b\<close>: \<open>a\<close> starts with it.\<close>

fun month_num_from :: "nat \<Rightarrow> string list \<Rightarrow> string \<Rightarrow> nat" where
  "month_num_from i [] mon = 0"
| "month_num_from i (n # ns) mon = (if take 3 mon = n then i else month_num_from (i + 1) ns mon)"

definition month_num :: "string \<Rightarrow> nat" where
  "month_num mon = month_num_from 1 month_names mon"

section \<open>Scanning\<close>

definition is_space :: "char \<Rightarrow> bool" where
  "is_space c \<longleftrightarrow> c = CHR '' '' \<or> 9 \<le> byte_val c \<and> byte_val c \<le> 13"

text \<open>\<open>%u\<close>: white space, an optional sign, digits; the value as \<open>strtoul\<close>, cut to 32 bits.\<close>

definition scan_u :: "string \<Rightarrow> (u32 \<times> string) option" where
  "scan_u s0 =
     (let s = dropWhile is_space s0;
          neg = (case s of [] \<Rightarrow> False | c # cs \<Rightarrow> c = CHR ''-'');
          t = (case s of [] \<Rightarrow> [] | c # cs \<Rightarrow> if c = CHR ''-'' \<or> c = CHR ''+'' then cs else s);
          ds = takeWhile is_digit t;
          v = dec_value 0 ds;
          w = (if 2 ^ 64 \<le> v then - 1 else if neg then - of_nat v else of_nat v :: u64)
      in if ds = [] then None else Some (ucast w, dropWhile is_digit t))"

text \<open>\<open>%3s\<close>: white space, then one to three characters that are not white space.\<close>

definition scan_3s :: "string \<Rightarrow> (string \<times> string) option" where
  "scan_3s s0 =
     (let s = dropWhile is_space s0; w = take 3 (takeWhile (\<lambda>c. \<not> is_space c) s)
      in if w = [] then None else Some (w, drop (length w) s))"

definition scan_lit :: "char \<Rightarrow> string \<Rightarrow> string option" where
  "scan_lit c s = (case s of [] \<Rightarrow> None | x # xs \<Rightarrow> if x = c then Some xs else None)"

text \<open>\<open>sscanf(rest, "%u %3s %u %u:%u:%u", ...) == 6\<close> and what it stored.\<close>

definition scan_date :: "string \<Rightarrow> (u32 \<times> string \<times> u32 \<times> u32 \<times> u32 \<times> u32) option" where
  "scan_date s =
     (case scan_u s of None \<Rightarrow> None | Some (d, s) \<Rightarrow>
      case scan_3s s of None \<Rightarrow> None | Some (mon, s) \<Rightarrow>
      case scan_u s of None \<Rightarrow> None | Some (Y, s) \<Rightarrow>
      case scan_u s of None \<Rightarrow> None | Some (hh, s) \<Rightarrow>
      case scan_lit (CHR '':'') s of None \<Rightarrow> None | Some s \<Rightarrow>
      case scan_u s of None \<Rightarrow> None | Some (mm, s) \<Rightarrow>
      case scan_lit (CHR '':'') s of None \<Rightarrow> None | Some s \<Rightarrow>
      case scan_u s of None \<Rightarrow> None | Some (ss, s) \<Rightarrow> Some (d, mon, Y, hh, mm, ss))"

definition strtol_digits :: "string \<Rightarrow> int" where
  "strtol_digits s = min (2 ^ 63 - 1) (int (dec_value 0 (takeWhile is_digit s)))"

definition is_blank_nl :: "char \<Rightarrow> bool" where
  "is_blank_nl c \<longleftrightarrow> c = CHR '' '' \<or> c = CHR 0x09 \<or> c = CHR 0x0D \<or> c = CHR 0x0A"

definition retry_after_date :: "string \<Rightarrow> u64 \<Rightarrow> int" where
  "retry_after_date value now_wall_ns =
     (let rest = (if CHR '','' \<in> set value then tl (dropWhile (\<lambda>c. c \<noteq> CHR '','') value) else value);
          rest = dropWhile (\<lambda>c. c = CHR '' '') rest
      in case scan_date rest of
           None \<Rightarrow> - 1
         | Some (d, mon, Y, hh, mm, ss) \<Rightarrow>
             let M = month_num mon in
             if M = 0 \<or> 23 < hh \<or> 59 < mm \<or> 60 < ss then - 1
             else let epoch = days_from_civil (uint Y) (of_nat M) d * 86400 + uint hh * 3600 + uint mm * 60 + uint ss;
                      now_s = uint (now_wall_ns div 1000000000);
                      delta = max 0 (epoch - now_s)
                  in if PH_RL_MAX_BACKOFF_MS div 1000 < delta then PH_RL_MAX_BACKOFF_MS else delta * 1000)"

definition ph_ratelimit_parse_retry_after :: "string option \<Rightarrow> u64 \<Rightarrow> int" where
  "ph_ratelimit_parse_retry_after val now_wall_ns =
     (case val of None \<Rightarrow> - 1
      | Some v \<Rightarrow>
          let value = dropWhile (\<lambda>c. c = CHR '' '' \<or> c = CHR 0x09) v in
          if value = [] then - 1
          else let token = takeWhile (\<lambda>c. \<not> is_blank_nl c) value;
                   q = dropWhile is_blank_nl (drop (length token) value)
               in if list_all is_digit token \<and> token \<noteq> [] \<and> q = [] then
                    (let secs = strtol_digits value in
                     if secs < 0 \<or> PH_RL_MAX_BACKOFF_MS div 1000 < secs then PH_RL_MAX_BACKOFF_MS
                     else secs * 1000)
                  else retry_after_date value now_wall_ns)"

definition ph_ratelimit_note_response ::
  "ph_ratelimit \<Rightarrow> int \<Rightarrow> string option \<Rightarrow> u64 \<Rightarrow> u64 \<Rightarrow> ph_ratelimit \<times> bool" where
  "ph_ratelimit_note_response rl status retry_after now_mono_ns now_wall_ns =
     (if status \<noteq> 429 \<and> status \<noteq> 503 then (rl, ph_ratelimit_blocked rl now_mono_ns)
      else let ra_ms = ph_ratelimit_parse_retry_after retry_after now_wall_ns in
           if 0 \<le> ra_ms then (ph_ratelimit_arm rl (of_int ra_ms) now_mono_ns, True)
           else if status = 503 then (rl, ph_ratelimit_blocked rl now_mono_ns)
           else (ph_ratelimit_arm rl PH_RL_DEFAULT_BACKOFF_MS now_mono_ns, True))"

section \<open>Facts: the deadline\<close>

lemma max_backoff: "PH_RL_MAX_BACKOFF_MS = 86400000"
  by (simp add: PH_RL_MAX_BACKOFF_MS_def)

lemma unat_arm:
  assumes "unat window \<le> 86400000" "unat now + 86400000000000 < 2 ^ 64"
  shows "unat (disabled_until_mono_ns (ph_ratelimit_arm rl window now)) =
           unat now + min 86400000 (unat window + unat now mod (unat window div 8 + 1)) * 1000000"
proof -
  define j where "j = now mod (window div 8 + 1)"
  have d: "unat (window div 8 + 1) = unat window div 8 + 1"
    using unat_add_lt [of "window div 8" 1] assms(1) by (simp add: unat_div)
  then have j: "unat j = unat now mod (unat window div 8 + 1)" by (simp add: j_def unat_mod)
  have "unat j < unat window div 8 + 1" unfolding j by simp
  then have w: "unat (window + j) = unat window + unat j" using assms(1) by (intro unat_add_lt) simp
  define w' where "w' = (if of_int PH_RL_MAX_BACKOFF_MS < window + j then of_int PH_RL_MAX_BACKOFF_MS else window + j)"
  have w': "unat w' = min 86400000 (unat window + unat j)"
    by (simp add: w'_def max_backoff word_less_nat_alt w)
  have "unat w' \<le> 86400000" unfolding w' by simp
  then have "unat (w' * 1000000) = unat w' * 1000000"
    using unat_mult_lt [of w' 1000000] by simp
  then have "unat (now + w' * 1000000) = unat now + unat w' * 1000000"
    using assms(2) \<open>unat w' \<le> 86400000\<close> by (subst unat_add_lt) simp_all
  then show ?thesis
    by (simp add: ph_ratelimit_arm_def Let_def w'_def [symmetric] j_def [symmetric] w' j)
qed

section \<open>Facts: dates\<close>

lemma uint_of_int_u32: "0 \<le> i \<Longrightarrow> i < 4294967296 \<Longrightarrow> uint (of_int i :: u32) = i"
  by (simp add: uint_word_of_int)

lemma u32_div:
  assumes "0 \<le> x" "x < 4294967296" "0 < k" "k < 4294967296"
  shows "(of_int x :: u32) div of_int k = of_int (x div k)"
  using assms by (simp add: word_div_def uint_word_of_int)

lemma u32_le_iff: "0 \<le> i \<Longrightarrow> i < 4294967296 \<Longrightarrow> 0 \<le> j \<Longrightarrow> j < 4294967296 \<Longrightarrow>
    (of_int i :: u32) \<le> of_int j \<longleftrightarrow> i \<le> j"
  by (simp add: word_le_def uint_word_of_int)

lemma int_div_le: "0 \<le> (x :: int) \<Longrightarrow> 0 < k \<Longrightarrow> x div k \<le> x"
  using zdiv_mono2 [of x 1 k] by simp

lemma days_from_civil_formula:
  assumes m: "1 \<le> m" "m \<le> 12" and d: "1 \<le> d" "d \<le> 31"
    and y: "(if m \<le> 2 then yy - 1 else yy) = 400 * era + yoe" "0 \<le> yoe" "yoe \<le> 399" "0 \<le> era"
    and mp: "mp = (if 2 < m then m - 3 else m + 9)"
  shows "days_from_civil yy (of_int m) (of_int d) =
    146097 * era + (365 * yoe + yoe div 4 - yoe div 100 + ((153 * mp + 2) div 5 + d - 1)) - 719468"
proof -
  let ?m = "of_int m :: u32" and ?y = "of_int yoe :: u32"
  have le: "?m \<le> 2 \<longleftrightarrow> m \<le> 2" using u32_le_iff [of m 2] m by simp
  have b: "0 \<le> mp" "mp \<le> 11" using mp m by auto
  have month: "153 * (?m + (if 2 < ?m then - 3 else 9)) + 2 = of_int (153 * mp + 2)"
    using le mp by (simp add: not_le [symmetric])
  have "(of_int (153 * mp + 2) :: u32) div 5 = of_int ((153 * mp + 2) div 5)"
    using u32_div [of "153 * mp + 2" 5] b by simp
  moreover have "?y div 4 = of_int (yoe div 4)" "?y div 100 = of_int (yoe div 100)"
    using u32_div [of yoe 4] u32_div [of yoe 100] y by simp_all
  moreover have "era = (400 * era + yoe) div 400" using y by (intro int_div_unique [symmetric]) auto
  moreover have "0 \<le> 400 * era + yoe" using y by simp
  ultimately have "days_from_civil yy ?m (of_int d) =
      146097 * era + uint (of_int (365 * yoe + yoe div 4 - yoe div 100 + ((153 * mp + 2) div 5 + d - 1)) :: u32) - 719468"
    unfolding days_from_civil_def Let_def le y(1) month
    by (simp add: algebra_simps)
  moreover have "uint (of_int (365 * yoe + yoe div 4 - yoe div 100 + ((153 * mp + 2) div 5 + d - 1)) :: u32)
      = 365 * yoe + yoe div 4 - yoe div 100 + ((153 * mp + 2) div 5 + d - 1)"
  proof (rule uint_of_int_u32)
    have "0 \<le> yoe div 4" "yoe div 4 \<le> yoe" "0 \<le> yoe div 100" "yoe div 100 \<le> yoe"
      "0 \<le> (153 * mp + 2) div 5" "(153 * mp + 2) div 5 \<le> 153 * mp + 2"
      using y b by (simp_all add: pos_imp_zdiv_nonneg_iff int_div_le)
    then show "0 \<le> 365 * yoe + yoe div 4 - yoe div 100 + ((153 * mp + 2) div 5 + d - 1)"
      "365 * yoe + yoe div 4 - yoe div 100 + ((153 * mp + 2) div 5 + d - 1) < 4294967296"
      using b d y by linarith+
  qed
  ultimately show ?thesis by simp
qed

lemma days_from_civil_of_days:
  assumes "civil_of_days days = (y, m, d)" "- 719468 \<le> days"
  shows "days_from_civil y (of_int m) (of_int d) = days"
proof -
  obtain era c q yy doy mp d' where cy: "civil_of_days days =
       (400 * era + 100 * c + 4 * q + yy + (if (if mp < 10 then mp + 3 else mp - 9) \<le> (2::int) then 1 else 0),
        (if mp < 10 then mp + 3 else mp - 9), d')"
    and z: "days + 719468 = 146097 * era + 36524 * c + 1461 * q + 365 * yy + doy"
    and b: "0 \<le> c" "c \<le> 3" "0 \<le> q" "q \<le> 24" "0 \<le> yy" "yy \<le> 3" "0 \<le> doy" "doy \<le> 365"
    and mp: "0 \<le> mp" "mp \<le> 11" "doy = (153 * mp + 2) div 5 + d' - 1" "1 \<le> d'" "d' \<le> 31"
    by (rule civil_cycles)
  let ?yoe = "100 * c + 4 * q + yy"
  have m: "m = (if mp < 10 then mp + 3 else mp - 9)" "d = d'"
    and y: "y = 400 * era + ?yoe + (if m \<le> 2 then 1 else 0)" using cy assms(1) by auto
  have era: "0 \<le> era" using z b assms(2) by linarith
  have div: "?yoe div 4 = 25 * c + q" "?yoe div 100 = c"
    using b by (auto intro!: int_div_unique)
  have "days_from_civil y (of_int m) (of_int d) =
    146097 * era + (365 * ?yoe + ?yoe div 4 - ?yoe div 100 + ((153 * mp + 2) div 5 + d - 1)) - 719468"
    using m mp b era y by (intro days_from_civil_formula) auto
  then show ?thesis unfolding div using z mp(3) m by simp
qed

section \<open>Facts: scanning\<close>

lemma is_space_simps [simp]:
  "is_space (CHR '' '')" "\<not> is_space (CHR '':'')" "\<not> is_space (CHR '','')" "\<not> is_space (CHR ''-'')"
  by (simp_all add: is_space_def byte_val_def)

lemma digit_not_space: "is_digit c \<Longrightarrow> \<not> is_space c"
  by (auto simp: is_digit_def is_space_def byte_val_def)

lemma takeWhile_digits:
  assumes "list_all is_digit ds" "r = [] \<or> \<not> is_digit (hd r)"
  shows "takeWhile is_digit (ds @ r) = ds" "dropWhile is_digit (ds @ r) = r"
  using assms by (cases r; simp add: list_all_iff takeWhile_tail dropWhile_append3)+

text \<open>A field of digits, after any number of blanks.\<close>

lemma scan_u_digits:
  assumes ds: "list_all is_digit ds" "ds \<noteq> []" and r: "r = [] \<or> \<not> is_digit (hd r)"
    and v: "dec_value 0 ds < 4294967296"
  shows "scan_u (replicate k (CHR '' '') @ ds @ r) = Some (of_nat (dec_value 0 ds), r)"
proof -
  obtain c cs where c: "ds = c # cs" "is_digit c" using ds by (cases ds) auto
  have "dropWhile is_space (replicate k (CHR '' '') @ ds @ r) = ds @ r"
    using digit_not_space [OF c(2)] c(1) by (induction k) simp_all
  moreover have "c \<noteq> CHR ''-''" "c \<noteq> CHR ''+''" using c(2) by (auto simp: is_digit_def byte_val_def)
  moreover have "(ucast (of_nat (dec_value 0 ds) :: u64) :: u32) = of_nat (dec_value 0 ds)"
    using v by (intro word_unat_eq_iff [THEN iffD2])
      (simp add: unsigned_ucast_eq take_bit_eq_mod unat_of_nat)
  ultimately show ?thesis
    using c takeWhile_digits [OF ds(1) r] v by (simp add: scan_u_def Let_def)
qed

lemma scan_u_fmt:
  assumes "0 \<le> i" "i < 4294967296" "r = [] \<or> \<not> is_digit (hd r)"
  shows "scan_u (replicate k (CHR '' '') @ fmt_0d w i @ r) = Some (of_int i, r)"
proof -
  have ds: "list_all is_digit (fmt_0d w i)" by (auto simp: list_all_iff dest: fmt_0d_digits)
  have ne: "fmt_0d w i \<noteq> []" by (simp add: fmt_0d_def pad0_def)
  have "dec_value 0 (fmt_0d w i) < 4294967296" using assms(1,2) by (simp add: nat_less_iff)
  from scan_u_digits [OF ds ne assms(3) this, of k] assms(1) show ?thesis by simp
qed

lemma month_num_names:
  assumes "1 \<le> m" "m \<le> 12"
  shows "month_num (month_names ! (m - 1)) = m" "length (month_names ! (m - 1)) = 3"
    "list_all (\<lambda>c. \<not> is_space c) (month_names ! (m - 1))"
proof -
  have "\<forall>i \<in> set [0..<12]. month_num (month_names ! i) = i + 1 \<and> length (month_names ! i) = 3 \<and>
      list_all (\<lambda>c. \<not> is_space c) (month_names ! i)"
    by (simp add: month_num_def month_names_def is_space_def byte_val_def upt_rec)
  then show "month_num (month_names ! (m - 1)) = m" "length (month_names ! (m - 1)) = 3"
    "list_all (\<lambda>c. \<not> is_space c) (month_names ! (m - 1))" using assms by auto
qed

lemma scan_3s_word:
  assumes "length w = 3" "list_all (\<lambda>c. \<not> is_space c) w"
  shows "scan_3s (CHR '' '' # w @ r) = Some (w, r)"
proof -
  obtain a b c where w: "w = [a, b, c]" using assms(1) by (auto simp: length_Suc_conv numeral_eq_Suc)
  with assms(2) show ?thesis by (simp add: scan_3s_def Let_def)
qed

text \<open>The IMF-fixdate of a time in seconds, with an arbitrary day name.\<close>

definition imf_fixdate :: "string \<Rightarrow> nat \<Rightarrow> string" where
  "imf_fixdate day secs =
     (let t = gmtime secs in
      day @ '', '' @ fmt_0d 2 (tm_mday t) @ '' '' @ month_names ! nat (tm_mon t) @ '' '' @
      fmt_0d 4 (tm_year t + 1900) @ '' '' @ fmt_0d 2 (tm_hour t) @ '':'' @ fmt_0d 2 (tm_min t) @ '':'' @
      fmt_0d 2 (tm_sec t) @ '' GMT'')"

lemma scan_date_fields:
  assumes r: "0 \<le> d" "d < 100" "0 \<le> y" "y < 10000" "0 \<le> hh" "hh < 100" "0 \<le> mm" "mm < 100"
      "0 \<le> ss" "ss < 100"
    and w: "length w = 3" "list_all (\<lambda>c. \<not> is_space c) w"
  shows "scan_date (fmt_0d 2 d @ '' '' @ w @ '' '' @ fmt_0d 4 y @ '' '' @ fmt_0d 2 hh @ '':'' @
      fmt_0d 2 mm @ '':'' @ fmt_0d 2 ss @ '' GMT'') =
    Some (of_int d, w, of_int y, of_int hh, of_int mm, of_int ss)"
proof -
  have ne: "\<not> is_digit (CHR '' '')" "\<not> is_digit (CHR '':'')"
    by (simp_all add: is_digit_def byte_val_def)
  have s0: "scan_u (fmt_0d k i @ c # r) = Some (of_int i, c # r)"
    if "0 \<le> i" "i < 10000" "\<not> is_digit c" for k i c r
    using scan_u_fmt [of i "c # r" 0 k] that by simp
  have s1: "scan_u (CHR '' '' # fmt_0d k i @ c # r) = Some (of_int i, c # r)"
    if "0 \<le> i" "i < 10000" "\<not> is_digit c" for k i c r
    using scan_u_fmt [of i "c # r" 1 k] that by simp
  show ?thesis
    using r ne by (simp add: scan_date_def s0 s1 scan_3s_word [OF w] scan_lit_def)
qed

definition day_name_ok :: "string \<Rightarrow> bool" where
  "day_name_ok day \<longleftrightarrow> list_all (\<lambda>c. c \<noteq> CHR '','' \<and> \<not> is_blank_nl c) day"

lemma fmt_0d_head_not_blank:
  obtains c cs where "fmt_0d w i = c # cs" "c \<noteq> CHR '' ''"
proof (cases "fmt_0d w i")
  case Nil
  then show ?thesis by (simp add: fmt_0d_def pad0_def)
next
  case (Cons c cs)
  then have "is_digit c" using fmt_0d_digits [of c w i] by simp
  then have "c \<noteq> CHR '' ''" by (auto simp: is_digit_def byte_val_def)
  with Cons that show ?thesis by blast
qed

lemma fixdate_rest:
  assumes "day_name_ok day"
  shows "CHR '','' \<in> set (day @ '', '' @ fmt_0d w i @ r)"
    "dropWhile (\<lambda>c. c = CHR '' '') (tl (dropWhile (\<lambda>c. c \<noteq> CHR '','') (day @ '', '' @ fmt_0d w i @ r)))
       = fmt_0d w i @ r"
proof -
  obtain c cs where f: "fmt_0d w i = c # cs" "c \<noteq> CHR '' ''" by (rule fmt_0d_head_not_blank)
  have "dropWhile (\<lambda>c. c \<noteq> CHR '','') (day @ CHR '','' # t) = CHR '','' # t" for t
    using assms by (induction day) (simp_all add: day_name_ok_def)
  with f show "CHR '','' \<in> set (day @ '', '' @ fmt_0d w i @ r)"
    "dropWhile (\<lambda>c. c = CHR '' '') (tl (dropWhile (\<lambda>c. c \<noteq> CHR '','') (day @ '', '' @ fmt_0d w i @ r)))
       = fmt_0d w i @ r"
    by simp_all
qed

lemma secs_split: "(s::nat) div 86400 * 86400 + s mod 86400 div 3600 * 3600 + s mod 3600 div 60 * 60 + s mod 60 = s"
proof -
  have "s mod 86400 mod 3600 = s mod 3600" "s mod 3600 mod 60 = s mod 60" by (simp_all add: mod_mod_cancel)
  moreover have "s div 86400 * 86400 + s mod 86400 = s"
    "s mod 86400 div 3600 * 3600 + s mod 86400 mod 3600 = s mod 86400"
    "s mod 3600 div 60 * 60 + s mod 3600 mod 60 = s mod 3600" by (rule div_mult_mod_eq)+
  ultimately show ?thesis by linarith
qed

lemma retry_after_scanned:
  assumes scan: "scan_date r = Some (of_int d, w, of_int y, of_int hh, of_int mm, of_int ss)"
    and rest: "CHR '','' \<in> set v" "dropWhile (\<lambda>c. c = CHR '' '') (tl (dropWhile (\<lambda>c. c \<noteq> CHR '','') v)) = r"
    and b: "0 \<le> y" "y < 10000" "0 \<le> hh" "hh < 24" "0 \<le> mm" "mm < 60" "0 \<le> ss" "ss < 60"
    and m: "month_num w = nat m" "1 \<le> m"
    and days: "days_from_civil y (of_int m) (of_int d) = days"
  shows "retry_after_date v now =
     (let delta = max 0 (days * 86400 + hh * 3600 + mm * 60 + ss - uint (now div 1000000000)) in
      if 86400 < delta then 86400000 else delta * 1000)"
proof -
  have words: "uint (of_int y :: u32) = y" "uint (of_int hh :: u32) = hh"
    "uint (of_int mm :: u32) = mm" "uint (of_int ss :: u32) = ss"
    using b by (auto intro!: uint_of_int_u32)
  then have lims: "\<not> 23 < (of_int hh :: u32)" "\<not> 59 < (of_int mm :: u32)" "\<not> 60 < (of_int ss :: u32)"
    using b by (auto simp: word_less_def)
  have mw: "(of_nat (nat m) :: u32) = of_int m" "nat m \<noteq> 0" using m(2) by auto
  show ?thesis
    unfolding retry_after_date_def Let_def rest(2) scan option.case prod.case m(1) mw words days
    using rest lims mw(2) by (simp add: rest(2) scan max_backoff m(1) mw words days max_def)
qed

lemma fixdate_epoch:
  assumes day: "day_name_ok day" and range: "secs div 86400 < 2786860"
  shows "retry_after_date (imf_fixdate day secs) now =
     (let delta = max 0 (int secs - uint (now div 1000000000)) in
      if 86400 < delta then 86400000 else delta * 1000)"
proof -
  obtain y m d where c: "civil_of_days (int (secs div 86400)) = (y, m, d)"
    by (cases "civil_of_days (int (secs div 86400))") auto
  have b: "1600 \<le> y" "y \<le> 9600" "1 \<le> m" "m \<le> 12" "1 \<le> d" "d \<le> 31"
    using civil_ranges [OF c] range by simp_all
  define hh mm ss where hms: "hh = int (secs mod 86400 div 3600)" "mm = int (secs mod 3600 div 60)"
    "ss = int (secs mod 60)"
  have lt: "0 \<le> hh" "hh < 24" "0 \<le> mm" "mm < 60" "0 \<le> ss" "ss < 60"
    by (simp_all add: hms less_mult_imp_div_less)
  define w where "w = month_names ! (nat m - 1)"
  have w: "month_num w = nat m" "length w = 3" "list_all (\<lambda>c. \<not> is_space c) w"
    using month_num_names [of "nat m"] b by (auto simp: w_def)
  have epoch: "int (secs div 86400) * 86400 + hh * 3600 + mm * 60 + ss = int secs"
    using arg_cong [OF secs_split [of secs], of int] by (simp add: hms)
  have form: "imf_fixdate day secs = day @ '', '' @ fmt_0d 2 d @ '' '' @ w @ '' '' @ fmt_0d 4 y @ '' '' @
      fmt_0d 2 hh @ '':'' @ fmt_0d 2 mm @ '':'' @ fmt_0d 2 ss @ '' GMT''"
    using b by (simp add: imf_fixdate_def Let_def gmtime_fields [OF c] nat_diff_distrib w_def hms)
  note rest = fixdate_rest [OF day, of 2 d "'' '' @ w @ '' '' @ fmt_0d 4 y @ '' '' @
      fmt_0d 2 hh @ '':'' @ fmt_0d 2 mm @ '':'' @ fmt_0d 2 ss @ '' GMT''", folded form]
  have scan: "scan_date (fmt_0d 2 d @ '' '' @ w @ '' '' @ fmt_0d 4 y @ '' '' @ fmt_0d 2 hh @ '':'' @
      fmt_0d 2 mm @ '':'' @ fmt_0d 2 ss @ '' GMT'') =
    Some (of_int d, w, of_int y, of_int hh, of_int mm, of_int ss)"
    using b lt w by (intro scan_date_fields) auto
  have "days_from_civil y (of_int m) (of_int d) = int (secs div 86400)"
    using days_from_civil_of_days [OF c] by simp
  from retry_after_scanned [OF scan rest _ _ lt w(1) _ this] b show ?thesis by (simp add: epoch)
qed

section \<open>Facts: the parser's range\<close>

lemma delay_range:
  assumes "PH_RL_MAX_BACKOFF_MS div 1000 < delta \<or> 0 \<le> delta"
  shows "(if PH_RL_MAX_BACKOFF_MS div 1000 < delta then PH_RL_MAX_BACKOFF_MS else delta * 1000) \<in> {0..86400000}"
  using assms by (auto simp: max_backoff)

lemma retry_after_date_range: "retry_after_date v now \<in> {- 1} \<union> {0..86400000}"
  unfolding retry_after_date_def Let_def
  by (auto split: option.split simp: max_backoff)

lemma parse_retry_after_range: "ph_ratelimit_parse_retry_after v now \<in> {- 1} \<union> {0..86400000}"
  using retry_after_date_range
  by (auto simp: ph_ratelimit_parse_retry_after_def Let_def max_backoff strtol_digits_def split: option.split)

lemma digits_not_blank: "is_digit c \<Longrightarrow> \<not> is_blank_nl c"
  by (auto simp: is_digit_def is_blank_nl_def byte_val_def)

lemma parse_seconds:
  assumes "list_all is_digit ds" "ds \<noteq> []"
  shows "ph_ratelimit_parse_retry_after (Some ds) now = min 86400000 (int (dec_value 0 ds) * 1000)"
proof -
  obtain c cs where c: "ds = c # cs" "is_digit c" using assms by (cases ds) auto
  have dw: "dropWhile (\<lambda>c. c = CHR '' '' \<or> c = CHR 0x09) ds = ds"
    using digits_not_blank [OF c(2)] c(1) by (simp add: is_blank_nl_def)
  have tw: "takeWhile (\<lambda>c. \<not> is_blank_nl c) ds = ds"
    using assms(1) digits_not_blank by (simp add: list_all_iff takeWhile_eq_all_conv)
  have td: "takeWhile is_digit ds = ds" using assms(1) by (simp add: list_all_iff takeWhile_eq_all_conv)
  show ?thesis
    unfolding ph_ratelimit_parse_retry_after_def option.case Let_def dw tw td strtol_digits_def max_backoff
    using assms by (simp add: min_def)
qed

lemma parse_fixdate_value:
  assumes "day_name_ok day"
  shows "ph_ratelimit_parse_retry_after (Some (imf_fixdate day secs)) now = retry_after_date (imf_fixdate day secs) now"
proof -
  obtain r where r: "imf_fixdate day secs = day @ CHR '','' # CHR '' '' # r" by (simp add: imf_fixdate_def Let_def)
  have nb: "dropWhile (\<lambda>c. c = CHR '' '' \<or> c = CHR 0x09) (day @ CHR '','' # x) = day @ CHR '','' # x" for x
    using assms by (cases day) (auto simp: day_name_ok_def is_blank_nl_def)
  have tk: "takeWhile (\<lambda>c. \<not> is_blank_nl c) (day @ CHR '','' # CHR '' '' # x) = day @ '',''" for x
    using assms by (induction day) (auto simp: day_name_ok_def is_blank_nl_def)
  have "\<not> list_all is_digit (day @ '','')" by (simp add: is_digit_def byte_val_def)
  then show ?thesis
    unfolding r by (simp add: ph_ratelimit_parse_retry_after_def Let_def nb tk del: list_all_append)
qed

section \<open>Properties\<close>

text \<open>
  Whatever a server sends as \<open>Retry-After\<close>, the parsed delay is -1 or between zero and the
  24-hour ceiling, and a value of decimal digits is exactly that many seconds, cut at the
  ceiling, however many digits it has.
\<close>

theorem retry_after_seconds:
  "ph_ratelimit_parse_retry_after v now \<in> {- 1} \<union> {0..86400000} \<and>
   ph_ratelimit_parse_retry_after (Some (nat_dec n)) now = min 86400000 (int n * 1000)"
  using parse_retry_after_range [of v now] parse_seconds [of "nat_dec n" now] nat_dec_digits [of _ n]
  by (simp add: list_all_iff)

text \<open>
  An HTTP-date is read as the instant it denotes: the delay is the number of seconds from now
  to that instant, zero when it has passed, cut at the ceiling. The calendar conversion of the
  code inverts the calendar used to print the date.
\<close>

theorem retry_after_http_date:
  assumes "day_name_ok day" "secs div 86400 < 2786860"
  shows "ph_ratelimit_parse_retry_after (Some (imf_fixdate day secs)) now =
           min 86400000 (1000 * int (secs - unat (now div 1000000000)))"
proof -
  have "int (a - b) = max 0 (int a - int b)" for a b :: nat by (simp add: max_def)
  from this [of secs "unat (now div 1000000000)"]
  have "int (secs - unat (now div 1000000000)) = max 0 (int secs - uint (now div 1000000000))" by simp
  then show ?thesis
    using fixdate_epoch [OF assms, of now] parse_fixdate_value [OF assms(1), of secs now]
    by (simp add: Let_def min_def max_def)
qed

theorem retry_after_http_date_witness:
  "imf_fixdate ''Sun'' 784111777 = ''Sun, 06 Nov 1994 08:49:37 GMT'' \<and>
   ph_ratelimit_parse_retry_after (Some (imf_fixdate ''Sun'' 784111777)) 784111717000000000 = 60000"
proof
  have "gmtime 784111777 = \<lparr>tm_year = 94, tm_mon = 10, tm_mday = 6, tm_hour = 8, tm_min = 49, tm_sec = 37\<rparr>"
  proof -
    have "civil_of_days 9075 = (1994, 11, 6)" by code_simp
    then show ?thesis by (simp add: gmtime_def)
  qed
  then show "imf_fixdate ''Sun'' 784111777 = ''Sun, 06 Nov 1994 08:49:37 GMT''"
    by (simp add: imf_fixdate_def fmt_0d_def pad0_def nat_dec.simps month_names_def dec_digit_literals)
  have "day_name_ok ''Sun''" "(784111777::nat) div 86400 < 2786860"
    by (simp_all add: day_name_ok_def is_blank_nl_def)
  from retry_after_http_date [OF this, of 784111717000000000]
  show "ph_ratelimit_parse_retry_after (Some (imf_fixdate ''Sun'' 784111777)) 784111717000000000 = 60000"
    by simp
qed

text \<open>
  C27. A 429, or a 503 with a usable \<open>Retry-After\<close>, holds sending for at least the requested window
  (a minute when none is given) and at most the ceiling; every other response leaves the
  limiter as it was. The monotonic clock is assumed to be a day away from its wrap-around.
\<close>

theorem note_response_holds:
  assumes "unat now + 86400000000000 < 2 ^ 64"
    and "ra = ph_ratelimit_parse_retry_after h wall"
    and "ph_ratelimit_note_response rl status h now wall = (rl', engaged)"
  shows "if status = 429 \<or> status = 503 \<and> 0 \<le> ra
         then engaged \<and>
              (\<exists>ms. (if 0 \<le> ra then nat ra else 60000) \<le> ms \<and> ms \<le> 86400000 \<and>
                 (\<forall>t. ph_ratelimit_blocked rl' t \<longleftrightarrow> unat t < unat now + ms * 1000000))
         else rl' = rl \<and> engaged = ph_ratelimit_blocked rl now"
proof -
  have arm: "\<exists>ms. unat w \<le> ms \<and> ms \<le> 86400000 \<and>
      (\<forall>t. ph_ratelimit_blocked (ph_ratelimit_arm rl w now) t \<longleftrightarrow> unat t < unat now + ms * 1000000)"
    if "unat w \<le> 86400000" for w
    using unat_arm [OF that, of now rl] assms(1) that
    by (intro exI [of _ "min 86400000 (unat w + unat now mod (unat w div 8 + 1))"])
      (simp add: ph_ratelimit_blocked_def word_less_nat_alt)
  have ra: "ra \<in> {- 1} \<union> {0..86400000}" using parse_retry_after_range assms(2) by simp
  then have w: "unat (of_int ra :: u64) = nat ra" if "0 \<le> ra"
    using that by (auto simp: unat_eq_nat_uint uint_word_of_int)
  show ?thesis
    using assms(2,3) ra arm [of "of_int ra"] arm [of PH_RL_DEFAULT_BACKOFF_MS] w
    by (auto simp: ph_ratelimit_note_response_def PH_RL_DEFAULT_BACKOFF_MS_def Let_def split: if_splits)
qed

theorem note_response_holds_witness:
  "\<exists>rl'. ph_ratelimit_note_response ph_ratelimit_init 429 (Some ''120'') 1000 5 = (rl', True) \<and>
     ph_ratelimit_blocked rl' 120000000999"
proof -
  have p: "ph_ratelimit_parse_retry_after (Some ''120'') 5 = 120000"
    using parse_seconds [of "''120''" 5] by (simp add: is_digit_def digit_val_def byte_val_def)
  obtain rl' e where n: "ph_ratelimit_note_response ph_ratelimit_init 429 (Some ''120'') 1000 5 = (rl', e)"
    by (cases "ph_ratelimit_note_response ph_ratelimit_init 429 (Some ''120'') 1000 5") auto
  from note_response_holds [OF _ refl n] obtain ms where "e" "120000 \<le> ms"
    "\<And>t. ph_ratelimit_blocked rl' t \<longleftrightarrow> unat t < unat (1000 :: u64) + ms * 1000000"
    unfolding p by auto
  with n show ?thesis by simp
qed

text \<open>The number in the \<open>n\<close> characters at offset \<open>a\<close>.\<close>

definition field_at :: "string \<Rightarrow> nat \<Rightarrow> nat \<Rightarrow> nat" where
  "field_at s a n = dec_value 0 (take n (drop a s))"

lemma iso8601_fields:
  fixes w :: u64
  defines "secs \<equiv> unat w div 1000000000"
  assumes c: "civil_of_days (int (secs div 86400)) = (y, m, d)"
  shows "length (iso8601_text w) = 24" "field_at (iso8601_text w) 0 4 = nat y"
    "field_at (iso8601_text w) 5 2 = nat m" "field_at (iso8601_text w) 8 2 = nat d"
    "field_at (iso8601_text w) 11 2 = secs mod 86400 div 3600"
    "field_at (iso8601_text w) 14 2 = secs mod 3600 div 60" "field_at (iso8601_text w) 17 2 = secs mod 60"
    "field_at (iso8601_text w) 20 3 = unat w div 1000000 mod 1000"
proof -
  have "secs div 86400 < 213504" using u64_less [of w] by (simp add: secs_def div_mult2_eq [symmetric] less_mult_imp_div_less)
  then have b: "1600 \<le> y" "y \<le> 9600" "1 \<le> m" "m \<le> 12" "1 \<le> d" "d \<le> 31"
    using civil_ranges [OF c] by simp_all
  have len: "length (fmt_0d 4 y) = 4" "length (fmt_0d 2 m) = 2" "length (fmt_0d 2 d) = 2"
    "length (fmt_0d 2 (int (secs mod 86400 div 3600))) = 2" "length (fmt_0d 2 (int (secs mod 3600 div 60))) = 2"
    "length (fmt_0d 2 (int (secs mod 60))) = 2" "length (fmt_0d 3 (int (unat w div 1000000 mod 1000))) = 3"
    using b by (auto intro!: length_fmt_0d simp: less_mult_imp_div_less) 
  note t = iso8601_parts [of w, folded secs_def, OF c]
  show "length (iso8601_text w) = 24" unfolding t using len by simp
  show "field_at (iso8601_text w) 0 4 = nat y" "field_at (iso8601_text w) 5 2 = nat m"
    "field_at (iso8601_text w) 8 2 = nat d" "field_at (iso8601_text w) 11 2 = secs mod 86400 div 3600"
    "field_at (iso8601_text w) 14 2 = secs mod 3600 div 60" "field_at (iso8601_text w) 17 2 = secs mod 60"
    "field_at (iso8601_text w) 20 3 = unat w div 1000000 mod 1000"
    unfolding t field_at_def using len by (simp_all add: drop_Cons')
qed

text \<open>
  C26. An event timestamp of any 64-bit clock value is 24 characters and denotes the instant it
  was made from: its date and time fields, converted with the calendar routine, give back the
  number of milliseconds since the epoch.
\<close>

theorem iso8601_denotes:
  "length (iso8601_text w) = 24 \<and>
   (let f = field_at (iso8601_text w) in
    (days_from_civil (int (f 0 4)) (of_nat (f 5 2)) (of_nat (f 8 2)) * 86400 +
       int (f 11 2) * 3600 + int (f 14 2) * 60 + int (f 17 2)) * 1000 + int (f 20 3)
    = int (unat w div 1000000))"
proof -
  define secs where "secs = unat w div 1000000000"
  obtain y m d where c: "civil_of_days (int (secs div 86400)) = (y, m, d)"
    by (cases "civil_of_days (int (secs div 86400))") auto
  note f = iso8601_fields [of w, folded secs_def, OF c]
  have "secs div 86400 < 213504" using u64_less [of w] by (simp add: secs_def div_mult2_eq [symmetric] less_mult_imp_div_less)
  then have b: "1600 \<le> y" "1 \<le> m" "1 \<le> d" using civil_ranges [OF c] by simp_all
  have days: "days_from_civil y (of_int m) (of_int d) = int (secs div 86400)"
    using days_from_civil_of_days [OF c] by simp
  have ms: "secs * 1000 + unat w div 1000000 mod 1000 = unat w div 1000000"
    using div_mult_mod_eq [of "unat w div 1000000" 1000] by (simp add: secs_def div_mult2_eq [symmetric])
  have "(int (secs div 86400) * 86400 + int (secs mod 86400 div 3600) * 3600 + int (secs mod 3600 div 60) * 60 +
      int (secs mod 60)) * 1000 + int (unat w div 1000000 mod 1000) = int (unat w div 1000000)"
    using arg_cong [OF ms, of int] arg_cong [OF secs_split [of secs], of int] by simp
  with f b days show ?thesis by (simp add: Let_def)
qed

end
