(* ===== verification/Ph_Props.thy ===== *)
theory Ph_Props
  imports Prelude Libc
begin

text \<open>
  Property sets: the public \<open>ph_prop\<close>/\<open>ph_props\<close> structures and setters, the packed blob
  format of \<^verbatim>\<open>src/ph_props.c\<close> with its one reader, and the shared helpers of
  \<^verbatim>\<open>src/ph_util.c\<close>. \<open>ph_props.count\<close> is the length of the item list (slots beyond \<open>count\<close>
  are dead storage). The packed stream is a byte list; the pair of a cursor and an end
  pointer is the list of the bytes between them.
\<close>

section \<open>Data\<close>

text \<open>
  The tagged union of \<open>ph_prop\<close>. Doubles and 64-bit integers are carried as their bit
  patterns. \<open>PH_T_OTHER\<close> is a tag byte outside 0..3, which a caller can write into the
  public structure and which every switch of the code sends to its \<open>default\<close> branch.
\<close>

datatype ph_val =
    PH_T_STR string
  | PH_T_DOUBLE u64
  | PH_T_INT u64
  | PH_T_BOOL int
  | PH_T_OTHER nat

record ph_prop =
  prop_key :: string
  prop_val :: ph_val

record ph_props =
  p_items :: "ph_prop list"
  p_dropped :: int

definition PH_PK_GROUP :: nat where "PH_PK_GROUP = 4"
definition PH_PK_RAWJSON :: nat where "PH_PK_RAWJSON = 5"

section \<open>The public builder\<close>

definition copy_capped :: "nat \<Rightarrow> string option \<Rightarrow> string \<times> bool" where
  "copy_capped n src =
     (if n = 0 then ([], True)
      else let s = (case src of None \<Rightarrow> [] | Some s \<Rightarrow> s)
           in (take (n - 1) s, n - 1 < length s))"

definition ph_props_init :: ph_props where
  "ph_props_init = \<lparr>p_items = [], p_dropped = 0\<rparr>"

definition next_slot :: "ph_props \<Rightarrow> ph_props \<times> bool" where
  "next_slot p =
     (if PH_MAX_PROPS \<le> length (p_items p) then (p\<lparr>p_dropped := p_dropped p + 1\<rparr>, False)
      else (p, True))"

text \<open>
  The body the four setters share: reject a NULL or empty key, take a slot, copy the key,
  store the value. \<open>vtrunc\<close> says whether copying the value truncated it.
\<close>

definition props_set :: "ph_props \<Rightarrow> string option \<Rightarrow> ph_val \<Rightarrow> bool \<Rightarrow> ph_props \<times> ph_result" where
  "props_set p k v vtrunc =
     (if k = None \<or> k = Some [] then (p\<lparr>p_dropped := p_dropped p + 1\<rparr>, PH_ERR_BADARG)
      else let (p', room) = next_slot p in
           if \<not> room then (p', PH_ERR_FULL)
           else let (k', ktrunc) = copy_capped PH_KEY_CAP k in
                (p'\<lparr>p_items := p_items p' @ [\<lparr>prop_key = k', prop_val = v\<rparr>]\<rparr>,
                 if ktrunc \<or> vtrunc then PH_ERR_TRUNCATED else PH_OK))"

definition ph_props_set_str ::
  "ph_props option \<Rightarrow> string option \<Rightarrow> string option \<Rightarrow> ph_props option \<times> ph_result" where
  "ph_props_set_str p k v =
     (case p of None \<Rightarrow> (None, PH_ERR_BADARG)
      | Some p \<Rightarrow> let (v', vtrunc) = copy_capped PH_VAL_CAP v in
          map_prod Some id (props_set p k (PH_T_STR v') vtrunc))"

definition ph_props_set_double ::
  "ph_props option \<Rightarrow> string option \<Rightarrow> u64 \<Rightarrow> ph_props option \<times> ph_result" where
  "ph_props_set_double p k d =
     (case p of None \<Rightarrow> (None, PH_ERR_BADARG)
      | Some p \<Rightarrow> map_prod Some id (props_set p k (PH_T_DOUBLE d) False))"

definition ph_props_set_int ::
  "ph_props option \<Rightarrow> string option \<Rightarrow> u64 \<Rightarrow> ph_props option \<times> ph_result" where
  "ph_props_set_int p k i =
     (case p of None \<Rightarrow> (None, PH_ERR_BADARG)
      | Some p \<Rightarrow> map_prod Some id (props_set p k (PH_T_INT i) False))"

definition ph_props_set_bool ::
  "ph_props option \<Rightarrow> string option \<Rightarrow> int \<Rightarrow> ph_props option \<times> ph_result" where
  "ph_props_set_bool p k b =
     (case p of None \<Rightarrow> (None, PH_ERR_BADARG)
      | Some p \<Rightarrow> map_prod Some id (props_set p k (PH_T_BOOL (if b \<noteq> 0 then 1 else 0)) False))"

text \<open>The setters as the SDK itself calls them, on a set it owns, ignoring the result.\<close>

definition props_put_str :: "ph_props \<Rightarrow> string \<Rightarrow> string \<Rightarrow> ph_props" where
  "props_put_str p k v = the (fst (ph_props_set_str (Some p) (Some k) (Some v)))"

definition props_put_bool :: "ph_props \<Rightarrow> string \<Rightarrow> int \<Rightarrow> ph_props" where
  "props_put_bool p k b = the (fst (ph_props_set_bool (Some p) (Some k) b))"

section \<open>Shared helpers\<close>

text \<open>The new content of \<open>dst\<close>; a zero capacity leaves it unchanged.\<close>

definition ph_copy_capped :: "string \<Rightarrow> nat \<Rightarrow> string option \<Rightarrow> string" where
  "ph_copy_capped dst n src =
     (if n = 0 then dst else case src of None \<Rightarrow> [] | Some s \<Rightarrow> take (n - 1) s)"

definition ph_copy_prop_value :: "ph_props \<Rightarrow> ph_prop \<Rightarrow> ph_props" where
  "ph_copy_prop_value dst src =
     (case prop_val src of
        PH_T_STR s \<Rightarrow> the (fst (ph_props_set_str (Some dst) (Some (prop_key src)) (Some s)))
      | PH_T_DOUBLE d \<Rightarrow> the (fst (ph_props_set_double (Some dst) (Some (prop_key src)) d))
      | PH_T_INT i \<Rightarrow> the (fst (ph_props_set_int (Some dst) (Some (prop_key src)) i))
      | PH_T_BOOL b \<Rightarrow> the (fst (ph_props_set_bool (Some dst) (Some (prop_key src)) b))
      | PH_T_OTHER t \<Rightarrow> dst)"

definition props_has_key :: "ph_props option \<Rightarrow> string \<Rightarrow> bool" where
  "props_has_key p k =
     (case p of None \<Rightarrow> False
      | Some p \<Rightarrow> \<exists>it \<in> set (take PH_MAX_PROPS (p_items p)). prop_key it = k)"

fun merge_super :: "ph_props option \<Rightarrow> ph_props \<Rightarrow> ph_prop list \<Rightarrow> ph_props" where
  "merge_super ex out [] = out"
| "merge_super ex out (it # its) =
     (if length (p_items out) < PH_MAX_PROPS
      then merge_super ex
             (if props_has_key ex (prop_key it) then out else ph_copy_prop_value out it) its
      else out)"

definition ph_props_merge :: "ph_props option \<Rightarrow> ph_props option \<Rightarrow> ph_props" where
  "ph_props_merge ex su =
     (let out = (case ex of None \<Rightarrow> ph_props_init
                 | Some p \<Rightarrow> foldl ph_copy_prop_value ph_props_init (take PH_MAX_PROPS (p_items p)))
      in case su of None \<Rightarrow> out
         | Some p \<Rightarrow> merge_super ex out (take PH_MAX_PROPS (p_items p)))"

definition ph_props_remove_key :: "ph_props \<Rightarrow> string \<Rightarrow> ph_props" where
  "ph_props_remove_key p k = p\<lparr>p_items := filter (\<lambda>it. prop_key it \<noteq> k) (p_items p)\<rparr>"

fun find_str_from_end :: "string \<Rightarrow> ph_prop list \<Rightarrow> string option" where
  "find_str_from_end k [] = None"
| "find_str_from_end k (it # rest) =
     (case prop_val it of
        PH_T_STR s \<Rightarrow> if prop_key it = k then Some s else find_str_from_end k rest
      | _ \<Rightarrow> find_str_from_end k rest)"

definition ph_props_find_last_str :: "ph_props \<Rightarrow> string \<Rightarrow> string option" where
  "ph_props_find_last_str p k = find_str_from_end k (rev (p_items p))"

definition ph_denylist_has :: "string list \<Rightarrow> string \<Rightarrow> bool" where
  "ph_denylist_has deny k \<longleftrightarrow> k \<in> set deny"

definition ph_apply_denylist :: "ph_props \<Rightarrow> string list \<Rightarrow> ph_props" where
  "ph_apply_denylist p deny = foldl ph_props_remove_key p deny"

section \<open>The packed blob\<close>

text \<open>The bytes of one entry, or none when it does not fit (the code returns 0).\<close>

definition pack_one :: "nat \<Rightarrow> nat \<Rightarrow> string \<Rightarrow> bytes \<Rightarrow> bytes" where
  "pack_one n ty k v =
     (if 255 < length k \<or> 0xFFFF < length v \<or> n < 4 + length k + length v then []
      else [byte_of ty, byte_of (length k), byte_of (length v mod 256), byte_of (length v div 256)]
           @ k @ v)"

definition ph_pack_str_entry :: "nat \<Rightarrow> nat \<Rightarrow> string option \<Rightarrow> string option \<Rightarrow> bytes" where
  "ph_pack_str_entry n ty k v =
     (case k of None \<Rightarrow> []
      | Some k \<Rightarrow> pack_one n ty k (case v of None \<Rightarrow> [] | Some v \<Rightarrow> v))"

definition pack_prop :: "nat \<Rightarrow> ph_prop \<Rightarrow> bytes" where
  "pack_prop n it =
     (case prop_val it of
        PH_T_STR s \<Rightarrow> pack_one n 0 (prop_key it) s
      | PH_T_DOUBLE d \<Rightarrow> pack_one n 1 (prop_key it) (le_bytes 8 (unat d))
      | PH_T_INT i \<Rightarrow> pack_one n 2 (prop_key it) (le_bytes 8 (unat i))
      | PH_T_BOOL b \<Rightarrow> pack_one n 3 (prop_key it) [byte_of (if b \<noteq> 0 then 1 else 0)]
      | PH_T_OTHER t \<Rightarrow> [])"

fun pack_items :: "nat \<Rightarrow> ph_prop list \<Rightarrow> bytes" where
  "pack_items n [] = []"
| "pack_items n (it # its) =
     (let e = pack_prop n it in e @ pack_items (n - length e) its)"

definition ph_pack_props :: "ph_props option \<Rightarrow> nat \<Rightarrow> bytes" where
  "ph_pack_props p n = (case p of None \<Rightarrow> [] | Some p \<Rightarrow> pack_items n (p_items p))"

text \<open>One entry off the front: its type, key and value bytes and the remaining bytes.\<close>

definition ph_blob_next :: "bytes \<Rightarrow> (nat \<times> bytes \<times> bytes \<times> bytes) option" where
  "ph_blob_next b =
     (if length b < 4 then None
      else let kl = byte_val (b ! 1);
               vl = byte_val (b ! 2) + 256 * byte_val (b ! 3)
           in if length b < 4 + kl + vl then None
              else Some (byte_val (b ! 0), take kl (drop 4 b), take vl (drop (4 + kl) b),
                         drop (4 + kl + vl) b))"

lemma ph_blob_next_shorter [termination_simp]:
  "ph_blob_next b = Some (t, k, v, r) \<Longrightarrow> length r < length b"
  by (auto simp: ph_blob_next_def Let_def split: if_splits)

definition unpack_value :: "nat \<Rightarrow> bytes \<Rightarrow> ph_val option" where
  "unpack_value ty v =
     (if ty = 0 then Some (PH_T_STR (cstr_view (take (PH_VAL_CAP - 1) v)))
      else if ty = 1 then Some (PH_T_DOUBLE (if length v = 8 then of_nat (le_val v) else 0))
      else if ty = 2 then Some (PH_T_INT (if length v = 8 then of_nat (le_val v) else 0))
      else if ty = 3 then
        Some (PH_T_BOOL (if 1 \<le> length v \<and> v ! 0 \<noteq> NUL then 1 else 0))
      else None)"

fun unpack_loop :: "ph_prop list \<Rightarrow> bytes \<Rightarrow> ph_prop list" where
  "unpack_loop out b =
     (if length out < PH_MAX_PROPS then
        (case ph_blob_next b of
           None \<Rightarrow> out
         | Some (ty, k, v, r) \<Rightarrow>
             if ty = PH_PK_GROUP then unpack_loop out r
             else (case unpack_value ty v of
                     None \<Rightarrow> unpack_loop out r
                   | Some pv \<Rightarrow>
                       unpack_loop
                         (out @ [\<lparr>prop_key = cstr_view (take (PH_KEY_CAP - 1) k), prop_val = pv\<rparr>]) r))
      else out)"

declare unpack_loop.simps [simp del]

definition ph_unpack_props :: "bytes \<Rightarrow> ph_props" where
  "ph_unpack_props b = \<lparr>p_items = unpack_loop [] b, p_dropped = 0\<rparr>"

text \<open>All entries of a blob, as every loop over \<open>ph_blob_next\<close> sees them.\<close>

fun blob_entries :: "bytes \<Rightarrow> (nat \<times> bytes \<times> bytes) list" where
  "blob_entries b =
     (case ph_blob_next b of
        None \<Rightarrow> []
      | Some (ty, k, v, r) \<Rightarrow> (ty, k, v) # blob_entries r)"

declare blob_entries.simps [simp del]

section \<open>Well-formed sets\<close>

fun val_wf :: "ph_val \<Rightarrow> bool" where
  "val_wf (PH_T_STR s) = (cstr s \<and> length s < PH_VAL_CAP)"
| "val_wf (PH_T_DOUBLE d) = True"
| "val_wf (PH_T_INT i) = True"
| "val_wf (PH_T_BOOL b) = (b = 0 \<or> b = 1)"
| "val_wf (PH_T_OTHER t) = False"

definition prop_wf :: "ph_prop \<Rightarrow> bool" where
  "prop_wf it \<longleftrightarrow> cstr (prop_key it) \<and> prop_key it \<noteq> [] \<and> length (prop_key it) < PH_KEY_CAP
     \<and> val_wf (prop_val it)"

definition props_wf :: "ph_props \<Rightarrow> bool" where
  "props_wf p \<longleftrightarrow> length (p_items p) \<le> PH_MAX_PROPS \<and> list_all prop_wf (p_items p)"

text \<open>The entry a property packs into, the room it takes, and the properties that fit.\<close>

definition prop_entry :: "ph_prop \<Rightarrow> nat \<times> bytes \<times> bytes" where
  "prop_entry it =
     (case prop_val it of
        PH_T_STR s \<Rightarrow> (0, prop_key it, s)
      | PH_T_DOUBLE d \<Rightarrow> (1, prop_key it, le_bytes 8 (unat d))
      | PH_T_INT i \<Rightarrow> (2, prop_key it, le_bytes 8 (unat i))
      | PH_T_BOOL b \<Rightarrow> (3, prop_key it, [byte_of (if b \<noteq> 0 then 1 else 0)])
      | PH_T_OTHER t \<Rightarrow> (t, prop_key it, []))"

definition entry_size :: "nat \<times> bytes \<times> bytes \<Rightarrow> nat" where
  "entry_size e = (case e of (ty, k, v) \<Rightarrow> 4 + length k + length v)"

definition encode_entry :: "nat \<times> bytes \<times> bytes \<Rightarrow> bytes" where
  "encode_entry e = (case e of (ty, k, v) \<Rightarrow> pack_one (entry_size e) ty k v)"

definition entry_ok :: "nat \<times> bytes \<times> bytes \<Rightarrow> bool" where
  "entry_ok e = (case e of (ty, k, v) \<Rightarrow> ty < 256 \<and> length k \<le> 255 \<and> length v \<le> 0xFFFF)"

fun fit_items :: "nat \<Rightarrow> ph_prop list \<Rightarrow> ph_prop list" where
  "fit_items n [] = []"
| "fit_items n (it # its) =
     (if entry_size (prop_entry it) \<le> n
      then it # fit_items (n - entry_size (prop_entry it)) its
      else fit_items n its)"

section \<open>Facts: packing and reading\<close>

lemma length_pack_one: "length (pack_one n ty k v) \<le> n"
  by (simp add: pack_one_def)

lemma length_pack_prop: "length (pack_prop n it) \<le> n"
  by (simp add: pack_prop_def length_pack_one split: ph_val.split)

lemma length_pack_items: "length (pack_items n its) \<le> n"
proof (induction its arbitrary: n)
  case (Cons it its)
  from Cons [of "n - length (pack_prop n it)"] length_pack_prop [of n it] show ?case
    by (simp add: Let_def)
qed simp

lemma length_ph_pack_props: "length (ph_pack_props p n) \<le> n"
  by (simp add: ph_pack_props_def length_pack_items split: option.split)

lemma length_ph_pack_str_entry: "length (ph_pack_str_entry n ty k v) \<le> n"
  by (simp add: ph_pack_str_entry_def length_pack_one split: option.split)

lemma pack_one_eq_encode:
  "pack_one n ty k v =
     (if entry_size (ty, k, v) \<le> n then encode_entry (ty, k, v) else [])"
  by (auto simp: pack_one_def encode_entry_def entry_size_def)

lemma length_encode_entry: "entry_ok e \<Longrightarrow> length (encode_entry e) = entry_size e"
  by (auto simp: encode_entry_def entry_size_def entry_ok_def pack_one_def split: prod.splits)

lemma blob_next_encode:
  assumes "entry_ok (ty, k, v)"
  shows "ph_blob_next (encode_entry (ty, k, v) @ r) = Some (ty, k, v, r)"
proof -
  have "length v div 256 < 256" using assms by (auto simp: entry_ok_def)
  then show ?thesis
    using assms
    by (auto simp: ph_blob_next_def encode_entry_def entry_size_def entry_ok_def pack_one_def Let_def
        add.assoc)
qed

lemma blob_next_Nil [simp]: "ph_blob_next [] = None"
  by (simp add: ph_blob_next_def)

lemma blob_entries_Nil [simp]: "blob_entries [] = []"
  by (simp add: blob_entries.simps)

lemma blob_entries_encode:
  "entry_ok e \<Longrightarrow> blob_entries (encode_entry e @ r) = e # blob_entries r"
  by (cases e) (subst blob_entries.simps, simp add: blob_next_encode)

lemma blob_entries_concat:
  "list_all entry_ok es \<Longrightarrow>
     blob_entries (concat (map encode_entry es) @ r) = es @ blob_entries r"
  by (induction es) (simp_all add: blob_entries_encode)

lemma prop_entry_ok: "prop_wf it \<Longrightarrow> entry_ok (prop_entry it)"
  by (auto simp: prop_wf_def prop_entry_def entry_ok_def caps split: ph_val.splits)

lemma pack_prop_encode:
  "prop_wf it \<Longrightarrow> pack_prop n it =
     (if entry_size (prop_entry it) \<le> n then encode_entry (prop_entry it) else [])"
  by (auto simp: pack_prop_def prop_entry_def prop_wf_def pack_one_eq_encode split: ph_val.splits)

lemma pack_items_fit:
  "list_all prop_wf its \<Longrightarrow>
     pack_items n its = concat (map (encode_entry \<circ> prop_entry) (fit_items n its))"
  by (induction its arbitrary: n)
    (auto simp: pack_prop_encode Let_def length_encode_entry prop_entry_ok)

lemma fit_items_subseq: "subseq (fit_items n its) its"
  by (induction its arbitrary: n) auto

lemma fit_items_all:
  "sum_list (map (entry_size \<circ> prop_entry) its) \<le> n \<Longrightarrow> fit_items n its = its"
  by (induction its arbitrary: n) auto

lemma fit_items_wf: "list_all prop_wf its \<Longrightarrow> list_all prop_wf (fit_items n its)"
  by (induction its arbitrary: n) auto

lemma length_fit_items: "length (fit_items n its) \<le> length its"
  by (induction its arbitrary: n) (auto simp: le_SucI)

lemma unpack_value_entry:
  "prop_wf it \<Longrightarrow> prop_entry it = (ty, k, v) \<Longrightarrow>
     unpack_value ty v = Some (prop_val it) \<and> k = prop_key it \<and> ty \<le> 3"
  by (auto simp: prop_wf_def prop_entry_def unpack_value_def caps split: ph_val.splits)

lemma prop_eta: "\<lparr>prop_key = prop_key it, prop_val = prop_val it\<rparr> = it"
  by simp

lemma unpack_loop_encoded:
  "list_all prop_wf its \<Longrightarrow> length out + length its \<le> PH_MAX_PROPS \<Longrightarrow>
     unpack_loop out (concat (map (encode_entry \<circ> prop_entry) its) @ r) = unpack_loop (out @ its) r"
proof (induction its arbitrary: out)
  case Nil
  then show ?case by simp
next
  case (Cons it its)
  obtain ty k v where e: "prop_entry it = (ty, k, v)" by (cases "prop_entry it")
  from Cons.prems have wf: "prop_wf it" by simp
  from prop_entry_ok [OF wf] e have "entry_ok (ty, k, v)" by simp
  moreover from wf have "cstr_view (take (PH_KEY_CAP - 1) (prop_key it)) = prop_key it"
    by (simp add: prop_wf_def caps)
  ultimately show ?case
    using Cons unpack_value_entry [OF wf e] e
    by (subst unpack_loop.simps)
      (simp add: blob_next_encode PH_PK_GROUP_def comp_def prop_eta)
qed

lemma unpack_loop_Nil [simp]: "unpack_loop out [] = out"
  by (simp add: unpack_loop.simps)

lemma unpack_pack_items:
  assumes "list_all prop_wf its" "length its \<le> PH_MAX_PROPS"
  shows "unpack_loop [] (pack_items n its) = fit_items n its"
  using unpack_loop_encoded [OF fit_items_wf [OF assms(1)], of "[]" n "[]"] assms
    length_fit_items [of n its]
  by (simp add: pack_items_fit)

section \<open>Facts: setters and merging\<close>

lemma props_init_wf [wf_intros]: "props_wf ph_props_init"
  by (simp add: props_wf_def ph_props_init_def)

lemma props_set_wf:
  "props_wf p \<Longrightarrow> val_wf v \<Longrightarrow> pred_option cstr k \<Longrightarrow> props_wf (fst (props_set p k v tr))"
  by (auto simp: props_set_def props_wf_def next_slot_def copy_capped_def prop_wf_def caps Let_def
      split: option.splits)

lemma copy_prop_value_append:
  assumes "prop_wf it" "length (p_items out) < PH_MAX_PROPS"
  shows "ph_copy_prop_value out it = out\<lparr>p_items := p_items out @ [it]\<rparr>"
  using assms
  by (auto simp: ph_copy_prop_value_def ph_props_set_str_def ph_props_set_double_def
      ph_props_set_int_def ph_props_set_bool_def props_set_def next_slot_def copy_capped_def
      prop_wf_def caps Let_def split: ph_val.splits)

lemma copy_all_append:
  "list_all prop_wf its \<Longrightarrow> length (p_items out) + length its \<le> PH_MAX_PROPS \<Longrightarrow>
     foldl ph_copy_prop_value out its = out\<lparr>p_items := p_items out @ its\<rparr>"
  by (induction its arbitrary: out) (simp_all add: copy_prop_value_append)

lemma merge_super_take:
  "list_all prop_wf its \<Longrightarrow> length (p_items out) \<le> PH_MAX_PROPS \<Longrightarrow>
     merge_super ex out its =
       out\<lparr>p_items := take PH_MAX_PROPS
             (p_items out @ filter (\<lambda>it. \<not> props_has_key ex (prop_key it)) its)\<rparr>"
proof (induction its arbitrary: out)
  case Nil
  then show ?case by simp
next
  case (Cons it its)
  then show ?case
    by (cases "length (p_items out) < PH_MAX_PROPS")
      (simp_all add: copy_prop_value_append take_Cons')
qed

lemma merge_items:
  assumes "props_wf e" "props_wf s"
  shows "p_items (ph_props_merge (Some e) (Some s)) =
           take PH_MAX_PROPS
             (p_items e @ filter (\<lambda>it. prop_key it \<notin> prop_key ` set (p_items e)) (p_items s))"
proof -
  have "foldl ph_copy_prop_value ph_props_init (p_items e) = ph_props_init\<lparr>p_items := p_items e\<rparr>"
    using assms by (simp add: copy_all_append props_wf_def ph_props_init_def)
  then show ?thesis
    using assms
    by (auto simp: ph_props_merge_def merge_super_take props_wf_def props_has_key_def image_iff
        intro!: arg_cong [where f = "take _"] filter_cong)
qed

lemma remove_key_items [simp]:
  "p_items (ph_props_remove_key p k) = filter (\<lambda>it. prop_key it \<noteq> k) (p_items p)"
  by (simp add: ph_props_remove_key_def)

lemma apply_denylist_items:
  "p_items (ph_apply_denylist p deny) = filter (\<lambda>it. prop_key it \<notin> set deny) (p_items p)"
  by (induction deny arbitrary: p) (auto simp: ph_apply_denylist_def intro: filter_cong)

lemma apply_denylist_wf [wf_intros]: "props_wf p \<Longrightarrow> props_wf (ph_apply_denylist p deny)"
  by (auto simp: props_wf_def apply_denylist_items list_all_iff intro: le_trans [OF length_filter_le])

section \<open>Properties\<close>

text \<open>
  C25. Packing a property set into a blob of \<open>n\<close> bytes never writes more than \<open>n\<close> bytes, and
  reading the blob back gives exactly the properties that fit, in order, each one whole:
  an entry that would overflow is dropped, never truncated. When the set fits, the round
  trip is the identity.
\<close>

theorem props_pack_unpack:
  assumes "props_wf p"
  shows "length (ph_pack_props (Some p) n) \<le> n \<and>
         p_items (ph_unpack_props (ph_pack_props (Some p) n)) = fit_items n (p_items p) \<and>
         subseq (fit_items n (p_items p)) (p_items p) \<and>
         (sum_list (map (entry_size \<circ> prop_entry) (p_items p)) \<le> n \<longrightarrow>
            p_items (ph_unpack_props (ph_pack_props (Some p) n)) = p_items p)"
  using assms fit_items_all [of "p_items p" n]
  by (auto simp: props_wf_def ph_unpack_props_def ph_pack_props_def unpack_pack_items
      length_pack_items fit_items_subseq)

definition sample_props :: ph_props where
  "sample_props = \<lparr>p_items = [\<lparr>prop_key = ''combo'', prop_val = PH_T_INT 17\<rparr>,
                              \<lparr>prop_key = ''weapon'', prop_val = PH_T_STR ''railgun''\<rparr>],
                   p_dropped = 0\<rparr>"

theorem props_pack_unpack_witness:
  "props_wf sample_props \<and>
   p_items (ph_unpack_props (ph_pack_props (Some sample_props) 64)) = p_items sample_props"
proof -
  have wf: "props_wf sample_props"
    by (simp add: sample_props_def props_wf_def prop_wf_def caps)
  have "sum_list (map (entry_size \<circ> prop_entry) (p_items sample_props)) \<le> 64"
    by (simp add: sample_props_def entry_size_def prop_entry_def)
  with wf props_pack_unpack [OF wf, of 64] show ?thesis by blast
qed

text \<open>
  Merging explicit event properties with super properties keeps every explicit one,
  adds exactly the super properties whose key no explicit property uses, explicit first, and
  cuts the result at the public cap.
\<close>

theorem props_merge_explicit_wins:
  assumes "props_wf e" "props_wf s"
  shows "p_items (ph_props_merge (Some e) (Some s)) =
           take PH_MAX_PROPS
             (p_items e @ filter (\<lambda>it. prop_key it \<notin> prop_key ` set (p_items e)) (p_items s)) \<and>
         prefix (p_items e) (p_items (ph_props_merge (Some e) (Some s)))"
  using assms merge_items [OF assms] by (simp add: props_wf_def)

theorem props_merge_explicit_wins_witness:
  "\<exists>s. props_wf sample_props \<and> props_wf s \<and>
     p_items (ph_props_merge (Some sample_props) (Some s)) =
       p_items sample_props @ [\<lparr>prop_key = ''level'', prop_val = PH_T_BOOL 1\<rparr>]"
proof -
  let ?s = "\<lparr>p_items = [\<lparr>prop_key = ''combo'', prop_val = PH_T_INT 1\<rparr>,
                       \<lparr>prop_key = ''level'', prop_val = PH_T_BOOL 1\<rparr>], p_dropped = 0\<rparr>"
  have wf: "props_wf sample_props" "props_wf ?s"
    by (simp_all add: sample_props_def props_wf_def prop_wf_def caps)
  from props_merge_explicit_wins [OF wf] have
    "p_items (ph_props_merge (Some sample_props) (Some ?s)) =
       p_items sample_props @ [\<lparr>prop_key = ''level'', prop_val = PH_T_BOOL 1\<rparr>]"
    by (simp add: sample_props_def caps)
  with wf show ?thesis by blast
qed

text \<open>
  What the string setter does on each branch: a NULL set or a NULL or empty key is a bad
  argument; a full set rejects the entry; both count the rejection (when there is a set) and
  store nothing. Otherwise exactly one entry is appended, with key and value cut to their
  capacities, and the result tells whether anything was cut. Well-formedness is kept.
\<close>

theorem props_set_str_outcomes:
  assumes "props_wf p" "pred_option cstr k" "cstr v"
  shows "\<exists>p' r. ph_props_set_str (Some p) k (Some v) = (Some p', r) \<and> props_wf p' \<and>
     (if k = None \<or> k = Some [] then
        r = PH_ERR_BADARG \<and> p_items p' = p_items p \<and> p_dropped p' = p_dropped p + 1
      else if length (p_items p) = PH_MAX_PROPS then
        r = PH_ERR_FULL \<and> p_items p' = p_items p \<and> p_dropped p' = p_dropped p + 1
      else
        p_items p' = p_items p @ [\<lparr>prop_key = take (PH_KEY_CAP - 1) (the k),
                                  prop_val = PH_T_STR (take (PH_VAL_CAP - 1) v)\<rparr>] \<and>
        p_dropped p' = p_dropped p \<and>
        r = (if PH_KEY_CAP \<le> length (the k) \<or> PH_VAL_CAP \<le> length v
             then PH_ERR_TRUNCATED else PH_OK))"
proof -
  have "val_wf (PH_T_STR (take (PH_VAL_CAP - 1) v))"
    using assms(3) by (auto simp: caps)
  note wf = props_set_wf [OF assms(1) this assms(2)]
  show ?thesis
    using assms wf [of "PH_VAL_CAP - 1 < length v"]
    by (auto simp: ph_props_set_str_def props_set_def next_slot_def copy_capped_def Let_def
        props_wf_def caps split: option.splits)
qed

theorem props_set_str_outcomes_witness:
  "props_wf ph_props_init \<and> cstr ''weapon'' \<and> cstr ''railgun'' \<and>
   (\<exists>p'. ph_props_set_str (Some ph_props_init) (Some ''weapon'') (Some ''railgun'') = (Some p', PH_OK) \<and>
         p_items p' = [\<lparr>prop_key = ''weapon'', prop_val = PH_T_STR ''railgun''\<rparr>])"
proof -
  have h: "pred_option cstr (Some ''weapon'')" "cstr ''railgun''" by simp_all
  from props_set_str_outcomes [OF props_init_wf h] show ?thesis
    by (auto simp: ph_props_init_def caps props_wf_def)
qed

end
