(* ===== verification/Ph_Json.thy ===== *)
theory Ph_Json
  imports Prelude Libc
begin

text \<open>
  The write-only JSON encoder of \<^verbatim>\<open>src/ph_json.c\<close>. Every function appends to a growable
  buffer; its model is the list of bytes it appends. The growable buffer itself, with its
  allocation failures, is the subject of theory \<open>Ph_Str\<close>.

  Formatting a double goes through \<open>snprintf("%.*g")\<close> and \<open>strtod\<close>, which are parameters
  (\<open>double_libc\<close>): a double is its 64-bit pattern, and \<open>fmt_g prec d\<close> and \<open>strtod_bits s\<close> are
  what the platform's C library answers.
\<close>

section \<open>Encoder\<close>

abbreviation QUOTE :: char where "QUOTE \<equiv> CHR 0x22"
abbreviation BSLASH :: char where "BSLASH \<equiv> CHR 0x5C"

definition is_cont :: "char \<Rightarrow> bool" where
  "is_cont c \<longleftrightarrow> byte_val c AND 0xC0 = 0x80"

definition utf8_seq_len :: "bytes \<Rightarrow> nat" where
  "utf8_seq_len s =
     (if length s = 0 then 0
      else let c = byte_val (s ! 0); n = length s in
        if c < 0x80 then 1
        else if 0xC2 \<le> c \<and> c \<le> 0xDF then (if 2 \<le> n \<and> is_cont (s ! 1) then 2 else 0)
        else if 0xE0 \<le> c \<and> c \<le> 0xEF then
          (if n < 3 \<or> \<not> is_cont (s ! 2) then 0
           else if c = 0xE0 then (if 0xA0 \<le> byte_val (s ! 1) \<and> byte_val (s ! 1) \<le> 0xBF then 3 else 0)
           else if c = 0xED then (if 0x80 \<le> byte_val (s ! 1) \<and> byte_val (s ! 1) \<le> 0x9F then 3 else 0)
           else if is_cont (s ! 1) then 3 else 0)
        else if 0xF0 \<le> c \<and> c \<le> 0xF4 then
          (if n < 4 \<or> \<not> is_cont (s ! 2) \<or> \<not> is_cont (s ! 3) then 0
           else if c = 0xF0 then (if 0x90 \<le> byte_val (s ! 1) \<and> byte_val (s ! 1) \<le> 0xBF then 4 else 0)
           else if c = 0xF4 then (if 0x80 \<le> byte_val (s ! 1) \<and> byte_val (s ! 1) \<le> 0x8F then 4 else 0)
           else if is_cont (s ! 1) then 4 else 0)
        else 0)"

text \<open>The escape of one byte below 0x80: the \<open>switch\<close> and the control-character branch.\<close>

definition json_escape :: "char \<Rightarrow> bytes" where
  "json_escape c =
     (if c = QUOTE then [BSLASH, QUOTE]
      else if c = BSLASH then [BSLASH, BSLASH]
      else if c = CHR 0x08 then [BSLASH, CHR ''b'']
      else if c = CHR 0x0C then [BSLASH, CHR ''f'']
      else if c = CHR 0x0A then [BSLASH, CHR ''n'']
      else if c = CHR 0x0D then [BSLASH, CHR ''r'']
      else if c = CHR 0x09 then [BSLASH, CHR ''t'']
      else if byte_val c < 0x20 then
        [BSLASH, CHR ''u'', CHR ''0'', CHR ''0'',
         hex_digit (byte_val c div 16), hex_digit (byte_val c mod 16)]
      else [c])"

definition utf8_replacement :: bytes where
  "utf8_replacement = [CHR 0xEF, CHR 0xBF, CHR 0xBD]"

function json_chars :: "bytes \<Rightarrow> bytes" where
  "json_chars [] = []"
| "json_chars (c # cs) =
     (if byte_val c < 0x80 then json_escape c @ json_chars cs
      else let n = utf8_seq_len (c # cs) in
        if 0 < n then take n (c # cs) @ json_chars (drop (n - 1) cs)
        else utf8_replacement @ json_chars cs)"
  by pat_completeness auto
termination by (relation "measure length") auto

definition ph_json_str :: "bytes \<Rightarrow> bytes" where
  "ph_json_str s = QUOTE # json_chars s @ [QUOTE]"

definition ph_json_cstr :: "string option \<Rightarrow> bytes" where
  "ph_json_cstr s = (case s of None \<Rightarrow> ph_json_str [] | Some s \<Rightarrow> ph_json_str s)"

definition ph_json_int :: "u64 \<Rightarrow> bytes" where
  "ph_json_int i = int_dec (sint i)"

definition ph_json_bool :: "int \<Rightarrow> bytes" where
  "ph_json_bool b = (if b \<noteq> 0 then ''true'' else ''false'')"

section \<open>Doubles\<close>

record double_libc =
  fmt_g :: "nat \<Rightarrow> u64 \<Rightarrow> string"
  strtod_bits :: "string \<Rightarrow> u64"
  c_locale :: bool
  decimal_point :: "string option"

text \<open>\<open>d != d || d > DBL_MAX || d < -DBL_MAX\<close>: the exponent field is all ones.\<close>

definition dbl_nonfinite :: "u64 \<Rightarrow> bool" where
  "dbl_nonfinite d \<longleftrightarrow> drop_bit 52 d AND 0x7FF = 0x7FF"

text \<open>The C operator \<open>==\<close> on a finite \<open>d\<close>: equal patterns, or two zeros of any sign.\<close>

definition dbl_eq :: "u64 \<Rightarrow> u64 \<Rightarrow> bool" where
  "dbl_eq a b \<longleftrightarrow> a = b \<and> \<not> dbl_nonfinite a \<or>
     a AND 0x7FFFFFFFFFFFFFFF = 0 \<and> b AND 0x7FFFFFFFFFFFFFFF = 0"

fun replace_first :: "string \<Rightarrow> char \<Rightarrow> string \<Rightarrow> string" where
  "replace_first pt d [] = []"
| "replace_first pt d (c # cs) =
     (if prefix pt (c # cs) then d # drop (length pt) (c # cs) else c # replace_first pt d cs)"

definition normalize_decimal_point :: "string option \<Rightarrow> string \<Rightarrow> string" where
  "normalize_decimal_point point buf =
     (case point of None \<Rightarrow> buf
      | Some pt \<Rightarrow> if pt = ''.'' then buf else if pt = [] then buf
                  else replace_first pt (CHR ''.'') buf)"

fun shortest_g :: "double_libc \<Rightarrow> u64 \<Rightarrow> nat \<Rightarrow> nat \<Rightarrow> string" where
  "shortest_g L d prec 0 = fmt_g L 17 d"
| "shortest_g L d prec (Suc k) =
     (let buf = snprintf_trunc 40 (fmt_g L prec d) in
      if dbl_eq (strtod_bits L buf) d then buf else shortest_g L d (prec + 1) k)"

definition ph_json_double :: "double_libc \<Rightarrow> u64 \<Rightarrow> bytes" where
  "ph_json_double L d =
     (if dbl_nonfinite d then ''null''
      else let buf = snprintf_trunc 40 (shortest_g L d 1 16) in
           if c_locale L then buf else normalize_decimal_point (decimal_point L) buf)"

section \<open>Facts\<close>

lemma nat_and_push_bit: "n AND push_bit k m = push_bit k (drop_bit k n AND (m::nat))"
  by (rule bit_eqI) (auto simp: bit_and_iff bit_push_bit_iff bit_drop_bit_eq)

lemma nat_and_C0: "n < 256 \<Longrightarrow> n AND 0xC0 = (n div 64) * (64::nat)"
proof -
  assume "n < 256"
  then have "n div 64 < 4" by auto
  have "n AND 0xC0 = push_bit 6 (drop_bit 6 n AND 3)"
    using nat_and_push_bit [of n 6 3] by (simp add: push_bit_eq_mult)
  also have "drop_bit 6 n AND 3 = drop_bit 6 n mod (4::nat)"
    using take_bit_eq_mask [of 2 "drop_bit 6 n"] by (simp add: take_bit_eq_mod mask_eq_exp_minus_1)
  finally show ?thesis
    using \<open>n div 64 < 4\<close> by (simp add: push_bit_eq_mult drop_bit_eq_div)
qed

lemma is_cont_iff: "is_cont c \<longleftrightarrow> 0x80 \<le> byte_val c \<and> byte_val c < 0xC0"
  by (auto simp: is_cont_def nat_and_C0)

text \<open>The classifier in one formula: the length the lead byte announces, and the bounds the
  lead byte puts on the second byte.\<close>

definition lead_len :: "nat \<Rightarrow> nat" where
  "lead_len c = (if c < 0x80 then 1 else if 0xC2 \<le> c \<and> c \<le> 0xDF then 2
     else if 0xE0 \<le> c \<and> c \<le> 0xEF then 3 else if 0xF0 \<le> c \<and> c \<le> 0xF4 then 4 else 0)"

definition second_ok :: "nat \<Rightarrow> nat \<Rightarrow> bool" where
  "second_ok c b \<longleftrightarrow> (if c = 0xE0 then 0xA0 else if c = 0xF0 then 0x90 else 0x80) \<le> b \<and>
     b \<le> (if c = 0xED then 0x9F else if c = 0xF4 then 0x8F else 0xBF)"

lemma is_cont_second: "is_cont x \<longleftrightarrow> 0x80 \<le> byte_val x \<and> byte_val x \<le> 0xBF"
  by (auto simp: is_cont_iff)

lemma utf8_seq_len_eq:
  assumes "s \<noteq> []"
  shows "utf8_seq_len s =
     (let n = lead_len (byte_val (s ! 0)) in
      if n \<le> length s \<and> (2 \<le> n \<longrightarrow> second_ok (byte_val (s ! 0)) (byte_val (s ! 1))) \<and>
         (3 \<le> n \<longrightarrow> is_cont (s ! 2)) \<and> (4 \<le> n \<longrightarrow> is_cont (s ! 3)) then n else 0)"
proof -
  let ?c = "byte_val (s ! 0)"
  consider "?c < 0x80" | "0xC2 \<le> ?c" "?c \<le> 0xDF" | "0xE0 \<le> ?c" "?c \<le> 0xEF"
    | "0xF0 \<le> ?c" "?c \<le> 0xF4" | "0x80 \<le> ?c" "?c < 0xC2" | "0xF4 < ?c"
    by linarith
  then show ?thesis
  proof cases
    case 1
    with assms show ?thesis by (cases s) (simp_all add: utf8_seq_len_def lead_len_def)
  next
    case 2
    with assms show ?thesis
      by (simp add: utf8_seq_len_def lead_len_def second_ok_def is_cont_second)
  next
    case 3
    with assms show ?thesis
      by (simp add: utf8_seq_len_def lead_len_def second_ok_def is_cont_second)
  next
    case 4
    with assms show ?thesis
      by (simp add: utf8_seq_len_def lead_len_def second_ok_def is_cont_second)
  next
    case 5
    with assms show ?thesis by (simp add: utf8_seq_len_def lead_len_def)
  next
    case 6
    with assms show ?thesis by (simp add: utf8_seq_len_def lead_len_def)
  qed
qed

lemma utf8_seq_len_Nil [simp]: "utf8_seq_len [] = 0"
  by (simp add: utf8_seq_len_def)

lemma utf8_seq_len_le: "utf8_seq_len s \<le> length s"
  by (cases "s = []") (simp_all add: utf8_seq_len_eq Let_def)

lemma utf8_seq_len_ascii: "byte_val c < 0x80 \<Longrightarrow> utf8_seq_len (c # cs) = 1"
  by (simp add: utf8_seq_len_eq lead_len_def)

text \<open>A sequence the classifier accepts is one lead byte and continuation bytes, and is
  accepted whatever follows it.\<close>

lemma utf8_seq_len_cong:
  assumes n: "utf8_seq_len s = n" "0 < n" and t: "n \<le> length t" "take n t = take n s"
  shows "utf8_seq_len t = n"
proof -
  have nth: "t ! i = s ! i" if "i < n" for i
    using that t nth_take [of i n t] nth_take [of i n s] by simp
  have ne: "s \<noteq> []" "t \<noteq> []"
    using n t(1) utf8_seq_len_le [of s] by auto
  show ?thesis
    using n t(1) nth [of 0] nth [of 1] nth [of 2] nth [of 3]
    by (simp add: utf8_seq_len_eq ne Let_def split: if_splits)
qed

lemma utf8_seq_len_append:
  assumes "0 < utf8_seq_len s"
  shows "utf8_seq_len (take (utf8_seq_len s) s @ t) = utf8_seq_len s"
  by (rule utf8_seq_len_cong [OF refl assms]) (simp_all add: utf8_seq_len_le)

lemma utf8_seq_high:
  assumes "0x80 \<le> byte_val c" "x \<in> set (take (utf8_seq_len (c # cs)) (c # cs))"
  shows "0x80 \<le> byte_val x"
proof -
  let ?n = "utf8_seq_len (c # cs)"
  from assms(2) obtain i where i: "i < ?n" "x = (c # cs) ! i"
    by (auto simp: in_set_conv_nth)
  have n: "0 < ?n" "?n = lead_len (byte_val c)"
    using i(1) by (auto simp: utf8_seq_len_eq Let_def split: if_splits)
  have "?n \<le> 4" unfolding n(2) by (simp add: lead_len_def)
  with i(1) consider "i = 0" | "i = 1" | "i = 2" | "i = 3" by linarith
  then show ?thesis
    using i n assms(1)
    by cases (auto simp: utf8_seq_len_eq Let_def is_cont_iff second_ok_def split: if_splits)
qed

text \<open>What a reader of the encoded text sees: malformed bytes replaced by U+FFFD.\<close>

function utf8_sanitize :: "bytes \<Rightarrow> bytes" where
  "utf8_sanitize [] = []"
| "utf8_sanitize (c # cs) =
     (let n = utf8_seq_len (c # cs) in
      if 0 < n then take n (c # cs) @ utf8_sanitize (drop (n - 1) cs)
      else utf8_replacement @ utf8_sanitize cs)"
  by pat_completeness auto
termination by (relation "measure length") auto

lemma hex_digit_printable: "n < 16 \<Longrightarrow> 0x20 \<le> byte_val (hex_digit n) \<and> byte_val (hex_digit n) < 0x80"
  by (simp add: hex_digit_def)

lemma byte_val_literals [simp]:
  "byte_val QUOTE = 0x22" "byte_val BSLASH = 0x5C" "byte_val (CHR ''b'') = 0x62"
  "byte_val (CHR ''f'') = 0x66" "byte_val (CHR ''n'') = 0x6E" "byte_val (CHR ''r'') = 0x72"
  "byte_val (CHR ''t'') = 0x74" "byte_val (CHR ''u'') = 0x75" "byte_val (CHR ''0'') = 0x30"
  "byte_val (CHR 0xEF) = 0xEF" "byte_val (CHR 0xBF) = 0xBF" "byte_val (CHR 0xBD) = 0xBD"
  by (simp_all add: byte_val_def)

lemma json_escape_printable: "x \<in> set (json_escape c) \<Longrightarrow> 0x20 \<le> byte_val x"
  using hex_digit_printable [of "byte_val c div 16"] hex_digit_printable [of "byte_val c mod 16"]
  by (auto simp: json_escape_def split: if_splits)

lemma json_chars_printable: "x \<in> set (json_chars s) \<Longrightarrow> 0x20 \<le> byte_val x"
proof (induction s rule: json_chars.induct)
  case 1
  then show ?case by simp
next
  case (2 c cs)
  then show ?case
    using json_escape_printable [of x c] utf8_seq_high [of c x cs]
    by (auto simp: Let_def utf8_replacement_def split: if_splits)
qed

lemma ph_json_str_printable: "x \<in> set (ph_json_str s) \<Longrightarrow> 0x20 \<le> byte_val x"
  by (auto simp: ph_json_str_def dest: json_chars_printable)

end
