(* ===== verification/Ph_Internal.thy ===== *)
theory Ph_Internal
  imports Ph_Queue Ph_Props Ph_Ratelimit Ph_Json
begin

text \<open>
  The shared structures of \<^verbatim>\<open>src/ph_internal.h\<close> and \<^verbatim>\<open>src/ph_queue.h\<close>: the packed event record
  and the SDK context \<open>g_ph\<close>. The context is one record built in layers, one layer per
  group of fields of the structure, so that each component's theory can name the fields it
  owns. Mutexes, condition variables and the thread handle have no field: a function body that
  runs with the lock held is one step. Callback pointers are functions (absent: \<open>None\<close>); the
  transport is part of the environment of theory \<open>Ph_Native\<close>.

  A \<open>char x[CAP]\<close> field holds a string of length below \<open>CAP\<close>; the arrays of groups, flags and
  denylist keys with their counts are lists.
\<close>

section \<open>Capacities\<close>

definition PH_API_KEY_CAP :: nat where [caps]: "PH_API_KEY_CAP = 96"
definition PH_HOST_CAP :: nat where [caps]: "PH_HOST_CAP = 256"
definition PH_RELEASE_CAP :: nat where [caps]: "PH_RELEASE_CAP = 96"
definition PH_MAX_GROUPS :: nat where [caps]: "PH_MAX_GROUPS = 4"
definition PH_MAX_EXCEPTION_FRAMES :: nat where [caps]: "PH_MAX_EXCEPTION_FRAMES = 32"
definition PH_EXCEPTION_FIELD_CAP :: nat where [caps]: "PH_EXCEPTION_FIELD_CAP = 96"
definition PH_EXCEPTION_BLOB_RESERVE :: nat where [caps]: "PH_EXCEPTION_BLOB_RESERVE = 512"
definition PH_MAX_FLAGS :: nat where [caps]: "PH_MAX_FLAGS = 64"
definition PH_FLAG_VARIANT_CAP :: nat where [caps]: "PH_FLAG_VARIANT_CAP = 64"
definition PH_FLAG_PAYLOAD_CAP :: nat where [caps]: "PH_FLAG_PAYLOAD_CAP = 512"
definition PH_FLAGS_RESP_CAP :: nat where [caps]: "PH_FLAGS_RESP_CAP = 65536"
definition PH_PATH_CAP :: nat where [caps]: "PH_PATH_CAP = 512"
definition PH_OFFLINE_MAX_BYTES :: nat where [caps]: "PH_OFFLINE_MAX_BYTES = 8 * 1024 * 1024"
definition PH_RESP_BODY_CAP :: nat where [caps]: "PH_RESP_BODY_CAP = 256"
definition PH_FLAG_RELOAD_HISTORY_CAP :: nat where [caps]: "PH_FLAG_RELOAD_HISTORY_CAP = 8"

section \<open>Events\<close>

datatype ph_event_kind = PH_EV_CAPTURE | PH_EV_IDENTIFY | PH_EV_ALIAS | PH_EV_GROUP | PH_EV_EXCEPTION

definition PH_EVF_NO_PROFILE :: u8 where "PH_EVF_NO_PROFILE = 1"
definition PH_EVF_HAS_DID :: u8 where "PH_EVF_HAS_DID = 2"
definition PH_EVF_SCRUBBED :: u8 where "PH_EVF_SCRUBBED = 4"
definition PH_EVF_CRASH_REPLAY :: u8 where "PH_EVF_CRASH_REPLAY = 8"

definition has_flag :: "u8 \<Rightarrow> u8 \<Rightarrow> bool" where
  "has_flag fs f \<longleftrightarrow> fs AND f \<noteq> 0"

record ph_event =
  ev_kind :: ph_event_kind
  ev_flags :: u8
  ev_name_len :: nat
  ev_did_len :: nat
  ev_blob_len :: nat
  ev_mono_ns :: u64
  ev_epoch_wall_ns :: u64
  ev_epoch_mono_ns :: u64
  ev_seq :: u64
  ev_data :: bytes

text \<open>The three regions of \<open>data[]\<close>.\<close>

definition ev_name :: "ph_event \<Rightarrow> bytes" where
  "ev_name e = take (ev_name_len e) (ev_data e)"

definition ev_did :: "ph_event \<Rightarrow> bytes" where
  "ev_did e = take (ev_did_len e) (drop (ev_name_len e) (ev_data e))"

definition ev_blob :: "ph_event \<Rightarrow> bytes" where
  "ev_blob e = take (ev_blob_len e) (drop (ev_name_len e + ev_did_len e) (ev_data e))"

section \<open>The context\<close>

type_synonym before_send_fn = "string \<Rightarrow> ph_props \<Rightarrow> ph_props \<times> bool"

definition PH_IDENTIFIED_ONLY :: int where "PH_IDENTIFIED_ONLY = 0"
definition PH_ALWAYS :: int where "PH_ALWAYS = 1"
definition PH_NEVER :: int where "PH_NEVER = 2"

record ctx_config =
  initialized :: bool
  enabled :: bool
  api_key :: string
  api_host :: string
  release :: string
  offline_path :: string
  person_profiles :: int
  flush_at :: int
  flush_interval_ms :: int
  max_batch :: int
  max_batch_bytes :: int
  max_queue :: int
  request_timeout_ms :: int
  max_retries :: int
  use_gzip :: bool
  send_feature_flag_events :: bool
  disable_geoip :: bool
  before_send :: "before_send_fn option"
  has_on_stats :: bool
  stats_interval_ms :: int
  denylist :: "string list"

text \<open>The token bucket's doubles are real numbers; see theory \<open>Ph_Core\<close> for their rounding.\<close>

record ctx_counters = ctx_config +
  rl_rate :: real
  rl_burst :: real
  rl_tokens :: real
  rl_last_mono :: u64
  rl_dropped :: u64
  st_sent :: u64
  st_failed :: u64
  st_retries :: u64
  st_before_send_dropped :: u64

record ph_group =
  group_type :: string
  group_key :: string
  group_props :: ph_props

record ctx_identity = ctx_counters +
  distinct_id :: string
  identified :: bool
  super_props :: ph_props
  groups :: "ph_group list"
  flag_person_props :: ph_props

record ph_flag =
  fl_key :: string
  fl_enabled :: bool
  fl_variant :: "string option"
  fl_payload :: "string option"
  fl_called_sent :: bool

datatype ph_feature_flag_reload_status =
    PH_FEATURE_FLAG_RELOAD_UNKNOWN
  | PH_FEATURE_FLAG_RELOAD_PENDING
  | PH_FEATURE_FLAG_RELOAD_SUCCESS
  | PH_FEATURE_FLAG_RELOAD_FAILED
  | PH_FEATURE_FLAG_RELOAD_SUPERSEDED

record ph_flag_reload_record =
  rr_request_id :: u64
  rr_context_gen :: u64
  rr_status :: ph_feature_flag_reload_status

record ctx_flags = ctx_identity +
  flags :: "ph_flag list"
  flags_context_gen :: u64
  flag_reload_history :: "ph_flag_reload_record list"
  flags_refetch :: bool
  flags_refetch_gen :: u64
  flags_refetch_context_gen :: u64
  flags_fetch_inflight :: bool
  flags_fetch_inflight_gen :: u64
  flags_fetch_inflight_context_gen :: u64
  reload_request_id :: u64

record ph_ctx = ctx_flags +
  epoch_wall_ns :: u64
  epoch_mono_ns :: u64
  uuid_salt :: u64
  seq :: u64
  queue :: "ph_event ph_queue"
  server_rl :: ph_ratelimit
  stop :: bool
  shutdown_deadline_mono_ns :: u64
  sending :: bool
  sender_running :: bool
  drain_gen :: u64

text \<open>Response metadata a transport may fill in.\<close>

record ph_send_meta =
  sm_retry_after :: string
  sm_body :: string

section \<open>Well-formed events\<close>

text \<open>
  What the enqueue path guarantees of a record: the three regions lie inside \<open>data[]\<close>, name and
  id are C strings below their capacities, and what a reader of the blob sees is a sequence of
  entries with C-string keys that are scalars, group memberships or raw fragments.
\<close>

definition entry_wf :: "nat \<times> bytes \<times> bytes \<Rightarrow> bool" where
  "entry_wf e = (case e of (ty, k, v) \<Rightarrow> entry_ok e \<and> cstr k \<and> ty \<le> PH_PK_RAWJSON \<and>
     (ty = 0 \<longrightarrow> cstr v) \<and> (ty = PH_PK_GROUP \<longrightarrow> cstr v))"

definition blob_wf :: "bytes \<Rightarrow> bool" where
  "blob_wf b \<longleftrightarrow> list_all entry_wf (blob_entries b)"

definition event_wf :: "ph_event \<Rightarrow> bool" where
  "event_wf e \<longleftrightarrow> ev_name_len e + ev_did_len e + ev_blob_len e \<le> PH_EVENT_DATA_CAP \<and>
     ev_name_len e + ev_did_len e + ev_blob_len e \<le> length (ev_data e) \<and>
     ev_name_len e < PH_EVENT_NAME_CAP \<and> ev_did_len e < PH_DISTINCT_ID_CAP \<and>
     cstr (ev_name e) \<and> cstr (ev_did e) \<and> blob_wf (ev_blob e)"

end
