(* ===== verification/Ph_Jsonval.thy ===== *)
theory Ph_Jsonval
  imports Prelude Libc Ph_Json
begin

text \<open>
  The read-only JSON parser of \<^verbatim>\<open>src/ph_jsonval.c\<close>. A cursor is the list of bytes from
  \<open>c->p\<close> to \<open>c->end\<close>. The node tree is a datatype whose number leaves are doubles of an
  abstract type \<open>'d\<close>: the platform's double arithmetic (\<open>dbl_ops\<close>) is a parameter. Heap
  exhaustion, on which the code also answers NULL, is not modelled.

  The recursive descent is not structural, so the mutually recursive functions take fuel and
  answer \<open>Out_of_fuel\<close> when it runs out; \<open>parse_value_enough\<close> shows that the fuel
  \<open>2 * length + 1\<close> that \<open>ph_jv_parse\<close> starts with is always enough.
\<close>

section \<open>Data\<close>

datatype 'd jv =
    JNull
  | JBool bool
  | JNum 'd
  | JStr string
  | JArr "'d jv list"
  | JObj "(string \<times> 'd jv) list"

datatype ph_jv_type = PH_JV_NULL | PH_JV_BOOL | PH_JV_NUM | PH_JV_STR | PH_JV_ARR | PH_JV_OBJ

datatype 'a pres = Done 'a bytes | Fail | Out_of_fuel

record 'd dbl_ops =
  d_of_nat :: "nat \<Rightarrow> 'd"
  d_tenth :: 'd
  d_add :: "'d \<Rightarrow> 'd \<Rightarrow> 'd"
  d_mul :: "'d \<Rightarrow> 'd \<Rightarrow> 'd"
  d_div :: "'d \<Rightarrow> 'd \<Rightarrow> 'd"
  d_neg :: "'d \<Rightarrow> 'd"

definition PH_JV_MAX_DEPTH :: nat where [caps]: "PH_JV_MAX_DEPTH = 128"

section \<open>Lexing\<close>

definition is_ws :: "char \<Rightarrow> bool" where
  "is_ws c \<longleftrightarrow> c = CHR '' '' \<or> c = CHR 0x09 \<or> c = CHR 0x0A \<or> c = CHR 0x0D"

definition skip_ws :: "bytes \<Rightarrow> bytes" where
  "skip_ws s = dropWhile is_ws s"

definition utf8_encode :: "nat \<Rightarrow> bytes" where
  "utf8_encode cp =
     (if cp < 0x80 then [byte_of cp]
      else if cp < 0x800 then
        [byte_of (0xC0 OR drop_bit 6 cp), byte_of (0x80 OR (cp AND 0x3F))]
      else if cp < 0x10000 then
        [byte_of (0xE0 OR drop_bit 12 cp), byte_of (0x80 OR (drop_bit 6 cp AND 0x3F)),
         byte_of (0x80 OR (cp AND 0x3F))]
      else
        [byte_of (0xF0 OR drop_bit 18 cp), byte_of (0x80 OR (drop_bit 12 cp AND 0x3F)),
         byte_of (0x80 OR (drop_bit 6 cp AND 0x3F)), byte_of (0x80 OR (cp AND 0x3F))])"

function utf8_valid :: "bytes \<Rightarrow> bool" where
  "utf8_valid s =
     (if s = [] then True
      else let c = byte_val (s ! 0); n = length s in
        if c < 0x80 then utf8_valid (drop 1 s)
        else if 0xC2 \<le> c \<and> c \<le> 0xDF then
          (if n \<le> 1 \<or> \<not> is_cont (s ! 1) then False else utf8_valid (drop 2 s))
        else if 0xE0 \<le> c \<and> c \<le> 0xEF then
          (if n \<le> 2 \<or> \<not> is_cont (s ! 2) then False
           else if (if c = 0xE0 then byte_val (s ! 1) < 0xA0 \<or> 0xBF < byte_val (s ! 1)
                    else if c = 0xED then byte_val (s ! 1) < 0x80 \<or> 0x9F < byte_val (s ! 1)
                    else \<not> is_cont (s ! 1)) then False
           else utf8_valid (drop 3 s))
        else if 0xF0 \<le> c \<and> c \<le> 0xF4 then
          (if n \<le> 3 \<or> \<not> is_cont (s ! 2) \<or> \<not> is_cont (s ! 3) then False
           else if (if c = 0xF0 then byte_val (s ! 1) < 0x90 \<or> 0xBF < byte_val (s ! 1)
                    else if c = 0xF4 then byte_val (s ! 1) < 0x80 \<or> 0x8F < byte_val (s ! 1)
                    else \<not> is_cont (s ! 1)) then False
           else utf8_valid (drop 4 s))
        else False)"
  by pat_completeness auto
termination by (relation "measure length") auto

declare utf8_valid.simps [simp del]

definition hex_val :: "char \<Rightarrow> nat option" where
  "hex_val ch =
     (let c = byte_val ch in
      if 48 \<le> c \<and> c \<le> 57 then Some (c - 48)
      else if 97 \<le> c \<and> c \<le> 102 then Some (c - 97 + 10)
      else if 65 \<le> c \<and> c \<le> 70 then Some (c - 65 + 10)
      else None)"

fun hex4_loop :: "nat \<Rightarrow> nat \<Rightarrow> bytes \<Rightarrow> nat option" where
  "hex4_loop 0 v s = Some v"
| "hex4_loop (Suc k) v [] = None"
| "hex4_loop (Suc k) v (c # s) =
     (case hex_val c of None \<Rightarrow> None | Some h \<Rightarrow> hex4_loop k (16 * v + h) s)"

definition hex4 :: "bytes \<Rightarrow> nat option" where
  "hex4 s = hex4_loop 4 0 s"

definition simple_escape :: "char \<Rightarrow> char option" where
  "simple_escape e =
     (if e = QUOTE then Some QUOTE
      else if e = BSLASH then Some BSLASH
      else if e = CHR ''/'' then Some (CHR ''/'')
      else if e = CHR ''b'' then Some (CHR 0x08)
      else if e = CHR ''f'' then Some (CHR 0x0C)
      else if e = CHR ''n'' then Some (CHR 0x0A)
      else if e = CHR ''r'' then Some (CHR 0x0D)
      else if e = CHR ''t'' then Some (CHR 0x09)
      else None)"

text \<open>After \<open>\u\<close>: the bytes of the code point and the rest, or a rejection.\<close>

definition parse_u_escape :: "bytes \<Rightarrow> (bytes \<times> bytes) option" where
  "parse_u_escape s =
     (if length s < 4 then None
      else case hex4 s of None \<Rightarrow> None
      | Some cp \<Rightarrow>
        let r = drop 4 s in
        if 0xD800 \<le> cp \<and> cp \<le> 0xDBFF then
          (if 6 \<le> length r \<and> r ! 0 = BSLASH \<and> r ! 1 = CHR ''u'' then
             (case hex4 (drop 2 r) of None \<Rightarrow> None
              | Some lo \<Rightarrow>
                  if 0xDC00 \<le> lo \<and> lo \<le> 0xDFFF
                  then Some (utf8_encode (0x10000 + (cp - 0xD800) * 1024 + (lo - 0xDC00)), drop 6 r)
                  else None)
           else None)
        else if cp = 0 \<or> 0xDC00 \<le> cp \<and> cp \<le> 0xDFFF then None
        else Some (utf8_encode cp, r))"

lemma parse_u_escape_shorter [termination_simp]:
  "parse_u_escape s = Some (out, r) \<Longrightarrow> length r < length s"
  by (auto simp: parse_u_escape_def Let_def split: if_splits option.splits)

fun parse_string_loop :: "bytes \<Rightarrow> bytes \<Rightarrow> (string \<times> bytes) option" where
  "parse_string_loop out [] = None"
| "parse_string_loop out (c # cs) =
     (if c = QUOTE then (if utf8_valid out then Some (out, cs) else None)
      else if c = BSLASH then
        (case cs of [] \<Rightarrow> None
         | e # es \<Rightarrow>
             (case simple_escape e of
                Some x \<Rightarrow> parse_string_loop (out @ [x]) es
              | None \<Rightarrow>
                  if e = CHR ''u'' then
                    (case parse_u_escape es of None \<Rightarrow> None
                     | Some (u, r) \<Rightarrow> parse_string_loop (out @ u) r)
                  else None))
      else if 0x20 \<le> byte_val c then parse_string_loop (out @ [c]) cs
      else None)"

definition parse_string_raw :: "bytes \<Rightarrow> (string \<times> bytes) option" where
  "parse_string_raw s =
     (case s of [] \<Rightarrow> None | c # cs \<Rightarrow> if c \<noteq> QUOTE then None else parse_string_loop [] cs)"

section \<open>Numbers\<close>

fun int_part :: "'d dbl_ops \<Rightarrow> 'd \<Rightarrow> bytes \<Rightarrow> 'd \<times> bytes" where
  "int_part D v [] = (v, [])"
| "int_part D v (c # cs) =
     (if is_digit c
      then int_part D (d_add D (d_mul D v (d_of_nat D 10)) (d_of_nat D (digit_val c))) cs
      else (v, c # cs))"

fun frac_part :: "'d dbl_ops \<Rightarrow> 'd \<Rightarrow> 'd \<Rightarrow> bytes \<Rightarrow> 'd \<times> bytes" where
  "frac_part D v factor [] = (v, [])"
| "frac_part D v factor (c # cs) =
     (if is_digit c
      then frac_part D (d_add D v (d_mul D (d_of_nat D (digit_val c)) factor))
             (d_mul D factor (d_tenth D)) cs
      else (v, c # cs))"

fun exp_part :: "nat \<Rightarrow> bytes \<Rightarrow> nat \<times> bytes" where
  "exp_part e [] = (e, [])"
| "exp_part e (c # cs) =
     (if is_digit c
      then exp_part (if e < 400 then min 400 (10 * e + digit_val c) else e) cs
      else (e, c # cs))"

fun scale_exp :: "'d dbl_ops \<Rightarrow> bool \<Rightarrow> nat \<Rightarrow> 'd \<Rightarrow> 'd" where
  "scale_exp D neg 0 v = v"
| "scale_exp D neg (Suc e) v =
     scale_exp D neg e (if neg then d_div D v (d_of_nat D 10) else d_mul D v (d_of_nat D 10))"

definition starts_digit :: "bytes \<Rightarrow> bool" where
  "starts_digit s \<longleftrightarrow> (case s of [] \<Rightarrow> False | c # cs \<Rightarrow> is_digit c)"

definition parse_frac :: "'d dbl_ops \<Rightarrow> 'd \<Rightarrow> bytes \<Rightarrow> ('d \<times> bytes) option" where
  "parse_frac D v s =
     (case s of
        [] \<Rightarrow> Some (v, s)
      | c # cs \<Rightarrow>
          if c = CHR ''.'' then
            (if starts_digit cs then Some (frac_part D v (d_tenth D) cs) else None)
          else Some (v, s))"

definition parse_exp :: "'d dbl_ops \<Rightarrow> 'd \<Rightarrow> bytes \<Rightarrow> ('d \<times> bytes) option" where
  "parse_exp D v s =
     (case s of
        [] \<Rightarrow> Some (v, s)
      | c # cs \<Rightarrow>
          if c = CHR ''e'' \<or> c = CHR ''E'' then
            let neg = (case cs of [] \<Rightarrow> False | x # xs \<Rightarrow> x = CHR ''-'');
                ds = (case cs of [] \<Rightarrow> [] | x # xs \<Rightarrow>
                        if x = CHR ''+'' \<or> x = CHR ''-'' then xs else cs)
            in if starts_digit ds
               then let (e, r) = exp_part 0 ds in Some (scale_exp D neg e v, r)
               else None
          else Some (v, s))"

definition parse_int_part :: "'d dbl_ops \<Rightarrow> bytes \<Rightarrow> ('d \<times> bytes) option" where
  "parse_int_part D s =
     (case s of [] \<Rightarrow> None
      | c # cs \<Rightarrow>
          if c = CHR ''0'' then (if starts_digit cs then None else Some (d_of_nat D 0, cs))
          else if is_digit c then Some (int_part D (d_of_nat D 0) s)
          else None)"

definition parse_magnitude :: "'d dbl_ops \<Rightarrow> bytes \<Rightarrow> ('d \<times> bytes) option" where
  "parse_magnitude D s =
     (case parse_int_part D s of None \<Rightarrow> None
      | Some (v1, r1) \<Rightarrow>
          (case parse_frac D v1 r1 of None \<Rightarrow> None
           | Some (v2, r2) \<Rightarrow> parse_exp D v2 r2))"

definition parse_number :: "'d dbl_ops \<Rightarrow> bytes \<Rightarrow> ('d \<times> bytes) option" where
  "parse_number D s =
     (case s of [] \<Rightarrow> None
      | c # cs \<Rightarrow>
          if c = CHR ''-'' then map_option (map_prod (d_neg D) id) (parse_magnitude D cs)
          else parse_magnitude D s)"

section \<open>Values\<close>

definition parse_literal :: "bytes \<Rightarrow> ('d jv) pres" where
  "parse_literal s =
     (if prefix ''true'' s then Done (JBool True) (drop 4 s)
      else if prefix ''false'' s then Done (JBool False) (drop 5 s)
      else if prefix ''null'' s then Done JNull (drop 4 s)
      else Fail)"

fun parse_value :: "'d dbl_ops \<Rightarrow> nat \<Rightarrow> nat \<Rightarrow> bytes \<Rightarrow> ('d jv) pres"
and array_loop :: "'d dbl_ops \<Rightarrow> nat \<Rightarrow> nat \<Rightarrow> 'd jv list \<Rightarrow> bytes \<Rightarrow> ('d jv) pres"
and object_loop :: "'d dbl_ops \<Rightarrow> nat \<Rightarrow> nat \<Rightarrow> (string \<times> 'd jv) list \<Rightarrow> bytes \<Rightarrow> ('d jv) pres"
where
  "parse_value D 0 depth s = Out_of_fuel"
| "parse_value D (Suc f) depth s0 =
     (case skip_ws s0 of
        [] \<Rightarrow> Fail
      | c # cs \<Rightarrow>
          if PH_JV_MAX_DEPTH < depth then Fail
          else if c = CHR ''{'' then
            (case skip_ws cs of
               [] \<Rightarrow> object_loop D f depth [] []
             | d # ds \<Rightarrow> if d = CHR ''}'' then Done (JObj []) ds
                        else object_loop D f depth [] (d # ds))
          else if c = CHR ''['' then
            (case skip_ws cs of
               [] \<Rightarrow> array_loop D f depth [] []
             | d # ds \<Rightarrow> if d = CHR '']'' then Done (JArr []) ds
                        else array_loop D f depth [] (d # ds))
          else if c = QUOTE then
            (case parse_string_raw (c # cs) of None \<Rightarrow> Fail | Some (s, r) \<Rightarrow> Done (JStr s) r)
          else if c = CHR ''t'' \<or> c = CHR ''f'' \<or> c = CHR ''n'' then parse_literal (c # cs)
          else if c = CHR ''-'' \<or> is_digit c then
            (case parse_number D (c # cs) of None \<Rightarrow> Fail | Some (v, r) \<Rightarrow> Done (JNum v) r)
          else Fail)"
| "array_loop D 0 depth acc s = Out_of_fuel"
| "array_loop D (Suc f) depth acc s =
     (case parse_value D f (depth + 1) (skip_ws s) of
        Out_of_fuel \<Rightarrow> Out_of_fuel
      | Fail \<Rightarrow> Fail
      | Done v r \<Rightarrow>
          (case skip_ws r of
             [] \<Rightarrow> Fail
           | c # cs \<Rightarrow>
               if c = CHR '','' then array_loop D f depth (acc @ [v]) cs
               else if c = CHR '']'' then Done (JArr (acc @ [v])) cs
               else Fail))"
| "object_loop D 0 depth acc s = Out_of_fuel"
| "object_loop D (Suc f) depth acc s =
     (case parse_string_raw (skip_ws s) of
        None \<Rightarrow> Fail
      | Some (k, r0) \<Rightarrow>
          (case skip_ws r0 of
             [] \<Rightarrow> Fail
           | c # cs \<Rightarrow>
               if c \<noteq> CHR '':'' then Fail
               else (case parse_value D f (depth + 1) (skip_ws cs) of
                       Out_of_fuel \<Rightarrow> Out_of_fuel
                     | Fail \<Rightarrow> Fail
                     | Done v r \<Rightarrow>
                         (case skip_ws r of
                            [] \<Rightarrow> Fail
                          | e # es \<Rightarrow>
                              if e = CHR '','' then object_loop D f depth (acc @ [(k, v)]) es
                              else if e = CHR ''}'' then Done (JObj (acc @ [(k, v)])) es
                              else Fail))))"

definition ph_jv_parse :: "'d dbl_ops \<Rightarrow> bytes \<Rightarrow> 'd jv option" where
  "ph_jv_parse D s =
     (case parse_value D (2 * length s + 1) 0 s of
        Done v r \<Rightarrow> if skip_ws r = [] then Some v else None
      | _ \<Rightarrow> None)"

section \<open>Accessors\<close>

text \<open>A node pointer that may be NULL is an \<open>option\<close>.\<close>

definition ph_jv_type_of :: "'d jv option \<Rightarrow> ph_jv_type" where
  "ph_jv_type_of v =
     (case v of None \<Rightarrow> PH_JV_NULL
      | Some v \<Rightarrow> (case v of JNull \<Rightarrow> PH_JV_NULL | JBool b \<Rightarrow> PH_JV_BOOL | JNum d \<Rightarrow> PH_JV_NUM
                    | JStr s \<Rightarrow> PH_JV_STR | JArr xs \<Rightarrow> PH_JV_ARR | JObj kvs \<Rightarrow> PH_JV_OBJ))"

definition ph_jv_bool :: "'d jv option \<Rightarrow> bool" where
  "ph_jv_bool v = (case v of Some (JBool b) \<Rightarrow> b | _ \<Rightarrow> False)"

definition ph_jv_num :: "'d dbl_ops \<Rightarrow> 'd jv option \<Rightarrow> 'd" where
  "ph_jv_num D v = (case v of Some (JNum d) \<Rightarrow> d | _ \<Rightarrow> d_of_nat D 0)"

definition ph_jv_str :: "'d jv option \<Rightarrow> string option" where
  "ph_jv_str v = (case v of Some (JStr s) \<Rightarrow> Some s | _ \<Rightarrow> None)"

definition ph_jv_get :: "'d jv option \<Rightarrow> string \<Rightarrow> 'd jv option" where
  "ph_jv_get v k = (case v of Some (JObj kvs) \<Rightarrow> map_of kvs k | _ \<Rightarrow> None)"

definition ph_jv_len :: "'d jv option \<Rightarrow> nat" where
  "ph_jv_len v = (case v of Some (JArr xs) \<Rightarrow> length xs | Some (JObj kvs) \<Rightarrow> length kvs | _ \<Rightarrow> 0)"

definition ph_jv_at :: "'d jv option \<Rightarrow> int \<Rightarrow> 'd jv option" where
  "ph_jv_at v i =
     (case v of Some (JArr xs) \<Rightarrow> if i < 0 \<or> int (length xs) \<le> i then None else Some (xs ! nat i)
      | _ \<Rightarrow> None)"

definition ph_jv_key_at :: "'d jv option \<Rightarrow> int \<Rightarrow> string option" where
  "ph_jv_key_at v i =
     (case v of Some (JObj kvs) \<Rightarrow> if i < 0 \<or> int (length kvs) \<le> i then None
                                  else Some (fst (kvs ! nat i))
      | _ \<Rightarrow> None)"

definition ph_jv_val_at :: "'d jv option \<Rightarrow> int \<Rightarrow> 'd jv option" where
  "ph_jv_val_at v i =
     (case v of Some (JObj kvs) \<Rightarrow> if i < 0 \<or> int (length kvs) \<le> i then None
                                  else Some (snd (kvs ! nat i))
      | _ \<Rightarrow> None)"

section \<open>Facts: strings\<close>

lemma utf8_valid_Nil [simp]: "utf8_valid []"
  by (simp add: utf8_valid.simps)

lemma utf8_valid_step:
  assumes "s \<noteq> []"
  shows "utf8_valid s \<longleftrightarrow> 0 < utf8_seq_len s \<and> utf8_valid (drop (utf8_seq_len s) s)"
proof -
  let ?c = "byte_val (s ! 0)"
  consider "?c < 0x80" | "0xC2 \<le> ?c" "?c \<le> 0xDF" | "0xE0 \<le> ?c" "?c \<le> 0xEF"
    | "0xF0 \<le> ?c" "?c \<le> 0xF4" | "0x80 \<le> ?c" "?c < 0xC2" | "0xF4 < ?c"
    by linarith
  then show ?thesis
  proof cases
    case 1
    then have "utf8_seq_len s = 1" using assms by (cases s) (auto simp: utf8_seq_len_ascii)
    with assms 1 show ?thesis by (simp add: utf8_valid.simps [of s])
  next
    case 2
    with assms show ?thesis by (simp add: utf8_valid.simps [of s] utf8_seq_len_def)
  next
    case 3
    have "utf8_valid s \<longleftrightarrow> 3 \<le> length s \<and> second_ok ?c (byte_val (s ! 1)) \<and> is_cont (s ! 2) \<and>
        utf8_valid (drop 3 s)"
      using assms 3
      by (simp add: utf8_valid.simps [of s] Let_def second_ok_def is_cont_second not_le not_less
          Suc_le_eq) linarith?
    with assms 3 show ?thesis by (auto simp: utf8_seq_len_eq lead_len_def)
  next
    case 4
    have "utf8_valid s \<longleftrightarrow> 4 \<le> length s \<and> second_ok ?c (byte_val (s ! 1)) \<and> is_cont (s ! 2) \<and>
        is_cont (s ! 3) \<and> utf8_valid (drop 4 s)"
      using assms 4
      by (simp add: utf8_valid.simps [of s] Let_def second_ok_def is_cont_second not_le not_less
          Suc_le_eq) linarith?
    with assms 4 show ?thesis by (auto simp: utf8_seq_len_eq lead_len_def)
  next
    case 5
    with assms show ?thesis by (simp add: utf8_valid.simps [of s] utf8_seq_len_def)
  next
    case 6
    with assms show ?thesis by (simp add: utf8_valid.simps [of s] utf8_seq_len_def)
  qed
qed

lemma utf8_valid_seq_append:
  assumes "0 < utf8_seq_len s"
  shows "utf8_valid (take (utf8_seq_len s) s @ t) \<longleftrightarrow> utf8_valid t"
proof -
  have "take (utf8_seq_len s) s @ t \<noteq> []" using assms utf8_seq_len_le [of s] by auto
  then show ?thesis
    using assms utf8_seq_len_le [of s]
    by (subst utf8_valid_step) (simp_all add: utf8_seq_len_append)
qed

lemma utf8_replacement_seq [simp]: "utf8_seq_len (utf8_replacement @ t) = 3"
  by (simp add: utf8_seq_len_eq utf8_replacement_def lead_len_def second_ok_def is_cont_iff)

lemma utf8_valid_replacement [simp]: "utf8_valid (utf8_replacement @ t) \<longleftrightarrow> utf8_valid t"
proof -
  have "utf8_replacement @ t \<noteq> []" "drop 3 (utf8_replacement @ t) = t"
    by (simp_all add: utf8_replacement_def)
  then show ?thesis by (simp add: utf8_valid_step)
qed

lemma utf8_valid_sanitize: "utf8_valid (utf8_sanitize s)"
proof (induction s rule: utf8_sanitize.induct)
  case (2 c cs)
  then show ?case
    using utf8_valid_seq_append [of "c # cs"] by (simp add: Let_def)
qed simp

lemma utf8_sanitize_valid: "utf8_valid s \<Longrightarrow> utf8_sanitize s = s"
proof (induction s rule: utf8_sanitize.induct)
  case (2 c cs)
  then have v: "0 < utf8_seq_len (c # cs)" "utf8_valid (drop (utf8_seq_len (c # cs)) (c # cs))"
    using utf8_valid_step [of "c # cs"] by auto
  then have "utf8_valid (drop (utf8_seq_len (c # cs) - 1) cs)" by (cases "utf8_seq_len (c # cs)") auto
  with 2 v show ?case by (cases "utf8_seq_len (c # cs)") (simp_all add: Let_def)
qed simp

lemma hex_val_hex_digit [simp]: "n < 16 \<Longrightarrow> hex_val (hex_digit n) = Some n"
  by (auto simp: hex_val_def hex_digit_def Let_def)

lemma hex_val_0 [simp]: "hex_val (CHR ''0'') = Some 0"
  by (simp add: hex_val_def)

lemma hex4_loop_numeral [simp]:
  "hex4_loop (numeral k) v (c # s) =
     (case hex_val c of None \<Rightarrow> None | Some h \<Rightarrow> hex4_loop (pred_numeral k) (16 * v + h) s)"
  by (simp add: numeral_eq_Suc)

lemma parse_u_escape_control:
  assumes "0 < n" "n < 0x20"
  shows "parse_u_escape (CHR ''0'' # CHR ''0'' # hex_digit (n div 16) # hex_digit (n mod 16) # t)
           = Some ([byte_of n], t)"
proof -
  have "n div 16 < 16" using assms by auto
  with assms show ?thesis by (simp add: parse_u_escape_def hex4_def Let_def utf8_encode_def)
qed

lemma simple_escape_u [simp]: "simple_escape (CHR ''u'') = None"
  by (simp add: simple_escape_def)

lemma parse_string_loop_escape:
  assumes "c \<noteq> NUL" "byte_val c < 0x80"
  shows "parse_string_loop out (json_escape c @ t) = parse_string_loop (out @ [c]) t"
proof -
  have "0 < byte_val c" using assms(1) byte_val_inject [of c NUL] by (simp del: byte_val_inject)
  then show ?thesis
    using parse_u_escape_control [of "byte_val c" t]
    by (simp add: json_escape_def simple_escape_def)
qed

lemma parse_string_loop_high:
  assumes "\<And>x. x \<in> set xs \<Longrightarrow> 0x80 \<le> byte_val x"
  shows "parse_string_loop out (xs @ t) = parse_string_loop (out @ xs) t"
  using assms
proof (induction xs arbitrary: out)
  case (Cons x xs)
  from Cons.prems [of x] have "0x80 \<le> byte_val x" by simp
  then have "x \<noteq> QUOTE" "x \<noteq> BSLASH" "0x20 \<le> byte_val x" by auto
  with Cons show ?case by simp
qed simp

lemma parse_string_loop_json_chars:
  "cstr s \<Longrightarrow> parse_string_loop out (json_chars s @ t) = parse_string_loop (out @ utf8_sanitize s) t"
proof (induction s arbitrary: out rule: json_chars.induct)
  case 1
  then show ?case by simp
next
  case (2 c cs)
  let ?n = "utf8_seq_len (c # cs)"
  consider "byte_val c < 0x80" | "0x80 \<le> byte_val c" "0 < ?n" | "0x80 \<le> byte_val c" "?n = 0"
    by linarith
  then show ?case
  proof cases
    case 1
    with 2 show ?thesis by (simp add: utf8_seq_len_ascii parse_string_loop_escape)
  next
    case 2
    have "parse_string_loop out (take ?n (c # cs) @ json_chars (drop (?n - 1) cs) @ t)
            = parse_string_loop (out @ take ?n (c # cs)) (json_chars (drop (?n - 1) cs) @ t)"
      using 2 by (intro parse_string_loop_high) (rule utf8_seq_high)
    with 2 "2.IH"(2) "2.prems" cstr_drop [of cs] show ?thesis by (simp add: Let_def)
  next
    case 3
    have "parse_string_loop out (utf8_replacement @ json_chars cs @ t)
            = parse_string_loop (out @ utf8_replacement) (json_chars cs @ t)"
      by (intro parse_string_loop_high) (auto simp: utf8_replacement_def)
    with 3 "2.IH"(3) "2.prems" show ?thesis by (simp add: Let_def)
  qed
qed

lemma parse_string_raw_json_str:
  assumes "cstr s"
  shows "parse_string_raw (ph_json_str s @ t) = Some (utf8_sanitize s, t)"
  using parse_string_loop_json_chars [OF assms, of "[]" "QUOTE # t"]
  by (simp add: parse_string_raw_def ph_json_str_def utf8_valid_sanitize)

section \<open>Facts: the parser consumes its input and its fuel suffices\<close>

lemma length_skip_ws: "length (skip_ws s) \<le> length s"
  by (simp add: skip_ws_def length_dropWhile_le)

lemma skip_ws_ConsD: "skip_ws s = c # cs \<Longrightarrow> Suc (length cs) \<le> length s"
  using length_skip_ws [of s] by simp

lemma parse_string_loop_shorter:
  "parse_string_loop out s = Some (k, r) \<Longrightarrow> length r < length s"
proof (induction out s rule: parse_string_loop.induct)
  case (2 out c cs)
  then show ?case
    by (auto split: if_splits list.splits option.splits dest: parse_u_escape_shorter)
      (fastforce dest: parse_u_escape_shorter)+
qed simp

lemma parse_string_raw_shorter: "parse_string_raw s = Some (k, r) \<Longrightarrow> length r < length s"
  by (auto simp: parse_string_raw_def split: list.splits if_splits dest!: parse_string_loop_shorter)

lemma int_part_le: "length (snd (int_part D v s)) \<le> length s"
  by (induction D v s rule: int_part.induct) auto

lemma frac_part_le: "length (snd (frac_part D v f s)) \<le> length s"
  by (induction D v f s rule: frac_part.induct) auto

lemma exp_part_le: "length (snd (exp_part e s)) \<le> length s"
  by (induction e s rule: exp_part.induct) auto

lemma parse_frac_le: "parse_frac D v s = Some (w, r) \<Longrightarrow> length r \<le> length s"
  using frac_part_le [of D v "d_tenth D" "tl s"]
  by (auto simp: parse_frac_def split: list.splits if_splits)

lemma parse_exp_le: "parse_exp D v s = Some (w, r) \<Longrightarrow> length r \<le> length s"
  using exp_part_le [of 0 "tl s"] exp_part_le [of 0 "tl (tl s)"]
  by (auto simp: parse_exp_def Let_def split: list.splits if_splits prod.splits)

lemma parse_int_part_shorter: "parse_int_part D s = Some (v, r) \<Longrightarrow> length r < length s"
  using int_part_le [of D _ "tl s"]
  by (auto simp: parse_int_part_def le_imp_less_Suc split: list.splits if_splits
      dest!: arg_cong [where f = snd])

lemma parse_magnitude_shorter: "parse_magnitude D s = Some (v, r) \<Longrightarrow> length r < length s"
  by (auto simp: parse_magnitude_def split: option.splits
      dest!: parse_int_part_shorter parse_frac_le parse_exp_le)

lemma parse_number_shorter: "parse_number D s = Some (v, r) \<Longrightarrow> length r < length s"
  by (auto simp: parse_number_def split: list.splits if_splits dest!: parse_magnitude_shorter)

definition consumes :: "nat \<Rightarrow> 'a pres \<Rightarrow> bool" where
  "consumes n res = (case res of Done v r \<Rightarrow> length r < n | Fail \<Rightarrow> True | Out_of_fuel \<Rightarrow> False)"

lemma consumes_simps [simp]:
  "consumes n (Done v r) \<longleftrightarrow> length r < n" "consumes n Fail" "\<not> consumes n Out_of_fuel"
  by (simp_all add: consumes_def)

lemma consumes_mono: "consumes m res \<Longrightarrow> m \<le> n \<Longrightarrow> consumes n res"
  by (cases res) auto

lemma parse_literal_consumes: "consumes (length s) (parse_literal s)"
  by (auto simp: parse_literal_def prefix_def)

definition value_ok :: "'d dbl_ops \<Rightarrow> nat \<Rightarrow> bool" where
  "value_ok D f \<longleftrightarrow>
     (\<forall>depth s. 2 * length s + 1 \<le> f \<longrightarrow> consumes (length s) (parse_value D f depth s))"

definition array_ok :: "'d dbl_ops \<Rightarrow> nat \<Rightarrow> bool" where
  "array_ok D f \<longleftrightarrow>
     (\<forall>depth acc s. 2 * length s + 2 \<le> f \<longrightarrow> consumes (length s) (array_loop D f depth acc s))"

definition object_ok :: "'d dbl_ops \<Rightarrow> nat \<Rightarrow> bool" where
  "object_ok D f \<longleftrightarrow>
     (\<forall>depth acc s. 2 * length s + 2 \<le> f \<longrightarrow> consumes (length s) (object_loop D f depth acc s))"

lemma value_okD:
  "value_ok D f \<Longrightarrow> 2 * length s + 1 \<le> f \<Longrightarrow> length s \<le> n \<Longrightarrow> consumes n (parse_value D f depth s)"
  unfolding value_ok_def by (blast intro: consumes_mono)

lemma array_okD:
  "array_ok D f \<Longrightarrow> 2 * length s + 2 \<le> f \<Longrightarrow> length s \<le> n \<Longrightarrow> consumes n (array_loop D f depth acc s)"
  unfolding array_ok_def by (blast intro: consumes_mono)

lemma object_okD:
  "object_ok D f \<Longrightarrow> 2 * length s + 2 \<le> f \<Longrightarrow> length s \<le> n \<Longrightarrow> consumes n (object_loop D f depth acc s)"
  unfolding object_ok_def by (blast intro: consumes_mono)

lemma value_ok_Suc:
  assumes "array_ok D f" "object_ok D f"
  shows "value_ok D (Suc f)"
  unfolding value_ok_def
proof (intro allI impI)
  fix depth and s0 :: bytes
  assume f: "2 * length s0 + 1 \<le> Suc f"
  show "consumes (length s0) (parse_value D (Suc f) depth s0)"
  proof (cases "skip_ws s0")
    case (Cons c cs)
    note len = skip_ws_ConsD [OF Cons] and ws = length_skip_ws [of cs]
    have fl: "2 * length (skip_ws cs) + 2 \<le> f" "length (skip_ws cs) \<le> length s0"
      using len ws f by linarith+
    have obj: "consumes (length s0)
        (case skip_ws cs of [] \<Rightarrow> object_loop D f depth [] []
         | d # ds \<Rightarrow> if d = CHR ''}'' then Done (JObj []) ds else object_loop D f depth [] (d # ds))"
      using object_okD [OF assms(2) fl, of depth "[]"] fl by (cases "skip_ws cs") auto
    have arr: "consumes (length s0)
        (case skip_ws cs of [] \<Rightarrow> array_loop D f depth [] []
         | d # ds \<Rightarrow> if d = CHR '']'' then Done (JArr []) ds else array_loop D f depth [] (d # ds))"
      using array_okD [OF assms(1) fl, of depth "[]"] fl by (cases "skip_ws cs") auto
    have lit: "consumes (length s0) (parse_literal (c # cs))"
      by (rule consumes_mono [OF parse_literal_consumes]) (use len in simp)
    have str: "consumes (length s0)
        (case parse_string_raw (c # cs) of None \<Rightarrow> Fail | Some (s, r) \<Rightarrow> Done (JStr s) r)"
      using parse_string_raw_shorter [of "c # cs"] len by (fastforce split: option.split)
    have num: "consumes (length s0)
        (case parse_number D (c # cs) of None \<Rightarrow> Fail | Some (v, r) \<Rightarrow> Done (JNum v) r)"
      using parse_number_shorter [of D "c # cs"] len by (fastforce split: option.split)
    show ?thesis
      by (simp only: parse_value.simps Cons list.case if_distrib [of "consumes (length s0)"]
          obj arr lit str num consumes_simps if_cancel)
  qed simp
qed

lemma array_ok_Suc:
  assumes "value_ok D f" "array_ok D f"
  shows "array_ok D (Suc f)"
  unfolding array_ok_def
proof (intro allI impI)
  fix depth acc and s :: bytes
  assume f: "2 * length s + 2 \<le> Suc f"
  let ?v = "parse_value D f (depth + 1) (skip_ws s)"
  have c: "consumes (length s) ?v"
    using value_okD [OF assms(1), of "skip_ws s" "length s"] f length_skip_ws [of s] by simp
  show "consumes (length s) (array_loop D (Suc f) depth acc s)"
  proof (cases ?v)
    case (Done v r)
    show ?thesis
    proof (cases "skip_ws r")
      case (Cons x xs)
      then have xs: "length xs < length s" "2 * length xs + 2 \<le> f"
        using c Done skip_ws_ConsD [OF Cons] f by auto
      then have "consumes (length s) (array_loop D f depth (acc @ [v]) xs)"
        by (intro array_okD [OF assms(2)]) auto
      with Done Cons xs show ?thesis by simp
    qed (use Done in simp)
  qed (use c in simp_all)
qed

lemma object_ok_Suc:
  assumes "value_ok D f" "object_ok D f"
  shows "object_ok D (Suc f)"
  unfolding object_ok_def
proof (intro allI impI)
  fix depth acc and s :: bytes
  assume f: "2 * length s + 2 \<le> Suc f"
  show "consumes (length s) (object_loop D (Suc f) depth acc s)"
  proof (cases "parse_string_raw (skip_ws s)")
    case (Some kr)
    then obtain k r0 where k: "parse_string_raw (skip_ws s) = Some (k, r0)" by (cases kr) auto
    have r0: "length r0 < length s"
      using parse_string_raw_shorter [OF k] length_skip_ws [of s] by linarith
    show ?thesis
    proof (cases "skip_ws r0")
      case (Cons d ds)
      let ?v = "parse_value D f (depth + 1) (skip_ws ds)"
      have ds: "length (skip_ws ds) < length s"
        using r0 skip_ws_ConsD [OF Cons] length_skip_ws [of ds] by linarith
      then have c: "consumes (length s) ?v"
        using f by (intro value_okD [OF assms(1)]) auto
      show ?thesis
      proof (cases ?v)
        case (Done v r)
        show ?thesis
        proof (cases "skip_ws r")
          case (Cons x xs)
          then have xs: "length xs < length s" "2 * length xs + 2 \<le> f"
            using c Done skip_ws_ConsD [OF Cons] f by auto
          then have "consumes (length s) (object_loop D f depth (acc @ [(k, v)]) xs)"
            by (intro object_okD [OF assms(2)]) auto
          with Done Cons k \<open>skip_ws r0 = d # ds\<close> xs show ?thesis by simp
        qed (use Done k \<open>skip_ws r0 = d # ds\<close> in simp)
      qed (use c k Cons in simp_all)
    qed (simp add: k)
  qed simp
qed

lemma parse_value_enough: "value_ok D f \<and> array_ok D f \<and> object_ok D f"
proof (induction f)
  case 0
  then show ?case by (simp add: value_ok_def array_ok_def object_ok_def)
next
  case (Suc f)
  then show ?case by (simp add: value_ok_Suc array_ok_Suc object_ok_Suc)
qed

section \<open>Facts: what an accepted document looks like\<close>

text \<open>At most \<open>n\<close> further levels of nesting, and every string valid UTF-8 without NUL.\<close>

fun jv_ok :: "nat \<Rightarrow> 'd jv \<Rightarrow> bool" where
  "jv_ok n (JStr s) = (utf8_valid s \<and> cstr s)"
| "jv_ok n (JArr xs) = (\<forall>x \<in> set xs. 0 < n \<and> jv_ok (n - 1) x)"
| "jv_ok n (JObj kvs) =
     (\<forall>kv \<in> set kvs. 0 < n \<and> utf8_valid (fst kv) \<and> cstr (fst kv) \<and> jv_ok (n - 1) (snd kv))"
| "jv_ok n _ = True"

lemma byte_of_or_nonzero:
  assumes "bit (k :: nat) 7"
  shows "byte_of (k OR y) \<noteq> NUL"
proof -
  have "bit (take_bit 8 (k OR y)) 7" using assms by (simp add: bit_take_bit_iff bit_or_iff)
  then have "take_bit 8 (k OR y) \<noteq> 0" by (metis bit_0_eq bot_apply bot_bool_def)
  then show ?thesis by (simp add: take_bit_eq_mod)
qed

lemma utf8_encode_cstr:
  assumes "0 < cp"
  shows "cstr (utf8_encode cp)"
proof -
  have "bit (0xC0 :: nat) 7" "bit (0x80 :: nat) 7" "bit (0xE0 :: nat) 7" "bit (0xF0 :: nat) 7"
    by (simp_all add: bit_iff_odd)
  note this [THEN byte_of_or_nonzero]
  with assms show ?thesis by (simp add: utf8_encode_def del: byte_of_NUL_iff) simp
qed

lemma parse_u_escape_cstr: "parse_u_escape s = Some (u, r) \<Longrightarrow> cstr u"
  by (auto simp: parse_u_escape_def Let_def intro!: utf8_encode_cstr split: if_splits option.splits)

lemma simple_escape_not_NUL: "simple_escape e = Some x \<Longrightarrow> x \<noteq> NUL"
  by (auto simp: simple_escape_def split: if_splits)

lemma parse_string_loop_ok:
  "parse_string_loop out s = Some (k, r) \<Longrightarrow> cstr out \<Longrightarrow> utf8_valid k \<and> cstr k"
proof (induction out s rule: parse_string_loop.induct)
  case (2 out c cs)
  consider "c = QUOTE" | "c = BSLASH" | "c \<noteq> QUOTE" "c \<noteq> BSLASH" by blast
  then show ?case
  proof cases
    case 1
    with 2 show ?thesis by (auto split: if_splits)
  next
    case 2
    then obtain e es where cs: "cs = e # es" using "2.prems" by (cases cs) auto
    show ?thesis
    proof (cases "simple_escape e")
      case None
      then obtain u r' where u: "e = CHR ''u''" "parse_u_escape es = Some (u, r')"
        using "2.prems"(1) 2 cs by (simp split: if_splits option.splits prod.splits)
      then have "parse_string_loop (out @ u) r' = Some (k, r)" "cstr (out @ u)"
        using "2.prems" 2 cs None parse_u_escape_cstr [OF u(2)] by simp_all
      with "2.IH"(1) [OF _ 2 cs None u refl] 2 show ?thesis by simp
    next
      case (Some x)
      then have "parse_string_loop (out @ [x]) es = Some (k, r)" "cstr (out @ [x])"
        using "2.prems" 2 cs simple_escape_not_NUL [OF Some] by simp_all
      with "2.IH"(2) [OF _ 2 cs Some] 2 show ?thesis by simp
    qed
  next
    case 3
    then have "0x20 \<le> byte_val c" using "2.prems"(1) by (auto split: if_splits)
    moreover from this have "c \<noteq> NUL" by auto
    ultimately show ?thesis using 3 "2.IH"(3) "2.prems" by simp
  qed
qed simp

lemma parse_string_raw_ok: "parse_string_raw s = Some (k, r) \<Longrightarrow> utf8_valid k \<and> cstr k"
  by (auto simp: parse_string_raw_def split: list.splits if_splits dest!: parse_string_loop_ok)

definition res_ok :: "nat \<Rightarrow> 'd jv pres \<Rightarrow> bool" where
  "res_ok depth res = (case res of Done v r \<Rightarrow> depth \<le> PH_JV_MAX_DEPTH \<and> jv_ok (PH_JV_MAX_DEPTH - depth) v
     | _ \<Rightarrow> True)"

lemma res_ok_simps [simp]:
  "res_ok depth Fail" "res_ok depth Out_of_fuel"
  "res_ok depth (Done v r) \<longleftrightarrow> depth \<le> PH_JV_MAX_DEPTH \<and> jv_ok (PH_JV_MAX_DEPTH - depth) v"
  by (simp_all add: res_ok_def)

lemma parse_literal_ok: "depth \<le> PH_JV_MAX_DEPTH \<Longrightarrow> res_ok depth (parse_literal s)"
  by (simp add: parse_literal_def)

lemma array_elems_ok:
  "jv_ok n (JArr (acc @ [v])) \<longleftrightarrow> jv_ok n (JArr acc) \<and> 0 < n \<and> jv_ok (n - 1) v"
  by auto

lemma object_elems_ok:
  "jv_ok n (JObj (acc @ [(k, v)])) \<longleftrightarrow>
     jv_ok n (JObj acc) \<and> 0 < n \<and> utf8_valid k \<and> cstr k \<and> jv_ok (n - 1) v"
  by auto

definition loops_ok :: "'d dbl_ops \<Rightarrow> nat \<Rightarrow> bool" where
  "loops_ok D f \<longleftrightarrow> (\<forall>depth acc obj s. depth \<le> PH_JV_MAX_DEPTH \<longrightarrow>
     (jv_ok (PH_JV_MAX_DEPTH - depth) (JArr acc) \<longrightarrow> res_ok depth (array_loop D f depth acc s)) \<and>
     (jv_ok (PH_JV_MAX_DEPTH - depth) (JObj obj) \<longrightarrow> res_ok depth (object_loop D f depth obj s)))"

lemma loops_okD:
  assumes "loops_ok D f" "depth \<le> PH_JV_MAX_DEPTH"
  shows "jv_ok (PH_JV_MAX_DEPTH - depth) (JArr acc) \<Longrightarrow> res_ok depth (array_loop D f depth acc s)"
    "jv_ok (PH_JV_MAX_DEPTH - depth) (JObj obj) \<Longrightarrow> res_ok depth (object_loop D f depth obj s)"
  using assms unfolding loops_ok_def by blast+

lemma value_res_ok:
  assumes "loops_ok D f"
  shows "res_ok depth (parse_value D (Suc f) depth s0)"
proof (cases "skip_ws s0")
  case (Cons c cs)
  show ?thesis
  proof (cases "PH_JV_MAX_DEPTH < depth")
    case False
    then have d: "depth \<le> PH_JV_MAX_DEPTH" by simp
    have obj: "res_ok depth (case skip_ws cs of [] \<Rightarrow> object_loop D f depth [] []
       | d # ds \<Rightarrow> if d = CHR ''}'' then Done (JObj []) ds else object_loop D f depth [] (d # ds))"
      using loops_okD(2) [OF assms d, of "[]"] d by (cases "skip_ws cs") auto
    have arr: "res_ok depth (case skip_ws cs of [] \<Rightarrow> array_loop D f depth [] []
       | d # ds \<Rightarrow> if d = CHR '']'' then Done (JArr []) ds else array_loop D f depth [] (d # ds))"
      using loops_okD(1) [OF assms d, of "[]"] d by (cases "skip_ws cs") auto
    have str: "res_ok depth
        (case parse_string_raw (c # cs) of None \<Rightarrow> Fail | Some (s, r) \<Rightarrow> Done (JStr s) r)"
      using d parse_string_raw_ok [of "c # cs"] by (auto split: option.split)
    have num: "res_ok depth
        (case parse_number D (c # cs) of None \<Rightarrow> Fail | Some (v, r) \<Rightarrow> Done (JNum v) r)"
      using d by (auto split: option.split)
    show ?thesis
      by (simp only: parse_value.simps Cons list.case if_distrib [of "res_ok depth"]
          obj arr str num parse_literal_ok [OF d] res_ok_simps if_cancel)
  qed (simp add: Cons)
qed simp

lemma array_res_ok:
  assumes "loops_ok D f" "\<And>depth s. res_ok depth (parse_value D f depth s)"
    and "depth \<le> PH_JV_MAX_DEPTH" "jv_ok (PH_JV_MAX_DEPTH - depth) (JArr acc)"
  shows "res_ok depth (array_loop D (Suc f) depth acc s)"
proof (cases "parse_value D f (depth + 1) (skip_ws s)")
  case (Done v r)
  with assms(2) [of "depth + 1" "skip_ws s"]
  have acc: "jv_ok (PH_JV_MAX_DEPTH - depth) (JArr (acc @ [v]))"
    using assms(4) unfolding array_elems_ok by simp
  show ?thesis
  proof (cases "skip_ws r")
    case (Cons c cs)
    with Done acc assms(3) loops_okD(1) [OF assms(1,3) acc] show ?thesis by simp
  qed (use Done in simp)
qed simp_all

lemma object_res_ok:
  assumes "loops_ok D f" "\<And>depth s. res_ok depth (parse_value D f depth s)"
    and "depth \<le> PH_JV_MAX_DEPTH" "jv_ok (PH_JV_MAX_DEPTH - depth) (JObj obj)"
  shows "res_ok depth (object_loop D (Suc f) depth obj s)"
proof (cases "parse_string_raw (skip_ws s)")
  case (Some kr)
  then obtain k r0 where k: "parse_string_raw (skip_ws s) = Some (k, r0)" by (cases kr) auto
  show ?thesis
  proof (cases "skip_ws r0")
    case (Cons c cs)
    show ?thesis
    proof (cases "parse_value D f (depth + 1) (skip_ws cs)")
      case (Done v r)
      with assms(2) [of "depth + 1" "skip_ws cs"]
      have acc: "jv_ok (PH_JV_MAX_DEPTH - depth) (JObj (obj @ [(k, v)]))"
        using assms(4) parse_string_raw_ok [OF k] unfolding object_elems_ok by simp
      show ?thesis
        using Done k Cons acc assms(3) loops_okD(2) [OF assms(1,3) acc]
        by (cases "skip_ws r") simp_all
    qed (use k Cons in simp_all)
  qed (simp add: k)
qed simp

lemma parse_value_ok: "(\<forall>depth s. res_ok depth (parse_value D f depth s)) \<and> loops_ok D f"
proof (induction f)
  case 0
  then show ?case by (simp add: loops_ok_def)
next
  case (Suc f)
  then have "loops_ok D (Suc f)"
    unfolding loops_ok_def [of D "Suc f"] using array_res_ok object_res_ok by blast
  with Suc value_res_ok show ?case by blast
qed

section \<open>Properties\<close>

text \<open>Exact rational arithmetic, an instance of the double operations for evaluation.\<close>

definition rat_dbl :: "rat dbl_ops" where
  "rat_dbl = \<lparr>d_of_nat = of_nat, d_tenth = 1 / 10, d_add = (+), d_mul = (*), d_div = (/), d_neg = uminus\<rparr>"

text \<open>
  Strings survive the wire: what the encoder writes for a C string, the parser reads back
  as that string with every malformed byte replaced by U+FFFD; well-formed UTF-8 comes back
  unchanged.
\<close>

theorem jv_string_roundtrip:
  assumes "cstr s"
  shows "ph_jv_parse D (ph_json_str s) = Some (JStr (utf8_sanitize s)) \<and>
         utf8_valid (utf8_sanitize s) \<and> (utf8_valid s \<longrightarrow> utf8_sanitize s = s)"
proof -
  obtain cs where "ph_json_str s = QUOTE # cs" by (simp add: ph_json_str_def)
  moreover have "\<not> is_ws QUOTE" by (simp add: is_ws_def)
  ultimately have "ph_jv_parse D (ph_json_str s) = Some (JStr (utf8_sanitize s))"
    using parse_string_raw_json_str [OF assms, of "[]"]
    by (simp add: ph_jv_parse_def skip_ws_def)
  then show ?thesis by (simp add: utf8_valid_sanitize utf8_sanitize_valid)
qed

theorem jv_string_roundtrip_witness:
  "cstr [CHR ''a'', CHR 0xFF, CHR 0x0A] \<and>
   ph_jv_parse rat_dbl (ph_json_str [CHR ''a'', CHR 0xFF, CHR 0x0A])
     = Some (JStr [CHR ''a'', CHR 0xEF, CHR 0xBF, CHR 0xBD, CHR 0x0A])"
proof -
  have c: "cstr [CHR ''a'', CHR 0xFF, CHR 0x0A]" by simp
  have s: "utf8_sanitize [CHR ''a'', CHR 0xFF, CHR 0x0A] = [CHR ''a'', CHR 0xEF, CHR 0xBF, CHR 0xBD, CHR 0x0A]"
    by (simp add: utf8_seq_len_eq lead_len_def byte_val_def utf8_replacement_def)
  from c jv_string_roundtrip [OF c, of rat_dbl] show ?thesis unfolding s by blast
qed

lemma jv_parse_ok: "ph_jv_parse D s = Some v \<Longrightarrow> jv_ok PH_JV_MAX_DEPTH v"
proof -
  have "res_ok 0 (parse_value D (2 * length s + 1) 0 s)" using parse_value_ok by blast
  then show "ph_jv_parse D s = Some v \<Longrightarrow> jv_ok PH_JV_MAX_DEPTH v"
    by (auto simp: ph_jv_parse_def split: pres.splits if_splits)
qed

text \<open>
  C24. Parsing any input terminates within the fuel it starts with, and an accepted document
  nests at most \<open>PH_JV_MAX_DEPTH\<close> containers and holds only valid UTF-8 strings without NUL,
  whatever bytes the server sent.
\<close>

theorem jv_parse_safe:
  "parse_value D (2 * length s + 1) 0 s \<noteq> Out_of_fuel \<and>
   (\<forall>v. ph_jv_parse D s = Some v \<longrightarrow> jv_ok PH_JV_MAX_DEPTH v)"
proof
  have "consumes (length s) (parse_value D (2 * length s + 1) 0 s)"
    using parse_value_enough [of D "2 * length s + 1"] value_okD by blast
  then show "parse_value D (2 * length s + 1) 0 s \<noteq> Out_of_fuel" by auto
  show "\<forall>v. ph_jv_parse D s = Some v \<longrightarrow> jv_ok PH_JV_MAX_DEPTH v" using jv_parse_ok by blast
qed

theorem jv_parse_safe_witness:
  "ph_jv_parse rat_dbl ''[null, \"a\"]'' = Some (JArr [JNull, JStr ''a'']) \<and>
   jv_ok PH_JV_MAX_DEPTH (JArr [JNull, JStr ''a''] :: rat jv)"
proof -
  have p: "ph_jv_parse rat_dbl ''[null, \"a\"]'' = Some (JArr [JNull, JStr ''a''])"
    by code_simp
  with jv_parse_safe [of rat_dbl "''[null, \"a\"]''"] show ?thesis by blast
qed

end
