(* ===== verification/Json_Text.thy ===== *)
theory Json_Text
  imports Ph_Jsonval
begin

text \<open>
  JSON documents as trees: their text, written with the encoder of theory \<open>Ph_Json\<close>, and the
  proof that the parser of theory \<open>Ph_Jsonval\<close> reads the text back. The serializer's
  output is shown to be the text of such a tree in theory \<open>Ph_Serialize\<close>.
\<close>

section \<open>The text of a tree\<close>

text \<open>
  The documents the SDK writes, as trees: \<open>jt_print\<close> is their text, built with the encoder,
  and \<open>jt_read\<close> the node tree a reader should get. Number leaves carry their text.
\<close>

datatype jt =
    TNull
  | TBool bool
  | TNum string
  | TStr string
  | TArr "jt list"
  | TObj "(string \<times> jt) list"

fun commas :: "bytes list \<Rightarrow> bytes" where
  "commas [] = []"
| "commas [x] = x"
| "commas (x # y # zs) = x @ CHR '','' # commas (y # zs)"

fun jt_print :: "jt \<Rightarrow> bytes" where
  "jt_print TNull = ''null''"
| "jt_print (TBool b) = (if b then ''true'' else ''false'')"
| "jt_print (TNum s) = s"
| "jt_print (TStr s) = ph_json_str s"
| "jt_print (TArr xs) = CHR ''['' # commas (map jt_print xs) @ '']''"
| "jt_print (TObj kvs) =
     CHR ''{'' # commas (map (\<lambda>kv. ph_json_str (fst kv) @ CHR '':'' # jt_print (snd kv)) kvs) @ ''}''"

definition json_digits :: "string \<Rightarrow> bool" where
  "json_digits s \<longleftrightarrow> s \<noteq> [] \<and> list_all is_digit s"

text \<open>The number grammar of RFC 8259: integer part, optional fraction, optional exponent.\<close>

definition json_number :: "string \<Rightarrow> bool" where
  "json_number s \<longleftrightarrow> (\<exists>sign i fr ex.
     s = sign @ i @ fr @ ex \<and> sign \<in> {[], ''-''} \<and>
     (i = ''0'' \<or> json_digits i \<and> hd i \<noteq> CHR ''0'') \<and>
     (fr = [] \<or> (\<exists>ds. fr = CHR ''.'' # ds \<and> json_digits ds)) \<and>
     (ex = [] \<or> (\<exists>e sg ds. ex = e # sg @ ds \<and> e \<in> {CHR ''e'', CHR ''E''} \<and>
                   sg \<in> {[], ''+'', ''-''} \<and> json_digits ds)))"

fun jt_wf :: "jt \<Rightarrow> bool" where
  "jt_wf TNull = True"
| "jt_wf (TBool b) = True"
| "jt_wf (TNum s) = json_number s"
| "jt_wf (TStr s) = cstr s"
| "jt_wf (TArr xs) = (\<forall>x \<in> set xs. jt_wf x)"
| "jt_wf (TObj kvs) = (\<forall>kv \<in> set kvs. cstr (fst kv) \<and> jt_wf (snd kv))"

fun jt_depth :: "jt \<Rightarrow> nat" where
  "jt_depth (TArr xs) = (if xs = [] then 0 else Suc (Max (set (map jt_depth xs))))"
| "jt_depth (TObj kvs) = (if kvs = [] then 0 else Suc (Max (set (map (\<lambda>kv. jt_depth (snd kv)) kvs))))"
| "jt_depth _ = 0"

fun jt_read :: "'d dbl_ops \<Rightarrow> jt \<Rightarrow> 'd jv" where
  "jt_read D TNull = JNull"
| "jt_read D (TBool b) = JBool b"
| "jt_read D (TNum s) = JNum (fst (the (parse_number D s)))"
| "jt_read D (TStr s) = JStr (utf8_sanitize s)"
| "jt_read D (TArr xs) = JArr (map (jt_read D) xs)"
| "jt_read D (TObj kvs) = JObj (map (\<lambda>kv. (utf8_sanitize (fst kv), jt_read D (snd kv))) kvs)"

definition num_end :: "bytes \<Rightarrow> bool" where
  "num_end r \<longleftrightarrow> (case r of [] \<Rightarrow> True
     | c # cs \<Rightarrow> \<not> is_digit c \<and> c \<noteq> CHR ''.'' \<and> c \<noteq> CHR ''e'' \<and> c \<noteq> CHR ''E'')"

section \<open>Facts: numbers are read back\<close>

lemma int_part_digits:
  "list_all is_digit ds \<Longrightarrow> \<not> starts_digit r \<Longrightarrow> int_part D v (ds @ r) = (fst (int_part D v ds), r)"
  by (induction ds arbitrary: v) (auto simp: starts_digit_def split: list.splits)

lemma frac_part_digits:
  "list_all is_digit ds \<Longrightarrow> \<not> starts_digit r \<Longrightarrow>
     frac_part D v f (ds @ r) = (fst (frac_part D v f ds), r)"
  by (induction ds arbitrary: v f) (auto simp: starts_digit_def split: list.splits)

lemma exp_part_digits:
  "list_all is_digit ds \<Longrightarrow> \<not> starts_digit r \<Longrightarrow> exp_part e (ds @ r) = (fst (exp_part e ds), r)"
  by (induction ds arbitrary: e) (auto simp: starts_digit_def split: list.splits)

lemma starts_digit_simps [simp]:
  "\<not> starts_digit []" "starts_digit (c # cs) = is_digit c"
  by (simp_all add: starts_digit_def)

lemma starts_digit_digits: "json_digits ds \<Longrightarrow> starts_digit (ds @ r)"
  by (cases ds) (simp_all add: json_digits_def)

lemma is_digit_literals [simp]:
  "\<not> is_digit (CHR ''.'')" "\<not> is_digit (CHR ''e'')" "\<not> is_digit (CHR ''E'')"
  "\<not> is_digit (CHR ''-'')" "\<not> is_digit (CHR ''+'')" "is_digit (CHR ''0'')"
  "\<not> is_digit (CHR '','')" "\<not> is_digit (CHR '']'')" "\<not> is_digit (CHR ''}'')"
  by (simp_all add: is_digit_def byte_val_def)

lemma num_end_not_digit: "num_end r \<Longrightarrow> \<not> starts_digit r"
  by (cases r) (simp_all add: num_end_def)

lemma parse_exp_text:
  assumes "ex = [] \<or> (\<exists>e sg ds. ex = e # sg @ ds \<and> e \<in> {CHR ''e'', CHR ''E''} \<and>
             sg \<in> {[], ''+'', ''-''} \<and> json_digits ds)"
    and "num_end r"
  shows "\<exists>w. \<forall>t \<in> {[], r}. parse_exp D v (ex @ t) = Some (w, t)"
  using assms(1)
proof
  assume "ex = []"
  then show ?thesis using assms(2) by (auto simp: parse_exp_def num_end_def split: list.splits)
next
  assume "\<exists>e sg ds. ex = e # sg @ ds \<and> e \<in> {CHR ''e'', CHR ''E''} \<and>
             sg \<in> {[], ''+'', ''-''} \<and> json_digits ds"
  then obtain e sg ds where ex: "ex = e # sg @ ds" "e \<in> {CHR ''e'', CHR ''E''}"
    "sg \<in> {[], ''+'', ''-''}" "json_digits ds" by blast
  obtain d0 ds' where ds: "ds = d0 # ds'" "is_digit d0" using ex(4) by (cases ds) (auto simp: json_digits_def)
  then have d0: "d0 \<noteq> CHR ''+''" "d0 \<noteq> CHR ''-''" by auto
  have ep: "exp_part 0 (ds @ t) = (fst (exp_part 0 ds), t)" if "t \<in> {[], r}" for t
    using that ex(4) num_end_not_digit [OF assms(2)] by (intro exp_part_digits) (auto simp: json_digits_def)
  have "parse_exp D v (ex @ t) = Some (scale_exp D (sg = ''-'') (fst (exp_part 0 ds)) v, t)"
    if "t \<in> {[], r}" for t
    using ex(1-3) ds d0 ep [OF that] by (auto simp: parse_exp_def simp del: exp_part.simps)
  then show ?thesis by blast
qed

lemma parse_frac_text:
  assumes "fr = [] \<or> (\<exists>ds. fr = CHR ''.'' # ds \<and> json_digits ds)"
  shows "\<exists>w. \<forall>t. \<not> starts_digit t \<and> (t = [] \<or> hd t \<noteq> CHR ''.'') \<longrightarrow> parse_frac D v (fr @ t) = Some (w, t)"
  using assms
proof
  assume "fr = []"
  then show ?thesis by (auto simp: parse_frac_def split: list.splits)
next
  assume "\<exists>ds. fr = CHR ''.'' # ds \<and> json_digits ds"
  then obtain ds where fr: "fr = CHR ''.'' # ds" "json_digits ds" by blast
  then have "parse_frac D v (fr @ t) = Some (fst (frac_part D v (d_tenth D) ds), t)"
    if "\<not> starts_digit t" for t
    using that starts_digit_digits [OF fr(2), of t] frac_part_digits [of ds t D v "d_tenth D"]
    by (simp add: parse_frac_def json_digits_def)
  then show ?thesis by blast
qed

lemma parse_int_part_text:
  assumes "i = ''0'' \<or> json_digits i \<and> hd i \<noteq> CHR ''0''" "\<not> starts_digit t"
  shows "parse_int_part D (i @ t) =
           Some (if i = ''0'' then d_of_nat D 0 else fst (int_part D (d_of_nat D 0) i), t)"
  using assms int_part_digits [of i t D "d_of_nat D 0"]
  by (cases i) (auto simp: parse_int_part_def json_digits_def)

lemma parse_number_text:
  assumes "json_number s" "num_end r"
  shows "parse_number D (s @ r) = Some (fst (the (parse_number D s)), r)"
proof -
  obtain sign i fr ex where s: "s = sign @ i @ fr @ ex" and sign: "sign \<in> {[], ''-''}"
    and i: "i = ''0'' \<or> json_digits i \<and> hd i \<noteq> CHR ''0''"
    and fr: "fr = [] \<or> (\<exists>ds. fr = CHR ''.'' # ds \<and> json_digits ds)"
    and ex: "ex = [] \<or> (\<exists>e sg ds. ex = e # sg @ ds \<and> e \<in> {CHR ''e'', CHR ''E''} \<and>
                   sg \<in> {[], ''+'', ''-''} \<and> json_digits ds)"
    using assms(1) unfolding json_number_def by blast
  let ?v1 = "if i = ''0'' then d_of_nat D 0 else fst (int_part D (d_of_nat D 0) i)"
  obtain v2 where v2: "\<And>t. \<not> starts_digit t \<Longrightarrow> t = [] \<or> hd t \<noteq> CHR ''.'' \<Longrightarrow>
      parse_frac D ?v1 (fr @ t) = Some (v2, t)"
    using parse_frac_text [OF fr, of D ?v1] by blast
  obtain v3 where v3: "\<And>t. t \<in> {[], r} \<Longrightarrow> parse_exp D v2 (ex @ t) = Some (v3, t)"
    using parse_exp_text [OF ex assms(2), of D v2] by blast
  have tail: "\<not> starts_digit (ex @ t)" "ex @ t = [] \<or> hd (ex @ t) \<noteq> CHR ''.''"
    "\<not> starts_digit (fr @ ex @ t)" if "t \<in> {[], r}" for t
    using that ex fr assms(2) by (auto simp: num_end_def split: list.splits)
  have mag: "parse_magnitude D (i @ fr @ ex @ t) = Some (v3, t)" if "t \<in> {[], r}" for t
    using parse_int_part_text [OF i tail(3) [OF that], of D] v2 [OF tail(1,2) [OF that]] v3 [OF that]
    by (simp add: parse_magnitude_def)
  have hd: "i = c # cs \<Longrightarrow> c \<noteq> CHR ''-''" "i \<noteq> []" for c cs
    using i by (auto simp: json_digits_def)
  then show ?thesis
    using sign mag [of "[]"] mag [of r] s
    by (cases i) (auto simp: parse_number_def)
qed

section \<open>Facts: printed trees are read back\<close>

lemma skip_ws_Cons [simp]: "\<not> is_ws c \<Longrightarrow> skip_ws (c # cs) = c # cs"
  by (simp add: skip_ws_def)

lemma skip_ws_Nil [simp]: "skip_ws [] = []"
  by (simp add: skip_ws_def)

lemma skip_ws_idem [simp]: "skip_ws (skip_ws s) = skip_ws s"
  by (simp add: skip_ws_def)

lemma parse_value_skip_ws [simp]: "parse_value D f depth (skip_ws s) = parse_value D f depth s"
  by (cases f) simp_all

lemma is_ws_literals [simp]:
  "\<not> is_ws QUOTE" "\<not> is_ws (CHR ''{'')" "\<not> is_ws (CHR ''}'')" "\<not> is_ws (CHR ''['')"
  "\<not> is_ws (CHR '']'')" "\<not> is_ws (CHR '','')" "\<not> is_ws (CHR '':'')" "\<not> is_ws (CHR ''-'')"
  "\<not> is_ws (CHR ''t'')" "\<not> is_ws (CHR ''f'')" "\<not> is_ws (CHR ''n'')"
  by (simp_all add: is_ws_def)

lemma is_digit_not_ws: "is_digit c \<Longrightarrow> \<not> is_ws c"
  by (auto simp: is_digit_def is_ws_def byte_val_def)

lemma num_end_literals [simp]:
  "num_end []" "num_end (CHR '','' # r)" "num_end (CHR '']'' # r)" "num_end (CHR ''}'' # r)"
  by (simp_all add: num_end_def)

lemma json_number_head:
  assumes "json_number s"
  obtains c cs where "s = c # cs" "c = CHR ''-'' \<or> is_digit c"
proof -
  from assms obtain sign i t where "s = sign @ i @ t" "sign \<in> {[], ''-''}"
    "i = ''0'' \<or> json_digits i" unfolding json_number_def by blast
  then have "\<exists>c cs. s = c # cs \<and> (c = CHR ''-'' \<or> is_digit c)"
    by (cases i) (auto simp: json_digits_def)
  with that show ?thesis by blast
qed

lemma jt_print_head:
  assumes "jt_wf t"
  obtains c cs where "jt_print t = c # cs" "\<not> is_ws c" "c \<noteq> CHR '']''"
proof -
  have "\<exists>c cs. jt_print t = c # cs \<and> \<not> is_ws c \<and> c \<noteq> CHR '']''"
  proof (cases t)
    case (TNum s)
    with assms obtain c cs where "s = c # cs" "c = CHR ''-'' \<or> is_digit c"
      using json_number_head by auto
    with TNum show ?thesis by (auto simp: is_digit_not_ws)
  qed (simp_all add: ph_json_str_def)
  with that show ?thesis by blast
qed

lemma skip_ws_print: "jt_wf t \<Longrightarrow> skip_ws (jt_print t @ r) = jt_print t @ r"
  by (erule jt_print_head) simp

definition reads_back :: "'d dbl_ops \<Rightarrow> jt \<Rightarrow> bool" where
  "reads_back D t \<longleftrightarrow> (\<forall>f depth r. depth + jt_depth t \<le> PH_JV_MAX_DEPTH \<longrightarrow> num_end r \<longrightarrow>
     2 * length (jt_print t) + 1 \<le> f \<longrightarrow> parse_value D f depth (jt_print t @ r) = Done (jt_read D t) r)"

lemma reads_backD:
  "reads_back D t \<Longrightarrow> depth + jt_depth t \<le> PH_JV_MAX_DEPTH \<Longrightarrow> num_end r \<Longrightarrow>
     2 * length (jt_print t) + 1 \<le> f \<Longrightarrow> parse_value D f depth (jt_print t @ r) = Done (jt_read D t) r"
  unfolding reads_back_def by blast

lemma jt_depth_arr: "x \<in> set xs \<Longrightarrow> Suc (jt_depth x) \<le> jt_depth (TArr xs)"
  by (auto intro!: Max_ge)

lemma jt_depth_obj: "kv \<in> set kvs \<Longrightarrow> Suc (jt_depth (snd kv)) \<le> jt_depth (TObj kvs)"
  by (auto intro!: Max_ge)

lemma array_loop_print:
  assumes "xs \<noteq> []" "\<And>x. x \<in> set xs \<Longrightarrow> reads_back D x \<and> depth + 1 + jt_depth x \<le> PH_JV_MAX_DEPTH"
    and "2 * length (commas (map jt_print xs)) + 2 \<le> f"
  shows "array_loop D f depth acc (commas (map jt_print xs) @ CHR '']'' # r)
           = Done (JArr (acc @ map (jt_read D) xs)) r"
  using assms
proof (induction xs arbitrary: acc f)
  case Nil
  then show ?case by simp
next
  case (Cons x xs)
  from Cons.prems(3) obtain f' where f: "f = Suc f'" by (cases f) auto
  have x: "parse_value D f' (depth + 1) (jt_print x @ t) = Done (jt_read D x) t"
    if "num_end t" for t
    using that Cons.prems f by (cases xs) (auto intro!: reads_backD)
  show ?case
  proof (cases xs)
    case Nil
    with x [of "CHR '']'' # r"] f show ?thesis by simp
  next
    case (Cons y ys)
    have "array_loop D f' depth (acc @ [jt_read D x]) (commas (map jt_print xs) @ CHR '']'' # r)
        = Done (JArr ((acc @ [jt_read D x]) @ map (jt_read D) xs)) r"
      using Cons Cons.prems f by (intro Cons.IH) auto
    with Cons x [of "CHR '','' # commas (map jt_print xs) @ CHR '']'' # r"] f show ?thesis by simp
  qed
qed

abbreviation member_print :: "string \<times> jt \<Rightarrow> bytes" where
  "member_print kv \<equiv> ph_json_str (fst kv) @ CHR '':'' # jt_print (snd kv)"

lemma skip_ws_json_str [simp]: "skip_ws (ph_json_str s @ r) = ph_json_str s @ r"
  by (simp add: ph_json_str_def)

lemma object_loop_print:
  assumes "kvs \<noteq> []"
    and "\<And>kv. kv \<in> set kvs \<Longrightarrow>
      cstr (fst kv) \<and> reads_back D (snd kv) \<and> depth + 1 + jt_depth (snd kv) \<le> PH_JV_MAX_DEPTH"
    and "2 * length (commas (map member_print kvs)) + 2 \<le> f"
  shows "object_loop D f depth acc (commas (map member_print kvs) @ CHR ''}'' # r)
           = Done (JObj (acc @ map (\<lambda>kv. (utf8_sanitize (fst kv), jt_read D (snd kv))) kvs)) r"
  using assms
proof (induction kvs arbitrary: acc f)
  case Nil
  then show ?case by simp
next
  case (Cons kv kvs)
  obtain k x where kv: "kv = (k, x)" by (cases kv)
  from Cons.prems(3) obtain f' where f: "f = Suc f'" by (cases f) auto
  have x: "parse_value D f' (depth + 1) (jt_print x @ t) = Done (jt_read D x) t"
    if "num_end t" for t
  proof (rule reads_backD [OF _ _ that])
    show "reads_back D x" "depth + 1 + jt_depth x \<le> PH_JV_MAX_DEPTH"
      using Cons.prems(2) [of kv] kv by simp_all
    show "2 * length (jt_print x) + 1 \<le> f'"
      using Cons.prems(3) f kv by (cases kvs) simp_all
  qed
  have k: "parse_string_raw (ph_json_str k @ t) = Some (utf8_sanitize k, t)" for t
    using Cons.prems(2) [of kv] kv by (simp add: parse_string_raw_json_str)
  show ?case
  proof (cases kvs)
    case Nil
    with x [of "CHR ''}'' # r"] k f kv show ?thesis by simp
  next
    case (Cons y ys)
    let ?acc = "acc @ [(utf8_sanitize k, jt_read D x)]"
    have "object_loop D f' depth ?acc (commas (map member_print kvs) @ CHR ''}'' # r)
        = Done (JObj (?acc @ map (\<lambda>kv. (utf8_sanitize (fst kv), jt_read D (snd kv))) kvs)) r"
      using Cons Cons.prems f by (intro Cons.IH) auto
    with Cons x [of "CHR '','' # commas (map member_print kvs) @ CHR ''}'' # r"] k f kv
    show ?thesis by simp
  qed
qed

lemma reads_backI:
  assumes "\<And>f depth r. depth + jt_depth t \<le> PH_JV_MAX_DEPTH \<Longrightarrow> num_end r \<Longrightarrow>
     2 * length (jt_print t) \<le> f \<Longrightarrow> parse_value D (Suc f) depth (jt_print t @ r) = Done (jt_read D t) r"
  shows "reads_back D t"
  unfolding reads_back_def
proof (intro allI impI)
  fix f depth r
  assume "depth + jt_depth t \<le> PH_JV_MAX_DEPTH" "num_end r" "2 * length (jt_print t) + 1 \<le> f"
  then show "parse_value D f depth (jt_print t @ r) = Done (jt_read D t) r"
    using assms [of depth r "f - 1"] by (cases f) auto
qed

lemma commas_head: "xs \<noteq> [] \<Longrightarrow> hd xs = c # cs \<Longrightarrow> \<exists>t. commas xs = c # t"
  by (cases xs rule: commas.cases) auto

lemma reads_back_arr:
  assumes "\<And>x. x \<in> set xs \<Longrightarrow> reads_back D x \<and> jt_wf x"
  shows "reads_back D (TArr xs)"
proof (rule reads_backI)
  fix f depth r
  assume d: "depth + jt_depth (TArr xs) \<le> PH_JV_MAX_DEPTH"
    and f: "2 * length (jt_print (TArr xs)) \<le> f"
  show "parse_value D (Suc f) depth (jt_print (TArr xs) @ r) = Done (jt_read D (TArr xs)) r"
  proof (cases xs)
    case Nil
    with d show ?thesis by simp
  next
    case (Cons x ys)
    obtain c cs where "jt_print x = c # cs" and c: "\<not> is_ws c" "c \<noteq> CHR '']''"
      using assms [of x] Cons jt_print_head by auto
    then obtain t where t: "commas (map jt_print xs) = c # t"
      using commas_head [of "map jt_print xs"] Cons by auto
    have "array_loop D f depth [] (commas (map jt_print xs) @ CHR '']'' # r)
        = Done (JArr ([] @ map (jt_read D) xs)) r"
    proof (rule array_loop_print)
      show "reads_back D m \<and> depth + 1 + jt_depth m \<le> PH_JV_MAX_DEPTH" if "m \<in> set xs" for m
        using assms [OF that] jt_depth_arr [OF that] d by linarith
    qed (use f Cons in simp_all)
    with t c d show ?thesis by simp
  qed
qed

lemma reads_back_obj:
  assumes "\<And>kv. kv \<in> set kvs \<Longrightarrow> cstr (fst kv) \<and> reads_back D (snd kv)"
  shows "reads_back D (TObj kvs)"
proof (rule reads_backI)
  fix f depth r
  assume d: "depth + jt_depth (TObj kvs) \<le> PH_JV_MAX_DEPTH"
    and f: "2 * length (jt_print (TObj kvs)) \<le> f"
  show "parse_value D (Suc f) depth (jt_print (TObj kvs) @ r) = Done (jt_read D (TObj kvs)) r"
  proof (cases kvs)
    case Nil
    with d show ?thesis by simp
  next
    case (Cons kv ys)
    obtain t where t: "commas (map member_print kvs) = QUOTE # t"
      using commas_head [of "map member_print kvs"] Cons by (auto simp: ph_json_str_def)
    have "object_loop D f depth [] (commas (map member_print kvs) @ CHR ''}'' # r)
        = Done (JObj ([] @ map (\<lambda>kv. (utf8_sanitize (fst kv), jt_read D (snd kv))) kvs)) r"
    proof (rule object_loop_print)
      show "cstr (fst m) \<and> reads_back D (snd m) \<and> depth + 1 + jt_depth (snd m) \<le> PH_JV_MAX_DEPTH"
        if "m \<in> set kvs" for m
        using assms [OF that] jt_depth_obj [OF that] d by linarith
    qed (use f Cons in simp_all)
    with t d show ?thesis by simp
  qed
qed

lemma reads_back_num:
  assumes "json_number s"
  shows "reads_back D (TNum s)"
proof (rule reads_backI)
  fix f depth r
  assume d: "depth + jt_depth (TNum s) \<le> PH_JV_MAX_DEPTH" and r: "num_end r"
    and f: "2 * length (jt_print (TNum s)) \<le> f"
  obtain c cs where s: "s = c # cs" "c = CHR ''-'' \<or> is_digit c" using json_number_head [OF assms] .
  then have "\<not> is_ws c" "c \<noteq> CHR ''{''" "c \<noteq> CHR ''[''" "c \<noteq> QUOTE" "c \<noteq> CHR ''t''" "c \<noteq> CHR ''f''"
    "c \<noteq> CHR ''n''"
    using is_digit_not_ws by (fastforce simp: is_digit_def byte_val_def)+
  with s parse_number_text [OF assms r, of D] d
  show "parse_value D (Suc f) depth (jt_print (TNum s) @ r) = Done (jt_read D (TNum s)) r"
    by simp
qed

lemma reads_back_str:
  assumes "cstr s"
  shows "reads_back D (TStr s)"
proof (rule reads_backI)
  fix f depth r
  assume d: "depth + jt_depth (TStr s) \<le> PH_JV_MAX_DEPTH"
    and f: "2 * length (jt_print (TStr s)) \<le> f"
  obtain cs where "ph_json_str s @ r = QUOTE # cs" by (simp add: ph_json_str_def)
  with parse_string_raw_json_str [OF assms, of r] d
  show "parse_value D (Suc f) depth (jt_print (TStr s) @ r) = Done (jt_read D (TStr s)) r"
    by simp
qed

lemma reads_back_lit: "reads_back D TNull" "reads_back D (TBool b)"
  by (rule reads_backI, simp add: parse_literal_def)+

lemma jt_reads_back: "jt_wf t \<Longrightarrow> reads_back D t"
proof (induction t rule: jt_wf.induct)
  case (5 xs)
  then show ?case by (intro reads_back_arr) auto
next
  case (6 kvs)
  then show ?case by (intro reads_back_obj) auto
qed (simp_all add: reads_back_lit reads_back_num reads_back_str)

lemma parse_printed:
  assumes "jt_wf t" "jt_depth t \<le> PH_JV_MAX_DEPTH"
  shows "ph_jv_parse D (jt_print t) = Some (jt_read D t)"
proof -
  have "parse_value D (2 * length (jt_print t) + 1) 0 (jt_print t @ []) = Done (jt_read D t) []"
    using assms by (intro reads_backD jt_reads_back) simp_all
  then show ?thesis by (simp add: ph_jv_parse_def del: parse_value.simps)
qed

section \<open>Properties\<close>

text \<open>
  C23. Every document whose nesting stays within the parser's limit is read back as the tree
  it was written from.
\<close>

theorem jv_parse_printed:
  assumes "jt_wf t" "jt_depth t \<le> PH_JV_MAX_DEPTH"
  shows "ph_jv_parse D (jt_print t) = Some (jt_read D t)"
  using assms by (rule parse_printed)

theorem jv_parse_printed_witness:
  "ph_jv_parse rat_dbl (jt_print (TObj [(''batch'', TArr [TBool True, TNull])]))
     = Some (JObj [(''batch'', JArr [JBool True, JNull])])"
proof -
  let ?t = "TObj [(''batch'', TArr [TBool True, TNull])]"
  have "jt_wf ?t" "jt_depth ?t \<le> PH_JV_MAX_DEPTH" by (simp_all add: caps)
  from jv_parse_printed [OF this, of rat_dbl] show ?thesis
    by (simp add: utf8_seq_len_eq lead_len_def byte_val_def)
qed

end
