(* ===== verification/Ph_Serialize.thy ===== *)
theory Ph_Serialize imports Ph_Internal Json_Text
begin

text \<open>
  The wire serializer of \<^verbatim>\<open>src/src/ph_serialize.c\<close>: an event record becomes one member of the
  batch request body. The C functions append to a string buffer and share a flag that says
  whether the object being written is still empty; the model threads the same pair, a
  \<open>sink\<close>. The second part gives the abstract content of each document as a tree and shows
  that what is written is exactly the canonical text of that tree, from which follow that a body
  parses back, that the keys the SDK owns are not shadowed, and that it is one line of text.
\<close>

section \<open>Platform tags\<close>

definition PH_VERSION_STRING :: string where "PH_VERSION_STRING = ''0.1.0''"

text \<open>The native build on x86-64 Linux.\<close>

definition platform_os :: string where "platform_os = ''Linux''"
definition platform_arch :: string where "platform_arch = ''x86_64''"
definition backend_tag :: string where "backend_tag = ''native''"

section \<open>Emitters\<close>

text \<open>The output buffer with the \<open>first\<close> flag of the object being written.\<close>

type_synonym sink = "bytes \<times> bool"

definition comma :: "sink \<Rightarrow> sink" where
  "comma s = (if snd s then (fst s, False) else (fst s @ '','', False))"

definition put :: "bytes \<Rightarrow> sink \<Rightarrow> sink" where
  "put b s = (fst s @ b, snd s)"

definition emit_scalar_value :: "double_libc \<Rightarrow> nat \<Rightarrow> bytes \<Rightarrow> bytes" where
  "emit_scalar_value L ty v =
     (if ty = 0 then ph_json_str v
      else if ty = 1 then ph_json_double L (if length v = 8 then of_nat (le_val v) else 0)
      else if ty = 2 then ph_json_int (if length v = 8 then of_nat (le_val v) else 0)
      else if ty = 3 then ph_json_bool (if 1 \<le> length v then int (byte_val (v ! 0)) else 0)
      else ''null'')"

definition emit_kv_cstr :: "string \<Rightarrow> string \<Rightarrow> sink \<Rightarrow> sink" where
  "emit_kv_cstr k v s = put (ph_json_cstr (Some v)) (put '':'' (put (ph_json_cstr (Some k)) (comma s)))"

definition key_is :: "bytes \<Rightarrow> string \<Rightarrow> bool" where
  "key_is k lit \<longleftrightarrow> k = lit"

definition k_sdk_owned_top_level :: "string list" where
  "k_sdk_owned_top_level =
     [''distinct_id'', ''$lib'', ''$lib_version'', ''$lib_backend'', ''$process_person_profile'',
      ''$groups'', ''$group_set'', ''$group_type'', ''$group_key'']"

definition key_is_sdk_owned_top_level :: "bytes \<Rightarrow> bool" where
  "key_is_sdk_owned_top_level k \<longleftrightarrow> list_ex (key_is k) k_sdk_owned_top_level"

definition ph__props_strip_sdk_owned_top_level :: "ph_props \<Rightarrow> ph_props" where
  "ph__props_strip_sdk_owned_top_level p = foldl ph_props_remove_key p k_sdk_owned_top_level"

definition emit_scalar_entry :: "double_libc \<Rightarrow> bool \<Rightarrow> bool \<Rightarrow> nat \<times> bytes \<times> bytes \<Rightarrow> sink \<Rightarrow> sink" where
  "emit_scalar_entry L skip_geoip skip_owned e s =
     (case e of (ty, k, v) \<Rightarrow>
        if ty = PH_PK_GROUP then s
        else if skip_geoip \<and> key_is k ''$geoip_disable'' then s
        else if skip_owned \<and> key_is_sdk_owned_top_level k then s
        else put (if ty = PH_PK_RAWJSON then v else emit_scalar_value L ty v)
               (put '':'' (put (ph_json_str k) (comma s))))"

definition emit_scalar_entries :: "double_libc \<Rightarrow> bytes \<Rightarrow> bool \<Rightarrow> bool \<Rightarrow> sink \<Rightarrow> sink" where
  "emit_scalar_entries L blob skip_geoip skip_owned s =
     fold (emit_scalar_entry L skip_geoip skip_owned) (blob_entries blob) s"

definition blob_has_scalar_key :: "bytes \<Rightarrow> string \<Rightarrow> bool" where
  "blob_has_scalar_key blob wanted \<longleftrightarrow>
     list_ex (\<lambda>(ty, k, v). ty \<le> 3 \<and> key_is k wanted) (blob_entries blob)"

text \<open>The state of the loop over group entries: the sink, \<open>have\<close> and \<open>inner_first\<close>.\<close>

fun emit_groups_loop :: "(nat \<times> bytes \<times> bytes) list \<Rightarrow> sink \<Rightarrow> bool \<Rightarrow> bool \<Rightarrow> sink" where
  "emit_groups_loop [] s have_any inner_first = (if have_any then put ''}'' s else s)"
| "emit_groups_loop ((ty, k, v) # es) s have_any inner_first =
     (if ty \<noteq> PH_PK_GROUP then emit_groups_loop es s have_any inner_first
      else let s1 = (if have_any then s else put ''\"$groups\":{'' (comma s));
               o2 = fst (comma (fst s1, inner_first))
           in emit_groups_loop es (o2 @ ph_json_str k @ '':'' @ ph_json_str v, snd s1) True False)"

definition emit_groups :: "bytes \<Rightarrow> sink \<Rightarrow> sink" where
  "emit_groups blob s = emit_groups_loop (blob_entries blob) s False True"

definition is_group_id_key :: "bytes \<Rightarrow> bool" where
  "is_group_id_key k \<longleftrightarrow> key_is k ''$group_type'' \<or> key_is k ''$group_key''"

definition emit_group_id_entry :: "double_libc \<Rightarrow> nat \<times> bytes \<times> bytes \<Rightarrow> sink \<Rightarrow> sink" where
  "emit_group_id_entry L e s =
     (case e of (ty, k, v) \<Rightarrow>
        if is_group_id_key k
        then put (emit_scalar_value L ty v) (put '':'' (put (ph_json_str k) (comma s)))
        else s)"

fun emit_group_set_loop :: "double_libc \<Rightarrow> (nat \<times> bytes \<times> bytes) list \<Rightarrow> sink \<Rightarrow> bool \<Rightarrow> bool \<Rightarrow> sink" where
  "emit_group_set_loop L [] s have_set set_first = (if have_set then put ''}'' s else s)"
| "emit_group_set_loop L ((ty, k, v) # es) s have_set set_first =
     (if is_group_id_key k then emit_group_set_loop L es s have_set set_first
      else let s1 = (if have_set then s else put ''\"$group_set\":{'' (comma s));
               o2 = fst (comma (fst s1, set_first))
           in emit_group_set_loop L es
                (o2 @ ph_json_str k @ '':'' @ emit_scalar_value L ty v, snd s1) True False)"

definition emit_group_identify :: "double_libc \<Rightarrow> bytes \<Rightarrow> sink \<Rightarrow> sink" where
  "emit_group_identify L blob s =
     emit_group_set_loop L (blob_entries blob)
       (fold (emit_group_id_entry L) (blob_entries blob) s) False True"

section \<open>Events and batches\<close>

definition event_wall_ns :: "ph_event \<Rightarrow> u64" where
  "event_wall_ns e =
     (let delta = (if ev_epoch_mono_ns e \<le> ev_mono_ns e then ev_mono_ns e - ev_epoch_mono_ns e else 0)
      in ev_epoch_wall_ns e + delta)"

definition eff_did :: "ph_ctx \<Rightarrow> ph_event \<Rightarrow> bytes" where
  "eff_did ctx e = (if has_flag (ev_flags e) PH_EVF_HAS_DID then ev_did e else distinct_id ctx)"

definition emit_auto :: "ph_ctx \<Rightarrow> ph_event \<Rightarrow> string \<Rightarrow> string \<Rightarrow> sink \<Rightarrow> sink" where
  "emit_auto ctx e k v s =
     (let top = (ev_kind e \<noteq> PH_EV_IDENTIFY \<and> ev_kind e \<noteq> PH_EV_GROUP) in
      if \<not> ph_denylist_has (denylist ctx) k \<and> (\<not> top \<or> \<not> blob_has_scalar_key (ev_blob e) k)
      then emit_kv_cstr k v s else s)"

definition emit_kind :: "double_libc \<Rightarrow> ph_ctx \<Rightarrow> ph_event \<Rightarrow> sink \<Rightarrow> sink" where
  "emit_kind L ctx e s =
     (case ev_kind e of
        PH_EV_IDENTIFY \<Rightarrow>
          (let s1 = put ''\"$set\":{'' (comma s);
               inner = emit_scalar_entries L (ev_blob e) False False (fst s1, True)
           in (fst inner @ ''}'', snd s1))
      | PH_EV_GROUP \<Rightarrow> emit_group_identify L (ev_blob e) s
      | _ \<Rightarrow> emit_groups (ev_blob e) (emit_scalar_entries L (ev_blob e) (disable_geoip ctx) True s))"

definition emit_properties :: "double_libc \<Rightarrow> ph_ctx \<Rightarrow> ph_event \<Rightarrow> sink \<Rightarrow> sink" where
  "emit_properties L ctx e s0 =
     (let s = put (ph_json_str (eff_did ctx e)) (put ''\"distinct_id\":'' (comma s0));
          s = emit_kv_cstr ''$lib'' ''posthog-c'' s;
          s = emit_kv_cstr ''$lib_version'' PH_VERSION_STRING s;
          s = emit_kv_cstr ''$lib_backend'' backend_tag s;
          s = emit_auto ctx e ''$os'' platform_os s;
          s = emit_auto ctx e ''arch'' platform_arch s;
          s = (if release ctx \<noteq> [] then emit_auto ctx e ''release'' (release ctx) s else s);
          s = (if has_flag (ev_flags e) PH_EVF_NO_PROFILE
               then put ''\"$process_person_profile\":false'' (comma s) else s);
          s = emit_kind L ctx e s
      in if disable_geoip ctx then put ''\"$geoip_disable\":true'' (comma s) else s)"

definition serialize_event :: "double_libc \<Rightarrow> ph_ctx \<Rightarrow> ph_event \<Rightarrow> bytes" where
  "serialize_event L ctx e =
     ''{\"event\":'' @ ph_json_str (ev_name e)
     @ '',\"timestamp\":'' @ ph_json_cstr (Some (ph_format_iso8601 (event_wall_ns e) 40))
     @ '',\"uuid\":'' @ ph_json_cstr (Some (ph_uuid_v7 (event_wall_ns e div 1000000) (uuid_salt ctx) (ev_seq e)))
     @ '',\"properties\":{'' @ fst (emit_properties L ctx e ([], True)) @ ''}}''"

fun serialize_events :: "double_libc \<Rightarrow> ph_ctx \<Rightarrow> ph_event list \<Rightarrow> bytes" where
  "serialize_events L ctx [] = []"
| "serialize_events L ctx [e] = serialize_event L ctx e"
| "serialize_events L ctx (e # es) = serialize_event L ctx e @ '','' @ serialize_events L ctx es"

definition ph_serialize_batch :: "double_libc \<Rightarrow> ph_ctx \<Rightarrow> ph_event list \<Rightarrow> bytes" where
  "ph_serialize_batch L ctx evs =
     ''{\"api_key\":'' @ ph_json_cstr (Some (api_key ctx))
     @ '',\"historical_migration\":false,\"batch\":['' @ serialize_events L ctx evs @ '']}''"

definition props_item_text :: "double_libc \<Rightarrow> ph_prop \<Rightarrow> bytes" where
  "props_item_text L it =
     ph_json_cstr (Some (prop_key it)) @ '':'' @
     (case prop_val it of
        PH_T_STR s \<Rightarrow> ph_json_cstr (Some s)
      | PH_T_DOUBLE d \<Rightarrow> ph_json_double L d
      | PH_T_INT i \<Rightarrow> ph_json_int i
      | PH_T_BOOL b \<Rightarrow> ph_json_bool b
      | PH_T_OTHER t \<Rightarrow> ''null'')"

definition ph_serialize_props_object :: "double_libc \<Rightarrow> ph_props option \<Rightarrow> bytes" where
  "ph_serialize_props_object L p =
     ''{'' @ fst (fold (\<lambda>it s. put (props_item_text L it) (comma s))
                   (case p of None \<Rightarrow> [] | Some p \<Rightarrow> p_items p) ([], True)) @ ''}''"

section \<open>The documents as trees\<close>

text \<open>
  The abstract content of what is written: the members of the \<open>properties\<close> object, the event
  object and the batch envelope. \<open>raw\<close> gives the tree of a pre-serialized fragment.
\<close>

definition scalar_tree :: "double_libc \<Rightarrow> nat \<Rightarrow> bytes \<Rightarrow> jt" where
  "scalar_tree L ty v =
     (if ty = 0 then TStr v
      else if ty = 1 then
        (let d = (if length v = 8 then of_nat (le_val v) else 0) in
         if dbl_nonfinite d then TNull else TNum (ph_json_double L d))
      else if ty = 2 then TNum (ph_json_int (if length v = 8 then of_nat (le_val v) else 0))
      else if ty = 3 then TBool (1 \<le> length v \<and> byte_val (v ! 0) \<noteq> 0)
      else TNull)"

definition entry_member :: "(bytes \<Rightarrow> jt) \<Rightarrow> double_libc \<Rightarrow> nat \<times> bytes \<times> bytes \<Rightarrow> string \<times> jt" where
  "entry_member raw L e = (case e of (ty, k, v) \<Rightarrow> (k, if ty = PH_PK_RAWJSON then raw v else scalar_tree L ty v))"

definition scalar_member :: "double_libc \<Rightarrow> nat \<times> bytes \<times> bytes \<Rightarrow> string \<times> jt" where
  "scalar_member L e = (fst (snd e), scalar_tree L (fst e) (snd (snd e)))"

definition emitted_entry :: "bool \<Rightarrow> bool \<Rightarrow> nat \<times> bytes \<times> bytes \<Rightarrow> bool" where
  "emitted_entry skip_geoip skip_owned e = (case e of (ty, k, v) \<Rightarrow> ty \<noteq> PH_PK_GROUP \<and>
     \<not> (skip_geoip \<and> k = ''$geoip_disable'') \<and> \<not> (skip_owned \<and> k \<in> set k_sdk_owned_top_level))"

definition entries_members :: "(bytes \<Rightarrow> jt) \<Rightarrow> double_libc \<Rightarrow> bool \<Rightarrow> bool \<Rightarrow> bytes \<Rightarrow> (string \<times> jt) list" where
  "entries_members raw L skip_geoip skip_owned blob =
     map (entry_member raw L) (filter (emitted_entry skip_geoip skip_owned) (blob_entries blob))"

definition group_entries :: "bytes \<Rightarrow> (nat \<times> bytes \<times> bytes) list" where
  "group_entries blob = filter (\<lambda>e. fst e = PH_PK_GROUP) (blob_entries blob)"

text \<open>A nested object member, left out when empty.\<close>

definition nested_member :: "string \<Rightarrow> (string \<times> jt) list \<Rightarrow> (string \<times> jt) list" where
  "nested_member k ms = (if ms = [] then [] else [(k, TObj ms)])"

abbreviation group_member :: "nat \<times> bytes \<times> bytes \<Rightarrow> string \<times> jt" where
  "group_member e \<equiv> (fst (snd e), TStr (snd (snd e)))"

definition groups_members :: "bytes \<Rightarrow> (string \<times> jt) list" where
  "groups_members blob = nested_member ''$groups'' (map group_member (group_entries blob))"

definition group_identify_members :: "double_libc \<Rightarrow> bytes \<Rightarrow> (string \<times> jt) list" where
  "group_identify_members L blob =
     map (scalar_member L) (filter (\<lambda>e. is_group_id_key (fst (snd e))) (blob_entries blob)) @
     nested_member ''$group_set''
       (map (scalar_member L) (filter (\<lambda>e. \<not> is_group_id_key (fst (snd e))) (blob_entries blob)))"

definition kind_members :: "(bytes \<Rightarrow> jt) \<Rightarrow> double_libc \<Rightarrow> ph_ctx \<Rightarrow> ph_event \<Rightarrow> (string \<times> jt) list" where
  "kind_members raw L ctx e =
     (case ev_kind e of
        PH_EV_IDENTIFY \<Rightarrow> [(''$set'', TObj (entries_members raw L False False (ev_blob e)))]
      | PH_EV_GROUP \<Rightarrow> group_identify_members L (ev_blob e)
      | _ \<Rightarrow> entries_members raw L (disable_geoip ctx) True (ev_blob e) @ groups_members (ev_blob e))"

definition auto_member :: "ph_ctx \<Rightarrow> ph_event \<Rightarrow> string \<Rightarrow> string \<Rightarrow> (string \<times> jt) list" where
  "auto_member ctx e k v =
     (if k \<notin> set (denylist ctx) \<and>
         (ev_kind e = PH_EV_IDENTIFY \<or> ev_kind e = PH_EV_GROUP \<or> \<not> blob_has_scalar_key (ev_blob e) k)
      then [(k, TStr v)] else [])"

definition property_members :: "(bytes \<Rightarrow> jt) \<Rightarrow> double_libc \<Rightarrow> ph_ctx \<Rightarrow> ph_event \<Rightarrow> (string \<times> jt) list" where
  "property_members raw L ctx e =
     [(''distinct_id'', TStr (eff_did ctx e)), (''$lib'', TStr ''posthog-c''),
      (''$lib_version'', TStr PH_VERSION_STRING), (''$lib_backend'', TStr backend_tag)]
     @ auto_member ctx e ''$os'' platform_os @ auto_member ctx e ''arch'' platform_arch
     @ (if release ctx \<noteq> [] then auto_member ctx e ''release'' (release ctx) else [])
     @ (if has_flag (ev_flags e) PH_EVF_NO_PROFILE then [(''$process_person_profile'', TBool False)] else [])
     @ kind_members raw L ctx e
     @ (if disable_geoip ctx then [(''$geoip_disable'', TBool True)] else [])"

definition event_tree :: "(bytes \<Rightarrow> jt) \<Rightarrow> double_libc \<Rightarrow> ph_ctx \<Rightarrow> ph_event \<Rightarrow> jt" where
  "event_tree raw L ctx e =
     TObj [(''event'', TStr (ev_name e)),
           (''timestamp'', TStr (iso8601_text (event_wall_ns e))),
           (''uuid'', TStr (ph_uuid_v7 (event_wall_ns e div 1000000) (uuid_salt ctx) (ev_seq e))),
           (''properties'', TObj (property_members raw L ctx e))]"

definition batch_tree :: "(bytes \<Rightarrow> jt) \<Rightarrow> double_libc \<Rightarrow> ph_ctx \<Rightarrow> ph_event list \<Rightarrow> jt" where
  "batch_tree raw L ctx evs =
     TObj [(''api_key'', TStr (api_key ctx)), (''historical_migration'', TBool False),
           (''batch'', TArr (map (event_tree raw L ctx) evs))]"

section \<open>Facts: emitters add members\<close>

text \<open>An emitter adds the members \<open>ms\<close>: their texts, separated from what precedes them.\<close>

definition members_text :: "bool \<Rightarrow> (string \<times> jt) list \<Rightarrow> bytes" where
  "members_text first ms = (if ms = [] \<or> first then [] else '','') @ commas (map member_print ms)"

definition adds :: "(sink \<Rightarrow> sink) \<Rightarrow> (string \<times> jt) list \<Rightarrow> bool" where
  "adds f ms \<longleftrightarrow> (\<forall>out first. f (out, first) = (out @ members_text first ms, first \<and> ms = []))"

lemma addsD: "adds f ms \<Longrightarrow> f (out, first) = (out @ members_text first ms, first \<and> ms = [])"
  by (simp add: adds_def)

lemma commas_append: "commas (a @ b) = commas a @ (if a = [] \<or> b = [] then [] else '','') @ commas b"
proof (induction a rule: commas.induct)
  case (2 x)
  then show ?case by (cases b) auto
qed auto

lemma members_text_append:
  "members_text first (a @ b) = members_text first a @ members_text (first \<and> a = []) b"
  by (simp add: members_text_def commas_append)

lemma commas_Cons: "commas (x # xs) = x @ (if xs = [] then [] else '','') @ commas xs"
  by (cases xs) simp_all

lemma members_text_Nil [simp]: "members_text first [] = []"
  by (simp add: members_text_def)

lemma members_text_Cons:
  "members_text first (m # ms) = (if first then [] else '','') @ member_print m @ members_text False ms"
  by (simp add: members_text_def commas_Cons)

lemma adds_nil: "adds (\<lambda>s. s) []"
  by (simp add: adds_def members_text_def)

lemma adds_comp: "adds f a \<Longrightarrow> adds g b \<Longrightarrow> adds (\<lambda>s. g (f s)) (a @ b)"
  by (simp add: adds_def members_text_append)

lemma adds_one:
  assumes "t = ph_json_str k @ '':'' @ jt_print v"
  shows "adds (\<lambda>s. put t (comma s)) [(k, v)]"
  by (simp add: adds_def put_def comma_def members_text_def assms)

lemma put_put: "put b (put a s) = put (a @ b) s"
  by (simp add: put_def)

lemma adds_fold:
  assumes "\<And>x. x \<in> set xs \<Longrightarrow> adds (f x) (g x)"
  shows "adds (fold f xs) (concat (map g xs))"
  using assms
proof (induction xs)
  case Nil
  then show ?case using adds_nil by (simp add: id_def)
next
  case (Cons x xs)
  then have "adds (\<lambda>s. fold f xs (f x s)) (g x @ concat (map g xs))" by (intro adds_comp) auto
  then show ?case by (simp add: comp_def)
qed

lemma adds_if: "(b \<Longrightarrow> adds f ms) \<Longrightarrow> adds (\<lambda>s. if b then f s else s) (if b then ms else [])"
  using adds_nil by auto

lemma scalar_tree_print: "jt_print (scalar_tree L ty v) = emit_scalar_value L ty v"
  by (simp add: scalar_tree_def emit_scalar_value_def ph_json_double_def ph_json_bool_def Let_def)

definition raw_ok :: "(bytes \<Rightarrow> jt) \<Rightarrow> bytes \<Rightarrow> bool" where
  "raw_ok raw blob \<longleftrightarrow> (\<forall>k v. (PH_PK_RAWJSON, k, v) \<in> set (blob_entries blob) \<longrightarrow> jt_print (raw v) = v)"

lemma adds_scalar_entry:
  assumes "fst e = PH_PK_RAWJSON \<Longrightarrow> jt_print (raw (snd (snd e))) = snd (snd e)"
  shows "adds (emit_scalar_entry L sg so e) (if emitted_entry sg so e then [entry_member raw L e] else [])"
proof -
  obtain ty k v where e: "e = (ty, k, v)" by (cases e)
  let ?t = "if ty = PH_PK_RAWJSON then v else emit_scalar_value L ty v"
  have "adds (\<lambda>s. put (ph_json_str k @ '':'' @ ?t) (comma s)) [(k, if ty = PH_PK_RAWJSON then raw v else scalar_tree L ty v)]"
    using assms e by (intro adds_one) (simp add: scalar_tree_print)
  moreover have "emit_scalar_entry L sg so e =
      (\<lambda>s. if emitted_entry sg so e then put (ph_json_str k @ '':'' @ ?t) (comma s) else s)"
    by (rule ext) (auto simp: e emit_scalar_entry_def emitted_entry_def put_put key_is_def
        key_is_sdk_owned_top_level_def list_ex_iff)
  ultimately show ?thesis using adds_if by (simp add: e entry_member_def)
qed

lemma concat_map_if: "concat (map (\<lambda>x. if P x then [f x] else []) xs) = map f (filter P xs)"
  by (induction xs) auto

lemma adds_scalar_entries:
  assumes "raw_ok raw blob"
  shows "adds (emit_scalar_entries L blob sg so) (entries_members raw L sg so blob)"
proof -
  have "adds (fold (emit_scalar_entry L sg so) (blob_entries blob))
      (concat (map (\<lambda>e. if emitted_entry sg so e then [entry_member raw L e] else []) (blob_entries blob)))"
    using assms by (intro adds_fold adds_scalar_entry) (auto simp: raw_ok_def)
  then show ?thesis
    unfolding concat_map_if entries_members_def emit_scalar_entries_def [abs_def] .
qed

text \<open>The loop over group entries and the one over the set properties have the same shape: they
  open a nested object at the first entry they keep and close it at the end.\<close>

definition emit_nested :: "bytes \<Rightarrow> (string \<times> jt) list \<Rightarrow> sink \<Rightarrow> sink" where
  "emit_nested lit ms s =
     (if ms = [] then s else put (lit @ commas (map member_print ms) @ ''}'') (comma s))"

lemma adds_nested:
  assumes "lit = ph_json_str k @ '':{''"
  shows "adds (emit_nested lit ms) (nested_member k ms)"
proof (cases "ms = []")
  case True
  then show ?thesis using adds_nil by (simp add: emit_nested_def [abs_def] nested_member_def)
next
  case False
  have "adds (\<lambda>s. put (lit @ commas (map member_print ms) @ ''}'') (comma s)) [(k, TObj ms)]"
    by (rule adds_one) (simp add: assms)
  with False show ?thesis by (simp add: emit_nested_def [abs_def] nested_member_def)
qed

lemma emit_groups_loop_open:
  "emit_groups_loop es s True inner =
     put (members_text inner (map group_member (filter (\<lambda>e. fst e = PH_PK_GROUP) es)) @ ''}'') s"
proof (induction es arbitrary: s inner)
  case Nil
  then show ?case by simp
next
  case (Cons e es)
  obtain ty k v where e: "e = (ty, k, v)" by (cases e)
  show ?case
    by (cases s) (simp add: e Cons.IH members_text_Cons put_def comma_def)
qed

lemma emit_groups_loop_start:
  "emit_groups_loop es s False True =
     emit_nested ''\"$groups\":{'' (map group_member (filter (\<lambda>e. fst e = PH_PK_GROUP) es)) s"
proof (induction es)
  case Nil
  then show ?case by (simp add: emit_nested_def)
next
  case (Cons e es)
  obtain ty k v where e: "e = (ty, k, v)" by (cases e)
  show ?case
  proof (cases "ty = PH_PK_GROUP")
    case True
    then show ?thesis
      by (simp add: e emit_groups_loop_open put_def comma_def members_text_def commas_Cons emit_nested_def)
  next
    case False
    with Cons show ?thesis by (simp add: e)
  qed
qed

lemma emit_group_set_loop_open:
  "emit_group_set_loop L es s True inner =
     put (members_text inner (map (scalar_member L) (filter (\<lambda>e. \<not> is_group_id_key (fst (snd e))) es)) @ ''}'') s"
proof (induction es arbitrary: s inner)
  case Nil
  then show ?case by simp
next
  case (Cons e es)
  obtain ty k v where e: "e = (ty, k, v)" by (cases e)
  show ?case
    by (cases s) (simp add: e Cons.IH members_text_Cons put_def comma_def scalar_member_def scalar_tree_print)
qed

lemma emit_group_set_loop_start:
  "emit_group_set_loop L es s False True =
     emit_nested ''\"$group_set\":{'' (map (scalar_member L) (filter (\<lambda>e. \<not> is_group_id_key (fst (snd e))) es)) s"
proof (induction es)
  case Nil
  then show ?case by (simp add: emit_nested_def)
next
  case (Cons e es)
  obtain ty k v where e: "e = (ty, k, v)" by (cases e)
  have m: "member_print (scalar_member L e) = ph_json_str k @ '':'' @ emit_scalar_value L ty v"
    by (simp add: e scalar_member_def scalar_tree_print)
  show ?case
  proof (cases "is_group_id_key k")
    case False
    then show ?thesis
      using m by (simp add: e emit_group_set_loop_open put_def comma_def members_text_def commas_Cons emit_nested_def)
  next
    case True
    with Cons show ?thesis by (simp add: e)
  qed
qed

text \<open>Literal keys need no escaping.\<close>

definition plain_char :: "char \<Rightarrow> bool" where
  "plain_char c \<longleftrightarrow> 0x20 \<le> byte_val c \<and> byte_val c < 0x80 \<and> c \<noteq> QUOTE \<and> c \<noteq> BSLASH"

lemma json_chars_plain: "list_all plain_char s \<Longrightarrow> json_chars s = s"
proof (induction s)
  case (Cons c s)
  then have c: "0x20 \<le> byte_val c" "byte_val c < 0x80" "c \<noteq> QUOTE" "c \<noteq> BSLASH" by (auto simp: plain_char_def)
  then have "json_escape c = [c]" by (auto simp: json_escape_def byte_val_def)
  with c Cons show ?case by simp
qed simp

lemma json_str_plain: "list_all plain_char s \<Longrightarrow> ph_json_str s = QUOTE # s @ [QUOTE]"
  by (simp add: ph_json_str_def json_chars_plain)

lemma literal_keys:
  "ph_json_str ''distinct_id'' = ''\"distinct_id\"''" "ph_json_str ''$groups'' = ''\"$groups\"''"
  "ph_json_str ''$group_set'' = ''\"$group_set\"''" "ph_json_str ''$set'' = ''\"$set\"''"
  "ph_json_str ''$process_person_profile'' = ''\"$process_person_profile\"''"
  "ph_json_str ''$geoip_disable'' = ''\"$geoip_disable\"''" "ph_json_str ''event'' = ''\"event\"''"
  "ph_json_str ''timestamp'' = ''\"timestamp\"''" "ph_json_str ''uuid'' = ''\"uuid\"''"
  "ph_json_str ''properties'' = ''\"properties\"''" "ph_json_str ''api_key'' = ''\"api_key\"''"
  "ph_json_str ''historical_migration'' = ''\"historical_migration\"''" "ph_json_str ''batch'' = ''\"batch\"''"
  by (simp_all add: json_str_plain plain_char_def byte_val_def)

lemma adds_groups: "adds (emit_groups blob) (groups_members blob)"
proof -
  have lit: "''\"$groups\":{'' = ph_json_str ''$groups'' @ '':{''" by (simp add: literal_keys)
  show ?thesis
    unfolding emit_groups_def [abs_def] emit_groups_loop_start groups_members_def group_entries_def
    by (rule adds_nested [OF lit])
qed

lemma adds_group_ids:
  "adds (fold (emit_group_id_entry L) es) (map (scalar_member L) (filter (\<lambda>e. is_group_id_key (fst (snd e))) es))"
proof -
  have "adds (emit_group_id_entry L e) (if is_group_id_key (fst (snd e)) then [scalar_member L e] else [])" for e
  proof -
    obtain ty k v where e: "e = (ty, k, v)" by (cases e)
    have "adds (\<lambda>s. put (ph_json_str k @ '':'' @ emit_scalar_value L ty v) (comma s)) [(k, scalar_tree L ty v)]"
      by (rule adds_one) (simp add: scalar_tree_print)
    moreover have "emit_group_id_entry L e =
        (\<lambda>s. if is_group_id_key k then put (ph_json_str k @ '':'' @ emit_scalar_value L ty v) (comma s) else s)"
      by (rule ext) (simp add: e emit_group_id_entry_def put_put)
    ultimately show ?thesis using adds_if by (simp add: e scalar_member_def)
  qed
  then have "adds (fold (emit_group_id_entry L) es)
      (concat (map (\<lambda>e. if is_group_id_key (fst (snd e)) then [scalar_member L e] else []) es))"
    by (rule adds_fold)
  then show ?thesis unfolding concat_map_if .
qed

lemma adds_group_identify: "adds (emit_group_identify L blob) (group_identify_members L blob)"
proof -
  have lit: "''\"$group_set\":{'' = ph_json_str ''$group_set'' @ '':{''" by (simp add: literal_keys)
  show ?thesis
    unfolding emit_group_identify_def [abs_def] emit_group_set_loop_start group_identify_members_def
    by (rule adds_comp [OF adds_group_ids adds_nested [OF lit]])
qed

lemma adds_kv: "adds (emit_kv_cstr k v) [(k, TStr v)]"
proof -
  have "adds (\<lambda>s. put (ph_json_str k @ '':'' @ ph_json_str v) (comma s)) [(k, TStr v)]"
    by (rule adds_one) simp
  then show ?thesis by (simp add: emit_kv_cstr_def [abs_def] put_put ph_json_cstr_def)
qed

lemma adds_auto: "adds (emit_auto ctx e k v) (auto_member ctx e k v)"
proof -
  have "emit_auto ctx e k v = (if auto_member ctx e k v = [] then (\<lambda>s. s) else emit_kv_cstr k v)"
    by (rule ext) (auto simp: emit_auto_def auto_member_def ph_denylist_has_def)
  then show ?thesis using adds_kv [of k v] adds_nil by (auto simp: auto_member_def)
qed

lemma adds_kind:
  assumes "raw_ok raw (ev_blob e)"
  shows "adds (emit_kind L ctx e) (kind_members raw L ctx e)"
proof -
  note entries = adds_scalar_entries [OF assms, of L]
  let ?ms = "entries_members raw L False False (ev_blob e)"
  have top: "adds (\<lambda>s. emit_groups (ev_blob e) (emit_scalar_entries L (ev_blob e) (disable_geoip ctx) True s))
      (entries_members raw L (disable_geoip ctx) True (ev_blob e) @ groups_members (ev_blob e))"
    by (rule adds_comp [OF entries adds_groups])
  have set: "adds (\<lambda>s. put (''\"$set\":{'' @ commas (map member_print ?ms) @ ''}'') (comma s)) [(''$set'', TObj ?ms)]"
    by (rule adds_one) (simp add: literal_keys)
  have "emit_scalar_entries L (ev_blob e) False False (out, True) = (out @ commas (map member_print ?ms), ?ms = [])" for out
    using addsD [OF entries [of False False], of out True] by (simp add: members_text_def)
  then have set': "(let s1 = put ''\"$set\":{'' (comma s);
               inner = emit_scalar_entries L (ev_blob e) False False (fst s1, True)
           in (fst inner @ ''}'', snd s1)) = put (''\"$set\":{'' @ commas (map member_print ?ms) @ ''}'') (comma s)" for s
    by (simp add: put_def)
  show ?thesis
    using top set adds_group_identify [of L "ev_blob e"]
    unfolding emit_kind_def [abs_def] kind_members_def set' by (cases "ev_kind e") simp_all
qed

lemma adds_properties:
  assumes "raw_ok raw (ev_blob e)"
  shows "adds (emit_properties L ctx e) (property_members raw L ctx e)"
proof -
  have did: "adds (\<lambda>s. put (ph_json_str (eff_did ctx e)) (put ''\"distinct_id\":'' (comma s)))
      [(''distinct_id'', TStr (eff_did ctx e))]"
    unfolding put_put by (rule adds_one) (simp add: literal_keys)
  have prof: "adds (\<lambda>s. put ''\"$process_person_profile\":false'' (comma s)) [(''$process_person_profile'', TBool False)]"
    by (rule adds_one) (simp add: literal_keys)
  have geo: "adds (\<lambda>s. put ''\"$geoip_disable\":true'' (comma s)) [(''$geoip_disable'', TBool True)]"
    by (rule adds_one) (simp add: literal_keys)
  note c = adds_comp
  note s1 = c [OF c [OF c [OF did adds_kv [of "''$lib''" "''posthog-c''"]]
      adds_kv [of "''$lib_version''" PH_VERSION_STRING]] adds_kv [of "''$lib_backend''" backend_tag]]
  note s2 = c [OF c [OF s1 adds_auto [of ctx e "''$os''" platform_os]] adds_auto [of ctx e "''arch''" platform_arch]]
  note s3 = c [OF s2 adds_if [of "release ctx \<noteq> []", OF adds_auto [of ctx e "''release''" "release ctx"]]]
  note s4 = c [OF s3 adds_if [of "has_flag (ev_flags e) PH_EVF_NO_PROFILE", OF prof]]
  note s5 = c [OF c [OF s4 adds_kind [OF assms, of L ctx]] adds_if [of "disable_geoip ctx", OF geo]]
  show ?thesis
    using s5 unfolding emit_properties_def [abs_def] property_members_def Let_def append_assoc
    by (simp only: append.simps append_assoc)
qed

lemma iso8601_cap: "ph_format_iso8601 w 40 = iso8601_text w"
proof -
  obtain y m d where "civil_of_days (int (unat w div 1000000000 div 86400)) = (y, m, d)"
    by (cases "civil_of_days (int (unat w div 1000000000 div 86400))") auto
  from iso8601_fields(1) [OF this] show ?thesis by (simp add: ph_format_iso8601_def snprintf_trunc_def)
qed

lemma serialize_event_tree:
  assumes "raw_ok raw (ev_blob e)"
  shows "serialize_event L ctx e = jt_print (event_tree raw L ctx e)"
  using addsD [OF adds_properties [OF assms, of L ctx], of "[]" True]
  by (simp add: serialize_event_def event_tree_def members_text_def literal_keys iso8601_cap ph_json_cstr_def)

lemma serialize_events_commas: "serialize_events L ctx evs = commas (map (serialize_event L ctx) evs)"
  by (induction L ctx evs rule: serialize_events.induct) simp_all

lemma serialize_batch_tree:
  assumes "\<And>e. e \<in> set evs \<Longrightarrow> raw_ok raw (ev_blob e)"
  shows "ph_serialize_batch L ctx evs = jt_print (batch_tree raw L ctx evs)"
proof -
  have "map (serialize_event L ctx) evs = map (\<lambda>e. jt_print (event_tree raw L ctx e)) evs"
    using assms serialize_event_tree by simp
  then show ?thesis
    unfolding ph_serialize_batch_def serialize_events_commas
    by (simp only:) (simp add: batch_tree_def literal_keys ph_json_cstr_def comp_def)
qed

section \<open>Facts: rendered numbers are JSON numbers\<close>

lemma nat_dec_head: "n \<noteq> 0 \<Longrightarrow> hd (nat_dec n) \<noteq> CHR ''0''"
proof (induction n rule: nat_dec.induct)
  case (1 n)
  show ?case
  proof (cases "n < 10")
    case True
    then have "byte_val (dec_digit n) = 48 + n" by simp
    with 1 True show ?thesis by (auto simp: nat_dec.simps [of n] dest!: arg_cong [where f = byte_val])
  next
    case False
    with 1 show ?thesis by (simp add: nat_dec.simps [of n])
  qed
qed

lemma json_digits_nat_dec: "json_digits (nat_dec n)"
  by (auto simp: json_digits_def list_all_iff dest: nat_dec_digits)

lemma json_number_int_dec: "json_number (int_dec i)"
proof -
  have core: "nat_dec n = ''0'' \<or> json_digits (nat_dec n) \<and> hd (nat_dec n) \<noteq> CHR ''0''" for n
    using json_digits_nat_dec nat_dec_head [of n]
    by (cases "n = 0") (simp_all add: nat_dec.simps [of 0] dec_digit_literals)
  show ?thesis
  proof (cases "i < 0")
    case True
    with core [of "nat (- i)"] show ?thesis
      unfolding json_number_def int_dec_def
      by (intro exI [of _ "''-''"] exI [of _ "nat_dec (nat (- i))"] exI [of _ "[]"]) simp
  next
    case False
    with core [of "nat i"] show ?thesis
      unfolding json_number_def int_dec_def
      by (intro exI [of _ "[]"] exI [of _ "nat_dec (nat i)"]) simp
  qed
qed

text \<open>
  What the code relies on when it formats a double: \<open>%.*g\<close> writes a finite double as a JSON
  number of at most 39 bytes, except that its point is the locale's, a string that starts with
  a byte no number contains.
\<close>

fun localize_point :: "string \<Rightarrow> string \<Rightarrow> string" where
  "localize_point pt [] = []"
| "localize_point pt (c # cs) = (if c = CHR ''.'' then pt @ cs else c # localize_point pt cs)"

definition number_char :: "char \<Rightarrow> bool" where
  "number_char c \<longleftrightarrow> is_digit c \<or> c \<in> {CHR ''-'', CHR ''+'', CHR ''.'', CHR ''e'', CHR ''E''}"

definition printf_ok :: "double_libc \<Rightarrow> (nat \<Rightarrow> u64 \<Rightarrow> string) \<Rightarrow> bool" where
  "printf_ok L g \<longleftrightarrow>
     (\<forall>p d. \<not> dbl_nonfinite d \<longrightarrow> json_number (g p d) \<and> length (fmt_g L p d) \<le> 39) \<and>
     (if c_locale L then fmt_g L = g
      else case decimal_point L of
          None \<Rightarrow> fmt_g L = g
        | Some pt \<Rightarrow> (pt = ''.'' \<or> pt \<noteq> [] \<and> \<not> number_char (hd pt)) \<and>
                     fmt_g L = (\<lambda>p d. localize_point pt (g p d)))"

lemma json_number_chars:
  assumes "json_number s" "c \<in> set s"
  shows "number_char c"
proof -
  obtain sign i fr ex where s: "s = sign @ i @ fr @ ex" and sign: "sign \<in> {[], ''-''}"
    and i: "i = ''0'' \<or> json_digits i"
    and fr: "fr = [] \<or> (\<exists>ds. fr = CHR ''.'' # ds \<and> json_digits ds)"
    and ex: "ex = [] \<or> (\<exists>e sg ds. ex = e # sg @ ds \<and> e \<in> {CHR ''e'', CHR ''E''} \<and>
                   sg \<in> {[], ''+'', ''-''} \<and> json_digits ds)"
    using assms(1) unfolding json_number_def by blast
  have ds: "json_digits ds \<Longrightarrow> x \<in> set ds \<Longrightarrow> number_char x" for ds x
    by (auto simp: json_digits_def list_all_iff number_char_def)
  have lit: "number_char (CHR ''-'')" "number_char (CHR ''+'')" "number_char (CHR ''.'')"
    "number_char (CHR ''e'')" "number_char (CHR ''E'')" "number_char (CHR ''0'')"
    by (simp_all add: number_char_def)
  consider "c \<in> set sign" | "c \<in> set i" | "c \<in> set fr" | "c \<in> set ex" using assms(2) s by auto
  then show ?thesis
  proof cases
    case 1
    with sign lit show ?thesis by auto
  next
    case 2
    with i ds lit show ?thesis by auto
  next
    case 3
    with fr ds lit show ?thesis by auto
  next
    case 4
    then have "ex \<noteq> []" by auto
    with ex obtain e sg d where e: "ex = e # sg @ d" "e \<in> {CHR ''e'', CHR ''E''}"
      "sg \<in> {[], ''+'', ''-''}" "json_digits d" by blast
    with 4 have "c = e \<or> c \<in> set sg \<or> c \<in> set d" by simp
    with e(2-4) ds lit show ?thesis by auto
  qed
qed

lemma replace_localize:
  assumes "pt \<noteq> []" "\<not> number_char (hd pt)" "\<forall>c \<in> set s. number_char c"
  shows "replace_first pt (CHR ''.'') (localize_point pt s) = s"
  using assms(3)
proof (induction s)
  case Nil
  then show ?case by simp
next
  case (Cons c s)
  obtain p ps where pt: "pt = p # ps" using assms(1) by (cases pt) auto
  show ?case
  proof (cases "c = CHR ''.''")
    case True
    then show ?thesis by (simp add: pt)
  next
    case False
    have "p \<noteq> c" using Cons.prems assms(2) pt by auto
    then have "\<not> prefix pt (c # localize_point pt s)" by (simp add: pt)
    with False Cons show ?thesis by simp
  qed
qed

lemma localize_dot: "localize_point ''.'' s = s"
  by (induction s) auto

lemma shortest_g_cases: "\<exists>p. shortest_g L d prec k = fmt_g L p d \<or> shortest_g L d prec k = snprintf_trunc 40 (fmt_g L p d)"
  by (induction L d prec k rule: shortest_g.induct) (auto simp: Let_def)

lemma ph_json_double_number:
  assumes "printf_ok L g" "\<not> dbl_nonfinite d"
  shows "json_number (ph_json_double L d)"
proof -
  have num: "json_number (g p d)" "length (fmt_g L p d) \<le> 39" for p using assms by (auto simp: printf_ok_def)
  obtain p where p: "snprintf_trunc 40 (shortest_g L d 1 16) = fmt_g L p d"
    using shortest_g_cases [of L d 1 16] num(2) by (auto simp: snprintf_trunc_def)
  have "(if c_locale L then fmt_g L p d else normalize_decimal_point (decimal_point L) (fmt_g L p d)) = g p d"
    using assms(1) json_number_chars [OF num(1)] replace_localize [of _ "g p d"]
    by (auto simp: printf_ok_def normalize_decimal_point_def localize_dot split: if_splits option.splits)
  with num(1) [of p] p assms(2) show ?thesis by (simp add: ph_json_double_def Let_def)
qed

section \<open>Facts: the documents are well formed\<close>

definition raw_wf :: "(bytes \<Rightarrow> jt) \<Rightarrow> bytes \<Rightarrow> bool" where
  "raw_wf raw blob \<longleftrightarrow> (\<forall>k v. (PH_PK_RAWJSON, k, v) \<in> set (blob_entries blob) \<longrightarrow>
     jt_wf (raw v) \<and> jt_depth (raw v) \<le> 100 \<and> jt_print (raw v) = v)"

lemma raw_wf_ok: "raw_wf raw blob \<Longrightarrow> raw_ok raw blob"
  by (auto simp: raw_wf_def raw_ok_def)

definition ctx_strings_ok :: "ph_ctx \<Rightarrow> bool" where
  "ctx_strings_ok ctx \<longleftrightarrow> cstr (api_key ctx) \<and> cstr (release ctx) \<and> cstr (distinct_id ctx)"

definition sendable :: "(bytes \<Rightarrow> jt) \<Rightarrow> ph_event \<Rightarrow> bool" where
  "sendable raw e \<longleftrightarrow> event_wf e \<and> raw_wf raw (ev_blob e)"

definition members_ok :: "nat \<Rightarrow> (string \<times> jt) list \<Rightarrow> bool" where
  "members_ok n ms \<longleftrightarrow> (\<forall>m \<in> set ms. cstr (fst m) \<and> jt_wf (snd m) \<and> jt_depth (snd m) \<le> n)"

lemma members_ok_simps [simp]:
  "members_ok n []" "members_ok n (m # ms) \<longleftrightarrow> cstr (fst m) \<and> jt_wf (snd m) \<and> jt_depth (snd m) \<le> n \<and> members_ok n ms"
  "members_ok n (a @ b) \<longleftrightarrow> members_ok n a \<and> members_ok n b"
  by (auto simp: members_ok_def)

lemma members_ok_mono: "members_ok m ms \<Longrightarrow> m \<le> n \<Longrightarrow> members_ok n ms"
  by (auto simp: members_ok_def)

lemma tobj_ok: "members_ok n ms \<Longrightarrow> jt_wf (TObj ms) \<and> jt_depth (TObj ms) \<le> Suc n"
  by (auto simp: members_ok_def)

lemma nested_member_ok: "members_ok n ms \<Longrightarrow> cstr k \<Longrightarrow> members_ok (Suc n) (nested_member k ms)"
  using tobj_ok [of n ms] by (simp add: nested_member_def del: jt_wf.simps jt_depth.simps)

lemma scalar_tree_ok:
  assumes "printf_ok L g" "entry_wf (ty, k, v)"
  shows "jt_wf (scalar_tree L ty v)" "jt_depth (scalar_tree L ty v) = 0"
  using assms ph_json_double_number [OF assms(1)] json_number_int_dec
  by (auto simp: scalar_tree_def entry_wf_def ph_json_int_def Let_def)

lemma entries_wf: "event_wf e \<Longrightarrow> x \<in> set (blob_entries (ev_blob e)) \<Longrightarrow> entry_wf x"
  by (auto simp: event_wf_def blob_wf_def list_all_iff)

lemma entry_member_ok:
  assumes "printf_ok L g" "sendable raw e" "x \<in> set (blob_entries (ev_blob e))"
  shows "members_ok 100 [entry_member raw L x]"
proof -
  obtain ty k v where x: "x = (ty, k, v)" by (cases x)
  have wf: "entry_wf (ty, k, v)" using assms(2,3) x entries_wf by (auto simp: sendable_def)
  show ?thesis
    using assms(2,3) x scalar_tree_ok [OF assms(1) wf] wf
    by (auto simp: entry_member_def sendable_def raw_wf_def entry_wf_def)
qed

lemma map_members_ok: "(\<And>x. x \<in> set xs \<Longrightarrow> members_ok n [f x]) \<Longrightarrow> members_ok n (map f xs)"
  by (auto simp: members_ok_def)

lemma kind_members_ok:
  assumes "printf_ok L g" "sendable raw e"
  shows "members_ok 101 (kind_members raw L ctx e)"
proof -
  have scal: "members_ok 100 [scalar_member L x]" if "x \<in> set (blob_entries (ev_blob e))" for x
  proof -
    have wf: "entry_wf (fst x, fst (snd x), snd (snd x))"
      using entries_wf [of e x] that assms(2) by (simp add: sendable_def)
    from scalar_tree_ok [OF assms(1) wf] wf show ?thesis by (simp add: scalar_member_def entry_wf_def case_prod_beta)
  qed
  have grp: "members_ok 100 [group_member x]" if "x \<in> set (group_entries (ev_blob e))" for x
    using entries_wf [of e x] that assms(2)
    by (cases x) (auto simp: sendable_def entry_wf_def group_entries_def)
  have ent: "members_ok 100 (entries_members raw L a b (ev_blob e))" for a b
    unfolding entries_members_def by (rule map_members_ok, rule entry_member_ok [OF assms]) simp
  have ids: "members_ok 100 (map (scalar_member L) (filter P (blob_entries (ev_blob e))))" for P
    by (rule map_members_ok, rule scal) simp
  have gs: "members_ok 101 (groups_members (ev_blob e))"
    unfolding groups_members_def
    by (rule nested_member_ok [of 100, simplified], rule map_members_ok, rule grp) simp_all
  have gi: "members_ok 101 (group_identify_members L (ev_blob e))"
    unfolding group_identify_members_def
    using ids members_ok_mono [OF ids, of 101] nested_member_ok [OF ids, of "''$group_set''"] by simp
  have st: "members_ok 101 [(''$set'', TObj (entries_members raw L False False (ev_blob e)))]"
    using tobj_ok [OF ent, of False False] by simp
  have top: "members_ok 101 (entries_members raw L (disable_geoip ctx) True (ev_blob e) @ groups_members (ev_blob e))"
    using members_ok_mono [OF ent, of 101] gs by simp
  show ?thesis unfolding kind_members_def using gi st top by (cases "ev_kind e") simp_all
qed

lemma cstr_digits: "list_all is_digit s \<Longrightarrow> cstr s"
  by (auto simp: cstr_def list_all_iff is_digit_def)

lemma cstr_fmt_0d [simp]: "cstr (fmt_0d w i)"
  by (rule cstr_digits) (auto simp: list_all_iff dest: fmt_0d_digits)

lemma cstr_iso8601: "cstr (iso8601_text w)"
  by (simp add: iso8601_text_def Let_def)

lemma hex_digit_not_NUL: "n < 16 \<Longrightarrow> hex_digit n \<noteq> NUL"
  by (auto simp: hex_digit_def)

lemma cstr_uuid: "cstr (ph_uuid_v7 ms salt sq)"
  by (simp add: uuid_text Let_def hex_digit_not_NUL)

lemma property_members_ok:
  assumes "printf_ok L g" "sendable raw e" "ctx_strings_ok ctx"
  shows "members_ok 101 (property_members raw L ctx e)"
proof -
  have "members_ok 101 (auto_member ctx e k v)" if "cstr k" "cstr v" for k v
    using that by (simp add: auto_member_def)
  moreover have "cstr (eff_did ctx e)"
    using assms by (auto simp: eff_did_def ctx_strings_ok_def sendable_def event_wf_def)
  ultimately show ?thesis
    using assms kind_members_ok [OF assms(1,2), of ctx]
    by (simp add: property_members_def ctx_strings_ok_def PH_VERSION_STRING_def backend_tag_def
        platform_os_def platform_arch_def)
qed

lemma event_tree_ok:
  assumes "printf_ok L g" "sendable raw e" "ctx_strings_ok ctx"
  shows "jt_wf (event_tree raw L ctx e) \<and> jt_depth (event_tree raw L ctx e) \<le> 103"
proof -
  have "jt_wf (TObj (property_members raw L ctx e)) \<and> jt_depth (TObj (property_members raw L ctx e)) \<le> 102"
    using tobj_ok [OF property_members_ok [OF assms]] by simp
  moreover have "cstr (ev_name e)" using assms by (simp add: sendable_def event_wf_def)
  ultimately have "members_ok 102 [(''event'', TStr (ev_name e)),
           (''timestamp'', TStr (iso8601_text (event_wall_ns e))),
           (''uuid'', TStr (ph_uuid_v7 (event_wall_ns e div 1000000) (uuid_salt ctx) (ev_seq e))),
           (''properties'', TObj (property_members raw L ctx e))]"
    by (simp add: cstr_iso8601 cstr_uuid del: jt_wf.simps(6) jt_depth.simps(2))
  then show ?thesis using tobj_ok by (fastforce simp: event_tree_def)
qed

lemma batch_tree_ok:
  assumes "printf_ok L g" "\<And>e. e \<in> set evs \<Longrightarrow> sendable raw e" "ctx_strings_ok ctx"
  shows "jt_wf (batch_tree raw L ctx evs) \<and> jt_depth (batch_tree raw L ctx evs) \<le> PH_JV_MAX_DEPTH"
proof -
  have "jt_wf (TArr (map (event_tree raw L ctx) evs)) \<and> jt_depth (TArr (map (event_tree raw L ctx) evs)) \<le> 104"
    using event_tree_ok [OF assms(1) _ assms(3)] assms(2) by auto
  then have "members_ok 104 [(''api_key'', TStr (api_key ctx)), (''historical_migration'', TBool False),
           (''batch'', TArr (map (event_tree raw L ctx) evs))]"
    using assms(3) by (simp add: ctx_strings_ok_def del: jt_wf.simps(5) jt_depth.simps(1))
  from tobj_ok [OF this] show ?thesis by (simp add: batch_tree_def caps)
qed

text \<open>No byte of a document is a control character: a body is one line of a spill file.\<close>

lemma number_char_printable: "number_char c \<Longrightarrow> 0x20 \<le> byte_val c"
  by (auto simp: number_char_def is_digit_def byte_val_def)

lemma commas_printable: "c \<in> set (commas xs) \<Longrightarrow> c = CHR '','' \<or> (\<exists>x \<in> set xs. c \<in> set x)"
  by (induction xs rule: commas.induct) auto

lemma byte_val_punct:
  "byte_val (CHR '','') = 0x2C" "byte_val (CHR '':'') = 0x3A" "byte_val (CHR ''{'') = 0x7B" "byte_val (CHR ''}'') = 0x7D"
  "byte_val (CHR ''['') = 0x5B" "byte_val (CHR '']'') = 0x5D"
  by (simp_all add: byte_val_def)

lemma jt_print_printable: "jt_wf t \<Longrightarrow> c \<in> set (jt_print t) \<Longrightarrow> 0x20 \<le> byte_val c"
proof (induction t arbitrary: c rule: jt_wf.induct)
  case (3 s)
  then show ?case using json_number_chars number_char_printable by auto
next
  case (4 s)
  then show ?case using ph_json_str_printable by simp
next
  case (5 xs)
  then show ?case by (auto simp: byte_val_punct dest!: commas_printable)
next
  case (6 kvs)
  then show ?case
    by (auto simp: byte_val_punct dest!: commas_printable) (erule ph_json_str_printable)
qed (auto simp: byte_val_def split: if_splits)

section \<open>Facts: the keys of an event's properties\<close>

lemma keys_entries: "k \<in> set (map fst (entries_members raw L sg so blob)) \<Longrightarrow>
    (so \<longrightarrow> k \<notin> set k_sdk_owned_top_level) \<and> (sg \<longrightarrow> k \<noteq> ''$geoip_disable'')"
  by (auto simp: entries_members_def emitted_entry_def entry_member_def)

lemma count_list_0: "k \<notin> set xs \<Longrightarrow> count_list xs k = 0"
  by (simp add: count_list_0_iff)

lemma auto_member_keys: "map fst (auto_member ctx e k v) = [] \<or> map fst (auto_member ctx e k v) = [k]"
  by (simp add: auto_member_def)

lemma filter_keys_none:
  "(\<And>m. m \<in> set ms \<Longrightarrow> fst m \<noteq> k) \<Longrightarrow> filter (\<lambda>m. fst m = k) ms = []"
  by (simp add: filter_empty_conv)

definition top_level_kind :: "ph_event \<Rightarrow> bool" where
  "top_level_kind e \<longleftrightarrow> ev_kind e \<noteq> PH_EV_IDENTIFY \<and> ev_kind e \<noteq> PH_EV_GROUP"

lemma kind_members_top:
  "top_level_kind e \<Longrightarrow> kind_members raw L ctx e =
     entries_members raw L (disable_geoip ctx) True (ev_blob e) @ groups_members (ev_blob e)"
  by (cases "ev_kind e") (simp_all add: top_level_kind_def kind_members_def)

lemma entries_owned_none:
  "k \<in> set k_sdk_owned_top_level \<Longrightarrow> filter (\<lambda>m. fst m = k) (entries_members raw L sg True blob) = []"
  using keys_entries [of k raw L sg True blob] by (intro filter_keys_none) force

lemma entries_geoip_none: "filter (\<lambda>m. fst m = ''$geoip_disable'') (entries_members raw L True so blob) = []"
  using keys_entries [of "''$geoip_disable''" raw L True so blob] by (intro filter_keys_none) force

lemma auto_member_other: "k \<noteq> k' \<Longrightarrow> filter (\<lambda>m. fst m = k') (auto_member ctx e k v) = []"
  by (simp add: auto_member_def)

lemma nested_member_other: "k \<noteq> k' \<Longrightarrow> filter (\<lambda>m. fst m = k') (nested_member k ms) = []"
  by (simp add: nested_member_def)

lemma groups_members_other: "k' \<noteq> ''$groups'' \<Longrightarrow> filter (\<lambda>m. fst m = k') (groups_members blob) = []"
  unfolding groups_members_def by (rule nested_member_other) simp

text \<open>What the wire carries under each key the SDK owns, on capture, alias and exception events.\<close>

lemma property_members_owned:
  assumes "top_level_kind e"
  shows "filter (\<lambda>m. fst m = ''distinct_id'') (property_members raw L ctx e) = [(''distinct_id'', TStr (eff_did ctx e))]"
    "filter (\<lambda>m. fst m = ''$lib'') (property_members raw L ctx e) = [(''$lib'', TStr ''posthog-c'')]"
    "filter (\<lambda>m. fst m = ''$lib_version'') (property_members raw L ctx e) = [(''$lib_version'', TStr PH_VERSION_STRING)]"
    "filter (\<lambda>m. fst m = ''$lib_backend'') (property_members raw L ctx e) = [(''$lib_backend'', TStr backend_tag)]"
    "filter (\<lambda>m. fst m = ''$process_person_profile'') (property_members raw L ctx e) =
       (if has_flag (ev_flags e) PH_EVF_NO_PROFILE then [(''$process_person_profile'', TBool False)] else [])"
    "filter (\<lambda>m. fst m = ''$groups'') (property_members raw L ctx e) = groups_members (ev_blob e)"
  using assms
  by (simp_all add: property_members_def kind_members_top entries_owned_none k_sdk_owned_top_level_def
      auto_member_other groups_members_other)
    (simp add: groups_members_def nested_member_def)

lemma geoip_members:
  assumes "disable_geoip ctx"
  shows "filter (\<lambda>m. fst m = ''$geoip_disable'') (property_members raw L ctx e) = [(''$geoip_disable'', TBool True)]"
proof -
  have ids: "filter (\<lambda>m. fst m = ''$geoip_disable'') (map (scalar_member L) (filter (\<lambda>e. is_group_id_key (fst (snd e))) es)) = []" for es
    by (rule filter_keys_none) (auto simp: scalar_member_def is_group_id_key_def key_is_def)
  have "filter (\<lambda>m. fst m = ''$geoip_disable'') (kind_members raw L ctx e) = []"
    using assms
    by (cases "ev_kind e")
      (simp_all add: kind_members_def group_identify_members_def ids entries_geoip_none groups_members_other
        nested_member_other)
  with assms show ?thesis by (simp add: property_members_def auto_member_other)
qed

lemma sanitize_ascii:
  assumes "list_all (\<lambda>c. byte_val c < 0x80) s"
  shows "utf8_sanitize s = s"
proof -
  have "utf8_valid s"
    using assms by (induction s) (simp_all add: utf8_valid_step utf8_seq_len_ascii)
  then show ?thesis by (rule utf8_sanitize_valid)
qed

lemma sanitize_keys:
  "utf8_sanitize ''batch'' = ''batch''" "utf8_sanitize ''event'' = ''event''" "utf8_sanitize ''properties'' = ''properties''"
  "utf8_sanitize ''distinct_id'' = ''distinct_id''" "utf8_sanitize ''api_key'' = ''api_key''"
  "utf8_sanitize ''historical_migration'' = ''historical_migration''" "utf8_sanitize ''timestamp'' = ''timestamp''"
  "utf8_sanitize ''uuid'' = ''uuid''"
  by (rule sanitize_ascii, simp add: byte_val_def)+

lemma batch_parses:
  assumes "printf_ok L g" "\<And>e. e \<in> set evs \<Longrightarrow> sendable raw e" "ctx_strings_ok ctx"
  shows "ph_jv_parse D (ph_serialize_batch L ctx evs) = Some (jt_read D (batch_tree raw L ctx evs))"
proof -
  let ?t = "batch_tree raw L ctx evs"
  have tree: "ph_serialize_batch L ctx evs = jt_print ?t"
    using assms(2) by (intro serialize_batch_tree raw_wf_ok) (simp add: sendable_def)
  show ?thesis unfolding tree using batch_tree_ok [OF assms] by (intro parse_printed) simp_all
qed

lemma batch_array:
  "ph_jv_get (Some (jt_read D (batch_tree raw L ctx evs))) ''batch'' =
     Some (JArr (map (\<lambda>e. jt_read D (event_tree raw L ctx e)) evs))"
  by (simp add: batch_tree_def ph_jv_get_def sanitize_keys comp_def del: utf8_sanitize.simps)

section \<open>Properties\<close>

text \<open>
  C17. A batch body is JSON that reads back as what was queued: the parser accepts it, its
  \<open>batch\<close> array has exactly one element per event, in order, carrying the event's name and the
  distinct id captured with it (malformed UTF-8 replaced), and no byte of the body is a
  control character, so a body is a single line of the spill file.
\<close>

theorem batch_reads_back:
  assumes "printf_ok L g" "\<And>e. e \<in> set evs \<Longrightarrow> sendable raw e" "ctx_strings_ok ctx"
  shows "\<exists>doc els. ph_jv_parse D (ph_serialize_batch L ctx evs) = Some doc \<and>
     ph_jv_get (Some doc) ''batch'' = Some (JArr els) \<and> length els = length evs \<and>
     (\<forall>i < length evs.
        ph_jv_str (ph_jv_get (Some (els ! i)) ''event'') = Some (utf8_sanitize (ev_name (evs ! i))) \<and>
        ph_jv_str (ph_jv_get (ph_jv_get (Some (els ! i)) ''properties'') ''distinct_id'') =
          Some (utf8_sanitize (eff_did ctx (evs ! i)))) \<and>
     (\<forall>c \<in> set (ph_serialize_batch L ctx evs). 0x20 \<le> byte_val c)"
proof -
  have tree: "ph_serialize_batch L ctx evs = jt_print (batch_tree raw L ctx evs)"
    using assms(2) by (intro serialize_batch_tree raw_wf_ok) (simp add: sendable_def)
  have printable: "\<forall>c \<in> set (ph_serialize_batch L ctx evs). 0x20 \<le> byte_val c"
    unfolding tree using batch_tree_ok [OF assms] jt_print_printable by blast
  have "ph_jv_str (ph_jv_get (Some (jt_read D (event_tree raw L ctx e))) ''event'') = Some (utf8_sanitize (ev_name e))"
    "ph_jv_str (ph_jv_get (ph_jv_get (Some (jt_read D (event_tree raw L ctx e))) ''properties'') ''distinct_id'') =
       Some (utf8_sanitize (eff_did ctx e))" for e
    by (simp_all add: event_tree_def ph_jv_get_def ph_jv_str_def property_members_def sanitize_keys del: utf8_sanitize.simps)
  with batch_parses [OF assms, where D = D] batch_array [of D raw L ctx evs] printable show ?thesis
    by (intro exI [of _ "jt_read D (batch_tree raw L ctx evs)"]
        exI [of _ "map (\<lambda>e. jt_read D (event_tree raw L ctx e)) evs"]) simp
qed

definition sample_libc :: double_libc where
  "sample_libc = \<lparr>fmt_g = \<lambda>p d. ''0'', strtod_bits = \<lambda>s. 0, c_locale = True, decimal_point = None\<rparr>"

definition sample_event :: ph_event where
  "sample_event = \<lparr>ev_kind = PH_EV_CAPTURE, ev_flags = 2, ev_name_len = 4, ev_did_len = 2, ev_blob_len = 9,
     ev_mono_ns = 20, ev_epoch_wall_ns = 1000, ev_epoch_mono_ns = 10, ev_seq = 7,
     ev_data = ''jumpu1'' @ encode_entry (0, ''map'', ''e1'')\<rparr>"

definition zero_ctx :: ph_ctx where
  "zero_ctx = \<lparr>initialized = False, enabled = False, api_key = [], api_host = [], release = [], offline_path = [],
     person_profiles = 0, flush_at = 0, flush_interval_ms = 0, max_batch = 0, max_batch_bytes = 0,
     max_queue = 0, request_timeout_ms = 0, max_retries = 0, use_gzip = False,
     send_feature_flag_events = False, disable_geoip = False, before_send = None, has_on_stats = False,
     stats_interval_ms = 0, denylist = [], rl_rate = 0, rl_burst = 0, rl_tokens = 0, rl_last_mono = 0,
     rl_dropped = 0, st_sent = 0, st_failed = 0, st_retries = 0, st_before_send_dropped = 0,
     distinct_id = [], identified = False, super_props = ph_props_init, groups = [],
     flag_person_props = ph_props_init, flags = [], flags_context_gen = 0,
     flag_reload_history = replicate PH_FLAG_RELOAD_HISTORY_CAP
       \<lparr>rr_request_id = 0, rr_context_gen = 0, rr_status = PH_FEATURE_FLAG_RELOAD_UNKNOWN\<rparr>,
     flags_refetch = False, flags_refetch_gen = 0, flags_refetch_context_gen = 0,
     flags_fetch_inflight = False, flags_fetch_inflight_gen = 0, flags_fetch_inflight_context_gen = 0,
     reload_request_id = 0, epoch_wall_ns = 0, epoch_mono_ns = 0, uuid_salt = 0, seq = 0,
     queue = \<lparr>q_slots = [], q_cap = 0, q_head = 0, q_size = 0, q_dropped = 0, q_woken = False\<rparr>,
     server_rl = \<lparr>disabled_until_mono_ns = 0\<rparr>, stop = False, shutdown_deadline_mono_ns = 0,
     sending = False, sender_running = False, drain_gen = 0\<rparr>"

lemma sample_libc_ok: "printf_ok sample_libc (\<lambda>p d. ''0'')"
proof -
  have "json_number ''0''"
    unfolding json_number_def by (intro exI [of _ "[]"] exI [of _ "''0''"]) simp
  then show ?thesis by (simp add: printf_ok_def sample_libc_def)
qed

lemma sample_event_ok: "sendable TNum sample_event"
proof -
  have ok: "entry_ok (0, ''map'', ''e1'')" by (simp add: entry_ok_def)
  have len: "length (encode_entry (0, ''map'', ''e1'')) = 9"
    using length_encode_entry [OF ok] by (simp add: entry_size_def)
  then have b: "ev_blob sample_event = encode_entry (0, ''map'', ''e1'')"
    by (simp add: ev_blob_def sample_event_def)
  have es: "blob_entries (ev_blob sample_event) = [(0, ''map'', ''e1'')]"
    unfolding b using blob_entries_encode [OF ok, of "[]"] by simp
  have "blob_wf (ev_blob sample_event)" "raw_wf TNum (ev_blob sample_event)"
    using ok unfolding blob_wf_def raw_wf_def es by (simp_all add: b entry_wf_def PH_PK_GROUP_def PH_PK_RAWJSON_def)
  then show ?thesis
    using len by (simp add: sendable_def event_wf_def) (simp add: sample_event_def ev_name_def ev_did_def caps)
qed

theorem batch_reads_back_witness:
  "sendable TNum sample_event \<and>
   (\<exists>doc els. ph_jv_parse rat_dbl (ph_serialize_batch sample_libc zero_ctx [sample_event]) = Some doc \<and>
     ph_jv_get (Some doc) ''batch'' = Some (JArr els) \<and> length els = 1)"
proof -
  have s: "e \<in> set [sample_event] \<Longrightarrow> sendable TNum e" for e using sample_event_ok by simp
  have c: "ctx_strings_ok zero_ctx" by (simp add: ctx_strings_ok_def zero_ctx_def)
  from batch_reads_back [OF sample_libc_ok s c, where D = rat_dbl] sample_event_ok show ?thesis by fastforce
qed

text \<open>
  C22. On capture, alias and exception events the SDK's own keys cannot be shadowed or duplicated
  by caller or super properties, whatever the packed properties contain: each of
  \<open>distinct_id\<close>, \<open>$lib\<close>, \<open>$lib_version\<close>, \<open>$lib_backend\<close> is written exactly once with the SDK's
  value, the profile marker exactly when the event carries the flag, and \<open>$groups\<close> only from
  the group entries.
\<close>

theorem sdk_keys_are_owned:
  assumes "raw_ok raw (ev_blob e)" "top_level_kind e"
  shows "\<exists>ms. serialize_event L ctx e =
       jt_print (TObj [(''event'', TStr (ev_name e)), (''timestamp'', TStr (iso8601_text (event_wall_ns e))),
         (''uuid'', TStr (ph_uuid_v7 (event_wall_ns e div 1000000) (uuid_salt ctx) (ev_seq e))),
         (''properties'', TObj ms)]) \<and>
     filter (\<lambda>m. fst m = ''distinct_id'') ms = [(''distinct_id'', TStr (eff_did ctx e))] \<and>
     filter (\<lambda>m. fst m = ''$lib'') ms = [(''$lib'', TStr ''posthog-c'')] \<and>
     filter (\<lambda>m. fst m = ''$lib_version'') ms = [(''$lib_version'', TStr PH_VERSION_STRING)] \<and>
     filter (\<lambda>m. fst m = ''$lib_backend'') ms = [(''$lib_backend'', TStr backend_tag)] \<and>
     filter (\<lambda>m. fst m = ''$process_person_profile'') ms =
       (if has_flag (ev_flags e) PH_EVF_NO_PROFILE then [(''$process_person_profile'', TBool False)] else []) \<and>
     filter (\<lambda>m. fst m = ''$groups'') ms = groups_members (ev_blob e)"
  using serialize_event_tree [OF assms(1), of L ctx] property_members_owned [OF assms(2)]
  unfolding event_tree_def by blast

theorem sdk_keys_are_owned_witness:
  "\<exists>ms. serialize_event sample_libc zero_ctx sample_event =
       jt_print (TObj [(''event'', TStr ''jump''), (''timestamp'', TStr (iso8601_text 1010)),
         (''uuid'', TStr (ph_uuid_v7 0 0 7)), (''properties'', TObj ms)]) \<and>
     filter (\<lambda>m. fst m = ''distinct_id'') ms = [(''distinct_id'', TStr ''u1'')]"
proof -
  have r: "raw_ok TNum (ev_blob sample_event)" by (simp add: raw_ok_def)
  have t: "top_level_kind sample_event" by (simp add: top_level_kind_def sample_event_def)
  have "eff_did zero_ctx sample_event = ''u1''" "ev_name sample_event = ''jump''"
    "event_wall_ns sample_event = 1010" "uuid_salt zero_ctx = 0" "ev_seq sample_event = 7"
    by (simp_all add: eff_did_def sample_event_def has_flag_def PH_EVF_HAS_DID_def ev_did_def ev_name_def
        event_wall_ns_def zero_ctx_def)
  with sdk_keys_are_owned [OF r t, of sample_libc zero_ctx] show ?thesis by auto
qed

text \<open>
  The GeoIP opt-out is a wire invariant of every kind of event: when it is configured, the
  properties of the written event contain \<open>$geoip_disable\<close> exactly once, with the value true,
  whatever properties the caller, a super property or the hook supplied.
\<close>

theorem geoip_opt_out_on_the_wire:
  assumes "raw_ok raw (ev_blob e)" "disable_geoip ctx"
  shows "\<exists>ms. serialize_event L ctx e =
       jt_print (TObj [(''event'', TStr (ev_name e)), (''timestamp'', TStr (iso8601_text (event_wall_ns e))),
         (''uuid'', TStr (ph_uuid_v7 (event_wall_ns e div 1000000) (uuid_salt ctx) (ev_seq e))),
         (''properties'', TObj ms)]) \<and>
     filter (\<lambda>m. fst m = ''$geoip_disable'') ms = [(''$geoip_disable'', TBool True)]"
  using serialize_event_tree [OF assms(1), of L ctx] geoip_members [OF assms(2)]
  unfolding event_tree_def by blast

theorem geoip_opt_out_on_the_wire_witness:
  "\<exists>ms. serialize_event sample_libc (zero_ctx\<lparr>disable_geoip := True\<rparr>) sample_event =
       jt_print (TObj [(''event'', TStr ''jump''), (''timestamp'', TStr (iso8601_text 1010)),
         (''uuid'', TStr (ph_uuid_v7 0 0 7)), (''properties'', TObj ms)]) \<and>
     filter (\<lambda>m. fst m = ''$geoip_disable'') ms = [(''$geoip_disable'', TBool True)]"
proof -
  have r: "raw_ok TNum (ev_blob sample_event)" by (simp add: raw_ok_def)
  have g: "disable_geoip (zero_ctx\<lparr>disable_geoip := True\<rparr>)" by simp
  have "ev_name sample_event = ''jump''" "event_wall_ns sample_event = 1010"
    "uuid_salt (zero_ctx\<lparr>disable_geoip := True\<rparr>) = 0" "ev_seq sample_event = 7"
    by (simp_all add: sample_event_def ev_name_def event_wall_ns_def zero_ctx_def)
  with geoip_opt_out_on_the_wire [OF r g, of sample_libc] show ?thesis by auto
qed

end
