(* ===== verification/Ph_Submit.thy ===== *)
theory Ph_Submit imports Ph_Serialize
begin

text \<open>
  The enqueue path of \<^verbatim>\<open>src/src/ph_core.c\<close>: the token bucket, the profile decision,
  \<open>ph__submit_event\<close> and \<open>ph_capture\<close>. A call takes the context and the monotonic tick it reads
  and gives the new context and the result code. The bytes of \<open>data[]\<close> behind the three regions
  are left over from the slot's previous event and no reader looks at them; the model's list
  ends with the regions. The sequence bump is atomic and everything from admission to the push
  runs under the context's mutex, so a call is one step.

  Also here: the invariant \<open>ctx_wf\<close> that every operation on the context keeps, whose last part
  says that every queued event is one the serializer can write.
\<close>

section \<open>Small helpers\<close>

fun bounded_len :: "nat \<Rightarrow> string \<Rightarrow> nat" where
  "bounded_len 0 s = 0"
| "bounded_len (Suc n) [] = 0"
| "bounded_len (Suc n) (c # cs) = (if c = NUL then 0 else Suc (bounded_len n cs))"

definition bounded_event_name_len :: "string \<Rightarrow> nat" where
  "bounded_event_name_len name = bounded_len PH_EVENT_NAME_CAP name"

definition copy_capture_event_name :: "string \<Rightarrow> string \<times> bool" where
  "copy_capture_event_name name =
     (let n = bounded_event_name_len name;
          accepted = (if n < PH_EVENT_NAME_CAP then n else PH_EVENT_NAME_CAP - 1)
      in (take accepted name, n = PH_EVENT_NAME_CAP))"

section \<open>Admission\<close>

text \<open>
  \<open>rnd\<close> is the rounding of a double operation's exact result; it is applied once per operation of
  the C expression.
\<close>

definition u64_real :: "u64 \<Rightarrow> real" where
  "u64_real d = real (unat d)"

definition rate_limit_admit :: "(real \<Rightarrow> real) \<Rightarrow> ph_event_kind \<Rightarrow> u64 \<Rightarrow> ph_ctx \<Rightarrow> ph_ctx \<times> bool" where
  "rate_limit_admit rnd kind mono_ns ctx =
     (if rl_rate ctx \<le> 0 \<or> (kind \<noteq> PH_EV_CAPTURE \<and> kind \<noteq> PH_EV_EXCEPTION) then (ctx, True)
      else let d = (if rl_last_mono ctx \<le> mono_ns then mono_ns - rl_last_mono ctx else 0);
               tokens = rnd (rl_tokens ctx + rnd (rnd (rnd (u64_real d) / 1000000000) * rl_rate ctx));
               tokens = (if rl_burst ctx < tokens then rl_burst ctx else tokens);
               ctx = ctx\<lparr>rl_last_mono := mono_ns, rl_tokens := tokens\<rparr>
           in if tokens < 1 then (ctx\<lparr>rl_dropped := rl_dropped ctx + 1\<rparr>, False)
              else (ctx\<lparr>rl_tokens := rnd (tokens - 1)\<rparr>, True))"

definition derive_no_profile :: "int \<Rightarrow> ph_ctx \<Rightarrow> bool" where
  "derive_no_profile profile_mode ctx =
     (if person_profiles ctx = PH_NEVER then True
      else if profile_mode = 1 then True
      else if profile_mode = 0 then False
      else person_profiles ctx = PH_IDENTIFIED_ONLY \<and> \<not> identified ctx)"

section \<open>The enqueue path\<close>

text \<open>The group entries, appended one by one into the room left.\<close>

fun pack_groups :: "nat \<Rightarrow> ph_group list \<Rightarrow> bytes" where
  "pack_groups n [] = []"
| "pack_groups n (g # gs) =
     (let e = ph_pack_str_entry n PH_PK_GROUP (Some (group_type g)) (Some (group_key g))
      in e @ pack_groups (n - length e) gs)"

text \<open>The packed region of an event, in \<open>room\<close> bytes: raw extras, then properties, then groups.\<close>

definition submit_blob :: "nat \<Rightarrow> bytes option \<Rightarrow> ph_props option \<Rightarrow> bool \<Rightarrow> ph_ctx \<Rightarrow> bytes" where
  "submit_blob room extra props stamp_super_groups ctx =
     (let b1 = (case extra of None \<Rightarrow> [] | Some x \<Rightarrow> if x \<noteq> [] \<and> length x \<le> room then x else []);
          b2 = (if stamp_super_groups
                then ph_pack_props (Some (ph_props_merge props (Some (super_props ctx)))) (room - length b1)
                else ph_pack_props props (room - length b1));
          b3 = (if stamp_super_groups then pack_groups (room - length b1 - length b2) (groups ctx) else [])
      in b1 @ b2 @ b3)"

definition submit_did :: "string option \<Rightarrow> ph_ctx \<Rightarrow> string" where
  "submit_did did_override ctx =
     (case did_override of None \<Rightarrow> distinct_id ctx | Some d \<Rightarrow> if d \<noteq> [] then d else distinct_id ctx)"

definition submit_name_len :: "string \<Rightarrow> nat" where
  "submit_name_len name =
     (let n = bounded_event_name_len name;
          n = (if PH_EVENT_NAME_CAP \<le> n then PH_EVENT_NAME_CAP - 1 else n)
      in if PH_EVENT_DATA_CAP < n then PH_EVENT_DATA_CAP else n)"

definition submit_did_len :: "nat \<Rightarrow> string \<Rightarrow> nat" where
  "submit_did_len name_len did =
     (let n = length did;
          n = (if PH_DISTINCT_ID_CAP \<le> n then PH_DISTINCT_ID_CAP - 1 else n)
      in if PH_EVENT_DATA_CAP - name_len < n then PH_EVENT_DATA_CAP - name_len else n)"

definition submit_record ::
  "ph_event_kind \<Rightarrow> u8 \<Rightarrow> string \<Rightarrow> string option \<Rightarrow> ph_props option \<Rightarrow> int \<Rightarrow> bool \<Rightarrow> bytes option \<Rightarrow>
   u64 \<Rightarrow> u64 \<Rightarrow> ph_ctx \<Rightarrow> ph_event" where
  "submit_record kind base_flags name did_override props profile_mode stamp_super_groups extra mono_ns sq ctx =
     (let did = submit_did did_override ctx;
          name_len = submit_name_len name;
          did_len = submit_did_len name_len did;
          off = name_len + did_len;
          blob = submit_blob (PH_EVENT_DATA_CAP - off) extra props stamp_super_groups ctx
      in \<lparr>ev_kind = kind,
          ev_flags = base_flags OR PH_EVF_HAS_DID OR
                     (if derive_no_profile profile_mode ctx then PH_EVF_NO_PROFILE else 0),
          ev_name_len = name_len, ev_did_len = did_len, ev_blob_len = length blob,
          ev_mono_ns = mono_ns, ev_epoch_wall_ns = epoch_wall_ns ctx, ev_epoch_mono_ns = epoch_mono_ns ctx,
          ev_seq = sq, ev_data = take name_len name @ take did_len did @ blob\<rparr>)"

definition ph__sender_wake :: "ph_ctx \<Rightarrow> ph_ctx" where
  "ph__sender_wake ctx = ctx\<lparr>queue := ph_queue_wake (queue ctx)\<rparr>"

text \<open>\<open>mono_ns\<close> is the tick the call reads.\<close>

definition ph__submit_event ::
  "(real \<Rightarrow> real) \<Rightarrow> u64 \<Rightarrow> ph_event_kind \<Rightarrow> u8 \<Rightarrow> string option \<Rightarrow> string option \<Rightarrow> ph_props option \<Rightarrow> int \<Rightarrow>
   bool \<Rightarrow> bytes option \<Rightarrow> ph_ctx \<Rightarrow> ph_ctx \<times> ph_result" where
  "ph__submit_event rnd mono_ns kind base_flags name did_override props profile_mode stamp_super_groups extra ctx =
     (if \<not> enabled ctx then (ctx, PH_ERR_DISABLED)
      else case name of None \<Rightarrow> (ctx, PH_ERR_BADARG)
      | Some nm \<Rightarrow>
          (let sq = seq ctx;
               ctx = ctx\<lparr>seq := seq ctx + 1\<rparr>;
               (ctx, admitted) = rate_limit_admit rnd kind mono_ns ctx
           in if \<not> admitted then (ctx, PH_ERR_RATE_LIMITED)
              else let e = submit_record kind base_flags nm did_override props profile_mode
                             stamp_super_groups extra mono_ns sq ctx;
                       ctx = ctx\<lparr>queue := queue_push (queue ctx) e\<rparr>
                   in (if flush_at ctx \<le> int (ph_queue_size (queue ctx)) then ph__sender_wake ctx else ctx,
                       PH_OK)))"

definition ph_capture ::
  "(real \<Rightarrow> real) \<Rightarrow> u64 \<Rightarrow> string option \<Rightarrow> ph_props option \<Rightarrow> ph_ctx \<Rightarrow> ph_ctx \<times> ph_result" where
  "ph_capture rnd mono_ns event props ctx =
     (if \<not> enabled ctx then (ctx, PH_ERR_DISABLED)
      else case event of None \<Rightarrow> (ctx, PH_ERR_BADARG)
      | Some ev \<Rightarrow>
          if ev = [] then (ctx, PH_ERR_BADARG)
          else let (capped_event, truncated) = copy_capture_event_name ev;
                   (ctx, r) = ph__submit_event rnd mono_ns PH_EV_CAPTURE 0 (Some capped_event) None props
                                (-1) True None ctx
               in (ctx, if r = PH_OK \<and> truncated then PH_ERR_TRUNCATED else r))"

section \<open>The invariant of the context\<close>

definition rawjson_ok :: "bytes \<Rightarrow> bool" where
  "rawjson_ok v \<longleftrightarrow> (\<exists>t. jt_wf t \<and> jt_depth t \<le> 100 \<and> jt_print t = v)"

definition fragment_tree :: "bytes \<Rightarrow> jt" where
  "fragment_tree v = (SOME t. jt_wf t \<and> jt_depth t \<le> 100 \<and> jt_print t = v)"

definition entry_sound :: "nat \<times> bytes \<times> bytes \<Rightarrow> bool" where
  "entry_sound e \<longleftrightarrow> entry_wf e \<and> (fst e \<le> 3 \<longrightarrow> fst (snd e) \<noteq> []) \<and> (fst e = PH_PK_RAWJSON \<longrightarrow> rawjson_ok (snd (snd e)))"

definition blob_sound :: "bytes \<Rightarrow> bool" where
  "blob_sound b \<longleftrightarrow> (\<exists>es. b = concat (map encode_entry es) \<and> list_all entry_sound es)"

definition event_ok :: "ph_event \<Rightarrow> bool" where
  "event_ok e \<longleftrightarrow> event_wf e \<and> list_all entry_sound (blob_entries (ev_blob e))"

definition group_ok :: "ph_group \<Rightarrow> bool" where
  "group_ok g \<longleftrightarrow> cstr (group_type g) \<and> length (group_type g) < PH_KEY_CAP \<and>
     cstr (group_key g) \<and> length (group_key g) < PH_KEY_CAP \<and> props_wf (group_props g)"

definition flag_ok :: "ph_flag \<Rightarrow> bool" where
  "flag_ok f \<longleftrightarrow> cstr (fl_key f) \<and> length (fl_key f) < PH_KEY_CAP \<and>
     pred_option (\<lambda>v. cstr v \<and> length v < PH_FLAG_VARIANT_CAP) (fl_variant f) \<and>
     pred_option (\<lambda>v. cstr v \<and> length v < PH_FLAG_PAYLOAD_CAP) (fl_payload f)"

definition ctx_wf :: "ph_ctx \<Rightarrow> bool" where
  "ctx_wf ctx \<longleftrightarrow> ctx_strings_ok ctx \<and> length (distinct_id ctx) < PH_DISTINCT_ID_CAP \<and>
     props_wf (super_props ctx) \<and> props_wf (flag_person_props ctx) \<and>
     length (groups ctx) \<le> PH_MAX_GROUPS \<and> list_all group_ok (groups ctx) \<and>
     length (flags ctx) \<le> PH_MAX_FLAGS \<and> list_all flag_ok (flags ctx) \<and>
     (enabled ctx \<longrightarrow> queue_inv (queue ctx) \<and> list_all event_ok (queue_list (queue ctx)))"

section \<open>Facts: well-formed events\<close>

lemma entries_of_sound:
  assumes "list_all entry_sound es"
  shows "blob_entries (concat (map encode_entry es)) = es"
proof -
  have "list_all entry_ok es" using assms by (auto simp: entry_sound_def entry_wf_def list_all_iff)
  from blob_entries_concat [OF this, of "[]"] show ?thesis by simp
qed

lemma blob_sound_entries: "blob_sound b \<Longrightarrow> list_all entry_sound (blob_entries b)"
  by (auto simp: blob_sound_def entries_of_sound)

lemma blob_sound_wf: "blob_sound b \<Longrightarrow> blob_wf b"
  using blob_sound_entries [of b] by (auto simp: blob_wf_def list_all_iff entry_sound_def)

lemma blob_sound_Nil [simp]: "blob_sound []"
  unfolding blob_sound_def by (rule exI [of _ "[]"]) simp

lemma blob_sound_append: "blob_sound a \<Longrightarrow> blob_sound b \<Longrightarrow> blob_sound (a @ b)"
  unfolding blob_sound_def
proof (elim exE conjE)
  fix es fs
  assume "a = concat (map encode_entry es)" "list_all entry_sound es"
    "b = concat (map encode_entry fs)" "list_all entry_sound fs"
  then show "\<exists>gs. a @ b = concat (map encode_entry gs) \<and> list_all entry_sound gs"
    by (intro exI [of _ "es @ fs"]) simp
qed

lemma blob_sound_entry: "entry_sound e \<Longrightarrow> blob_sound (encode_entry e)"
  unfolding blob_sound_def by (rule exI [of _ "[e]"]) simp

lemma length_pack_groups: "length (pack_groups n gs) \<le> n"
proof (induction gs arbitrary: n)
  case (Cons g gs)
  let ?e = "ph_pack_str_entry n PH_PK_GROUP (Some (group_type g)) (Some (group_key g))"
  have "length ?e \<le> n" by (rule length_ph_pack_str_entry)
  with Cons [of "n - length ?e"] show ?case by (simp add: Let_def)
qed simp

lemma length_submit_blob: "length (submit_blob n extra props stamp ctx) \<le> n"
proof -
  define b1 where "b1 = (case extra of None \<Rightarrow> [] | Some x \<Rightarrow> if x \<noteq> [] \<and> length x \<le> n then x else [])"
  define b2 where "b2 = (if stamp then ph_pack_props (Some (ph_props_merge props (Some (super_props ctx)))) (n - length b1)
                else ph_pack_props props (n - length b1))"
  have 1: "length b1 \<le> n" by (simp add: b1_def split: option.split)
  have 2: "length b2 \<le> n - length b1" by (simp add: b2_def length_ph_pack_props)
  have 3: "length (pack_groups (n - length b1 - length b2) (groups ctx)) \<le> n - length b1 - length b2"
    by (rule length_pack_groups)
  show ?thesis
    using 1 2 3 unfolding submit_blob_def Let_def b1_def [symmetric] b2_def [symmetric] by (cases stamp) simp_all
qed

lemma bounded_len_le: "bounded_len n s \<le> n" "bounded_len n s \<le> length s"
  by (induction n s rule: bounded_len.induct) auto

lemma cstr_take_bounded: "m \<le> bounded_len n s \<Longrightarrow> cstr (take m s)"
proof (induction n s arbitrary: m rule: bounded_len.induct)
  case (3 n c cs)
  then show ?case by (cases m) (auto simp: cstr_def split: if_splits)
qed (auto simp: cstr_def)

lemma merge_wf: "pred_option props_wf props \<Longrightarrow> props_wf s \<Longrightarrow>
    props_wf (ph_props_merge props (Some s))"
proof (cases props)
  case None
  then show "props_wf s \<Longrightarrow> ?thesis"
    by (simp add: ph_props_merge_def merge_super_take props_wf_def ph_props_init_def list_all_iff)
       (auto dest: in_set_takeD)
next
  case (Some p)
  then show "pred_option props_wf props \<Longrightarrow> props_wf s \<Longrightarrow> ?thesis"
    by (simp add: props_wf_def [of "ph_props_merge _ _"] merge_items)
       (auto simp: props_wf_def list_all_iff dest!: in_set_takeD)
qed

section \<open>The packed region as a list of entries\<close>

definition group_entry :: "ph_group \<Rightarrow> nat \<times> bytes \<times> bytes" where
  "group_entry g = (PH_PK_GROUP, group_type g, group_key g)"

text \<open>The entries that fit when each is taken if there is room left and skipped otherwise.\<close>

fun fit_entries :: "nat \<Rightarrow> (nat \<times> bytes \<times> bytes) list \<Rightarrow> (nat \<times> bytes \<times> bytes) list" where
  "fit_entries n [] = []"
| "fit_entries n (e # es) =
     (if entry_size e \<le> n then e # fit_entries (n - entry_size e) es else fit_entries n es)"

definition entries_size :: "(nat \<times> bytes \<times> bytes) list \<Rightarrow> nat" where
  "entries_size es = sum_list (map entry_size es)"

lemma fit_entries_append:
  "fit_entries n (a @ b) = fit_entries n a @ fit_entries (n - entries_size (fit_entries n a)) b"
  by (induction n a rule: fit_entries.induct) (simp_all add: entries_size_def)

lemma fit_entries_all: "entries_size es \<le> n \<Longrightarrow> fit_entries n es = es"
  by (induction n es rule: fit_entries.induct) (simp_all add: entries_size_def)

lemma fit_entries_items: "fit_entries n (map prop_entry its) = map prop_entry (fit_items n its)"
  by (induction n its rule: fit_items.induct) simp_all

lemma fit_entries_subset: "set (fit_entries n es) \<subseteq> set es"
  by (induction n es rule: fit_entries.induct) auto

lemma length_encoded:
  "list_all entry_ok es \<Longrightarrow> length (concat (map encode_entry es)) = entries_size es"
  by (induction es) (simp_all add: entries_size_def length_encode_entry)

lemma fit_entries_ok: "list_all entry_ok es \<Longrightarrow> list_all entry_ok (fit_entries n es)"
  using fit_entries_subset [of n es] by (auto simp: list_all_iff)

lemma pack_props_entries:
  assumes "props_wf p"
  shows "ph_pack_props (Some p) n = concat (map encode_entry (fit_entries n (map prop_entry (p_items p))))"
  using assms by (simp add: ph_pack_props_def pack_items_fit props_wf_def fit_entries_items comp_def)

lemma group_entry_ok: "group_ok g \<Longrightarrow> entry_ok (group_entry g)"
  by (simp add: group_ok_def group_entry_def entry_ok_def caps PH_PK_GROUP_def)

lemma pack_groups_entries:
  "list_all group_ok gs \<Longrightarrow> pack_groups n gs = concat (map encode_entry (fit_entries n (map group_entry gs)))"
proof (induction gs arbitrary: n)
  case (Cons g gs)
  have ok: "entry_ok (group_entry g)" using Cons.prems by (simp add: group_entry_ok)
  have "ph_pack_str_entry n PH_PK_GROUP (Some (group_type g)) (Some (group_key g)) =
      (if entry_size (group_entry g) \<le> n then encode_entry (group_entry g) else [])"
    using ok by (auto simp: ph_pack_str_entry_def pack_one_def encode_entry_def group_entry_def entry_size_def entry_ok_def)
  with Cons ok show ?case by (simp add: Let_def length_encode_entry)
qed simp

text \<open>The candidates for the packed region, in the order they are offered.\<close>

definition submit_entries ::
  "(nat \<times> bytes \<times> bytes) list \<Rightarrow> ph_props option \<Rightarrow> bool \<Rightarrow> ph_ctx \<Rightarrow> (nat \<times> bytes \<times> bytes) list" where
  "submit_entries xs props stamp ctx = xs @
     (if stamp
      then map prop_entry (p_items (ph_props_merge props (Some (super_props ctx)))) @ map group_entry (groups ctx)
      else case props of None \<Rightarrow> [] | Some p \<Rightarrow> map prop_entry (p_items p))"

lemma props_entries_ok: "props_wf p \<Longrightarrow> list_all entry_ok (map prop_entry (p_items p))"
  by (auto simp: props_wf_def list_all_iff prop_entry_ok)

lemma submit_blob_rest:
  assumes "pred_option props_wf props" "props_wf (super_props ctx)" "list_all group_ok (groups ctx)"
  shows "submit_blob n None props stamp ctx = concat (map encode_entry (fit_entries n (submit_entries [] props stamp ctx)))"
proof (cases stamp)
  case True
  let ?m = "ph_props_merge props (Some (super_props ctx))"
  let ?b = "fit_entries n (map prop_entry (p_items ?m))"
  have m: "props_wf ?m" using assms by (intro merge_wf)
  have "list_all entry_ok ?b" using m by (intro fit_entries_ok props_entries_ok)
  with True m assms(3) show ?thesis
    by (simp add: submit_blob_def submit_entries_def pack_props_entries pack_groups_entries fit_entries_append
        length_encoded)
next
  case False
  with assms(1) show ?thesis
    by (cases props) (simp_all add: submit_blob_def submit_entries_def pack_props_entries,
        simp add: ph_pack_props_def)
qed

lemma submit_blob_extra:
  assumes "entry_ok x"
  shows "submit_blob n (Some (encode_entry x)) props stamp ctx =
     (if entry_size x \<le> n then encode_entry x @ submit_blob (n - entry_size x) None props stamp ctx
      else submit_blob n None props stamp ctx)"
proof -
  have "encode_entry x \<noteq> []" "length (encode_entry x) = entry_size x"
    using length_encode_entry [OF assms] by (auto simp: entry_size_def split: prod.splits)
  then show ?thesis by (simp add: submit_blob_def Let_def)
qed

definition extra_entries :: "bytes option \<Rightarrow> (nat \<times> bytes \<times> bytes) list \<Rightarrow> bool" where
  "extra_entries extra xs \<longleftrightarrow> (extra = None \<and> xs = []) \<or> (\<exists>x. extra = Some (encode_entry x) \<and> xs = [x] \<and> entry_sound x)"

lemma submit_blob_entries:
  assumes "pred_option props_wf props" "props_wf (super_props ctx)" "list_all group_ok (groups ctx)"
    and "extra_entries extra xs"
  shows "submit_blob n extra props stamp ctx = concat (map encode_entry (fit_entries n (submit_entries xs props stamp ctx)))"
proof -
  have *: "submit_entries [x] props stamp ctx = x # submit_entries [] props stamp ctx" for x
    by (simp add: submit_entries_def)
  show ?thesis
    using assms(4)
    by (auto simp: extra_entries_def submit_blob_rest [OF assms(1-3)] submit_blob_extra * entry_sound_def entry_wf_def
        split: prod.splits)
qed

lemma submit_entries_sound:
  assumes "pred_option props_wf props" "props_wf (super_props ctx)" "list_all group_ok (groups ctx)"
    and "extra_entries extra xs" "e \<in> set (submit_entries xs props stamp ctx)"
  shows "entry_sound e"
proof -
  have item: "entry_sound (prop_entry it)" if "prop_wf it" for it
    using that prop_entry_ok [OF that]
    by (cases "prop_val it") (auto simp: prop_entry_def entry_sound_def entry_wf_def prop_wf_def PH_PK_GROUP_def PH_PK_RAWJSON_def)
  have grp: "entry_sound (group_entry g)" if "group_ok g" for g
    using that group_entry_ok [OF that]
    by (simp add: group_entry_def entry_sound_def entry_wf_def group_ok_def PH_PK_GROUP_def PH_PK_RAWJSON_def)
  have m: "props_wf (ph_props_merge props (Some (super_props ctx)))"
    using assms by (intro merge_wf)
  then show ?thesis
    using assms item grp
    by (cases props) (auto simp: submit_entries_def extra_entries_def props_wf_def list_all_iff split: if_splits)
qed

section \<open>Facts: what a submitted event records\<close>

lemma bounded_len_cstr: "cstr s \<Longrightarrow> bounded_len n s = min n (length s)"
  by (induction n s rule: bounded_len.induct) auto

lemma regions_of_data:
  assumes "ev_data r = a @ b @ c" "ev_name_len r = length a" "ev_did_len r = length b" "ev_blob_len r = length c"
  shows "ev_name r = a" "ev_did r = b" "ev_blob r = c"
  using assms by (simp_all add: ev_name_def ev_did_def ev_blob_def)

lemma submit_record_regions:
  fixes nm :: string
  assumes "r = submit_record kind fl nm did props pm stamp extra t sq ctx"
  shows "ev_name r = take (min (PH_EVENT_NAME_CAP - 1) (bounded_event_name_len nm)) nm"
    and "ev_did r = take (PH_DISTINCT_ID_CAP - 1) (submit_did did ctx)"
    and "ev_blob r = submit_blob (PH_EVENT_DATA_CAP - length (ev_name r) - length (ev_did r)) extra props stamp ctx"
    and "ev_name_len r = length (ev_name r)" "ev_did_len r = length (ev_did r)" "ev_blob_len r = length (ev_blob r)"
    and "length (ev_data r) = length (ev_name r) + length (ev_did r) + length (ev_blob r)"
proof -
  let ?nl = "min (PH_EVENT_NAME_CAP - 1) (bounded_event_name_len nm)"
  let ?dl = "min (PH_DISTINCT_ID_CAP - 1) (length (submit_did did ctx))"
  let ?b = "submit_blob (PH_EVENT_DATA_CAP - (?nl + ?dl)) extra props stamp ctx"
  have bl: "bounded_event_name_len nm \<le> length nm" "bounded_event_name_len nm \<le> PH_EVENT_NAME_CAP"
    using bounded_len_le [of PH_EVENT_NAME_CAP nm] by (simp_all add: bounded_event_name_len_def)
  have n: "submit_name_len nm = ?nl" using bl by (auto simp: submit_name_len_def Let_def caps min_def)
  have d: "submit_did_len ?nl (submit_did did ctx) = ?dl" by (auto simp: submit_did_len_def Let_def caps min_def)
  have tk: "length (take ?nl nm) = ?nl" "length (take ?dl (submit_did did ctx)) = ?dl" using bl by simp_all
  have r: "ev_data r = take ?nl nm @ take ?dl (submit_did did ctx) @ ?b"
    "ev_name_len r = length (take ?nl nm)" "ev_did_len r = length (take ?dl (submit_did did ctx))"
    "ev_blob_len r = length ?b"
    unfolding assms submit_record_def Let_def n d tk by (simp_all only: ph_event.select_convs)
  note rg = regions_of_data [OF r]
  show "ev_name r = take ?nl nm" by (fact rg(1))
  show "ev_did r = take (PH_DISTINCT_ID_CAP - 1) (submit_did did ctx)" unfolding rg(2) by (simp add: min_def)
  show "ev_blob r = submit_blob (PH_EVENT_DATA_CAP - length (ev_name r) - length (ev_did r)) extra props stamp ctx"
    unfolding rg tk by (simp only: diff_diff_left)
  show "ev_name_len r = length (ev_name r)" "ev_did_len r = length (ev_did r)" "ev_blob_len r = length (ev_blob r)"
    unfolding rg r by simp_all
  show "length (ev_data r) = length (ev_name r) + length (ev_did r) + length (ev_blob r)"
    unfolding rg r by (simp only: length_append add.assoc)
qed

lemma submit_record_fields [simp]:
  "ev_kind (submit_record kind fl nm did props pm stamp extra t sq ctx) = kind"
  "ev_flags (submit_record kind fl nm did props pm stamp extra t sq ctx) =
     fl OR PH_EVF_HAS_DID OR (if derive_no_profile pm ctx then PH_EVF_NO_PROFILE else 0)"
  "ev_mono_ns (submit_record kind fl nm did props pm stamp extra t sq ctx) = t"
  "ev_epoch_wall_ns (submit_record kind fl nm did props pm stamp extra t sq ctx) = epoch_wall_ns ctx"
  "ev_epoch_mono_ns (submit_record kind fl nm did props pm stamp extra t sq ctx) = epoch_mono_ns ctx"
  "ev_seq (submit_record kind fl nm did props pm stamp extra t sq ctx) = sq"
  by (simp_all add: submit_record_def Let_def)

definition submit_args_ok :: "string option \<Rightarrow> ph_props option \<Rightarrow> bytes option \<Rightarrow> (nat \<times> bytes \<times> bytes) list \<Rightarrow> bool" where
  "submit_args_ok did props extra xs \<longleftrightarrow> pred_option cstr did \<and> pred_option props_wf props \<and> extra_entries extra xs"

lemma submit_record_ok:
  assumes "ctx_wf ctx" "submit_args_ok did props extra xs"
    and r: "r = submit_record kind fl nm did props pm stamp extra t sq ctx"
  shows "event_ok r"
    and "blob_entries (ev_blob r) =
       fit_entries (PH_EVENT_DATA_CAP - length (ev_name r) - length (ev_did r)) (submit_entries xs props stamp ctx)"
proof -
  note reg = submit_record_regions [OF r]
  let ?n = "PH_EVENT_DATA_CAP - length (ev_name r) - length (ev_did r)"
  let ?es = "fit_entries ?n (submit_entries xs props stamp ctx)"
  have pre: "pred_option props_wf props" "props_wf (super_props ctx)" "list_all group_ok (groups ctx)"
    "extra_entries extra xs" using assms(1,2) by (simp_all add: ctx_wf_def submit_args_ok_def)
  have b: "ev_blob r = concat (map encode_entry ?es)"
    using submit_blob_entries [OF pre] reg(3) by simp
  have snd_es: "list_all entry_sound ?es"
    using fit_entries_subset submit_entries_sound [OF pre] by (fastforce simp: list_all_iff)
  then have sound: "blob_sound (ev_blob r)" using b by (auto simp: blob_sound_def)
  have "cstr (submit_did did ctx)"
    using assms(1,2) by (auto simp: submit_did_def ctx_wf_def ctx_strings_ok_def submit_args_ok_def split: option.split)
  then have strs: "cstr (ev_name r)" "cstr (ev_did r)"
    using reg(1,2) by (auto simp: bounded_event_name_len_def intro: cstr_take_bounded [of _ PH_EVENT_NAME_CAP])
  have "length (ev_name r) < PH_EVENT_NAME_CAP" "length (ev_did r) < PH_DISTINCT_ID_CAP"
    using reg(1,2) by (auto simp: caps)
  moreover have "length (ev_blob r) \<le> ?n" using reg(3) length_submit_blob by metis
  ultimately show "event_ok r"
    using reg(4-7) strs blob_sound_entries [OF sound] blob_sound_wf [OF sound] by (simp add: event_ok_def event_wf_def caps)
  show "blob_entries (ev_blob r) = ?es" unfolding b by (rule entries_of_sound [OF snd_es])
qed

section \<open>Facts: the enqueue path keeps the invariant\<close>

lemma admit_frame:
  assumes "rate_limit_admit rnd kind t ctx = (ctx', ok)"
  obtains tk lm dr where "ctx' = ctx\<lparr>rl_tokens := tk, rl_last_mono := lm, rl_dropped := dr\<rparr>"
    "dr = (if ok then rl_dropped ctx else rl_dropped ctx + 1)"
proof -
  define d where "d = (if rl_last_mono ctx \<le> t then t - rl_last_mono ctx else 0)"
  define v where "v = rnd (rl_tokens ctx + rnd (rnd (rnd (u64_real d) / 1000000000) * rl_rate ctx))"
  define w where "w = (if rl_burst ctx < v then rl_burst ctx else v)"
  consider "rl_rate ctx \<le> 0 \<or> (kind \<noteq> PH_EV_CAPTURE \<and> kind \<noteq> PH_EV_EXCEPTION)"
    | "\<not> (rl_rate ctx \<le> 0 \<or> (kind \<noteq> PH_EV_CAPTURE \<and> kind \<noteq> PH_EV_EXCEPTION))" "w < 1"
    | "\<not> (rl_rate ctx \<le> 0 \<or> (kind \<noteq> PH_EV_CAPTURE \<and> kind \<noteq> PH_EV_EXCEPTION))" "\<not> w < 1" by blast
  then have "\<exists>tk lm. ctx' = ctx\<lparr>rl_tokens := tk, rl_last_mono := lm, rl_dropped := if ok then rl_dropped ctx else rl_dropped ctx + 1\<rparr>"
  proof cases
    case 1
    then have "ctx' = ctx" ok using assms unfolding rate_limit_admit_def by simp_all
    then show ?thesis by (intro exI [of _ "rl_tokens ctx"] exI [of _ "rl_last_mono ctx"]) simp
  next
    case 2
    then have "ctx' = ctx\<lparr>rl_tokens := w, rl_last_mono := t, rl_dropped := rl_dropped ctx + 1\<rparr>" "\<not> ok"
      using assms unfolding rate_limit_admit_def Let_def d_def [symmetric] v_def [symmetric] w_def [symmetric] by auto
    then show ?thesis by (intro exI [of _ w] exI [of _ t]) simp
  next
    case 3
    then have "ctx' = ctx\<lparr>rl_tokens := rnd (w - 1), rl_last_mono := t\<rparr>" ok
      using assms unfolding rate_limit_admit_def Let_def d_def [symmetric] v_def [symmetric] w_def [symmetric] by auto
    then show ?thesis by (intro exI [of _ "rnd (w - 1)"] exI [of _ t]) simp
  qed
  with that show thesis by blast
qed

section \<open>Facts: the token bucket\<close>

text \<open>
  Rounding of non-negative double results within a relative error \<open>u\<close> (for IEEE binary64,
  \<open>u\<close> is \<open>2^-53\<close>).
\<close>

definition rounds :: "(real \<Rightarrow> real) \<Rightarrow> real \<Rightarrow> bool" where
  "rounds rnd u \<longleftrightarrow> 0 \<le> u \<and> (\<forall>x \<ge> 0. 0 \<le> rnd x \<and> rnd x \<le> x * (1 + u))"

definition limited :: "ph_event_kind \<Rightarrow> bool" where
  "limited kind \<longleftrightarrow> kind = PH_EV_CAPTURE \<or> kind = PH_EV_EXCEPTION"

text \<open>Admission of a sequence of submissions, counting the limited ones that get through.\<close>

fun admit_run :: "(real \<Rightarrow> real) \<Rightarrow> ph_ctx \<Rightarrow> (ph_event_kind \<times> u64) list \<Rightarrow> ph_ctx \<times> nat" where
  "admit_run rnd ctx [] = (ctx, 0)"
| "admit_run rnd ctx ((kind, t) # xs) =
     (let (ctx', ok) = rate_limit_admit rnd kind t ctx; (ctx'', n) = admit_run rnd ctx' xs
      in (ctx'', (if ok \<and> limited kind then 1 else 0) + n))"

definition bucket_ok :: "real \<Rightarrow> ph_ctx \<Rightarrow> bool" where
  "bucket_ok u ctx \<longleftrightarrow> 0 < rl_rate ctx \<and> 0 \<le> rl_tokens ctx \<and> rl_tokens ctx \<le> rl_burst ctx \<and> u * rl_burst ctx \<le> 1"

lemma u64_real_ge_0: "0 \<le> u64_real x" unfolding u64_real_def by (rule of_nat_0_le_iff)

lemma u64_real_mono: "x \<le> y \<Longrightarrow> u64_real x \<le> u64_real y"
  unfolding u64_real_def word_le_nat_alt by (rule of_nat_mono)

lemma u64_real_diff: "x \<le> y \<Longrightarrow> u64_real (y - x) = u64_real y - u64_real x"
  unfolding u64_real_def by (subst unat_sub) (simp_all only: of_nat_diff word_le_nat_alt)

lemma refill_bound:
  assumes "rounds rnd u" "0 \<le> tk" "tk \<le> B" "0 \<le> x" "0 < r"
  shows "0 \<le> rnd (tk + rnd (rnd (rnd x / 1000000000) * r))"
    and "rnd (tk + rnd (rnd (rnd x / 1000000000) * r)) \<le> tk + u * B + x / 1000000000 * r * (1 + u) ^ 4"
proof -
  note R = assms(1) [unfolded rounds_def]
  define k where "k = 1 + u"
  have u: "0 \<le> u" "1 \<le> k" using R by (simp_all add: k_def)
  have rd: "0 \<le> rnd y \<and> rnd y \<le> y * k" if "0 \<le> y" for y using R that by (simp add: k_def)
  have a: "0 \<le> rnd x" "rnd x \<le> x * k" using rd [OF assms(4)] by simp_all
  have b: "0 \<le> rnd (rnd x / 1000000000)" "rnd (rnd x / 1000000000) \<le> x / 1000000000 * k ^ 2"
  proof -
    have "rnd (rnd x / 1000000000) \<le> rnd x / 1000000000 * k" using rd [of "rnd x / 1000000000"] a(1) by simp
    also have "\<dots> \<le> x * k / 1000000000 * k" using a u by (intro mult_right_mono divide_right_mono) simp_all
    finally show "rnd (rnd x / 1000000000) \<le> x / 1000000000 * k ^ 2" by (simp add: power2_eq_square)
  qed (use rd a(1) in simp)
  define i where "i = rnd (rnd (rnd x / 1000000000) * r)"
  have c: "0 \<le> i" "i \<le> x / 1000000000 * r * k ^ 3"
  proof -
    have "i \<le> rnd (rnd x / 1000000000) * r * k" unfolding i_def using rd b(1) assms(5) by simp
    also have "\<dots> \<le> x / 1000000000 * k ^ 2 * r * k"
      using b u assms(5) by (intro mult_right_mono) simp_all
    finally show "i \<le> x / 1000000000 * r * k ^ 3" by (simp add: power2_eq_square power3_eq_cube mult_ac)
  qed (use rd b(1) assms(5) i_def in simp)
  show "0 \<le> rnd (tk + rnd (rnd (rnd x / 1000000000) * r))" using rd c(1) assms(2) i_def by simp
  have "rnd (tk + i) \<le> (tk + i) * k" using rd c(1) assms(2) by simp
  also have "\<dots> = tk + u * tk + i * k" by (simp add: k_def algebra_simps)
  also have "\<dots> \<le> tk + u * B + x / 1000000000 * r * k ^ 3 * k"
    using c u assms(3) by (intro add_mono mult_left_mono mult_right_mono) simp_all
  finally show "rnd (tk + rnd (rnd (rnd x / 1000000000) * r)) \<le> tk + u * B + x / 1000000000 * r * (1 + u) ^ 4"
    by (simp add: i_def k_def power3_eq_cube power4_eq_xxxx mult_ac)
qed

lemma spend_bound:
  assumes "rounds rnd u" "1 \<le> w" "w \<le> B" "u * B \<le> 1"
  shows "0 \<le> rnd (w - 1)" "rnd (w - 1) \<le> w - 1 + u * B" "rnd (w - 1) \<le> B"
proof -
  have u: "0 \<le> u" and rd: "0 \<le> rnd (w - 1)" "rnd (w - 1) \<le> (w - 1) * (1 + u)"
    using assms(1,2) by (simp_all add: rounds_def)
  show "0 \<le> rnd (w - 1)" by (fact rd)
  have "(w - 1) * u \<le> u * B" using u assms(2,3) mult_left_mono [of "w - 1" B u] by (simp add: mult.commute)
  then have "(w - 1) * (1 + u) \<le> w - 1 + u * B" by (simp add: algebra_simps)
  with rd assms show "rnd (w - 1) \<le> w - 1 + u * B" "rnd (w - 1) \<le> B" by simp_all
qed

lemma admit_step:
  assumes "rounds rnd u" "bucket_ok u ctx" "limited kind" "rl_last_mono ctx \<le> t"
    and "rate_limit_admit rnd kind t ctx = (ctx', ok)"
  shows "bucket_ok u ctx'" "rl_last_mono ctx' = t" "rl_rate ctx' = rl_rate ctx" "rl_burst ctx' = rl_burst ctx"
    and "(if ok then 1 else 0) + rl_tokens ctx' \<le> rl_tokens ctx + 2 * u * rl_burst ctx
       + (u64_real t - u64_real (rl_last_mono ctx)) / 1000000000 * rl_rate ctx * (1 + u) ^ 4"
proof -
  define v where "v = rnd (rl_tokens ctx + rnd (rnd (rnd (u64_real (t - rl_last_mono ctx)) / 1000000000) * rl_rate ctx))"
  define w where "w = (if rl_burst ctx < v then rl_burst ctx else v)"
  have pre: "0 < rl_rate ctx" "0 \<le> rl_tokens ctx" "rl_tokens ctx \<le> rl_burst ctx" "u * rl_burst ctx \<le> 1" "0 \<le> u"
    using assms(1,2) by (simp_all add: bucket_ok_def rounds_def)
  have un: "u64_real (t - rl_last_mono ctx) = u64_real t - u64_real (rl_last_mono ctx)"
    using assms(4) by (rule u64_real_diff)
  have v: "0 \<le> v" "v \<le> rl_tokens ctx + u * rl_burst ctx
      + (u64_real t - u64_real (rl_last_mono ctx)) / 1000000000 * rl_rate ctx * (1 + u) ^ 4"
    using refill_bound [OF assms(1) pre(2,3) u64_real_ge_0 pre(1), of "t - rl_last_mono ctx"]
    unfolding v_def un [symmetric] by simp_all
  have w: "0 \<le> w" "w \<le> rl_burst ctx" "w \<le> v" using v pre by (auto simp: w_def)
  have d: "(if rl_last_mono ctx \<le> t then t - rl_last_mono ctx else 0) = t - rl_last_mono ctx" using assms(4) by simp
  have c: "(rl_rate ctx \<le> 0 \<or> (kind \<noteq> PH_EV_CAPTURE \<and> kind \<noteq> PH_EV_EXCEPTION)) = False"
    using pre(1) assms(3) by (auto simp: limited_def)
  have res: "rate_limit_admit rnd kind t ctx =
      (if w < 1 then (ctx\<lparr>rl_last_mono := t, rl_tokens := w, rl_dropped := rl_dropped ctx + 1\<rparr>, False)
       else (ctx\<lparr>rl_last_mono := t, rl_tokens := rnd (w - 1)\<rparr>, True))"
    unfolding rate_limit_admit_def Let_def d v_def [symmetric] w_def [symmetric] c if_False by (cases "w < 1") simp_all
  have B0: "0 \<le> u * rl_burst ctx" using pre by simp
  consider "w < 1" | "1 \<le> w" by linarith
  then have "bucket_ok u ctx' \<and> rl_last_mono ctx' = t \<and> rl_rate ctx' = rl_rate ctx \<and> rl_burst ctx' = rl_burst ctx \<and>
     (if ok then 1 else 0) + rl_tokens ctx' \<le> rl_tokens ctx + 2 * u * rl_burst ctx
       + (u64_real t - u64_real (rl_last_mono ctx)) / 1000000000 * rl_rate ctx * (1 + u) ^ 4"
  proof cases
    case 1
    with res assms(5) have "ctx' = ctx\<lparr>rl_last_mono := t, rl_tokens := w, rl_dropped := rl_dropped ctx + 1\<rparr>" "\<not> ok" by auto
    then show ?thesis using w pre by (simp add: bucket_ok_def) (insert B0 w v(2), linarith)
  next
    case 2
    with res assms(5) have "ctx' = ctx\<lparr>rl_last_mono := t, rl_tokens := rnd (w - 1)\<rparr>" ok by auto
    then show ?thesis using w v(2) pre spend_bound [OF assms(1) 2 w(2) pre(4)] by (simp add: bucket_ok_def)
  qed
  then show "bucket_ok u ctx'" "rl_last_mono ctx' = t" "rl_rate ctx' = rl_rate ctx" "rl_burst ctx' = rl_burst ctx"
    "(if ok then 1 else 0) + rl_tokens ctx' \<le> rl_tokens ctx + 2 * u * rl_burst ctx
       + (u64_real t - u64_real (rl_last_mono ctx)) / 1000000000 * rl_rate ctx * (1 + u) ^ 4" by blast+
qed

lemma admit_run_bound:
  assumes "rounds rnd u" "bucket_ok u ctx" "sorted (rl_last_mono ctx # map snd xs @ [T])"
  shows "real (snd (admit_run rnd ctx xs)) \<le> rl_tokens ctx + 2 * u * rl_burst ctx * length xs
       + (u64_real T - u64_real (rl_last_mono ctx)) / 1000000000 * rl_rate ctx * (1 + u) ^ 4"
  using assms(2,3)
proof (induction xs arbitrary: ctx)
  case Nil
  have "0 \<le> (u64_real T - u64_real (rl_last_mono ctx)) / 1000000000 * rl_rate ctx * (1 + u) ^ 4"
    using Nil assms(1) u64_real_mono [of "rl_last_mono ctx" T] by (simp add: bucket_ok_def rounds_def)
  with Nil show ?case by (simp add: bucket_ok_def)
next
  case (Cons x xs)
  obtain kind t where x: "x = (kind, t)" by (cases x)
  obtain ctx' ok where s: "rate_limit_admit rnd kind t ctx = (ctx', ok)" by (cases "rate_limit_admit rnd kind t ctx")
  have t: "rl_last_mono ctx \<le> t" "sorted (t # map snd xs @ [T])" using Cons.prems x by simp_all
  show ?case
  proof (cases "limited kind")
    case True
    note st = admit_step [OF assms(1) Cons.prems(1) True t(1) s]
    have IH: "real (snd (admit_run rnd ctx' xs)) \<le> rl_tokens ctx' + 2 * u * rl_burst ctx' * length xs
       + (u64_real T - u64_real (rl_last_mono ctx')) / 1000000000 * rl_rate ctx' * (1 + u) ^ 4"
      using st(1,2) t(2) by (intro Cons.IH) simp_all
    let ?K = "rl_rate ctx * (1 + u) ^ 4 / 1000000000"
    have "real (snd (admit_run rnd ctx (x # xs))) = (if ok then 1 else 0) + real (snd (admit_run rnd ctx' xs))"
      using s True by (simp add: x Let_def split: prod.split)
    with IH st show ?thesis by (simp add: algebra_simps diff_divide_distrib)
  next
    case False
    then have "ctx' = ctx" using s by (auto simp: rate_limit_admit_def limited_def)
    moreover have "sorted (rl_last_mono ctx # map snd xs @ [T])" using t by auto
    moreover have "0 \<le> u * rl_burst ctx" using Cons.prems(1) assms(1) by (simp add: bucket_ok_def rounds_def)
    ultimately show ?thesis using Cons.IH [OF Cons.prems(1)] s False by (simp add: x algebra_simps split: prod.split)
  qed
qed

section \<open>Facts: the effect of a submission\<close>

lemma wake_queue [simp]:
  "queue_list (ph_queue_wake q) = queue_list q" "queue_inv (ph_queue_wake q) = queue_inv q"
  "q_dropped (ph_queue_wake q) = q_dropped q" "q_size (ph_queue_wake q) = q_size q" "q_cap (ph_queue_wake q) = q_cap q"
  by (simp_all add: ph_queue_wake_def queue_list_def queue_inv_def)

text \<open>The context between admission and the push, and the event that is pushed.\<close>

definition admitted_ctx :: "(real \<Rightarrow> real) \<Rightarrow> ph_event_kind \<Rightarrow> u64 \<Rightarrow> ph_ctx \<Rightarrow> ph_ctx" where
  "admitted_ctx rnd kind t ctx = fst (rate_limit_admit rnd kind t (ctx\<lparr>seq := seq ctx + 1\<rparr>))"

definition admits :: "(real \<Rightarrow> real) \<Rightarrow> ph_event_kind \<Rightarrow> u64 \<Rightarrow> ph_ctx \<Rightarrow> bool" where
  "admits rnd kind t ctx = snd (rate_limit_admit rnd kind t (ctx\<lparr>seq := seq ctx + 1\<rparr>))"

lemma admitted_frame:
  obtains tk lm dr where "admitted_ctx rnd kind t ctx =
     ctx\<lparr>seq := seq ctx + 1, rl_tokens := tk, rl_last_mono := lm, rl_dropped := dr\<rparr>"
    "dr = (if admits rnd kind t ctx then rl_dropped ctx else rl_dropped ctx + 1)"
proof -
  have e: "rate_limit_admit rnd kind t (ctx\<lparr>seq := seq ctx + 1\<rparr>) = (admitted_ctx rnd kind t ctx, admits rnd kind t ctx)"
    by (simp add: admitted_ctx_def admits_def)
  show thesis by (rule admit_frame [OF e]) (erule that, simp)
qed

lemma submit_record_ctx:
  "submit_record kind fl nm did props pm stamp extra t sq
     (ctx\<lparr>seq := a, rl_tokens := tk, rl_last_mono := lm, rl_dropped := dr\<rparr>) =
   submit_record kind fl nm did props pm stamp extra t sq ctx"
proof -
  let ?c = "ctx\<lparr>seq := a, rl_tokens := tk, rl_last_mono := lm, rl_dropped := dr\<rparr>"
  have "submit_did did ?c = submit_did did ctx" by (cases did) (simp_all add: submit_did_def)
  moreover have s: "super_props ?c = super_props ctx" "groups ?c = groups ctx" by simp_all
  moreover have "submit_blob n extra props stamp ?c = submit_blob n extra props stamp ctx" for n
    unfolding submit_blob_def s ..
  moreover have "derive_no_profile pm ?c = derive_no_profile pm ctx" unfolding derive_no_profile_def by simp
  ultimately show ?thesis unfolding submit_record_def by simp
qed

lemma submit_event_unfold:
  assumes "enabled ctx"
  shows "ph__submit_event rnd t kind fl (Some nm) did props pm stamp extra ctx =
     (if \<not> admits rnd kind t ctx then (admitted_ctx rnd kind t ctx, PH_ERR_RATE_LIMITED)
      else let c = admitted_ctx rnd kind t ctx;
               q = queue_push (queue ctx) (submit_record kind fl nm did props pm stamp extra t (seq ctx) ctx)
           in (c\<lparr>queue := if flush_at ctx \<le> int (ph_queue_size q) then ph_queue_wake q else q\<rparr>, PH_OK))"
proof -
  obtain tk lm dr where c: "admitted_ctx rnd kind t ctx =
     ctx\<lparr>seq := seq ctx + 1, rl_tokens := tk, rl_last_mono := lm, rl_dropped := dr\<rparr>" by (rule admitted_frame)
  have e: "rate_limit_admit rnd kind t (ctx\<lparr>seq := seq ctx + 1\<rparr>) = (admitted_ctx rnd kind t ctx, admits rnd kind t ctx)"
    by (simp add: admitted_ctx_def admits_def)
  show ?thesis
    using assms unfolding ph__submit_event_def Let_def e
    by (simp add: c submit_record_ctx ph__sender_wake_def)
qed

lemma submit_event_ok:
  assumes "enabled ctx" "ctx_wf ctx" "admits rnd kind t ctx"
  obtains q where "ph__submit_event rnd t kind fl (Some nm) did props pm stamp extra ctx =
      ((admitted_ctx rnd kind t ctx)\<lparr>queue := q\<rparr>, PH_OK)"
    "queue_inv q"
    "queue_list q = (if ph_queue_size (queue ctx) = q_cap (queue ctx) then tl (queue_list (queue ctx))
       else queue_list (queue ctx)) @ [submit_record kind fl nm did props pm stamp extra t (seq ctx) ctx]"
    "q_dropped q = q_dropped (queue ctx) + (if ph_queue_size (queue ctx) = q_cap (queue ctx) then 1 else 0)"
proof -
  let ?q = "queue_push (queue ctx) (submit_record kind fl nm did props pm stamp extra t (seq ctx) ctx)"
  have inv: "queue_inv (queue ctx)" using assms(1,2) by (simp add: ctx_wf_def)
  show thesis
  proof (rule that [of "if flush_at ctx \<le> int (ph_queue_size ?q) then ph_queue_wake ?q else ?q"])
    show "ph__submit_event rnd t kind fl (Some nm) did props pm stamp extra ctx =
      ((admitted_ctx rnd kind t ctx)\<lparr>queue := if flush_at ctx \<le> int (ph_queue_size ?q) then ph_queue_wake ?q else ?q\<rparr>, PH_OK)"
      using assms(3) by (simp add: submit_event_unfold [OF assms(1)] Let_def)
  qed (use ring.push_contents [OF inv] ring.push_evicted [OF inv] ring.invar_push [OF inv]
      in \<open>simp_all add: ph_queue_size_def\<close>)
qed

lemma ctx_wf_counters [simp]:
  "ctx_wf (ctx\<lparr>seq := a, rl_tokens := tk, rl_last_mono := lm, rl_dropped := dr\<rparr>) = ctx_wf ctx"
  by (simp add: ctx_wf_def ctx_strings_ok_def)

lemma admitted_wf: "ctx_wf ctx \<Longrightarrow> ctx_wf (admitted_ctx rnd kind t ctx)"
  by (rule admitted_frame [of rnd kind t ctx]) simp

lemma ctx_wf_queue:
  "ctx_wf ctx \<Longrightarrow> queue_inv q \<Longrightarrow> list_all event_ok (queue_list q) \<Longrightarrow> ctx_wf (ctx\<lparr>queue := q\<rparr>)"
  by (simp add: ctx_wf_def ctx_strings_ok_def)

lemma list_all_tl: "list_all P xs \<Longrightarrow> list_all P (tl xs)"
  by (cases xs) simp_all

lemma submit_event_wf [wf_intros]:
  assumes "ctx_wf ctx" "submit_args_ok did props extra xs"
  shows "ctx_wf (fst (ph__submit_event rnd t kind fl name did props pm stamp extra ctx))"
proof (cases "enabled ctx \<and> name \<noteq> None")
  case True
  then obtain nm where nm: "name = Some nm" and en: "enabled ctx" by auto
  show ?thesis
  proof (cases "admits rnd kind t ctx")
    case True
    obtain q where q: "ph__submit_event rnd t kind fl (Some nm) did props pm stamp extra ctx =
        ((admitted_ctx rnd kind t ctx)\<lparr>queue := q\<rparr>, PH_OK)" "queue_inv q"
      "queue_list q = (if ph_queue_size (queue ctx) = q_cap (queue ctx) then tl (queue_list (queue ctx))
         else queue_list (queue ctx)) @ [submit_record kind fl nm did props pm stamp extra t (seq ctx) ctx]"
      by (rule submit_event_ok [OF en assms(1) True])
    have old: "list_all event_ok (queue_list (queue ctx))" using assms(1) en by (simp add: ctx_wf_def)
    have new: "event_ok (submit_record kind fl nm did props pm stamp extra t (seq ctx) ctx)"
      by (rule submit_record_ok(1) [OF assms refl])
    have "list_all event_ok (queue_list q)" unfolding q(3) using old new list_all_tl [OF old] by simp
    with q(1,2) show ?thesis by (simp add: nm ctx_wf_queue admitted_wf [OF assms(1)])
  next
    case False
    then show ?thesis by (simp add: nm submit_event_unfold [OF en] admitted_wf [OF assms(1)])
  qed
qed (use assms(1) in \<open>auto simp: ph__submit_event_def\<close>)

lemma capture_name_cstr:
  assumes "cstr nm"
  shows "copy_capture_event_name nm = (take (PH_EVENT_NAME_CAP - 1) nm, PH_EVENT_NAME_CAP - 1 < length nm)"
  using assms by (auto simp: copy_capture_event_name_def bounded_event_name_len_def bounded_len_cstr Let_def caps)

lemma capture_wf [wf_intros]:
  "ctx_wf ctx \<Longrightarrow> pred_option props_wf props \<Longrightarrow> ctx_wf (fst (ph_capture rnd t event props ctx))"
  using submit_event_wf [of ctx None props None "[]" rnd t PH_EV_CAPTURE 0]
  by (auto simp: ph_capture_def submit_args_ok_def extra_entries_def split: option.split prod.split)
    (metis fst_conv option.pred_inject(1))

section \<open>Properties\<close>

definition sample_ctx :: ph_ctx where
  "sample_ctx = zero_ctx\<lparr>initialized := True, enabled := True, distinct_id := ''anon-1'', flush_at := 20,
     max_batch := 50, max_queue := 8, flags_context_gen := 1,
     super_props := \<lparr>p_items = [\<lparr>prop_key = ''tier'', prop_val = PH_T_STR ''pro''\<rparr>], p_dropped = 0\<rparr>,
     queue := \<lparr>q_slots = replicate 8 sample_event, q_cap = 8, q_head = 0, q_size = 0, q_dropped = 0, q_woken = False\<rparr>\<rparr>"

lemma sample_ctx_wf: "ctx_wf sample_ctx" "enabled sample_ctx" "queue_list (queue sample_ctx) = []"
  by (simp_all add: sample_ctx_def ctx_wf_def ctx_strings_ok_def zero_ctx_def caps props_wf_def prop_wf_def
      ph_props_init_def queue_inv_def queue_list_def)

lemma submit_flags:
  "has_flag (0 OR PH_EVF_HAS_DID OR (if b then PH_EVF_NO_PROFILE else 0)) PH_EVF_NO_PROFILE = b"
  "has_flag (0 OR PH_EVF_HAS_DID OR (if b then PH_EVF_NO_PROFILE else 0)) PH_EVF_HAS_DID"
  by (cases b; simp add: has_flag_def PH_EVF_HAS_DID_def PH_EVF_NO_PROFILE_def)+

text \<open>What a capture of event \<open>nm\<close> records, in terms of the context at the call.\<close>

definition capture_record :: "string \<Rightarrow> ph_props option \<Rightarrow> ph_ctx \<Rightarrow> ph_event \<Rightarrow> bool" where
  "capture_record nm props ctx e \<longleftrightarrow>
     ev_kind e = PH_EV_CAPTURE \<and> ev_name e = take (PH_EVENT_NAME_CAP - 1) nm \<and> ev_did e = distinct_id ctx \<and>
     ev_seq e = seq ctx \<and> has_flag (ev_flags e) PH_EVF_NO_PROFILE = derive_no_profile (-1) ctx \<and>
     blob_entries (ev_blob e) =
       fit_entries (PH_EVENT_DATA_CAP - length (ev_name e) - length (ev_did e))
         (map prop_entry (p_items (ph_props_merge props (Some (super_props ctx)))) @ map group_entry (groups ctx))"

lemma capture_record_submit:
  assumes "ctx_wf ctx" "pred_option props_wf props" "cstr nm"
  shows "capture_record nm props ctx
     (submit_record PH_EV_CAPTURE 0 (take (PH_EVENT_NAME_CAP - 1) nm) None props (-1) True None t (seq ctx) ctx)"
    (is "capture_record nm props ctx ?e")
proof -
  have args: "submit_args_ok None props None []"
    using assms(2) by (simp add: submit_args_ok_def extra_entries_def)
  have name: "ev_name ?e = take (PH_EVENT_NAME_CAP - 1) nm"
    using submit_record_regions(1) [OF refl, of PH_EV_CAPTURE 0 "take (PH_EVENT_NAME_CAP - 1) nm" None props "-1" True None t "seq ctx" ctx]
      cstr_take [OF assms(3)]
    by (simp add: bounded_event_name_len_def bounded_len_cstr caps min_def)
  have did: "ev_did ?e = distinct_id ctx"
    using submit_record_regions(2) [OF refl, of PH_EV_CAPTURE 0 "take (PH_EVENT_NAME_CAP - 1) nm" None props "-1" True None t "seq ctx" ctx]
      assms(1) by (simp add: submit_did_def ctx_wf_def caps)
  show ?thesis
    using submit_record_ok(2) [OF assms(1) args refl, of PH_EV_CAPTURE 0 "take (PH_EVENT_NAME_CAP - 1) nm" "-1" True t "seq ctx"]
      submit_flags(1) name did
    by (simp add: capture_record_def submit_entries_def)
qed

lemma capture_unfold:
  assumes "enabled ctx" "nm \<noteq> []" "cstr nm"
  shows "ph_capture rnd t (Some nm) props ctx =
     (let (ctx', r) = ph__submit_event rnd t PH_EV_CAPTURE 0 (Some (take (PH_EVENT_NAME_CAP - 1) nm)) None props (-1) True None ctx
      in (ctx', if r = PH_OK \<and> PH_EVENT_NAME_CAP - 1 < length nm then PH_ERR_TRUNCATED else r))"
  using assms by (simp add: ph_capture_def capture_name_cstr)

text \<open>
  C29. Every outcome of a capture. Disabled and bad-argument calls change nothing; a call the
  token bucket rejects is counted and queues nothing; any other call appends one event to the
  ring (evicting the oldest when it is full) whose name is the caller's cut at the capacity,
  whose distinct id, profile decision and sequence number are those of the moment of the call,
  and whose packed region holds the explicit properties, the super properties they do not
  shadow and the groups, each as far as it fits. A cut name is reported.
\<close>

theorem capture_outcomes:
  assumes "ctx_wf ctx" "pred_option props_wf props" "pred_option cstr event"
  shows "(\<not> enabled ctx \<longrightarrow> ph_capture rnd t event props ctx = (ctx, PH_ERR_DISABLED)) \<and>
    (enabled ctx \<and> (event = None \<or> event = Some []) \<longrightarrow> ph_capture rnd t event props ctx = (ctx, PH_ERR_BADARG)) \<and>
    (\<forall>nm. enabled ctx \<and> event = Some nm \<and> nm \<noteq> [] \<longrightarrow>
       (let (ctx', r) = ph_capture rnd t event props ctx in
        if \<not> admits rnd PH_EV_CAPTURE t ctx
        then r = PH_ERR_RATE_LIMITED \<and> queue ctx' = queue ctx \<and> rl_dropped ctx' = rl_dropped ctx + 1
        else r = (if PH_EVENT_NAME_CAP - 1 < length nm then PH_ERR_TRUNCATED else PH_OK) \<and> seq ctx' = seq ctx + 1 \<and>
          (\<exists>e. capture_record nm props ctx e \<and> queue_list (queue ctx') =
               (if ph_queue_size (queue ctx) = q_cap (queue ctx) then tl (queue_list (queue ctx))
                else queue_list (queue ctx)) @ [e])))"
proof (intro conjI allI impI)
  fix nm
  assume en: "enabled ctx \<and> event = Some nm \<and> nm \<noteq> []"
  then have nm: "enabled ctx" "nm \<noteq> []" "cstr nm" and ev: "event = Some nm" using assms(3) by simp_all
  let ?nm = "take (PH_EVENT_NAME_CAP - 1) nm"
  have fr: "seq (admitted_ctx rnd PH_EV_CAPTURE t ctx) = seq ctx + 1"
    "queue (admitted_ctx rnd PH_EV_CAPTURE t ctx) = queue ctx"
    "\<not> admits rnd PH_EV_CAPTURE t ctx \<Longrightarrow> rl_dropped (admitted_ctx rnd PH_EV_CAPTURE t ctx) = rl_dropped ctx + 1"
    by (rule admitted_frame [of rnd PH_EV_CAPTURE t ctx], simp)+
  let ?goal = "\<lambda>ctx' r. if \<not> admits rnd PH_EV_CAPTURE t ctx
        then r = PH_ERR_RATE_LIMITED \<and> queue ctx' = queue ctx \<and> rl_dropped ctx' = rl_dropped ctx + 1
        else r = (if PH_EVENT_NAME_CAP - 1 < length nm then PH_ERR_TRUNCATED else PH_OK) \<and> seq ctx' = seq ctx + 1 \<and>
          (\<exists>e. capture_record nm props ctx e \<and> queue_list (queue ctx') =
               (if ph_queue_size (queue ctx) = q_cap (queue ctx) then tl (queue_list (queue ctx))
                else queue_list (queue ctx)) @ [e])"
  show "let (ctx', r) = ph_capture rnd t event props ctx in ?goal ctx' r"
  proof (cases "admits rnd PH_EV_CAPTURE t ctx")
    case True
    obtain q where q: "ph__submit_event rnd t PH_EV_CAPTURE 0 (Some ?nm) None props (-1) True None ctx =
        ((admitted_ctx rnd PH_EV_CAPTURE t ctx)\<lparr>queue := q\<rparr>, PH_OK)"
      "queue_list q = (if ph_queue_size (queue ctx) = q_cap (queue ctx) then tl (queue_list (queue ctx))
         else queue_list (queue ctx)) @ [submit_record PH_EV_CAPTURE 0 ?nm None props (-1) True None t (seq ctx) ctx]"
      by (rule submit_event_ok [OF nm(1) assms(1) True])
    then show ?thesis
      unfolding ev capture_unfold [OF nm] q(1) Let_def prod.case
      using True fr capture_record_submit [OF assms(1,2) nm(3)] by auto
  qed (simp add: ev capture_unfold [OF nm] submit_event_unfold [OF nm(1)] fr)
qed (auto simp: ph_capture_def)

theorem capture_outcomes_witness:
  "\<exists>ctx' e. ph_capture id 5 (Some ''jump'') None sample_ctx = (ctx', PH_OK) \<and> queue_list (queue ctx') = [e] \<and>
     capture_record ''jump'' None sample_ctx e"
proof -
  have p: "pred_option props_wf None" "pred_option cstr (Some ''jump'')" by simp_all
  have a: "admits id PH_EV_CAPTURE 5 sample_ctx"
    by (simp add: admits_def rate_limit_admit_def sample_ctx_def zero_ctx_def)
  obtain ctx' r where r: "ph_capture id 5 (Some ''jump'') None sample_ctx = (ctx', r)" by (cases "ph_capture id 5 (Some ''jump'') None sample_ctx")
  from capture_outcomes [OF sample_ctx_wf(1) p, of id 5] sample_ctx_wf(2,3) a show ?thesis
    by (auto simp: r caps)
qed



end
