(* ===== verification/Ph_Reload.thy ===== *)
theory Ph_Reload imports Ph_Submit
begin

text \<open>
  The reload scheduler of \<^verbatim>\<open>src/src/ph_flags.c\<close>: at most one queued and one in-flight fetch job,
  tickets of reload requests in a history of eight records, and generations of the identity and
  group context that say which tickets and responses are out of date. Every function that takes
  the context's mutex is one step; broadcasts on the condition variable have no effect on the
  state. The scheduler is then a transition system whose invariant is that no pending ticket is
  without a job.
\<close>

section \<open>The reload history\<close>

abbreviation PENDING :: ph_feature_flag_reload_status where "PENDING \<equiv> PH_FEATURE_FLAG_RELOAD_PENDING"

text \<open>The index of the first record with an id.\<close>

fun record_index :: "u64 \<Rightarrow> ph_flag_reload_record list \<Rightarrow> nat option" where
  "record_index i [] = None"
| "record_index i (r # rs) = (if rr_request_id r = i then Some 0 else map_option Suc (record_index i rs))"

definition reload_record_locked :: "u64 \<Rightarrow> ph_ctx \<Rightarrow> nat option" where
  "reload_record_locked i ctx = record_index i (flag_reload_history ctx)"

text \<open>
  The scan for a slot: a record that already has the id, else the first empty slot, else the
  finished record with the smallest id. The flag tells the first case from the others.
\<close>

fun alloc_scan ::
  "u64 \<Rightarrow> ph_flag_reload_record list \<Rightarrow> nat \<Rightarrow> (nat \<times> u64) option \<Rightarrow> nat option \<times> bool" where
  "alloc_scan i [] n slot = (map_option fst slot, False)"
| "alloc_scan i (r # rs) n slot =
     (if rr_request_id r = i then (Some n, True)
      else if rr_request_id r = 0 then (Some n, False)
      else alloc_scan i rs (Suc n)
             (if rr_status r \<noteq> PENDING \<and> (case slot of None \<Rightarrow> True | Some (m, j) \<Rightarrow> rr_request_id r < j)
              then Some (n, rr_request_id r) else slot))"

definition alloc_reload_record_locked :: "u64 \<Rightarrow> u64 \<Rightarrow> ph_ctx \<Rightarrow> ph_ctx \<times> bool" where
  "alloc_reload_record_locked i cgen ctx =
     (case alloc_scan i (flag_reload_history ctx) 0 None of
        (None, m) \<Rightarrow> (ctx, False)
      | (Some n, m) \<Rightarrow>
          (if m then ctx
           else ctx\<lparr>flag_reload_history := (flag_reload_history ctx)
                  [n := \<lparr>rr_request_id = i, rr_context_gen = cgen, rr_status = PENDING\<rparr>]\<rparr>, True))"

definition mark_reload_locked :: "u64 \<Rightarrow> ph_feature_flag_reload_status \<Rightarrow> ph_ctx \<Rightarrow> ph_ctx" where
  "mark_reload_locked i st ctx =
     (case reload_record_locked i ctx of None \<Rightarrow> ctx
      | Some n \<Rightarrow>
          let r = flag_reload_history ctx ! n in
          if rr_status r = PENDING
          then ctx\<lparr>flag_reload_history := (flag_reload_history ctx)[n := r\<lparr>rr_status := st\<rparr>]\<rparr>
          else ctx)"

definition mark_context_superseded_locked :: "u64 \<Rightarrow> ph_ctx \<Rightarrow> ph_ctx" where
  "mark_context_superseded_locked cgen ctx =
     ctx\<lparr>flag_reload_history :=
           map (\<lambda>r. if rr_request_id r \<noteq> 0 \<and> rr_status r = PENDING \<and> rr_context_gen r \<noteq> cgen
                    then r\<lparr>rr_status := PH_FEATURE_FLAG_RELOAD_SUPERSEDED\<rparr> else r)
             (flag_reload_history ctx)\<rparr>"

definition next_reload_request_locked :: "ph_ctx \<Rightarrow> ph_ctx \<times> u64" where
  "next_reload_request_locked ctx =
     (let i = reload_request_id ctx + 1; i = (if i = 0 then i + 1 else i)
      in (ctx\<lparr>reload_request_id := i\<rparr>, i))"

section \<open>Scheduling\<close>

definition schedule_reload_locked :: "u64 \<Rightarrow> ph_ctx \<Rightarrow> ph_ctx \<times> u64" where
  "schedule_reload_locked cgen ctx =
     (if flags_fetch_inflight ctx \<and> flags_fetch_inflight_context_gen ctx = cgen
      then (ctx, flags_fetch_inflight_gen ctx)
      else if flags_refetch ctx \<and> flags_refetch_context_gen ctx = cgen then (ctx, flags_refetch_gen ctx)
      else let ctx = (if flags_refetch ctx
                      then (mark_reload_locked (flags_refetch_gen ctx) PH_FEATURE_FLAG_RELOAD_SUPERSEDED ctx)
                             \<lparr>flags_refetch := False\<rparr>
                      else ctx);
               (ctx, generation) = next_reload_request_locked ctx
           in (ctx\<lparr>flags_refetch := True, flags_refetch_gen := generation, flags_refetch_context_gen := cgen\<rparr>,
               generation))"

definition ph__flags_context_changed_locked :: "ph_ctx \<Rightarrow> ph_ctx" where
  "ph__flags_context_changed_locked ctx =
     (let cgen = flags_context_gen ctx + 1;
          cgen = (if cgen = 0 then 1 else cgen);
          ctx = ctx\<lparr>flags := [], flags_context_gen := cgen\<rparr>;
          ctx = mark_context_superseded_locked cgen ctx
      in if flags_refetch ctx \<and> flags_refetch_context_gen ctx \<noteq> flags_context_gen ctx
         then ctx\<lparr>flags_refetch := False\<rparr> else ctx)"

definition ph__flags_request_auto_refresh :: "ph_ctx \<Rightarrow> ph_ctx" where
  "ph__flags_request_auto_refresh ctx =
     (if \<not> enabled ctx then ctx
      else ph__sender_wake (fst (schedule_reload_locked (flags_context_gen ctx) ctx)))"

definition ph__flags_take_fetch :: "ph_ctx \<Rightarrow> ph_ctx \<times> (u64 \<times> u64) option" where
  "ph__flags_take_fetch ctx =
     (if flags_refetch ctx \<and> \<not> flags_fetch_inflight ctx
      then (ctx\<lparr>flags_fetch_inflight := True, flags_fetch_inflight_gen := flags_refetch_gen ctx,
               flags_fetch_inflight_context_gen := flags_refetch_context_gen ctx, flags_refetch := False\<rparr>,
            Some (flags_refetch_gen ctx, flags_refetch_context_gen ctx))
      else (ctx, None))"

definition ph__flags_complete_fetch :: "u64 \<Rightarrow> ph_feature_flag_reload_status \<Rightarrow> ph_ctx \<Rightarrow> ph_ctx" where
  "ph__flags_complete_fetch generation st ctx =
     mark_reload_locked generation st
       (if flags_fetch_inflight ctx \<and> flags_fetch_inflight_gen ctx = generation
        then ctx\<lparr>flags_fetch_inflight := False, flags_fetch_inflight_gen := 0,
                 flags_fetch_inflight_context_gen := 0\<rparr>
        else ctx)"

definition ph__flags_abort_pending :: "ph_ctx \<Rightarrow> ph_ctx" where
  "ph__flags_abort_pending ctx =
     ctx\<lparr>flag_reload_history :=
           map (\<lambda>r. if rr_request_id r \<noteq> 0 \<and> rr_status r = PENDING
                    then r\<lparr>rr_status := PH_FEATURE_FLAG_RELOAD_FAILED\<rparr> else r)
             (flag_reload_history ctx),
         flags_refetch := False, flags_fetch_inflight := False\<rparr>"

text \<open>\<open>want\<close> says whether the caller passed a place for the ticket.\<close>

definition ph__flags_reload_async :: "bool \<Rightarrow> ph_ctx \<Rightarrow> ph_ctx \<times> u64 \<times> ph_result" where
  "ph__flags_reload_async want ctx =
     (if \<not> want then (ctx, 0, PH_ERR_BADARG)
      else if \<not> enabled ctx \<or> \<not> sender_running ctx then (ctx, 0, PH_ERR_DISABLED)
      else let (ctx, generation) = schedule_reload_locked (flags_context_gen ctx) ctx;
               (ctx, have_record) = alloc_reload_record_locked generation (flags_context_gen ctx) ctx
           in (ph__sender_wake ctx, if have_record then generation else 0,
               if have_record then PH_OK else PH_ERR_FULL))"

definition ph__flags_reload_status :: "u64 \<Rightarrow> ph_ctx \<Rightarrow> ph_feature_flag_reload_status" where
  "ph__flags_reload_status i ctx =
     (if i = 0 \<or> \<not> enabled ctx then PH_FEATURE_FLAG_RELOAD_UNKNOWN
      else case reload_record_locked i ctx of
        None \<Rightarrow> PH_FEATURE_FLAG_RELOAD_UNKNOWN
      | Some n \<Rightarrow> rr_status (flag_reload_history ctx ! n))"

text \<open>
  The blocking reload as a client that is run a step at a time: \<open>RStart\<close> is the head of the
  outer loop, \<open>RWait i\<close> the head of the inner loop, where the lock is held; between two steps
  the wait on the condition variable lets other threads run.
\<close>

datatype reload_client = RStart | RWait u64 | RDone

definition ph_reload_feature_flags_step :: "bool \<Rightarrow> ph_ctx \<Rightarrow> reload_client \<Rightarrow> ph_ctx \<times> reload_client" where
  "ph_reload_feature_flags_step on_sender ctx c =
     (case c of
        RStart \<Rightarrow>
          (let (ctx, i, r) = ph__flags_reload_async True ctx
           in (ctx, if r \<noteq> PH_OK \<or> on_sender then RDone else RWait i))
      | RWait i \<Rightarrow>
          (let st = (case reload_record_locked i ctx of
                       None \<Rightarrow> PH_FEATURE_FLAG_RELOAD_UNKNOWN
                     | Some n \<Rightarrow> rr_status (flag_reload_history ctx ! n))
           in (ctx, if st \<noteq> PENDING
                    then (if st = PH_FEATURE_FLAG_RELOAD_SUPERSEDED then RStart else RDone)
                    else if \<not> sender_running ctx then RDone else RWait i))
      | RDone \<Rightarrow> (ctx, RDone))"

section \<open>The invariant\<close>

definition hist :: "ph_ctx \<Rightarrow> ph_flag_reload_record set" where
  "hist ctx = {r \<in> set (flag_reload_history ctx). rr_request_id r \<noteq> 0}"

text \<open>
  \<open>serves\<close>: the job with this id is queued or in flight for the current context. The parts of the
  invariant: the history has its fixed size, filled from the left, with distinct ids no larger than the last id given out; every job was given
  out, and a queued job is for the current context and not a duplicate of one in flight; every
  pending ticket belongs to the job that serves the current context; and a ticket of that job is
  pending.
\<close>

definition serves :: "ph_ctx \<Rightarrow> u64 \<Rightarrow> bool" where
  "serves ctx i \<longleftrightarrow>
     (flags_refetch ctx \<and> flags_refetch_gen ctx = i \<and> flags_refetch_context_gen ctx = flags_context_gen ctx) \<or>
     (flags_fetch_inflight ctx \<and> flags_fetch_inflight_gen ctx = i \<and>
      flags_fetch_inflight_context_gen ctx = flags_context_gen ctx)"

fun packed :: "ph_flag_reload_record list \<Rightarrow> bool" where
  "packed [] = True"
| "packed (r # rs) = (if rr_request_id r = 0 then \<forall>x \<in> set rs. rr_request_id x = 0 else packed rs)"

definition history_ok :: "u64 \<Rightarrow> ph_flag_reload_record list \<Rightarrow> bool" where
  "history_ok last_id rs \<longleftrightarrow> length rs = PH_FLAG_RELOAD_HISTORY_CAP \<and> packed rs \<and>
     (\<forall>r \<in> set rs. rr_request_id r \<le> last_id) \<and>
     (\<forall>m < length rs. \<forall>n < length rs. m \<noteq> n \<longrightarrow> rr_request_id (rs ! m) = rr_request_id (rs ! n) \<longrightarrow> rr_request_id (rs ! m) = 0)"

definition jobs_ok :: "ph_ctx \<Rightarrow> bool" where
  "jobs_ok ctx \<longleftrightarrow>
     (flags_refetch ctx \<longrightarrow> 0 < flags_refetch_gen ctx \<and> flags_refetch_gen ctx \<le> reload_request_id ctx \<and>
        flags_refetch_context_gen ctx = flags_context_gen ctx) \<and>
     (flags_fetch_inflight ctx \<longrightarrow> 0 < flags_fetch_inflight_gen ctx \<and>
        flags_fetch_inflight_gen ctx \<le> reload_request_id ctx \<and>
        flags_fetch_inflight_context_gen ctx \<le> flags_context_gen ctx) \<and>
     (flags_refetch ctx \<and> flags_fetch_inflight ctx \<longrightarrow>
        flags_fetch_inflight_context_gen ctx \<noteq> flags_context_gen ctx \<and>
        flags_fetch_inflight_gen ctx \<noteq> flags_refetch_gen ctx)"

definition reload_inv :: "ph_ctx \<Rightarrow> bool" where
  "reload_inv ctx \<longleftrightarrow> history_ok (reload_request_id ctx) (flag_reload_history ctx) \<and> jobs_ok ctx \<and>
     (\<forall>r \<in> hist ctx. rr_status r = PENDING \<longrightarrow>
        rr_context_gen r = flags_context_gen ctx \<and> serves ctx (rr_request_id r)) \<and>
     (\<forall>r \<in> hist ctx. serves ctx (rr_request_id r) \<longrightarrow> rr_status r = PENDING)"

section \<open>Facts: marking\<close>

lemma record_index_Some:
  "record_index i rs = Some n \<Longrightarrow> n < length rs \<and> rr_request_id (rs ! n) = i"
  by (induction rs arbitrary: n) (auto split: if_splits)

lemma record_index_None: "record_index i rs = None \<longleftrightarrow> (\<forall>r \<in> set rs. rr_request_id r \<noteq> i)"
  by (induction rs) auto

text \<open>With distinct ids, marking is a map over the history.\<close>

lemma mark_history:
  assumes "history_ok m (flag_reload_history ctx)" "i \<noteq> 0"
  shows "mark_reload_locked i st ctx =
     ctx\<lparr>flag_reload_history :=
           map (\<lambda>r. if rr_request_id r = i \<and> rr_status r = PENDING then r\<lparr>rr_status := st\<rparr> else r)
             (flag_reload_history ctx)\<rparr>"
proof (cases "record_index i (flag_reload_history ctx)")
  case None
  then have "map (\<lambda>r. if rr_request_id r = i \<and> rr_status r = PENDING then r\<lparr>rr_status := st\<rparr> else r)
      (flag_reload_history ctx) = flag_reload_history ctx"
    by (auto simp: record_index_None intro: map_idI)
  with None show ?thesis by (simp add: mark_reload_locked_def reload_record_locked_def)
next
  case (Some n)
  let ?rs = "flag_reload_history ctx"
  have n: "n < length ?rs" "rr_request_id (?rs ! n) = i" using record_index_Some [OF Some] by simp_all
  have only: "rr_request_id (?rs ! m) \<noteq> i" if "m < length ?rs" "m \<noteq> n" for m
    using assms n that by (auto simp: history_ok_def)
  have "map (\<lambda>r. if rr_request_id r = i \<and> rr_status r = PENDING then r\<lparr>rr_status := st\<rparr> else r) ?rs =
      (if rr_status (?rs ! n) = PENDING then ?rs[n := (?rs ! n)\<lparr>rr_status := st\<rparr>] else ?rs)"
    using n only by (intro nth_equalityI) (auto simp: nth_list_update)
  with Some show ?thesis by (simp add: mark_reload_locked_def reload_record_locked_def Let_def)
qed

lemma packed_map: "(\<And>r. rr_request_id (f r) = rr_request_id r) \<Longrightarrow> packed (map f rs) = packed rs"
  by (induction rs) simp_all

lemma packed_zero: "\<forall>x \<in> set xs. rr_request_id x = 0 \<Longrightarrow> packed xs"
  by (induction xs) simp_all

lemma packed_update:
  "packed rs \<Longrightarrow> m < length rs \<Longrightarrow> rr_request_id r \<noteq> 0 \<Longrightarrow>
   rr_request_id (rs ! m) \<noteq> 0 \<or> (\<forall>l < m. rr_request_id (rs ! l) \<noteq> 0) \<Longrightarrow> packed (rs[m := r])"
proof (induction rs arbitrary: m)
  case (Cons x xs)
  show ?case
  proof (cases m)
    case 0
    have "packed xs" using Cons.prems(1) packed_zero by (simp split: if_splits)
    with 0 Cons.prems(3) show ?thesis by simp
  next
    case (Suc k)
    have "rr_request_id x \<noteq> 0"
    proof
      assume z: "rr_request_id x = 0"
      then have "rr_request_id (xs ! k) = 0" using Cons.prems(1,2) Suc by simp
      with Cons.prems(4) Suc have "\<forall>l < Suc k. rr_request_id ((x # xs) ! l) \<noteq> 0" by simp
      then have "rr_request_id ((x # xs) ! 0) \<noteq> 0" by blast
      with z show False by simp
    qed
    moreover have "rr_request_id (xs ! k) \<noteq> 0 \<or> (\<forall>l < k. rr_request_id (xs ! l) \<noteq> 0)"
      using Cons.prems(4) Suc by (metis Suc_less_eq nth_Cons_Suc)
    ultimately show ?thesis using Cons.IH [of k] Cons.prems Suc by simp
  qed
qed simp

lemma history_ok_map:
  assumes "history_ok m rs" "\<And>r. rr_request_id (f r) = rr_request_id r"
  shows "history_ok m (map f rs)"
  using assms packed_map [of f rs] by (simp add: history_ok_def)

lemma history_ok_mono: "history_ok a rs \<Longrightarrow> a \<le> b \<Longrightarrow> history_ok b rs"
  by (fastforce simp: history_ok_def)

section \<open>Facts: allocation\<close>

lemma alloc_scan_match: "alloc_scan i rs n slot = (Some k, True) \<Longrightarrow> \<exists>r \<in> set rs. rr_request_id r = i"
  by (induction i rs n slot rule: alloc_scan.induct) (auto split: if_splits)

definition free_slot :: "ph_flag_reload_record list \<Rightarrow> nat \<Rightarrow> bool" where
  "free_slot rs m \<longleftrightarrow> (rr_request_id (rs ! m) = 0 \<and> (\<forall>l < m. rr_request_id (rs ! l) \<noteq> 0)) \<or>
     (rr_request_id (rs ! m) \<noteq> 0 \<and> rr_status (rs ! m) \<noteq> PENDING)"

lemma free_slot_0: "rr_request_id r = 0 \<or> rr_status r \<noteq> PENDING \<Longrightarrow> free_slot (r # rs) 0"
  by (auto simp: free_slot_def)

lemma free_slot_Suc: "free_slot rs m \<Longrightarrow> rr_request_id r \<noteq> 0 \<Longrightarrow> free_slot (r # rs) (Suc m)"
  by (auto simp: free_slot_def nth_Cons split: nat.split)

lemma alloc_scan_slot:
  assumes "alloc_scan i rs n slot = (Some k, False)"
  shows "(\<exists>j. slot = Some (k, j)) \<or>
    (n \<le> k \<and> k < n + length rs \<and> free_slot rs (k - n))"
  using assms
proof (induction i rs n slot rule: alloc_scan.induct)
  case (2 i r rs n slot)
  show ?case
  proof (cases "rr_request_id r = i \<or> rr_request_id r = 0")
    case True
    with 2 show ?thesis by (auto split: if_splits intro: free_slot_0)
  next
    case False
    let ?s = "if rr_status r \<noteq> PENDING \<and> (case slot of None \<Rightarrow> True | Some (m, j) \<Rightarrow> rr_request_id r < j)
              then Some (n, rr_request_id r) else slot"
    have "alloc_scan i rs (Suc n) ?s = (Some k, False)" using 2 False by simp
    with 2 False consider j where "?s = Some (k, j)"
      | "Suc n \<le> k" "k < Suc n + length rs" "free_slot rs (k - Suc n)"
      by fastforce
    then show ?thesis
    proof cases
      case 1
      then show ?thesis by (auto split: if_splits intro: free_slot_0)
    next
      case 2
      then have "free_slot (r # rs) (Suc (k - Suc n))" using False by (intro free_slot_Suc) simp_all
      with 2 show ?thesis by (simp add: Suc_diff_Suc)
    qed
  qed
qed auto

lemma alloc_scan_fresh:
  "alloc_scan i rs n slot = (k, False) \<Longrightarrow> packed rs \<Longrightarrow> i \<noteq> 0 \<Longrightarrow> r \<in> set rs \<Longrightarrow> rr_request_id r \<noteq> i"
  by (induction i rs n slot rule: alloc_scan.induct) (auto split: if_splits)

lemma alloc_none_pending:
  assumes "alloc_scan i rs n None = (None, m)"
  shows "\<forall>r \<in> set rs. rr_request_id r \<noteq> 0 \<and> rr_status r = PENDING"
proof -
  have "slot = None \<and> (\<forall>r \<in> set rs. rr_request_id r \<noteq> 0 \<and> rr_status r = PENDING)"
    if "alloc_scan i rs n slot = (None, m)" for slot
    using that by (induction i rs n slot rule: alloc_scan.induct) (auto split: if_splits option.splits)
  with assms show ?thesis by blast
qed

section \<open>Facts: every operation keeps the invariant\<close>

lemma u64_succ: "x + 1 \<noteq> 0 \<Longrightarrow> x < x + (1 :: u64)"
proof -
  assume x: "x + 1 \<noteq> 0"
  have "unat x + 1 < 18446744073709551616"
  proof (rule ccontr)
    assume "\<not> unat x + 1 < 18446744073709551616"
    then have "unat x = 18446744073709551615" using u64_less [of x] by simp
    moreover have "x = of_nat (unat x)" by simp
    ultimately have "x = of_nat 18446744073709551615" by simp
    with x show False by simp
  qed
  then show "x < x + 1" unfolding word_less_nat_alt by (subst unat_add_lt) simp_all
qed

lemma reload_invD:
  assumes "reload_inv ctx"
  shows "history_ok (reload_request_id ctx) (flag_reload_history ctx)" "jobs_ok ctx"
    and "r \<in> hist ctx \<Longrightarrow> rr_status r = PENDING \<Longrightarrow> rr_context_gen r = flags_context_gen ctx \<and> serves ctx (rr_request_id r)"
    and "r \<in> hist ctx \<Longrightarrow> serves ctx (rr_request_id r) \<Longrightarrow> rr_status r = PENDING"
  using assms unfolding reload_inv_def by blast+

lemma jobs_okD:
  assumes "jobs_ok ctx"
  shows "flags_refetch ctx \<Longrightarrow> 0 < flags_refetch_gen ctx"
    and "flags_refetch ctx \<Longrightarrow> flags_refetch_gen ctx \<le> reload_request_id ctx"
    and "flags_refetch ctx \<Longrightarrow> flags_refetch_context_gen ctx = flags_context_gen ctx"
    and "flags_fetch_inflight ctx \<Longrightarrow> 0 < flags_fetch_inflight_gen ctx"
    and "flags_fetch_inflight ctx \<Longrightarrow> flags_fetch_inflight_gen ctx \<le> reload_request_id ctx"
    and "flags_fetch_inflight ctx \<Longrightarrow> flags_fetch_inflight_context_gen ctx \<le> flags_context_gen ctx"
    and "flags_refetch ctx \<Longrightarrow> flags_fetch_inflight ctx \<Longrightarrow>
        flags_fetch_inflight_context_gen ctx \<noteq> flags_context_gen ctx \<and> flags_fetch_inflight_gen ctx \<noteq> flags_refetch_gen ctx"
  using assms unfolding jobs_ok_def by blast+

lemma hist_map:
  "flag_reload_history c = map f (flag_reload_history ctx) \<Longrightarrow> (\<And>r. rr_request_id (f r) = rr_request_id r) \<Longrightarrow>
     hist c = f ` hist ctx"
  by (auto simp: hist_def)

lemma wake_reload [simp]: "reload_inv (ph__sender_wake ctx) = reload_inv ctx"
  by (simp add: reload_inv_def jobs_ok_def serves_def hist_def ph__sender_wake_def)

lemma reload_context_changed [wf_intros]:
  assumes "reload_inv ctx" "flags_context_gen ctx + 1 \<noteq> 0"
  shows "reload_inv (ph__flags_context_changed_locked ctx)"
proof -
  let ?g = "flags_context_gen ctx + 1"
  let ?f = "\<lambda>r. if rr_request_id r \<noteq> 0 \<and> rr_status r = PENDING \<and> rr_context_gen r \<noteq> ?g
                    then r\<lparr>rr_status := PH_FEATURE_FLAG_RELOAD_SUPERSEDED\<rparr> else r"
  let ?c = "ctx\<lparr>flags := [], flags_context_gen := ?g,
      flag_reload_history := map ?f (flag_reload_history ctx), flags_refetch := False\<rparr>"
  note inv = reload_invD [OF assms(1)] and jobs = jobs_okD [OF reload_invD(2) [OF assms(1)]]
  have lt: "flags_context_gen ctx < ?g" using u64_succ [OF assms(2)] .
  have r: "ph__flags_context_changed_locked ctx = ?c"
  proof (cases "flags_refetch ctx")
    case True
    then have "flags_refetch_context_gen ctx \<noteq> ?g" using jobs(3) lt by auto
    with True assms(2) show ?thesis
      by (simp add: ph__flags_context_changed_locked_def mark_context_superseded_locked_def Let_def)
  next
    case False
    with assms(2) show ?thesis
      by (simp add: ph__flags_context_changed_locked_def mark_context_superseded_locked_def Let_def)
  qed
  have none: "rr_status s \<noteq> PENDING" if "s \<in> hist ?c" for s
  proof -
    have "hist ?c = ?f ` hist ctx" by (rule hist_map) simp_all
    with that obtain r where "s = ?f r" "r \<in> hist ctx" by blast
    then show ?thesis using inv(3) [of r] lt by (auto simp: hist_def)
  qed
  have ns: "\<not> serves ?c i" for i using jobs(6) lt by (auto simp: serves_def)
  have h: "history_ok (reload_request_id ctx) (map ?f (flag_reload_history ctx))"
    by (rule history_ok_map [OF inv(1)]) simp
  have j: "jobs_ok ?c" using jobs lt by (auto simp: jobs_ok_def)
  show ?thesis unfolding r reload_inv_def using none ns h j by simp
qed

lemma schedule_reload:
  assumes "reload_inv ctx" "reload_request_id ctx + 1 \<noteq> 0"
    and "schedule_reload_locked (flags_context_gen ctx) ctx = (ctx', g)"
  shows "reload_inv ctx'" "serves ctx' g" "g \<noteq> 0" "flags_context_gen ctx' = flags_context_gen ctx"
    "g \<le> reload_request_id ctx'"
proof -
  note inv = reload_invD [OF assms(1)] and jobs = jobs_okD [OF reload_invD(2) [OF assms(1)]]
  let ?i = "reload_request_id ctx + 1"
  let ?c = "ctx\<lparr>reload_request_id := ?i, flags_refetch := True, flags_refetch_gen := ?i,
       flags_refetch_context_gen := flags_context_gen ctx\<rparr>"
  have lt: "reload_request_id ctx < ?i" using u64_succ [OF assms(2)] .
  have sch: "schedule_reload_locked (flags_context_gen ctx) ctx =
     (if flags_fetch_inflight ctx \<and> flags_fetch_inflight_context_gen ctx = flags_context_gen ctx
      then (ctx, flags_fetch_inflight_gen ctx)
      else if flags_refetch ctx then (ctx, flags_refetch_gen ctx) else (?c, ?i))"
    using jobs(3) assms(2)
    by (cases "flags_refetch ctx") (simp_all add: schedule_reload_locked_def next_reload_request_locked_def Let_def)
  have "reload_inv ctx' \<and> serves ctx' g \<and> g \<noteq> 0 \<and> flags_context_gen ctx' = flags_context_gen ctx \<and>
      g \<le> reload_request_id ctx'"
  proof (cases "flags_fetch_inflight ctx \<and> flags_fetch_inflight_context_gen ctx = flags_context_gen ctx")
    case True
    with sch assms(3) have "ctx' = ctx" "g = flags_fetch_inflight_gen ctx" by simp_all
    with True show ?thesis using assms(1) jobs(4,5) by (simp add: serves_def word_gt_0)
  next
    case idle: False
    show ?thesis
    proof (cases "flags_refetch ctx")
      case True
      then have "ctx' = ctx" "g = flags_refetch_gen ctx" using assms(3) unfolding sch if_not_P [OF idle] by auto
      with True show ?thesis using assms(1) jobs(1,2,3) by (simp add: serves_def word_gt_0)
    next
      case False
      then have c: "ctx' = ?c" "g = ?i" using assms(3) unfolding sch if_not_P [OF idle] by auto
      have h: "hist ?c = hist ctx" by (simp add: hist_def)
      have np: "rr_status r \<noteq> PENDING" "rr_request_id r \<le> reload_request_id ctx" if "r \<in> hist ctx" for r
        using inv(1) inv(3) [of r] idle False that by (auto simp: serves_def hist_def history_ok_def)
      have ns: "\<not> serves ?c (rr_request_id r)" if "r \<in> hist ctx" for r
        using np(2) [OF that] idle lt by (auto simp: serves_def)
      have ho: "history_ok ?i (flag_reload_history ctx)" using history_ok_mono [OF inv(1)] lt by simp
      have ig: "flags_fetch_inflight ctx \<Longrightarrow> flags_fetch_inflight_gen ctx < ?i" using jobs(5) lt by (rule le_less_trans)
      have j: "jobs_ok ?c"
        unfolding jobs_ok_def using jobs(4,6) ig idle assms(2) by (auto simp: word_gt_0)
      have "reload_inv ?c" unfolding reload_inv_def h using np ns ho j by simp
      then show ?thesis using c assms(2) by (simp add: serves_def)
    qed
  qed
  then show "reload_inv ctx'" "serves ctx' g" "g \<noteq> 0" "flags_context_gen ctx' = flags_context_gen ctx"
    "g \<le> reload_request_id ctx'"
    by blast+
qed

lemma reload_auto_refresh [wf_intros]:
  assumes "reload_inv ctx" "reload_request_id ctx + 1 \<noteq> 0"
  shows "reload_inv (ph__flags_request_auto_refresh ctx)"
  using schedule_reload(1) [OF assms] assms(1)
  by (cases "schedule_reload_locked (flags_context_gen ctx) ctx")
    (simp add: ph__flags_request_auto_refresh_def)

lemma history_ok_update:
  assumes "history_ok m rs" "n < length rs" "free_slot rs n" "i \<noteq> 0" "i \<le> m" "\<forall>r \<in> set rs. rr_request_id r \<noteq> i"
  shows "history_ok m (rs[n := \<lparr>rr_request_id = i, rr_context_gen = c, rr_status = st\<rparr>])"
proof -
  let ?r = "\<lparr>rr_request_id = i, rr_context_gen = c, rr_status = st\<rparr>"
  have ho: "packed rs" "\<forall>r \<in> set rs. rr_request_id r \<le> m" "length rs = PH_FLAG_RELOAD_HISTORY_CAP"
    using assms(1) by (simp_all add: history_ok_def)
  have "rr_request_id (rs ! n) \<noteq> 0 \<or> (\<forall>l < n. rr_request_id (rs ! l) \<noteq> 0)"
    using assms(3) unfolding free_slot_def by blast
  then have p: "packed (rs[n := ?r])"
    using ho(1) assms(2,4) by (intro packed_update) simp_all
  have ids: "\<forall>r \<in> set (rs[n := ?r]). rr_request_id r \<le> m"
    using ho(2) assms(5) set_update_subset_insert [of rs n ?r] by auto
  have nth: "rr_request_id (rs[n := ?r] ! k) = (if k = n then i else rr_request_id (rs ! k))" if "k < length rs" for k
    using that by simp
  have dist: "rr_request_id (rs[n := ?r] ! a) = 0"
    if "a < length rs" "b < length rs" "a \<noteq> b" "rr_request_id (rs[n := ?r] ! a) = rr_request_id (rs[n := ?r] ! b)" for a b
  proof -
    have fr: "rr_request_id (rs ! a) \<noteq> i" "rr_request_id (rs ! b) \<noteq> i" using assms(6) that(1,2) by simp_all
    have "a \<noteq> n" "b \<noteq> n" using that(3,4) fr nth [OF that(1)] nth [OF that(2)] by (auto split: if_splits)
    with that show ?thesis using assms(1) nth [OF that(1)] nth [OF that(2)] unfolding history_ok_def by simp
  qed
  show ?thesis unfolding history_ok_def using p ids dist ho(3) by simp
qed

lemma reload_alloc:
  assumes "reload_inv ctx" "serves ctx g" "g \<noteq> 0" "g \<le> reload_request_id ctx"
    and "alloc_reload_record_locked g (flags_context_gen ctx) ctx = (ctx', ok)"
  shows "reload_inv ctx'"
    and "ok \<Longrightarrow> \<exists>n. reload_record_locked g ctx' = Some n \<and> rr_status (flag_reload_history ctx' ! n) = PENDING"
    and "\<not> ok \<Longrightarrow> \<forall>r \<in> set (flag_reload_history ctx). rr_status r = PENDING"
proof -
  note inv = reload_invD [OF assms(1)]
  let ?rs = "flag_reload_history ctx"
  obtain k mt where sc: "alloc_scan g ?rs 0 None = (k, mt)" by (cases "alloc_scan g ?rs 0 None")
  have res: "(ctx', ok) = (case k of None \<Rightarrow> (ctx, False) | Some n \<Rightarrow>
      (if mt then ctx else ctx\<lparr>flag_reload_history := ?rs[n := \<lparr>rr_request_id = g,
         rr_context_gen = flags_context_gen ctx, rr_status = PENDING\<rparr>]\<rparr>, True))"
    using assms(5) by (simp add: alloc_reload_record_locked_def sc)
  have found: "\<exists>n. reload_record_locked g c = Some n \<and> rr_status (flag_reload_history c ! n) = PENDING"
    if c: "reload_inv c" "serves c g" "r \<in> set (flag_reload_history c)" "rr_request_id r = g" for c r
  proof -
    obtain n where n: "record_index g (flag_reload_history c) = Some n"
      using c(3,4) record_index_None [of g "flag_reload_history c"] by (cases "record_index g (flag_reload_history c)") auto
    with record_index_Some [OF n] have "flag_reload_history c ! n \<in> hist c" "rr_request_id (flag_reload_history c ! n) = g"
      using assms(3) by (auto simp: hist_def)
    with reload_invD(4) [OF c(1)] c(2) n show ?thesis by (auto simp: reload_record_locked_def)
  qed
  consider (full) "k = None" | (match) n where "k = Some n" mt | (slot) n where "k = Some n" "\<not> mt" by (cases k) auto
  then have "reload_inv ctx' \<and>
     (ok \<longrightarrow> (\<exists>n. reload_record_locked g ctx' = Some n \<and> rr_status (flag_reload_history ctx' ! n) = PENDING)) \<and>
     (\<not> ok \<longrightarrow> (\<forall>r \<in> set ?rs. rr_status r = PENDING))"
  proof cases
    case full
    then show ?thesis using res assms(1) alloc_none_pending [of g ?rs 0 mt] sc by auto
  next
    case match
    then obtain r where "r \<in> set ?rs" "rr_request_id r = g" using alloc_scan_match [of g ?rs 0 None] sc by auto
    with found [OF assms(1,2)] show ?thesis using res match assms(1) by auto
  next
    case slot
    let ?r = "\<lparr>rr_request_id = g, rr_context_gen = flags_context_gen ctx, rr_status = PENDING\<rparr>"
    let ?c = "ctx\<lparr>flag_reload_history := ?rs[n := ?r]\<rparr>"
    have sc': "alloc_scan g ?rs 0 None = (Some n, False)" using sc slot by simp
    have n: "n < length ?rs" "free_slot ?rs n" using alloc_scan_slot [OF sc'] by auto
    have fr: "\<forall>r \<in> set ?rs. rr_request_id r \<noteq> g"
      using alloc_scan_fresh [OF sc' _ assms(3)] inv(1) by (auto simp: history_ok_def)
    have ho: "history_ok (reload_request_id ctx) (?rs[n := ?r])"
      by (rule history_ok_update [OF inv(1) n assms(3,4) fr])
    have sub: "hist ?c \<subseteq> insert ?r (hist ctx)"
      using set_update_subset_insert [of ?rs n ?r] by (auto simp: hist_def)
    have sv: "serves ?c = serves ctx" by (auto simp: serves_def fun_eq_iff)
    have jo: "jobs_ok ?c" using inv(2) by (simp add: jobs_ok_def)
    have i1: "rr_context_gen r = flags_context_gen ctx \<and> serves ctx (rr_request_id r)"
      if "r \<in> hist ?c" "rr_status r = PENDING" for r
      using that sub inv(3) [of r] assms(2) by auto
    have i2: "rr_status r = PENDING" if "r \<in> hist ?c" "serves ctx (rr_request_id r)" for r
      using that sub inv(4) [of r] by auto
    have ic: "reload_inv ?c" unfolding reload_inv_def sv using i1 i2 ho jo by simp
    moreover have "?r \<in> set (flag_reload_history ?c)" using n by (simp add: set_update_memI)
    ultimately show ?thesis using found [OF ic] sv assms(2) res slot by auto
  qed
  then show "reload_inv ctx'"
    "ok \<Longrightarrow> \<exists>n. reload_record_locked g ctx' = Some n \<and> rr_status (flag_reload_history ctx' ! n) = PENDING"
    "\<not> ok \<Longrightarrow> \<forall>r \<in> set ?rs. rr_status r = PENDING" by blast+
qed

lemma wake_fields [simp]:
  "flag_reload_history (ph__sender_wake ctx) = flag_reload_history ctx"
  "flags_context_gen (ph__sender_wake ctx) = flags_context_gen ctx" "enabled (ph__sender_wake ctx) = enabled ctx"
  "serves (ph__sender_wake ctx) i = serves ctx i"
  by (simp_all add: ph__sender_wake_def serves_def)

lemma alloc_frame:
  "alloc_reload_record_locked g c ctx = (ctx', ok) \<Longrightarrow>
     enabled ctx' = enabled ctx \<and> flags_context_gen ctx' = flags_context_gen ctx \<and> serves ctx' = serves ctx"
  by (auto simp: alloc_reload_record_locked_def serves_def fun_eq_iff split: prod.splits option.splits if_splits)

lemma schedule_enabled: "enabled (fst (schedule_reload_locked c ctx)) = enabled ctx"
  by (simp add: schedule_reload_locked_def next_reload_request_locked_def mark_reload_locked_def Let_def split: option.split)

lemma reload_async:
  assumes "reload_inv ctx" "reload_request_id ctx + 1 \<noteq> 0"
    and "ph__flags_reload_async want ctx = (ctx', i, r)"
  shows "reload_inv ctx'"
    and "r = PH_OK \<Longrightarrow> ph__flags_reload_status i ctx' = PENDING \<and> serves ctx' i"
    and "r = PH_ERR_FULL \<Longrightarrow> i = 0 \<and> (\<forall>rec \<in> set (flag_reload_history ctx'). rr_status rec = PENDING)"
proof -
  have "reload_inv ctx' \<and> (r = PH_OK \<longrightarrow> ph__flags_reload_status i ctx' = PENDING \<and> serves ctx' i) \<and>
     (r = PH_ERR_FULL \<longrightarrow> i = 0 \<and> (\<forall>rec \<in> set (flag_reload_history ctx'). rr_status rec = PENDING))"
  proof (cases "want \<and> enabled ctx \<and> sender_running ctx")
    case True
    obtain c1 g where s: "schedule_reload_locked (flags_context_gen ctx) ctx = (c1, g)"
      by (cases "schedule_reload_locked (flags_context_gen ctx) ctx")
    note sch = schedule_reload [OF assms(1,2) s]
    obtain c2 ok where a: "alloc_reload_record_locked g (flags_context_gen c1) c1 = (c2, ok)"
      by (cases "alloc_reload_record_locked g (flags_context_gen c1) c1")
    note al = reload_alloc [OF sch(1,2,3,5) a] and fr = alloc_frame [OF a]
    have res: "ctx' = ph__sender_wake c2" "i = (if ok then g else 0)" "r = (if ok then PH_OK else PH_ERR_FULL)"
      using assms(3) True s a unfolding ph__flags_reload_async_def by auto
    have "enabled c2" using True schedule_enabled [of "flags_context_gen ctx" ctx] s fr by simp
    moreover have "c2 = c1" if "\<not> ok" using a that
      by (auto simp: alloc_reload_record_locked_def split: prod.splits option.splits)
    ultimately show ?thesis
      using al sch(2,3) fr res by (auto simp: ph__flags_reload_status_def reload_record_locked_def)
  next
    case False
    then show ?thesis using assms(1,3) by (auto simp: ph__flags_reload_async_def split: if_splits)
  qed
  then show "reload_inv ctx'" "r = PH_OK \<Longrightarrow> ph__flags_reload_status i ctx' = PENDING \<and> serves ctx' i"
    "r = PH_ERR_FULL \<Longrightarrow> i = 0 \<and> (\<forall>rec \<in> set (flag_reload_history ctx'). rr_status rec = PENDING)" by blast+
qed

lemma reload_take [wf_intros]:
  assumes "reload_inv ctx"
  shows "reload_inv (fst (ph__flags_take_fetch ctx))"
proof (cases "flags_refetch ctx \<and> \<not> flags_fetch_inflight ctx")
  case True
  note inv = reload_invD [OF assms] and jobs = jobs_okD [OF reload_invD(2) [OF assms]]
  let ?c = "ctx\<lparr>flags_fetch_inflight := True, flags_fetch_inflight_gen := flags_refetch_gen ctx,
     flags_fetch_inflight_context_gen := flags_refetch_context_gen ctx, flags_refetch := False\<rparr>"
  have sv: "serves ?c = serves ctx" using True by (auto simp: serves_def fun_eq_iff)
  have h: "hist ?c = hist ctx" by (simp add: hist_def)
  have j: "jobs_ok ?c" using True jobs(1,2,3) by (simp add: jobs_ok_def)
  have "reload_inv ?c" unfolding reload_inv_def sv h using inv j by simp
  with True show ?thesis by (simp add: ph__flags_take_fetch_def)
next
  case False
  then show ?thesis using assms by (auto simp: ph__flags_take_fetch_def)
qed

text \<open>Completing the job in flight: its ticket gets the outcome, no other ticket changes.\<close>

lemma complete_inflight:
  assumes "reload_inv ctx" "flags_fetch_inflight ctx"
  shows "ph__flags_complete_fetch (flags_fetch_inflight_gen ctx) st ctx =
     ctx\<lparr>flags_fetch_inflight := False, flags_fetch_inflight_gen := 0, flags_fetch_inflight_context_gen := 0,
        flag_reload_history := map (\<lambda>r. if rr_request_id r = flags_fetch_inflight_gen ctx \<and> rr_status r = PENDING
          then r\<lparr>rr_status := st\<rparr> else r) (flag_reload_history ctx)\<rparr>"
proof -
  let ?c = "ctx\<lparr>flags_fetch_inflight := False, flags_fetch_inflight_gen := 0, flags_fetch_inflight_context_gen := 0\<rparr>"
  have "history_ok (reload_request_id ctx) (flag_reload_history ?c)" using reload_invD(1) [OF assms(1)] by simp
  moreover have "flags_fetch_inflight_gen ctx \<noteq> 0" using jobs_okD(4) [OF reload_invD(2) [OF assms(1)] assms(2)] by (simp add: word_gt_0)
  ultimately show ?thesis
    using mark_history [of _ ?c "flags_fetch_inflight_gen ctx" st] assms(2) by (simp add: ph__flags_complete_fetch_def)
qed

lemma reload_complete [wf_intros]:
  assumes "reload_inv ctx" "flags_fetch_inflight ctx" "st \<noteq> PENDING"
  shows "reload_inv (ph__flags_complete_fetch (flags_fetch_inflight_gen ctx) st ctx)"
proof -
  note inv = reload_invD [OF assms(1)] and jobs = jobs_okD [OF reload_invD(2) [OF assms(1)]]
  let ?g = "flags_fetch_inflight_gen ctx"
  let ?f = "\<lambda>r. if rr_request_id r = ?g \<and> rr_status r = PENDING then r\<lparr>rr_status := st\<rparr> else r"
  let ?c = "ctx\<lparr>flags_fetch_inflight := False, flags_fetch_inflight_gen := 0, flags_fetch_inflight_context_gen := 0,
        flag_reload_history := map ?f (flag_reload_history ctx)\<rparr>"
  have ho: "history_ok (reload_request_id ctx) (map ?f (flag_reload_history ctx))" by (rule history_ok_map [OF inv(1)]) simp
  have jo: "jobs_ok ?c" using jobs(1,2,3) by (simp add: jobs_ok_def)
  have h: "hist ?c = ?f ` hist ctx" by (rule hist_map) simp_all
  have sv: "serves ?c i \<longleftrightarrow> serves ctx i \<and> flags_refetch ctx \<and> i = flags_refetch_gen ctx" for i
    using jobs(3,7) assms(2) by (auto simp: serves_def)
  have a: "rr_context_gen s = flags_context_gen ctx \<and> serves ?c (rr_request_id s)" if "s \<in> hist ?c" "rr_status s = PENDING" for s
  proof -
    from that h obtain r where r: "r \<in> hist ctx" "s = ?f r" by blast
    with that(2) assms(3) have s: "s = r" "rr_request_id r \<noteq> ?g" "rr_status r = PENDING" by (auto split: if_splits)
    with inv(3) [OF r(1)] show ?thesis using sv by (auto simp: serves_def)
  qed
  have b: "rr_status s = PENDING" if "s \<in> hist ?c" "serves ?c (rr_request_id s)" for s
  proof -
    from that h obtain r where r: "r \<in> hist ctx" "s = ?f r" by blast
    then have id: "rr_request_id s = rr_request_id r" by simp
    with that(2) sv [of "rr_request_id s"] jobs(7) assms(2) have "rr_request_id r \<noteq> ?g" "serves ctx (rr_request_id r)" by auto
    with r inv(4) [OF r(1)] show ?thesis by simp
  qed
  have "reload_inv ?c" unfolding reload_inv_def using a b ho jo by simp
  then show ?thesis by (simp add: complete_inflight [OF assms(1,2)])
qed

lemma reload_abort [wf_intros]:
  assumes "reload_inv ctx"
  shows "reload_inv (ph__flags_abort_pending ctx)"
    and "\<forall>r \<in> hist (ph__flags_abort_pending ctx). rr_status r \<noteq> PENDING"
proof -
  let ?f = "\<lambda>r. if rr_request_id r \<noteq> 0 \<and> rr_status r = PENDING then r\<lparr>rr_status := PH_FEATURE_FLAG_RELOAD_FAILED\<rparr> else r"
  let ?c = "ph__flags_abort_pending ctx"
  have ho: "history_ok (reload_request_id ctx) (map ?f (flag_reload_history ctx))"
    by (rule history_ok_map [OF reload_invD(1) [OF assms]]) simp
  have fh: "flag_reload_history ?c = map ?f (flag_reload_history ctx)" by (simp add: ph__flags_abort_pending_def)
  have h: "hist ?c = ?f ` hist ctx" by (rule hist_map [OF fh]) simp
  show np: "\<forall>r \<in> hist ?c. rr_status r \<noteq> PENDING" unfolding h by (auto simp: hist_def)
  have ns: "\<not> serves ?c i" for i by (simp add: serves_def ph__flags_abort_pending_def)
  have jo: "jobs_ok ?c" by (simp add: jobs_ok_def ph__flags_abort_pending_def)
  have rq: "reload_request_id ?c = reload_request_id ctx" by (simp add: ph__flags_abort_pending_def)
  show "reload_inv ?c" unfolding reload_inv_def rq fh using np ns jo ho by simp
qed

section \<open>The scheduler as a transition system\<close>

text \<open>
  The steps other threads and the sender can take, each under the context's mutex. \<open>other\<close> is
  any step of the SDK that leaves the scheduler's fields alone. The guards on the counters
  exclude the wrap after \<open>2^64\<close> requests or context changes.
\<close>

definition reload_view ::
  "ph_ctx \<Rightarrow> (u64 \<times> ph_flag_reload_record list \<times> u64) \<times> (bool \<times> u64 \<times> u64) \<times> (bool \<times> u64 \<times> u64)" where
  "reload_view ctx = ((flags_context_gen ctx, flag_reload_history ctx, reload_request_id ctx),
     (flags_refetch ctx, flags_refetch_gen ctx, flags_refetch_context_gen ctx),
     (flags_fetch_inflight ctx, flags_fetch_inflight_gen ctx, flags_fetch_inflight_context_gen ctx))"

inductive reload_step :: "ph_ctx \<Rightarrow> ph_ctx \<Rightarrow> bool" where
  context_changed: "flags_context_gen ctx + 1 \<noteq> 0 \<Longrightarrow> reload_step ctx (ph__flags_context_changed_locked ctx)"
| auto_refresh: "reload_request_id ctx + 1 \<noteq> 0 \<Longrightarrow> reload_step ctx (ph__flags_request_auto_refresh ctx)"
| request: "reload_request_id ctx + 1 \<noteq> 0 \<Longrightarrow> reload_step ctx (fst (ph__flags_reload_async want ctx))"
| take_job: "reload_step ctx (fst (ph__flags_take_fetch ctx))"
| complete: "flags_fetch_inflight ctx \<Longrightarrow> st \<noteq> PENDING \<Longrightarrow>
     reload_step ctx (ph__flags_complete_fetch (flags_fetch_inflight_gen ctx) st ctx)"
| abort: "reload_step ctx (ph__flags_abort_pending ctx)"
| other: "reload_view ctx' = reload_view ctx \<Longrightarrow> reload_step ctx ctx'"

inductive_cases reload_stepE: "reload_step ctx ctx'"

definition reload_initial :: "ph_ctx \<Rightarrow> bool" where
  "reload_initial ctx \<longleftrightarrow> flag_reload_history ctx = replicate PH_FLAG_RELOAD_HISTORY_CAP
       \<lparr>rr_request_id = 0, rr_context_gen = 0, rr_status = PH_FEATURE_FLAG_RELOAD_UNKNOWN\<rparr> \<and>
     \<not> flags_refetch ctx \<and> \<not> flags_fetch_inflight ctx"

inductive reload_reach :: "ph_ctx \<Rightarrow> bool" where
  start: "reload_initial ctx \<Longrightarrow> reload_reach ctx"
| step: "reload_reach ctx \<Longrightarrow> reload_step ctx ctx' \<Longrightarrow> reload_reach ctx'"

lemma packed_replicate: "rr_request_id r = 0 \<Longrightarrow> packed (replicate n r)"
  by (intro packed_zero) simp

lemma reload_initial_inv: "reload_initial ctx \<Longrightarrow> reload_inv ctx"
  by (simp add: reload_initial_def reload_inv_def history_ok_def jobs_ok_def hist_def packed_replicate)

lemma reload_view_inv: "reload_view ctx' = reload_view ctx \<Longrightarrow> reload_inv ctx' = reload_inv ctx"
  by (simp add: reload_view_def reload_inv_def jobs_ok_def serves_def hist_def)

lemma reload_step_inv: "reload_step ctx ctx' \<Longrightarrow> reload_inv ctx \<Longrightarrow> reload_inv ctx'"
proof (induction rule: reload_step.induct)
  case (request ctx want)
  then show ?case using reload_async(1) [of ctx want] by (cases "ph__flags_reload_async want ctx") simp
next
  case (other ctx' ctx)
  then show ?case using reload_view_inv by blast
qed (simp_all add: wf_intros)

lemma reload_reach_inv: "reload_reach ctx \<Longrightarrow> reload_inv ctx"
  by (induction rule: reload_reach.induct) (auto intro: reload_initial_inv reload_step_inv)

text \<open>The sender's cycle over the jobs: finish the one in flight, take the next, finish it.\<close>

definition finish_inflight :: "ph_feature_flag_reload_status \<Rightarrow> ph_ctx \<Rightarrow> ph_ctx" where
  "finish_inflight st ctx =
     (if flags_fetch_inflight ctx then ph__flags_complete_fetch (flags_fetch_inflight_gen ctx) st ctx else ctx)"

definition serve_queued :: "ph_feature_flag_reload_status \<Rightarrow> ph_ctx \<Rightarrow> ph_ctx" where
  "serve_queued st ctx =
     (case ph__flags_take_fetch ctx of (ctx, None) \<Rightarrow> ctx
      | (ctx, Some (g, c)) \<Rightarrow> ph__flags_complete_fetch g st ctx)"

lemma finish_inflight_facts:
  assumes "reload_inv ctx" "st \<noteq> PENDING"
  shows "reload_inv (finish_inflight st ctx)" "\<not> flags_fetch_inflight (finish_inflight st ctx)"
  using assms reload_complete [OF assms(1) _ assms(2)] complete_inflight [OF assms(1)]
  by (auto simp: finish_inflight_def)

lemma serve_queued_none_pending:
  assumes "reload_inv ctx" "\<not> flags_fetch_inflight ctx" "st \<noteq> PENDING" "r \<in> hist (serve_queued st ctx)"
  shows "rr_status r \<noteq> PENDING"
proof (cases "flags_refetch ctx")
  case True
  let ?c = "fst (ph__flags_take_fetch ctx)"
  have c: "reload_inv ?c" "flags_fetch_inflight ?c" "flags_fetch_inflight_gen ?c = flags_refetch_gen ctx" "\<not> flags_refetch ?c"
    using reload_take [OF assms(1)] True assms(2) by (simp_all add: ph__flags_take_fetch_def)
  have s: "serve_queued st ctx = finish_inflight st ?c"
    using True assms(2) c(2,3) by (simp add: serve_queued_def finish_inflight_def ph__flags_take_fetch_def)
  note f = finish_inflight_facts [OF c(1) assms(3)]
  have "\<not> flags_refetch (finish_inflight st ?c)"
    using c complete_inflight [OF c(1,2)] by (simp add: finish_inflight_def)
  with f(2) have "\<not> serves (finish_inflight st ?c) (rr_request_id r)" by (simp add: serves_def)
  with reload_invD(3) [OF f(1)] assms(4) s show ?thesis by auto
next
  case False
  then have "serve_queued st ctx = ctx" by (simp add: serve_queued_def ph__flags_take_fetch_def)
  with False assms reload_invD(3) [OF assms(1)] show ?thesis by (auto simp: serves_def)
qed

section \<open>Properties\<close>

text \<open>
  C31. No ticket is forgotten: whatever the interleaving of context changes, refresh requests, the
  sender's takes and completions, and shutdown, every ticket that is still pending belongs to the
  job that is queued or in flight for the current identity and group context; and a request for a
  reload either yields a pending ticket of such a job, or reports a full history, which happens
  only when all its records are pending.
\<close>

theorem reload_tickets_served:
  assumes "reload_reach ctx" "reload_request_id ctx + 1 \<noteq> 0"
    and "ph__flags_reload_async True ctx = (ctx', i, r)"
  shows "(\<forall>rec \<in> set (flag_reload_history ctx). rr_request_id rec \<noteq> 0 \<and> rr_status rec = PENDING \<longrightarrow>
       rr_context_gen rec = flags_context_gen ctx \<and> serves ctx (rr_request_id rec)) \<and>
     (r = PH_OK \<longrightarrow> ph__flags_reload_status i ctx' = PENDING \<and> serves ctx' i) \<and>
     (r = PH_ERR_FULL \<longrightarrow> i = 0 \<and> (\<forall>rec \<in> set (flag_reload_history ctx'). rr_status rec = PENDING))"
  using reload_invD(3) [OF reload_reach_inv [OF assms(1)]] reload_async(2,3) [OF reload_reach_inv [OF assms(1)] assms(2,3)]
  by (auto simp: hist_def)

theorem reload_tickets_served_witness:
  "\<exists>ctx' i. ph__flags_reload_async True (sample_ctx\<lparr>sender_running := True\<rparr>) = (ctx', i, PH_OK) \<and>
     ph__flags_reload_status i ctx' = PENDING \<and> serves ctx' i"
proof -
  let ?c = "sample_ctx\<lparr>sender_running := True\<rparr>"
  have rch: "reload_reach ?c" by (rule reload_reach.start) (simp add: reload_initial_def sample_ctx_def zero_ctx_def)
  have n: "reload_request_id ?c + 1 \<noteq> 0" by (simp add: sample_ctx_def zero_ctx_def)
  obtain ctx' i r where a: "ph__flags_reload_async True ?c = (ctx', i, r)" by (cases "ph__flags_reload_async True ?c")
  have "r = PH_OK"
    using a by (auto simp: ph__flags_reload_async_def schedule_reload_locked_def next_reload_request_locked_def
        alloc_reload_record_locked_def sample_ctx_def zero_ctx_def caps numeral_eq_Suc)
  with reload_tickets_served [OF rch n a] a show ?thesis by blast
qed

text \<open>
  C32. Waiters are released: from any reachable state, once the sender has finished the job in
  flight and then taken and finished the queued one, whatever their outcomes, no ticket is pending,
  so every blocking reload leaves its wait.
\<close>

theorem reload_waiters_released:
  assumes "reload_reach ctx" "st1 \<noteq> PENDING" "st2 \<noteq> PENDING"
  shows "\<forall>i on_sender. i \<noteq> 0 \<longrightarrow>
     snd (ph_reload_feature_flags_step on_sender (serve_queued st2 (finish_inflight st1 ctx)) (RWait i)) \<noteq> RWait i"
proof (intro allI)
  fix i on_sender
  let ?c = "serve_queued st2 (finish_inflight st1 ctx)"
  note f = finish_inflight_facts [OF reload_reach_inv [OF assms(1)] assms(2)]
  have "rr_status (flag_reload_history ?c ! n) \<noteq> PENDING" if "reload_record_locked i ?c = Some n" "i \<noteq> 0" for n
    using that record_index_Some [of i "flag_reload_history ?c" n] serve_queued_none_pending [OF f assms(3)]
    by (auto simp: reload_record_locked_def hist_def)
  then show "i \<noteq> 0 \<longrightarrow> snd (ph_reload_feature_flags_step on_sender ?c (RWait i)) \<noteq> RWait i"
    by (auto simp: ph_reload_feature_flags_step_def Let_def split: option.split)
qed

theorem reload_waiters_released_witness:
  "\<exists>ctx i. reload_reach ctx \<and> ph__flags_reload_status i ctx = PENDING \<and> i \<noteq> 0 \<and>
     snd (ph_reload_feature_flags_step False (serve_queued PH_FEATURE_FLAG_RELOAD_SUCCESS
       (finish_inflight PH_FEATURE_FLAG_RELOAD_FAILED ctx)) (RWait i)) \<noteq> RWait i"
proof -
  let ?c = "sample_ctx\<lparr>sender_running := True\<rparr>"
  let ?d = "fst (ph__flags_reload_async True ?c)"
  have "reload_reach ?c" by (rule reload_reach.start) (simp add: reload_initial_def sample_ctx_def zero_ctx_def)
  moreover have "reload_step ?c ?d" by (rule reload_step.request) (simp add: sample_ctx_def zero_ctx_def)
  ultimately have rch: "reload_reach ?d" by (rule reload_reach.step)
  moreover have "ph__flags_reload_status 1 ?d = PENDING"
    by (simp add: ph__flags_reload_async_def schedule_reload_locked_def next_reload_request_locked_def
        alloc_reload_record_locked_def sample_ctx_def zero_ctx_def caps numeral_eq_Suc ph__flags_reload_status_def
        ph__sender_wake_def reload_record_locked_def)
  ultimately show ?thesis
    using reload_waiters_released [OF rch, of PH_FEATURE_FLAG_RELOAD_FAILED PH_FEATURE_FLAG_RELOAD_SUCCESS]
    by (intro exI [of _ ?d] exI [of _ 1]) auto
qed

end
