(* ===== verification/Ph_Flags.thy ===== *)
theory Ph_Flags imports Ph_Reload
begin

text \<open>
  Feature flags, the rest of \<^verbatim>\<open>src/src/ph_flags.c\<close>: the fetch request, the ingestion of a response
  into the cache, and the accessors with their exposure event. A cached flag's \<open>has_variant\<close> and
  \<open>has_payload\<close> bits are the options of the record. Allocation failures are not modelled.
\<close>

section \<open>The cache\<close>

definition find_locked :: "string \<Rightarrow> ph_ctx \<Rightarrow> ph_flag option" where
  "find_locked k ctx = find (\<lambda>f. fl_key f = k) (flags ctx)"

definition flag_value_same :: "ph_flag \<Rightarrow> ph_flag \<Rightarrow> bool" where
  "flag_value_same a b \<longleftrightarrow> fl_enabled a = fl_enabled b \<and> fl_variant a = fl_variant b"

definition quota_limited :: "'d jv option \<Rightarrow> bool" where
  "quota_limited doc =
     (let quota = ph_jv_get doc ''quotaLimited'' in
      ph_jv_type_of quota = PH_JV_ARR \<and>
      list_ex (\<lambda>i. ph_jv_str (ph_jv_at quota (int i)) = Some ''feature_flags'') [0..<ph_jv_len quota])"

definition failure_for_context :: "u64 \<Rightarrow> ph_ctx \<Rightarrow> ph_feature_flag_reload_status" where
  "failure_for_context cgen ctx =
     (if cgen \<noteq> flags_context_gen ctx then PH_FEATURE_FLAG_RELOAD_SUPERSEDED else PH_FEATURE_FLAG_RELOAD_FAILED)"

text \<open>The slot filled for one member of the response's \<open>flags\<close> object.\<close>

definition parse_flag :: "string \<Rightarrow> 'd jv option \<Rightarrow> ph_flag" where
  "parse_flag key f =
     (let variant = ph_jv_get f ''variant'';
          meta = ph_jv_get f ''metadata'';
          payload = (if meta = None then None else ph_jv_get meta ''payload'')
      in \<lparr>fl_key = ph_copy_capped [] PH_KEY_CAP (Some key),
          fl_enabled = ph_jv_bool (ph_jv_get f ''enabled''),
          fl_variant = (if ph_jv_type_of variant = PH_JV_STR
                        then Some (ph_copy_capped [] PH_FLAG_VARIANT_CAP (ph_jv_str variant)) else None),
          fl_payload = (if ph_jv_type_of payload = PH_JV_STR
                        then Some (ph_copy_capped [] PH_FLAG_PAYLOAD_CAP (ph_jv_str payload)) else None),
          fl_called_sent = False\<rparr>)"

fun parse_flags :: "'d jv option \<Rightarrow> nat list \<Rightarrow> ph_flag list \<Rightarrow> ph_flag list" where
  "parse_flags fs [] parsed = parsed"
| "parse_flags fs (i # is) parsed =
     (if length parsed < PH_MAX_FLAGS
      then (case ph_jv_key_at fs (int i) of
              None \<Rightarrow> parse_flags fs is parsed
            | Some key \<Rightarrow> parse_flags fs is (parsed @ [parse_flag key (ph_jv_val_at fs (int i))]))
      else parsed)"

definition keeps_latch :: "ph_flag option \<Rightarrow> ph_flag \<Rightarrow> bool" where
  "keeps_latch old new = (case old of None \<Rightarrow> False | Some o' \<Rightarrow> fl_called_sent o' \<and> flag_value_same o' new)"

definition flags_replace :: "ph_flag list \<Rightarrow> ph_ctx \<Rightarrow> ph_ctx" where
  "flags_replace parsed ctx =
     ctx\<lparr>flags := map (\<lambda>p. p\<lparr>fl_called_sent := keeps_latch (find_locked (fl_key p) ctx) p\<rparr>) parsed\<rparr>"

text \<open>Overwrite the first entry with the key, or append.\<close>

fun put_flag :: "ph_flag \<Rightarrow> ph_flag list \<Rightarrow> ph_flag list" where
  "put_flag p [] = [p]"
| "put_flag p (f # fs) = (if fl_key f = fl_key p then p # fs else f # put_flag p fs)"

definition merge_flag :: "ph_ctx \<Rightarrow> ph_flag \<Rightarrow> ph_ctx" where
  "merge_flag ctx p =
     (let old = find_locked (fl_key p) ctx; p' = p\<lparr>fl_called_sent := keeps_latch old p\<rparr> in
      if old = None \<and> PH_MAX_FLAGS \<le> length (flags ctx) then ctx
      else ctx\<lparr>flags := put_flag p' (flags ctx)\<rparr>)"

definition flags_merge :: "ph_flag list \<Rightarrow> ph_ctx \<Rightarrow> ph_ctx" where
  "flags_merge parsed ctx = foldl merge_flag ctx parsed"

definition flags_ingest_for_context ::
  "'d dbl_ops \<Rightarrow> bytes \<Rightarrow> u64 \<Rightarrow> ph_ctx \<Rightarrow> ph_ctx \<times> ph_feature_flag_reload_status" where
  "flags_ingest_for_context D json cgen ctx =
     (case ph_jv_parse D json of
        None \<Rightarrow> (ctx, failure_for_context cgen ctx)
      | Some doc \<Rightarrow>
          if quota_limited (Some doc) then (ctx, failure_for_context cgen ctx)
          else let fs = ph_jv_get (Some doc) ''flags'' in
            if ph_jv_type_of fs \<noteq> PH_JV_OBJ then (ctx, failure_for_context cgen ctx)
            else let partial = ph_jv_bool (ph_jv_get (Some doc) ''errorsWhileComputingFlags'');
                     parsed = parse_flags fs [0..<ph_jv_len fs] []
                 in if cgen \<noteq> flags_context_gen ctx then (ctx, PH_FEATURE_FLAG_RELOAD_SUPERSEDED)
                    else if \<not> partial then (flags_replace parsed ctx, PH_FEATURE_FLAG_RELOAD_SUCCESS)
                    else (flags_merge parsed ctx, PH_FEATURE_FLAG_RELOAD_FAILED))"

section \<open>The request\<close>

definition strip_slashes :: "string \<Rightarrow> string" where
  "strip_slashes s = rev (dropWhile (\<lambda>c. c = CHR ''/'') (rev s))"

definition flags_url :: "ph_ctx \<Rightarrow> string" where
  "flags_url ctx = snprintf_trunc (PH_HOST_CAP + 16) (strip_slashes (api_host ctx) @ ''/flags?v=2'')"

fun groups_text :: "ph_group list \<Rightarrow> bool \<Rightarrow> bytes" where
  "groups_text [] first = []"
| "groups_text (g # gs) first =
     (if first then [] else '','') @ ph_json_cstr (Some (group_type g)) @ '':'' @ ph_json_cstr (Some (group_key g)) @
     groups_text gs False"

fun group_props_text :: "double_libc \<Rightarrow> ph_group list \<Rightarrow> bool \<Rightarrow> bytes" where
  "group_props_text L [] have_group_props = (if have_group_props then ''}'' else [])"
| "group_props_text L (g # gs) have_group_props =
     (if p_items (group_props g) = [] then group_props_text L gs have_group_props
      else (if have_group_props then '','' else '',\"group_properties\":{'') @
           ph_json_cstr (Some (group_type g)) @ '':'' @ ph_serialize_props_object L (Some (group_props g)) @
           group_props_text L gs True)"

definition flags_request_body :: "double_libc \<Rightarrow> ph_ctx \<Rightarrow> bytes" where
  "flags_request_body L ctx =
     ''{\"api_key\":'' @ ph_json_cstr (Some (api_key ctx)) @
     (if disable_geoip ctx then '',\"geoip_disable\":true'' else []) @
     '',\"distinct_id\":'' @ ph_json_cstr (Some (distinct_id ctx)) @
     (if groups ctx \<noteq> [] then '',\"groups\":{'' @ groups_text (groups ctx) True @ ''}'' else []) @
     (if p_items (flag_person_props ctx) \<noteq> []
      then '',\"person_properties\":'' @ ph_serialize_props_object L (Some (flag_person_props ctx)) else []) @
     group_props_text L (groups ctx) False @ ''}''"

text \<open>
  The fetch. \<open>fetch\<close> is the transport's entry (absent when unsupported): url, body and timeout to
  status and response text. \<open>busy\<close> is whatever other threads do to the context while the request
  is on the network, with no lock held.
\<close>

definition ph__flags_fetch ::
  "'d dbl_ops \<Rightarrow> double_libc \<Rightarrow> (string \<Rightarrow> bytes \<Rightarrow> int \<Rightarrow> int \<times> bytes) option \<Rightarrow> (ph_ctx \<Rightarrow> ph_ctx) \<Rightarrow> u64 \<Rightarrow> ph_ctx \<Rightarrow>
   ph_ctx \<times> ph_feature_flag_reload_status" where
  "ph__flags_fetch D L fetch busy expected ctx =
     (if expected \<noteq> flags_context_gen ctx then (ctx, PH_FEATURE_FLAG_RELOAD_SUPERSEDED)
      else let cgen = flags_context_gen ctx; body = flags_request_body L ctx in
        case fetch of
          None \<Rightarrow> (let ctx = busy ctx in (ctx, failure_for_context cgen ctx))
        | Some send \<Rightarrow>
            (let (status, resp) = send (flags_url ctx) body (request_timeout_ms ctx);
                 resp = cstr_view (take (PH_FLAGS_RESP_CAP - 1) resp);
                 ctx = busy ctx
             in if 200 \<le> status \<and> status < 300 then flags_ingest_for_context D resp cgen ctx
                else (ctx, failure_for_context cgen ctx)))"

section \<open>Reading flags\<close>

definition emit_ff_called ::
  "(real \<Rightarrow> real) \<Rightarrow> u64 \<Rightarrow> string \<Rightarrow> string \<Rightarrow> bool \<Rightarrow> bool \<Rightarrow> ph_ctx \<Rightarrow> ph_ctx" where
  "emit_ff_called rnd t key val has_variant on ctx =
     (if \<not> enabled ctx then ctx
      else let p = props_put_str ph_props_init ''$feature_flag'' key;
               p = (if has_variant then props_put_str p ''$feature_flag_response'' val
                    else props_put_bool p ''$feature_flag_response'' (if on then 1 else 0))
           in fst (ph__submit_event rnd t PH_EV_CAPTURE 0 (Some ''$feature_flag_called'') None (Some p) (-1) True None ctx))"

definition flag_text :: "ph_flag \<Rightarrow> string" where
  "flag_text f = ph_copy_capped [] PH_FLAG_VARIANT_CAP
     (Some (case fl_variant f of Some v \<Rightarrow> v | None \<Rightarrow> if fl_enabled f then ''true'' else ''false''))"

fun latch_flag :: "string \<Rightarrow> ph_flag list \<Rightarrow> ph_flag list" where
  "latch_flag k [] = []"
| "latch_flag k (f # fs) = (if fl_key f = k then f\<lparr>fl_called_sent := True\<rparr> # fs else f # latch_flag k fs)"

text \<open>The flag found (as it was), and whether an exposure event is due.\<close>

definition resolve :: "string \<Rightarrow> ph_ctx \<Rightarrow> ph_ctx \<times> ph_flag option \<times> bool" where
  "resolve key ctx =
     (case find_locked key ctx of
        None \<Rightarrow> (ctx, None, False)
      | Some f \<Rightarrow>
          if send_feature_flag_events ctx \<and> \<not> fl_called_sent f
          then (ctx\<lparr>flags := latch_flag key (flags ctx)\<rparr>, Some f, True)
          else (ctx, Some f, False))"

definition resolve_and_emit :: "(real \<Rightarrow> real) \<Rightarrow> u64 \<Rightarrow> string \<Rightarrow> ph_ctx \<Rightarrow> ph_ctx \<times> ph_flag option" where
  "resolve_and_emit rnd t key ctx =
     (let (ctx, found, emit) = resolve key ctx in
      case found of None \<Rightarrow> (ctx, None)
      | Some f \<Rightarrow>
          (if emit then emit_ff_called rnd t key (flag_text f) (fl_variant f \<noteq> None) (fl_enabled f) ctx else ctx, Some f))"

definition ph__flags_is_enabled :: "(real \<Rightarrow> real) \<Rightarrow> u64 \<Rightarrow> string option \<Rightarrow> int \<Rightarrow> ph_ctx \<Rightarrow> ph_ctx \<times> int" where
  "ph__flags_is_enabled rnd t key fallback ctx =
     (case key of None \<Rightarrow> (ctx, fallback)
      | Some k \<Rightarrow> (case resolve_and_emit rnd t k ctx of
           (ctx, None) \<Rightarrow> (ctx, fallback)
         | (ctx, Some f) \<Rightarrow> (ctx, if fl_enabled f then 1 else 0)))"

text \<open>
  An output buffer is its capacity (none for a NULL pointer); the result carries the text written,
  or none when nothing can be written.
\<close>

definition out_text :: "int option \<Rightarrow> string \<Rightarrow> string option" where
  "out_text out s = (case out of Some n \<Rightarrow> if 0 < n then Some (take (nat n - 1) s) else None | None \<Rightarrow> None)"

definition ph__flags_get ::
  "(real \<Rightarrow> real) \<Rightarrow> u64 \<Rightarrow> string option \<Rightarrow> int option \<Rightarrow> ph_ctx \<Rightarrow> ph_ctx \<times> string option \<times> ph_result" where
  "ph__flags_get rnd t key out ctx =
     (case key of None \<Rightarrow> (ctx, out_text out [], PH_ERR)
      | Some k \<Rightarrow> (case resolve_and_emit rnd t k ctx of
           (ctx, None) \<Rightarrow> (ctx, out_text out [], PH_ERR)
         | (ctx, Some f) \<Rightarrow> (ctx, out_text out (flag_text f), PH_OK)))"

definition ph__flags_get_payload :: "string option \<Rightarrow> int option \<Rightarrow> ph_ctx \<Rightarrow> string option \<times> ph_result" where
  "ph__flags_get_payload key out ctx =
     (case key of None \<Rightarrow> (out_text out [], PH_ERR)
      | Some k \<Rightarrow> (case find_locked k ctx of
           None \<Rightarrow> (out_text out [], PH_ERR)
         | Some f \<Rightarrow> (case fl_payload f of None \<Rightarrow> (out_text out [], PH_ERR) | Some p \<Rightarrow> (out_text out p, PH_OK))))"

definition ph_is_feature_enabled :: "(real \<Rightarrow> real) \<Rightarrow> u64 \<Rightarrow> string option \<Rightarrow> int \<Rightarrow> ph_ctx \<Rightarrow> ph_ctx \<times> int" where
  "ph_is_feature_enabled rnd t key fallback ctx =
     (if \<not> enabled ctx then (ctx, fallback) else ph__flags_is_enabled rnd t key fallback ctx)"

definition ph_get_feature_flag ::
  "(real \<Rightarrow> real) \<Rightarrow> u64 \<Rightarrow> string option \<Rightarrow> int option \<Rightarrow> ph_ctx \<Rightarrow> ph_ctx \<times> string option \<times> ph_result" where
  "ph_get_feature_flag rnd t key out ctx =
     (if \<not> enabled ctx then (ctx, out_text out [], PH_ERR) else ph__flags_get rnd t key out ctx)"

definition ph_get_feature_flag_payload :: "string option \<Rightarrow> int option \<Rightarrow> ph_ctx \<Rightarrow> string option \<times> ph_result" where
  "ph_get_feature_flag_payload key out ctx =
     (if \<not> enabled ctx then (out_text out [], PH_ERR) else ph__flags_get_payload key out ctx)"

section \<open>Facts: the request as a document\<close>

definition prop_tree :: "double_libc \<Rightarrow> ph_val \<Rightarrow> jt" where
  "prop_tree L v =
     (case v of PH_T_STR s \<Rightarrow> TStr s
      | PH_T_DOUBLE d \<Rightarrow> if dbl_nonfinite d then TNull else TNum (ph_json_double L d)
      | PH_T_INT i \<Rightarrow> TNum (ph_json_int i)
      | PH_T_BOOL b \<Rightarrow> TBool (b \<noteq> 0)
      | PH_T_OTHER t \<Rightarrow> TNull)"

definition props_members :: "double_libc \<Rightarrow> ph_props \<Rightarrow> (string \<times> jt) list" where
  "props_members L p = map (\<lambda>it. (prop_key it, prop_tree L (prop_val it))) (p_items p)"

lemma print_tobj: "jt_print (TObj ms) = ''{'' @ members_text True ms @ ''}''"
  by (simp add: members_text_def)

lemma serialize_props_tree: "ph_serialize_props_object L (Some p) = jt_print (TObj (props_members L p))"
proof -
  have one: "adds (\<lambda>s. put (props_item_text L it) (comma s)) [(prop_key it, prop_tree L (prop_val it))]" for it
    by (rule adds_one)
      (auto simp: props_item_text_def prop_tree_def ph_json_cstr_def ph_json_double_def ph_json_bool_def split: ph_val.split)
  have "adds (fold (\<lambda>it s. put (props_item_text L it) (comma s)) (p_items p))
      (concat (map (\<lambda>it. [(prop_key it, prop_tree L (prop_val it))]) (p_items p)))"
    by (intro adds_fold one)
  then have "adds (fold (\<lambda>it s. put (props_item_text L it) (comma s)) (p_items p)) (props_members L p)"
    by (simp add: props_members_def concat_map_singleton)
  from addsD [OF this, of "[]" True] show ?thesis
    unfolding print_tobj by (simp add: ph_serialize_props_object_def)
qed

definition flags_members :: "double_libc \<Rightarrow> ph_ctx \<Rightarrow> (string \<times> jt) list" where
  "flags_members L ctx =
     [(''api_key'', TStr (api_key ctx))] @ (if disable_geoip ctx then [(''geoip_disable'', TBool True)] else []) @
     [(''distinct_id'', TStr (distinct_id ctx))] @
     nested_member ''groups'' (map (\<lambda>g. (group_type g, TStr (group_key g))) (groups ctx)) @
     nested_member ''person_properties'' (props_members L (flag_person_props ctx)) @
     nested_member ''group_properties''
       (map (\<lambda>g. (group_type g, TObj (props_members L (group_props g))))
          (filter (\<lambda>g. p_items (group_props g) \<noteq> []) (groups ctx)))"

lemma groups_text_members:
  "groups_text gs first = members_text first (map (\<lambda>g. (group_type g, TStr (group_key g))) gs)"
  by (induction gs first rule: groups_text.induct) (simp_all add: members_text_Cons ph_json_cstr_def)

lemma group_props_text_members:
  "group_props_text L gs True =
     members_text False (map (\<lambda>g. (group_type g, TObj (props_members L (group_props g))))
       (filter (\<lambda>g. p_items (group_props g) \<noteq> []) gs)) @ ''}''"
  by (induction gs) (simp_all add: members_text_Cons ph_json_cstr_def serialize_props_tree del: jt_print.simps(6))

lemma request_keys:
  "ph_json_str ''geoip_disable'' = ''\"geoip_disable\"''" "ph_json_str ''groups'' = ''\"groups\"''"
  "ph_json_str ''person_properties'' = ''\"person_properties\"''" "ph_json_str ''group_properties'' = ''\"group_properties\"''"
  by (simp_all add: json_str_plain plain_char_def byte_val_def)

lemma group_props_text_nested:
  "group_props_text L gs False = members_text False (nested_member ''group_properties''
       (map (\<lambda>g. (group_type g, TObj (props_members L (group_props g))))
          (filter (\<lambda>g. p_items (group_props g) \<noteq> []) gs)))"
proof (induction gs)
  case (Cons g gs)
  then show ?case
    by (simp add: nested_member_def members_text_Cons print_tobj request_keys ph_json_cstr_def serialize_props_tree
        group_props_text_members del: jt_print.simps(6))
qed (simp add: nested_member_def)

lemma members_text_nested:
  "members_text False (nested_member k ms) =
     (if ms = [] then [] else '','' @ ph_json_str k @ '':{'' @ members_text True ms @ ''}'')"
  by (simp add: nested_member_def members_text_Cons print_tobj del: jt_print.simps(6))

lemma flags_request_tree: "flags_request_body L ctx = jt_print (TObj (flags_members L ctx))"
  unfolding print_tobj flags_members_def members_text_append flags_request_body_def group_props_text_nested groups_text_members
  by (simp add: members_text_nested members_text_Cons literal_keys request_keys ph_json_cstr_def serialize_props_tree
      print_tobj props_members_def del: jt_print.simps(6))

lemma props_members_ok:
  assumes "printf_ok L g" "props_wf p"
  shows "members_ok 0 (props_members L p)"
proof -
  have "jt_wf (prop_tree L (prop_val it)) \<and> jt_depth (prop_tree L (prop_val it)) = 0" if "prop_wf it" for it
    using that ph_json_double_number [OF assms(1)] json_number_int_dec
    by (cases "prop_val it") (auto simp: prop_tree_def prop_wf_def ph_json_int_def)
  then show ?thesis using assms(2)
    by (auto simp: members_ok_def props_members_def props_wf_def list_all_iff prop_wf_def)
qed

lemma flags_members_ok:
  assumes "printf_ok L g" "ctx_wf ctx"
  shows "members_ok 2 (flags_members L ctx)"
proof -
  have 1: "members_ok 0 (map (\<lambda>g. (group_type g, TStr (group_key g))) (groups ctx))"
    using assms(2) by (auto simp: members_ok_def ctx_wf_def list_all_iff group_ok_def)
  have 2: "members_ok 0 (props_members L (flag_person_props ctx))"
    using assms by (intro props_members_ok) (auto simp: ctx_wf_def)
  have 3: "members_ok 1 (map (\<lambda>g. (group_type g, TObj (props_members L (group_props g))))
          (filter (\<lambda>g. p_items (group_props g) \<noteq> []) (groups ctx)))"
  proof (rule map_members_ok)
    fix gr assume "gr \<in> set (filter (\<lambda>g. p_items (group_props g) \<noteq> []) (groups ctx))"
    then have "group_ok gr" using assms(2) by (auto simp: ctx_wf_def list_all_iff)
    then show "members_ok 1 [(group_type gr, TObj (props_members L (group_props gr)))]"
      using tobj_ok [OF props_members_ok [OF assms(1)], of "group_props gr"] by (simp add: group_ok_def del: jt_wf.simps jt_depth.simps)
  qed
  have n: "members_ok 2 (nested_member ''groups'' (map (\<lambda>g. (group_type g, TStr (group_key g))) (groups ctx)))"
    "members_ok 2 (nested_member ''person_properties'' (props_members L (flag_person_props ctx)))"
    using members_ok_mono [OF nested_member_ok [OF 1], of _ 2] members_ok_mono [OF nested_member_ok [OF 2], of _ 2] by simp_all
  have m: "members_ok 2 (nested_member ''group_properties'' (map (\<lambda>g. (group_type g, TObj (props_members L (group_props g))))
          (filter (\<lambda>g. p_items (group_props g) \<noteq> []) (groups ctx))))"
    using nested_member_ok [OF 3] by (simp add: numeral_2_eq_2)
  show ?thesis unfolding flags_members_def using n m assms(2) by (simp add: ctx_wf_def ctx_strings_ok_def)
qed

section \<open>Facts: ingesting a response\<close>

lemma parse_flags_take:
  "length parsed \<le> PH_MAX_FLAGS \<Longrightarrow> m \<le> length kvs \<Longrightarrow>
   parse_flags (Some (JObj kvs)) [m..<length kvs] parsed =
     parsed @ map (\<lambda>kv. parse_flag (fst kv) (Some (snd kv))) (take (PH_MAX_FLAGS - length parsed) (drop m kvs))"
proof (induction "length kvs - m" arbitrary: m parsed)
  case (Suc d)
  then have m: "m < length kvs" by simp
  then have u: "[m..<length kvs] = m # [Suc m..<length kvs]" and dr: "drop m kvs = kvs ! m # drop (Suc m) kvs"
    by (simp_all add: upt_rec Cons_nth_drop_Suc)
  show ?case
  proof (cases "length parsed < PH_MAX_FLAGS")
    case True
    then have "PH_MAX_FLAGS - length parsed = Suc (PH_MAX_FLAGS - Suc (length parsed))" by simp
    with True m Suc.hyps(1) [of "Suc m"] Suc.hyps(2) show ?thesis
      unfolding u dr by (simp add: ph_jv_key_at_def ph_jv_val_at_def)
  next
    case False
    with Suc.prems have "length parsed = PH_MAX_FLAGS" by simp
    with u show ?thesis by simp
  qed
qed simp

definition response_flags :: "(string \<times> 'd jv) list \<Rightarrow> ph_flag list" where
  "response_flags kvs = map (\<lambda>kv. parse_flag (fst kv) (Some (snd kv))) (take PH_MAX_FLAGS kvs)"

lemma ingest_unfold:
  assumes "ph_jv_parse D json = Some doc" "\<not> quota_limited (Some doc)" "ph_jv_get (Some doc) ''flags'' = Some (JObj kvs)"
  shows "flags_ingest_for_context D json cgen ctx =
     (if cgen \<noteq> flags_context_gen ctx then (ctx, PH_FEATURE_FLAG_RELOAD_SUPERSEDED)
      else if \<not> ph_jv_bool (ph_jv_get (Some doc) ''errorsWhileComputingFlags'')
      then (flags_replace (response_flags kvs) ctx, PH_FEATURE_FLAG_RELOAD_SUCCESS)
      else (flags_merge (response_flags kvs) ctx, PH_FEATURE_FLAG_RELOAD_FAILED))"
proof -
  have "parse_flags (Some (JObj kvs)) [0..<length kvs] [] = response_flags kvs"
    using parse_flags_take [of "[]" 0 kvs] by (simp add: response_flags_def)
  with assms show ?thesis
    by (simp add: flags_ingest_for_context_def ph_jv_type_of_def ph_jv_len_def Let_def)
qed

text \<open>Whatever the response, only the cache changes, and only for the current context.\<close>

lemma merge_frame: "\<exists>fs. flags_merge parsed ctx = ctx\<lparr>flags := fs\<rparr>"
proof (induction parsed arbitrary: ctx)
  case Nil
  then show ?case by (auto simp: flags_merge_def intro: exI [of _ "flags ctx"])
next
  case (Cons p ps)
  have "\<exists>fs. merge_flag ctx p = ctx\<lparr>flags := fs\<rparr>"
    by (auto simp: merge_flag_def Let_def intro: exI [of _ "flags ctx"])
  then obtain fs where "merge_flag ctx p = ctx\<lparr>flags := fs\<rparr>" ..
  with Cons [of "ctx\<lparr>flags := fs\<rparr>"] show ?case by (auto simp: flags_merge_def)
qed

lemma ingest_cases:
  obtains "flags_ingest_for_context D json cgen ctx = (ctx, failure_for_context cgen ctx)"
    | "cgen \<noteq> flags_context_gen ctx" "flags_ingest_for_context D json cgen ctx = (ctx, PH_FEATURE_FLAG_RELOAD_SUPERSEDED)"
    | fs st where "cgen = flags_context_gen ctx" "flags_ingest_for_context D json cgen ctx = (ctx\<lparr>flags := fs\<rparr>, st)"
        "st = PH_FEATURE_FLAG_RELOAD_SUCCESS \<or> st = PH_FEATURE_FLAG_RELOAD_FAILED"
proof (cases "ph_jv_parse D json")
  case None
  then show thesis using that(1) by (simp add: flags_ingest_for_context_def)
next
  case (Some doc)
  show thesis
  proof (cases "quota_limited (Some doc) \<or> ph_jv_type_of (ph_jv_get (Some doc) ''flags'') \<noteq> PH_JV_OBJ")
    case True
    show thesis by (rule that(1)) (use True Some in \<open>auto simp: flags_ingest_for_context_def Let_def\<close>)
  next
    case False
    then obtain kvs where k: "\<not> quota_limited (Some doc)" "ph_jv_get (Some doc) ''flags'' = Some (JObj kvs)"
      by (auto simp: ph_jv_type_of_def split: option.splits jv.splits)
    from merge_frame [of "response_flags kvs" ctx] obtain fs where "flags_merge (response_flags kvs) ctx = ctx\<lparr>flags := fs\<rparr>" ..
    note m = this
    note u = ingest_unfold [OF Some k, of cgen ctx]
    consider "cgen \<noteq> flags_context_gen ctx"
      | "cgen = flags_context_gen ctx" "\<not> ph_jv_bool (ph_jv_get (Some doc) ''errorsWhileComputingFlags'')"
      | "cgen = flags_context_gen ctx" "ph_jv_bool (ph_jv_get (Some doc) ''errorsWhileComputingFlags'')" by blast
    then show thesis
    proof cases
      case 1
      show thesis by (rule that(2) [OF 1]) (use 1 u in simp)
    next
      case 2
      show thesis
        by (rule that(3) [of "flags (flags_replace (response_flags kvs) ctx)" PH_FEATURE_FLAG_RELOAD_SUCCESS])
          (use 2 u in \<open>simp_all add: flags_replace_def\<close>)
    next
      case 3
      show thesis by (rule that(3) [of fs PH_FEATURE_FLAG_RELOAD_FAILED]) (use 3 u m in simp_all)
    qed
  qed
qed

section \<open>Facts: merging a partial response\<close>

lemma find_put_flag:
  "find (\<lambda>f. fl_key f = k) (put_flag p fs) = (if k = fl_key p then Some p else find (\<lambda>f. fl_key f = k) fs)"
  by (induction fs) auto

lemma length_put_flag:
  "length (put_flag p fs) = (if find (\<lambda>f. fl_key f = fl_key p) fs = None then Suc (length fs) else length fs)"
  by (induction fs) auto

lemma find_merge_other: "k \<noteq> fl_key p \<Longrightarrow> find_locked k (merge_flag ctx p) = find_locked k ctx"
  by (simp add: merge_flag_def find_locked_def Let_def find_put_flag)

lemma length_merge: "length (flags ctx) \<le> PH_MAX_FLAGS \<Longrightarrow> length (flags (merge_flag ctx p)) \<le> PH_MAX_FLAGS"
  by (simp add: merge_flag_def find_locked_def Let_def length_put_flag)

lemma find_merges_other:
  "k \<notin> fl_key ` set parsed \<Longrightarrow> find_locked k (flags_merge parsed ctx) = find_locked k ctx"
  by (induction parsed arbitrary: ctx) (simp_all add: flags_merge_def find_merge_other)

lemma length_merges:
  "length (flags ctx) \<le> PH_MAX_FLAGS \<Longrightarrow> length (flags (flags_merge parsed ctx)) \<le> PH_MAX_FLAGS"
  by (induction parsed arbitrary: ctx) (simp_all add: flags_merge_def length_merge)

definition unlatched :: "ph_flag \<Rightarrow> ph_flag" where
  "unlatched f = f\<lparr>fl_called_sent := False\<rparr>"

lemma unlatched_parse [simp]: "unlatched (parse_flag k v) = parse_flag k v"
  by (simp add: unlatched_def parse_flag_def Let_def)

lemma find_merge_same:
  assumes "find_locked (fl_key p) ctx \<noteq> None \<or> length (flags ctx) < PH_MAX_FLAGS"
  shows "\<exists>f. find_locked (fl_key p) (merge_flag ctx p) = Some f \<and> unlatched f = unlatched p"
  using assms by (auto simp: merge_flag_def find_locked_def Let_def find_put_flag unlatched_def)

lemma length_merge_le: "length (flags (merge_flag ctx p)) \<le> Suc (length (flags ctx))"
  by (simp add: merge_flag_def find_locked_def Let_def length_put_flag)

text \<open>With room in the cache, every flag of the response is found afterwards, the last one of a key.\<close>

lemma find_merges_last:
  assumes "length (flags ctx) + length parsed \<le> PH_MAX_FLAGS" "k \<in> fl_key ` set parsed"
  shows "\<exists>f p. find_locked k (flags_merge parsed ctx) = Some f \<and> p \<in> set parsed \<and> fl_key p = k \<and> unlatched f = unlatched p"
  using assms
proof (induction parsed arbitrary: ctx)
  case (Cons p ps)
  let ?c = "merge_flag ctx p"
  have step: "flags_merge (p # ps) ctx = flags_merge ps ?c" by (simp add: flags_merge_def)
  have len: "length (flags ?c) + length ps \<le> PH_MAX_FLAGS" using Cons.prems(1) length_merge_le [of ctx p] by simp
  show ?case
  proof (cases "k \<in> fl_key ` set ps")
    case True
    with Cons.IH [OF len] show ?thesis unfolding step by fastforce
  next
    case False
    with Cons.prems(2) have k: "k = fl_key p" by auto
    have "length (flags ctx) < PH_MAX_FLAGS" using Cons.prems(1) by simp
    with find_merge_same [of p ctx] find_merges_other [OF False, of ?c] show ?thesis unfolding step k by auto
  qed
qed simp

text \<open>The cache stays well formed: keys, variants and payloads are C strings below their capacities.\<close>

lemma ctx_wf_flags: "ctx_wf ctx \<Longrightarrow> length fs \<le> PH_MAX_FLAGS \<Longrightarrow> list_all flag_ok fs \<Longrightarrow> ctx_wf (ctx\<lparr>flags := fs\<rparr>)"
  by (simp add: ctx_wf_def ctx_strings_ok_def)

lemma jv_get_str_cstr: "pred_option (jv_ok n) v \<Longrightarrow> pred_option cstr (ph_jv_str v)"
  by (auto simp: ph_jv_str_def split: option.split jv.split)

lemma jv_get_ok: "pred_option (jv_ok n) v \<Longrightarrow> pred_option (jv_ok (n - 1)) (ph_jv_get v k)"
proof -
  assume a: "pred_option (jv_ok n) v"
  have "jv_ok (n - 1) w" if "v = Some (JObj kvs)" "map_of kvs k = Some w" for kvs w
    using a that map_of_SomeD [OF that(2)] by fastforce
  then have "jv_ok (n - 1) w" if "ph_jv_get v k = Some w" for w
    using that by (auto simp: ph_jv_get_def split: option.splits jv.splits)
  then show ?thesis by (cases "ph_jv_get v k") simp_all
qed

lemma copy_capped_ok: "0 < n \<Longrightarrow> pred_option cstr s \<Longrightarrow> cstr (ph_copy_capped d n s) \<and> length (ph_copy_capped d n s) < n"
  by (auto simp: ph_copy_capped_def intro: cstr_take split: option.split)

lemma parse_flag_ok:
  assumes "cstr k" "pred_option (jv_ok n) v"
  shows "flag_ok (parse_flag k v)"
proof -
  have g: "pred_option cstr (ph_jv_str (ph_jv_get w k'))" if "pred_option (jv_ok m) w" for w k' m
    using jv_get_str_cstr [OF jv_get_ok [OF that]] .
  show ?thesis
    using copy_capped_ok [of PH_FLAG_VARIANT_CAP] copy_capped_ok [of PH_FLAG_PAYLOAD_CAP] copy_capped_ok [of PH_KEY_CAP "Some k"]
      g [OF assms(2)] g [OF jv_get_ok [OF assms(2)]] assms(1)
    by (auto simp: flag_ok_def parse_flag_def Let_def caps ph_jv_type_of_def)
qed

lemma put_flag_ok: "flag_ok p \<Longrightarrow> list_all flag_ok fs \<Longrightarrow> list_all flag_ok (put_flag p fs)"
  by (induction fs) auto

lemma merge_flag_wf: "ctx_wf ctx \<Longrightarrow> flag_ok p \<Longrightarrow> ctx_wf (merge_flag ctx p)"
proof -
  assume a: "ctx_wf ctx" "flag_ok p"
  have "flag_ok (p\<lparr>fl_called_sent := b\<rparr>)" for b using a(2) by (simp add: flag_ok_def)
  then have "list_all flag_ok (flags (merge_flag ctx p))" using a by (simp add: merge_flag_def Let_def put_flag_ok ctx_wf_def)
  moreover have "length (flags (merge_flag ctx p)) \<le> PH_MAX_FLAGS" using a(1) length_merge by (simp add: ctx_wf_def)
  moreover have "merge_flag ctx p = ctx\<lparr>flags := flags (merge_flag ctx p)\<rparr>" by (simp add: merge_flag_def Let_def)
  ultimately show ?thesis using ctx_wf_flags [OF a(1)] by metis
qed

lemma ingest_wf: "ctx_wf ctx \<Longrightarrow> ctx_wf (fst (flags_ingest_for_context D json cgen ctx))"
proof (cases "\<exists>doc kvs. ph_jv_parse D json = Some doc \<and> \<not> quota_limited (Some doc) \<and> ph_jv_get (Some doc) ''flags'' = Some (JObj kvs)")
  case True
  then obtain doc kvs where d: "ph_jv_parse D json = Some doc" "\<not> quota_limited (Some doc)" "ph_jv_get (Some doc) ''flags'' = Some (JObj kvs)" by blast
  assume wf: "ctx_wf ctx"
  have "pred_option (jv_ok PH_JV_MAX_DEPTH) (Some doc)" using jv_parse_ok [OF d(1)] by simp
  from jv_get_ok [OF this, of "''flags''"] have ok: "jv_ok (PH_JV_MAX_DEPTH - 1) (JObj kvs)" unfolding d(3) by simp
  then have r: "list_all flag_ok (response_flags kvs)"
    by (auto simp: response_flags_def list_all_iff dest!: in_set_takeD intro!: parse_flag_ok [where n = "PH_JV_MAX_DEPTH - 1 - 1"])
  have "ctx_wf (flags_replace (response_flags kvs) ctx)"
    unfolding flags_replace_def using wf r by (intro ctx_wf_flags) (auto simp: response_flags_def list_all_iff flag_ok_def)
  moreover have "ctx_wf (flags_merge ps c)" if "ctx_wf c" "list_all flag_ok ps" for ps c
    using that unfolding flags_merge_def by (induction ps arbitrary: c) (simp_all add: merge_flag_wf)
  ultimately show ?thesis using wf r by (simp add: ingest_unfold [OF d])
next
  case False
  assume "ctx_wf ctx"
  moreover have "fst (flags_ingest_for_context D json cgen ctx) = ctx"
    using False by (auto simp: flags_ingest_for_context_def Let_def ph_jv_type_of_def split: option.splits jv.splits)
  ultimately show ?thesis by simp
qed

section \<open>Facts: reading flags\<close>

lemma find_latch:
  "find (\<lambda>f. fl_key f = k) (latch_flag k fs) =
     map_option (\<lambda>f. f\<lparr>fl_called_sent := True\<rparr>) (find (\<lambda>f. fl_key f = k) fs)"
  by (induction fs) auto

lemma latch_wf [simp]: "ctx_wf ctx \<Longrightarrow> ctx_wf (ctx\<lparr>flags := latch_flag k (flags ctx)\<rparr>)"
proof -
  have "length (latch_flag k fs) = length fs \<and> list_all flag_ok (latch_flag k fs) = list_all flag_ok fs" for fs
    by (induction fs) (auto simp: flag_ok_def)
  then show "ctx_wf ctx \<Longrightarrow> ctx_wf (ctx\<lparr>flags := latch_flag k (flags ctx)\<rparr>)" by (intro ctx_wf_flags) (simp_all add: ctx_wf_def)
qed

lemma admits_flags [simp]: "admits rnd kind t (ctx\<lparr>flags := fs\<rparr>) = admits rnd kind t ctx"
  unfolding admits_def rate_limit_admit_def Let_def by (simp add: if_distrib [of snd])

lemma submit_frame:
  obtains a tk lm dr q where "fst (ph__submit_event rnd t kind fl name did props pm stamp extra ctx) =
     ctx\<lparr>seq := a, rl_tokens := tk, rl_last_mono := lm, rl_dropped := dr, queue := q\<rparr>"
proof (cases "enabled ctx \<and> name \<noteq> None")
  case True
  then obtain nm where n: "name = Some nm" "enabled ctx" by auto
  obtain tk lm dr where c: "admitted_ctx rnd kind t ctx =
     ctx\<lparr>seq := seq ctx + 1, rl_tokens := tk, rl_last_mono := lm, rl_dropped := dr\<rparr>" by (rule admitted_frame)
  show thesis
  proof (cases "admits rnd kind t ctx")
    case True
    then show thesis using that c n by (simp add: submit_event_unfold Let_def)
  next
    case False
    then show thesis using that [where a = "seq ctx + 1" and tk = tk and lm = lm and dr = dr and q = "queue ctx"] c n by (simp add: submit_event_unfold)
  qed
next
  case False
  then have "fst (ph__submit_event rnd t kind fl name did props pm stamp extra ctx) = ctx"
    by (auto simp: ph__submit_event_def)
  then show thesis using that [where a = "seq ctx" and tk = "rl_tokens ctx" and lm = "rl_last_mono ctx" and dr = "rl_dropped ctx" and q = "queue ctx"] by simp
qed

lemma submit_flags_frame [simp]:
  "flags (fst (ph__submit_event rnd t kind fl name did props pm stamp extra ctx)) = flags ctx"
  "send_feature_flag_events (fst (ph__submit_event rnd t kind fl name did props pm stamp extra ctx)) = send_feature_flag_events ctx"
  "enabled (fst (ph__submit_event rnd t kind fl name did props pm stamp extra ctx)) = enabled ctx"
  by (rule submit_frame [of rnd t kind fl name did props pm stamp extra ctx], simp)+

definition ff_props :: "string \<Rightarrow> ph_flag \<Rightarrow> ph_props" where
  "ff_props k f = \<lparr>p_items = [\<lparr>prop_key = ''$feature_flag'', prop_val = PH_T_STR (take (PH_VAL_CAP - 1) k)\<rparr>,
     \<lparr>prop_key = ''$feature_flag_response'', prop_val =
        (case fl_variant f of Some v \<Rightarrow> PH_T_STR (flag_text f) | None \<Rightarrow> PH_T_BOOL (if fl_enabled f then 1 else 0))\<rparr>],
     p_dropped = 0\<rparr>"

lemma flag_text_length: "length (flag_text f) < PH_FLAG_VARIANT_CAP"
  by (auto simp: flag_text_def ph_copy_capped_def caps split: option.split)

lemma emit_ff_called_unfold:
  assumes "enabled ctx"
  shows "emit_ff_called rnd t k (flag_text f) (fl_variant f \<noteq> None) (fl_enabled f) ctx =
     fst (ph__submit_event rnd t PH_EV_CAPTURE 0 (Some ''$feature_flag_called'') None (Some (ff_props k f)) (-1) True None ctx)"
proof -
  have "take (PH_VAL_CAP - 1) (flag_text f) = flag_text f" using flag_text_length [of f] by (simp add: caps)
  then have "(if fl_variant f \<noteq> None then props_put_str (props_put_str ph_props_init ''$feature_flag'' k) ''$feature_flag_response'' (flag_text f)
      else props_put_bool (props_put_str ph_props_init ''$feature_flag'' k) ''$feature_flag_response'' (if fl_enabled f then 1 else 0)) = ff_props k f"
    by (simp add: props_put_str_def props_put_bool_def ph_props_set_str_def ph_props_set_bool_def props_set_def next_slot_def
        copy_capped_def ph_props_init_def ff_props_def caps Let_def split: option.split)
  with assms show ?thesis by (simp add: emit_ff_called_def Let_def)
qed

lemma resolve_and_emit_first:
  assumes "enabled ctx" "send_feature_flag_events ctx" "find_locked k ctx = Some f" "\<not> fl_called_sent f"
  shows "resolve_and_emit rnd t k ctx =
     (fst (ph__submit_event rnd t PH_EV_CAPTURE 0 (Some ''$feature_flag_called'') None (Some (ff_props k f)) (-1) True None
        (ctx\<lparr>flags := latch_flag k (flags ctx)\<rparr>)), Some f)"
  using assms emit_ff_called_unfold [of "ctx\<lparr>flags := latch_flag k (flags ctx)\<rparr>" rnd t k f]
  by (simp add: resolve_and_emit_def resolve_def)

lemma resolve_and_emit_again:
  assumes "find_locked k ctx = Some f" "fl_called_sent f"
  shows "resolve_and_emit rnd t k ctx = (ctx, Some f)"
  using assms by (simp add: resolve_and_emit_def resolve_def)

section \<open>Properties\<close>

text \<open>
  C33. A response is applied only to the context it was asked for. When the identity or the groups
  change while a fetch is on the network, in whatever way, the fetch ends as superseded and leaves
  the state as the other threads left it; and in every case a fetch changes nothing but the cache,
  and reports success only when the context at the end is the one the job was queued for.
\<close>

theorem stale_flags_never_applied:
  assumes "ph__flags_fetch D L fetch busy expected ctx = (ctx', st)"
  shows "(expected \<noteq> flags_context_gen ctx \<longrightarrow> ctx' = ctx \<and> st = PH_FEATURE_FLAG_RELOAD_SUPERSEDED) \<and>
    (expected = flags_context_gen ctx \<longrightarrow>
       (flags_context_gen (busy ctx) \<noteq> expected \<longrightarrow> ctx' = busy ctx \<and> st = PH_FEATURE_FLAG_RELOAD_SUPERSEDED) \<and>
       ctx' = (busy ctx)\<lparr>flags := flags ctx'\<rparr> \<and> st \<noteq> PENDING \<and>
       (st = PH_FEATURE_FLAG_RELOAD_SUCCESS \<longrightarrow> flags_context_gen ctx' = expected))"
proof (cases "expected = flags_context_gen ctx")
  case True
  let ?goal = "\<lambda>r. (flags_context_gen (busy ctx) \<noteq> expected \<longrightarrow> r = (busy ctx, PH_FEATURE_FLAG_RELOAD_SUPERSEDED)) \<and>
       fst r = (busy ctx)\<lparr>flags := flags (fst r)\<rparr> \<and> snd r \<noteq> PENDING \<and>
       (snd r = PH_FEATURE_FLAG_RELOAD_SUCCESS \<longrightarrow> flags_context_gen (fst r) = expected)"
  have fail: "?goal (busy ctx, failure_for_context expected (busy ctx))"
    by (simp add: failure_for_context_def)
  have ing: "?goal (flags_ingest_for_context D json expected (busy ctx))" for json
  proof (cases rule: ingest_cases [of D json expected "busy ctx"])
    case 1
    then show ?thesis using fail by simp
  next
    case 2
    then show ?thesis by simp
  next
    case (3 fs st)
    then show ?thesis by auto
  qed
  have "?goal (ph__flags_fetch D L fetch busy expected ctx)"
  proof (cases fetch)
    case None
    then show ?thesis using fail True by (simp add: ph__flags_fetch_def Let_def)
  next
    case (Some send)
    obtain status resp where "send (flags_url ctx) (flags_request_body L ctx) (request_timeout_ms ctx) = (status, resp)"
      by (meson surj_pair)
    with Some True have eq: "ph__flags_fetch D L fetch busy expected ctx =
        (if 200 \<le> status \<and> status < 300
         then flags_ingest_for_context D (cstr_view (take (PH_FLAGS_RESP_CAP - 1) resp)) expected (busy ctx)
         else (busy ctx, failure_for_context expected (busy ctx)))" by (simp add: ph__flags_fetch_def Let_def)
    show ?thesis
    proof (cases "200 \<le> status \<and> status < 300")
      case c: True
      show ?thesis unfolding eq if_P [OF c] by (rule ing)
    next
      case c: False
      show ?thesis unfolding eq if_not_P [OF c] by (rule fail)
    qed
  qed
  with True assms show ?thesis by simp
next
  case False
  then show ?thesis using assms by (simp add: ph__flags_fetch_def)
qed

theorem stale_flags_never_applied_witness:
  "\<exists>ctx' st. ph__flags_fetch rat_dbl sample_libc (Some (\<lambda>url body ms. (200, ''{}''))) ph__flags_context_changed_locked 1 sample_ctx
       = (ctx', st) \<and> st = PH_FEATURE_FLAG_RELOAD_SUPERSEDED"
proof -
  obtain ctx' st where r: "ph__flags_fetch rat_dbl sample_libc (Some (\<lambda>url body ms. (200, ''{}''))) ph__flags_context_changed_locked 1 sample_ctx
       = (ctx', st)" by (meson surj_pair)
  have "flags_context_gen sample_ctx = 1" "flags_context_gen (ph__flags_context_changed_locked sample_ctx) \<noteq> 1"
    by (simp_all add: sample_ctx_def zero_ctx_def ph__flags_context_changed_locked_def mark_context_superseded_locked_def Let_def)
  with stale_flags_never_applied [OF r] r show ?thesis by auto
qed

text \<open>
  C34. What a response puts into the cache. A complete response replaces the cache by its flags (at
  most 64) and is a success. A partial one keeps every flag it does not name, overwrites or adds
  those it names while there is room, never exceeds the capacity, and is reported as failed.
\<close>

theorem flags_response_cached:
  assumes "ph_jv_parse D json = Some doc" "\<not> quota_limited (Some doc)" "ph_jv_get (Some doc) ''flags'' = Some (JObj kvs)"
    and "flags_ingest_for_context D json (flags_context_gen ctx) ctx = (ctx', st)"
  shows "(if \<not> ph_jv_bool (ph_jv_get (Some doc) ''errorsWhileComputingFlags'')
     then st = PH_FEATURE_FLAG_RELOAD_SUCCESS \<and> map unlatched (flags ctx') = response_flags kvs
     else st = PH_FEATURE_FLAG_RELOAD_FAILED \<and>
       (\<forall>k. k \<notin> fl_key ` set (response_flags kvs) \<longrightarrow> find_locked k ctx' = find_locked k ctx) \<and>
       (length (flags ctx) \<le> PH_MAX_FLAGS \<longrightarrow> length (flags ctx') \<le> PH_MAX_FLAGS) \<and>
       (length (flags ctx) + length (response_flags kvs) \<le> PH_MAX_FLAGS \<longrightarrow>
          (\<forall>k \<in> fl_key ` set (response_flags kvs). \<exists>f p. find_locked k ctx' = Some f \<and>
             p \<in> set (response_flags kvs) \<and> fl_key p = k \<and> unlatched f = p)))"
proof (cases "ph_jv_bool (ph_jv_get (Some doc) ''errorsWhileComputingFlags'')")
  case True
  have un: "p \<in> set (response_flags kvs) \<Longrightarrow> unlatched p = p" for p by (auto simp: response_flags_def)
  have r: "ctx' = flags_merge (response_flags kvs) ctx" "st = PH_FEATURE_FLAG_RELOAD_FAILED"
    using assms(4) ingest_unfold [OF assms(1-3), of "flags_context_gen ctx" ctx] True by simp_all
  have last: "\<exists>f p. find_locked k ctx' = Some f \<and> p \<in> set (response_flags kvs) \<and> fl_key p = k \<and> unlatched f = p"
    if "length (flags ctx) + length (response_flags kvs) \<le> PH_MAX_FLAGS" "k \<in> fl_key ` set (response_flags kvs)" for k
    using find_merges_last [OF that] un unfolding r(1) by metis
  show ?thesis
    using True last r(2) find_merges_other [of _ "response_flags kvs" ctx] length_merges [of ctx "response_flags kvs"]
    unfolding r(1) [symmetric] by simp
next
  case False
  have r: "ctx' = flags_replace (response_flags kvs) ctx" "st = PH_FEATURE_FLAG_RELOAD_SUCCESS"
    using assms(4) ingest_unfold [OF assms(1-3), of "flags_context_gen ctx" ctx] False by simp_all
  have "unlatched (p\<lparr>fl_called_sent := b\<rparr>) = unlatched p" for p b by (simp add: unlatched_def)
  then have "map unlatched (flags ctx') = map unlatched (response_flags kvs)" unfolding r by (simp add: flags_replace_def)
  also have "\<dots> = response_flags kvs" by (simp add: response_flags_def)
  finally show ?thesis using False r by simp
qed

theorem flags_response_cached_witness:
  "\<exists>doc ctx'. ph_jv_parse rat_dbl ''{\"flags\":{\"beta\":{\"enabled\":true}}}'' = Some doc \<and>
     flags_ingest_for_context rat_dbl ''{\"flags\":{\"beta\":{\"enabled\":true}}}'' (flags_context_gen sample_ctx) sample_ctx
       = (ctx', PH_FEATURE_FLAG_RELOAD_SUCCESS) \<and>
     map unlatched (flags ctx') =
       [\<lparr>fl_key = ''beta'', fl_enabled = True, fl_variant = None, fl_payload = None, fl_called_sent = False\<rparr>]"
proof -
  let ?kvs = "[(''beta'', JObj [(''enabled'', JBool True)])] :: (string \<times> rat jv) list"
  let ?doc = "JObj [(''flags'', JObj ?kvs)]"
  have p: "ph_jv_parse rat_dbl ''{\"flags\":{\"beta\":{\"enabled\":true}}}'' = Some ?doc" by code_simp
  have q: "\<not> quota_limited (Some ?doc)" "ph_jv_get (Some ?doc) ''flags'' = Some (JObj ?kvs)"
    "\<not> ph_jv_bool (ph_jv_get (Some ?doc) ''errorsWhileComputingFlags'')"
    by (simp_all add: quota_limited_def ph_jv_get_def ph_jv_type_of_def ph_jv_bool_def)
  obtain ctx' st where r: "flags_ingest_for_context rat_dbl ''{\"flags\":{\"beta\":{\"enabled\":true}}}'' (flags_context_gen sample_ctx) sample_ctx
       = (ctx', st)" by (meson surj_pair)
  have "response_flags ?kvs =
      [\<lparr>fl_key = ''beta'', fl_enabled = True, fl_variant = None, fl_payload = None, fl_called_sent = False\<rparr>]"
    by (simp add: response_flags_def parse_flag_def ph_jv_get_def ph_jv_type_of_def ph_jv_bool_def ph_copy_capped_def caps)
  with flags_response_cached [OF p q(1,2) r] q(3) p r show ?thesis by auto
qed


definition beta_ctx :: ph_ctx where
  "beta_ctx = sample_ctx\<lparr>send_feature_flag_events := True,
     flags := [\<lparr>fl_key = ''beta'', fl_enabled = True, fl_variant = None, fl_payload = None, fl_called_sent = False\<rparr>]\<rparr>"


text \<open>
  The request of a flag fetch is JSON that carries the current identity: the parser accepts it
  and finds in it the project key, the distinct id, the GeoIP opt-out when it is configured, and the
  person properties exactly when there are any.
\<close>

theorem flags_request_reads_back:
  assumes "printf_ok L g" "ctx_wf ctx"
  shows "\<exists>doc. ph_jv_parse D (flags_request_body L ctx) = Some doc \<and>
     ph_jv_str (ph_jv_get (Some doc) ''api_key'') = Some (utf8_sanitize (api_key ctx)) \<and>
     ph_jv_str (ph_jv_get (Some doc) ''distinct_id'') = Some (utf8_sanitize (distinct_id ctx)) \<and>
     (ph_jv_bool (ph_jv_get (Some doc) ''geoip_disable'') \<longleftrightarrow> disable_geoip ctx) \<and>
     (ph_jv_get (Some doc) ''person_properties'' \<noteq> None \<longleftrightarrow> p_items (flag_person_props ctx) \<noteq> [])"
proof -
  let ?t = "TObj (flags_members L ctx)"
  have "jt_wf ?t" "jt_depth ?t \<le> PH_JV_MAX_DEPTH" using tobj_ok [OF flags_members_ok [OF assms]] by (simp_all add: caps)
  then have p: "ph_jv_parse D (flags_request_body L ctx) = Some (jt_read D ?t)"
    unfolding flags_request_tree by (rule parse_printed)
  have san: "utf8_sanitize ''geoip_disable'' = ''geoip_disable''" "utf8_sanitize ''groups'' = ''groups''"
    "utf8_sanitize ''person_properties'' = ''person_properties''" "utf8_sanitize ''group_properties'' = ''group_properties''"
    by (rule sanitize_ascii, simp add: byte_val_def)+
  show ?thesis
    unfolding p
    by (simp add: flags_members_def ph_jv_get_def ph_jv_str_def ph_jv_bool_def sanitize_keys san nested_member_def
        props_members_def del: utf8_sanitize.simps)
qed

theorem flags_request_reads_back_witness:
  "\<exists>doc. ph_jv_parse rat_dbl (flags_request_body sample_libc sample_ctx) = Some doc \<and>
     ph_jv_str (ph_jv_get (Some doc) ''distinct_id'') = Some (utf8_sanitize ''anon-1'')"
proof -
  have "distinct_id sample_ctx = ''anon-1''" by (simp add: sample_ctx_def)
  with flags_request_reads_back [OF sample_libc_ok sample_ctx_wf(1), where D = rat_dbl] show ?thesis by metis
qed

end
