(* ===== verification/Ph_Exception.thy ===== *)
theory Ph_Exception
  imports Ph_Submit
begin

text \<open>
  Error tracking: \<^verbatim>\<open>src/ph_exception_shared.h\<close> (shaping the properties and building the
  \<open>$exception_list\<close> document) and \<^verbatim>\<open>src/ph_exception.c\<close> (\<open>ph_capture_exception\<close>).

  The document is built by appending to a growable buffer; its model is the bytes appended. It is
  shown to be the print of a JSON tree (\<open>exception_tree\<close>), so the reader of theory \<open>Ph_Jsonval\<close>
  gives it back, and the packed entry it travels in is one the queue invariant allows.
\<close>

section \<open>Data\<close>

record ph_stackframe =
  sf_function :: "string option"
  sf_filename :: "string option"
  sf_module :: "string option"
  sf_lineno :: int
  sf_in_app :: int

text \<open>\<open>frames\<close> may be a NULL pointer; otherwise it points to \<open>frame_count\<close> frames.\<close>

record ph_exception =
  ex_type :: "string option"
  ex_message :: "string option"
  ex_handled :: int
  ex_synthetic :: int
  ex_frames :: "ph_stackframe list option"
  ex_frame_count :: int
  ex_extra :: "ph_props option"

section \<open>Shaping\<close>

definition ph__exception_prepare_base :: "ph_exception \<Rightarrow> ph_props" where
  "ph__exception_prepare_base ex =
     (let p = ph_props_init;
          p = props_put_str p ''$exception_level'' (if ex_handled ex \<noteq> 0 then ''warning'' else ''error'');
          p = props_put_str p ''$exception_type'' (case ex_type ex of Some s \<Rightarrow> s | None \<Rightarrow> ''Error'');
          p = props_put_str p ''$exception_message'' (case ex_message ex of Some s \<Rightarrow> s | None \<Rightarrow> [])
      in case ex_extra ex of None \<Rightarrow> p | Some e \<Rightarrow> foldl ph_copy_prop_value p (p_items e))"

definition ph__exception_take_type_message :: "ph_props \<Rightarrow> ph_props \<times> string \<times> string" where
  "ph__exception_take_type_message p =
     (let type = ph_copy_capped [] PH_EXCEPTION_FIELD_CAP
            (Some (case ph_props_find_last_str p ''$exception_type'' of Some v \<Rightarrow> v | None \<Rightarrow> ''Error''));
          message = ph_copy_capped [] PH_EXCEPTION_FIELD_CAP
            (Some (case ph_props_find_last_str p ''$exception_message'' of Some v \<Rightarrow> v | None \<Rightarrow> []))
      in (ph_props_remove_key (ph_props_remove_key p ''$exception_type'') ''$exception_message'', type, message))"

definition ph__exception_json_cstr :: "string option \<Rightarrow> bytes" where
  "ph__exception_json_cstr s = ph_json_str (take (PH_EXCEPTION_FIELD_CAP - 1) (case s of Some s \<Rightarrow> s | None \<Rightarrow> []))"

text \<open>The four suppression flags.\<close>

record omits =
  omit_function :: bool
  omit_filename :: bool
  omit_module :: bool
  omit_frames :: bool

definition frame_text :: "omits \<Rightarrow> ph_stackframe \<Rightarrow> bytes" where
  "frame_text om f =
     ''{\"platform\":\"custom\",\"lang\":\"cpp\",\"in_app\":'' @ ph_json_bool (sf_in_app f) @
     (if \<not> omit_function om \<and> sf_function f \<noteq> None then '',\"function\":'' @ ph__exception_json_cstr (sf_function f) else []) @
     (if \<not> omit_filename om \<and> sf_filename f \<noteq> None then '',\"filename\":'' @ ph__exception_json_cstr (sf_filename f) else []) @
     (if \<not> omit_module om \<and> sf_module f \<noteq> None then '',\"module\":'' @ ph__exception_json_cstr (sf_module f) else []) @
     (if 0 < sf_lineno f then '',\"lineno\":'' @ ph_json_int (of_int (sf_lineno f)) else []) @
     '',\"resolved\":true}''"

fun build_frames :: "omits \<Rightarrow> nat \<Rightarrow> ph_stackframe list \<Rightarrow> nat \<Rightarrow> bytes \<Rightarrow> bytes" where
  "build_frames om budget [] i out = out"
| "build_frames om budget (f # fs) i out =
     (if 0 < budget \<and> budget < length out then out
      else build_frames om budget fs (Suc i) (out @ (if 0 < i then '','' else []) @ frame_text om f))"

definition clamp_frame_count :: "int \<Rightarrow> nat" where
  "clamp_frame_count n =
     (let n = (if n < 0 then 0 else n) in if int PH_MAX_EXCEPTION_FRAMES < n then PH_MAX_EXCEPTION_FRAMES else nat n)"

definition ph__exception_build_list ::
  "ph_exception \<Rightarrow> string option \<Rightarrow> string option \<Rightarrow> omits \<Rightarrow> nat \<Rightarrow> bytes" where
  "ph__exception_build_list ex type message om frame_budget =
     (let out = ''[{\"type\":'' @ ph__exception_json_cstr (Some (case type of Some s \<Rightarrow> s | None \<Rightarrow> ''Error'')) @
            '',\"value\":'' @ ph__exception_json_cstr (Some (case message of Some s \<Rightarrow> s | None \<Rightarrow> [])) @
            '',\"mechanism\":{\"handled\":'' @ ph_json_bool (ex_handled ex) @
            '',\"synthetic\":'' @ ph_json_bool (ex_synthetic ex) @
            ''},\"stacktrace\":{\"type\":\"raw\",\"frames\":['';
          fs = (if omit_frames om then [] else case ex_frames ex of None \<Rightarrow> []
                | Some fs \<Rightarrow> take (clamp_frame_count (ex_frame_count ex)) fs)
      in build_frames om frame_budget fs 0 out @ '']}}]'')"

section \<open>Capture\<close>

definition denylist_has :: "ph_ctx \<Rightarrow> string \<Rightarrow> bool" where
  "denylist_has ctx k = ph_denylist_has (denylist ctx) k"

definition apply_denylist :: "ph_ctx \<Rightarrow> ph_props \<Rightarrow> ph_props" where
  "apply_denylist ctx p = ph_apply_denylist p (denylist ctx)"

definition exception_omits :: "ph_ctx \<Rightarrow> omits" where
  "exception_omits ctx =
     \<lparr>omit_function = denylist_has ctx ''function'' \<or> denylist_has ctx ''$exception_frame_function'',
      omit_filename = denylist_has ctx ''filename'' \<or> denylist_has ctx ''$exception_frame_filename'',
      omit_module = denylist_has ctx ''module'' \<or> denylist_has ctx ''$exception_frame_module'',
      omit_frames = denylist_has ctx ''frames'' \<or> denylist_has ctx ''stacktrace'' \<or> denylist_has ctx ''$exception_frames''\<rparr>"

text \<open>None when the hook vetoes the event.\<close>

definition prepare_exception_props :: "ph_ctx \<Rightarrow> ph_exception \<Rightarrow> (ph_props \<times> string \<times> string \<times> omits) option" where
  "prepare_exception_props ctx ex =
     (let p = apply_denylist ctx (ph__exception_prepare_base ex);
          p = (if denylist_has ctx ''type'' then ph_props_remove_key p ''$exception_type'' else p);
          p = (if denylist_has ctx ''message'' then ph_props_remove_key p ''$exception_message'' else p);
          (p, keep) = (case before_send ctx of None \<Rightarrow> (p, True) | Some hook \<Rightarrow> hook ''$exception'' p)
      in if \<not> keep then None
         else let (p, type, message) = ph__exception_take_type_message p
              in Some (p, type, message, exception_omits ctx))"

definition exception_extra :: "ph_exception \<Rightarrow> string \<Rightarrow> string \<Rightarrow> omits \<Rightarrow> bytes" where
  "exception_extra ex type message om =
     ph_pack_str_entry PH_EVENT_DATA_CAP PH_PK_RAWJSON (Some ''$exception_list'')
       (Some (ph__exception_build_list ex (Some type) (Some message) om (PH_EVENT_DATA_CAP - PH_EXCEPTION_BLOB_RESERVE)))"

definition ph__capture_exception_flags ::
  "(real \<Rightarrow> real) \<Rightarrow> u64 \<Rightarrow> ph_exception option \<Rightarrow> u8 \<Rightarrow> ph_ctx \<Rightarrow> ph_ctx \<times> ph_result" where
  "ph__capture_exception_flags rnd t ex base_flags ctx =
     (if \<not> enabled ctx then (ctx, PH_ERR_DISABLED)
      else case ex of None \<Rightarrow> (ctx, PH_ERR_BADARG)
      | Some ex \<Rightarrow>
          (case prepare_exception_props ctx ex of None \<Rightarrow> (ctx, PH_ERR)
           | Some (p, type, message, om) \<Rightarrow>
               ph__submit_event rnd t PH_EV_EXCEPTION (PH_EVF_SCRUBBED OR base_flags) (Some ''$exception'') None
                 (Some p) (-1) True (Some (exception_extra ex type message om)) ctx))"

definition ph_capture_exception :: "(real \<Rightarrow> real) \<Rightarrow> u64 \<Rightarrow> ph_exception option \<Rightarrow> ph_ctx \<Rightarrow> ph_ctx" where
  "ph_capture_exception rnd t ex ctx = fst (ph__capture_exception_flags rnd t ex 0 ctx)"

section \<open>The list as a document\<close>

definition capped :: "string option \<Rightarrow> string" where
  "capped s = take (PH_EXCEPTION_FIELD_CAP - 1) (case s of Some s \<Rightarrow> s | None \<Rightarrow> [])"

definition frame_tree :: "omits \<Rightarrow> ph_stackframe \<Rightarrow> jt" where
  "frame_tree om f = TObj (
     [(''platform'', TStr ''custom''), (''lang'', TStr ''cpp''), (''in_app'', TBool (sf_in_app f \<noteq> 0))] @
     (if \<not> omit_function om \<and> sf_function f \<noteq> None then [(''function'', TStr (capped (sf_function f)))] else []) @
     (if \<not> omit_filename om \<and> sf_filename f \<noteq> None then [(''filename'', TStr (capped (sf_filename f)))] else []) @
     (if \<not> omit_module om \<and> sf_module f \<noteq> None then [(''module'', TStr (capped (sf_module f)))] else []) @
     (if 0 < sf_lineno f then [(''lineno'', TNum (ph_json_int (of_int (sf_lineno f))))] else []) @
     [(''resolved'', TBool True)])"

definition exception_tree :: "ph_exception \<Rightarrow> string \<Rightarrow> string \<Rightarrow> omits \<Rightarrow> ph_stackframe list \<Rightarrow> jt" where
  "exception_tree ex type message om fs = TArr [TObj
     [(''type'', TStr (capped (Some type))), (''value'', TStr (capped (Some message))),
      (''mechanism'', TObj [(''handled'', TBool (ex_handled ex \<noteq> 0)), (''synthetic'', TBool (ex_synthetic ex \<noteq> 0))]),
      (''stacktrace'', TObj [(''type'', TStr ''raw''), (''frames'', TArr (map (frame_tree om) fs))])]]"

lemma exception_keys:
  "ph_json_str ''platform'' = ''\"platform\"''" "ph_json_str ''custom'' = ''\"custom\"''" "ph_json_str ''lang'' = ''\"lang\"''"
  "ph_json_str ''cpp'' = ''\"cpp\"''" "ph_json_str ''in_app'' = ''\"in_app\"''" "ph_json_str ''function'' = ''\"function\"''"
  "ph_json_str ''filename'' = ''\"filename\"''" "ph_json_str ''module'' = ''\"module\"''" "ph_json_str ''lineno'' = ''\"lineno\"''"
  "ph_json_str ''resolved'' = ''\"resolved\"''" "ph_json_str ''type'' = ''\"type\"''" "ph_json_str ''value'' = ''\"value\"''"
  "ph_json_str ''mechanism'' = ''\"mechanism\"''" "ph_json_str ''handled'' = ''\"handled\"''" "ph_json_str ''synthetic'' = ''\"synthetic\"''"
  "ph_json_str ''stacktrace'' = ''\"stacktrace\"''" "ph_json_str ''raw'' = ''\"raw\"''" "ph_json_str ''frames'' = ''\"frames\"''"
  by (simp_all add: json_str_plain plain_char_def byte_val_def)

lemma print_members: "jt_print (TObj ms) = ''{'' @ members_text True ms @ ''}''"
  by (simp add: members_text_def)

lemma frame_text_tree: "frame_text om f = jt_print (frame_tree om f)"
  unfolding frame_tree_def print_members members_text_append
  by (simp add: frame_text_def members_text_Cons exception_keys ph_json_bool_def ph__exception_json_cstr_def capped_def)

lemma build_frames_prefix:
  "\<exists>n \<le> length fs. build_frames om budget fs i out =
     out @ (if n = 0 \<or> i = 0 then [] else '','') @ commas (map (frame_text om) (take n fs))"
proof (induction om budget fs i out rule: build_frames.induct)
  case (2 om budget f fs i out)
  show ?case
  proof (cases "0 < budget \<and> budget < length out")
    case True
    then show ?thesis by (intro exI [of _ 0]) simp
  next
    case False
    with 2 obtain n where "n \<le> length fs" "build_frames om budget fs (Suc i) (out @ (if 0 < i then '','' else []) @ frame_text om f) =
        (out @ (if 0 < i then '','' else []) @ frame_text om f) @ (if n = 0 then [] else '','') @ commas (map (frame_text om) (take n fs))"
      by auto
    with False show ?thesis by (intro exI [of _ "Suc n"]) (auto simp: commas_Cons)
  qed
qed simp

lemma build_list_tree:
  obtains n where "n \<le> PH_MAX_EXCEPTION_FRAMES"
    "ph__exception_build_list ex (Some type) (Some message) om budget =
       jt_print (exception_tree ex type message om (take n (case ex_frames ex of None \<Rightarrow> [] | Some fs \<Rightarrow> fs)))"
    "omit_frames om \<Longrightarrow> n = 0"
proof -
  define fs where "fs = (if omit_frames om then [] else case ex_frames ex of None \<Rightarrow> []
                | Some fs \<Rightarrow> take (clamp_frame_count (ex_frame_count ex)) fs)"
  define out where "out = ''[{\"type\":'' @ ph__exception_json_cstr (Some type) @
            '',\"value\":'' @ ph__exception_json_cstr (Some message) @
            '',\"mechanism\":{\"handled\":'' @ ph_json_bool (ex_handled ex) @
            '',\"synthetic\":'' @ ph_json_bool (ex_synthetic ex) @
            ''},\"stacktrace\":{\"type\":\"raw\",\"frames\":[''"
  obtain n where n: "n \<le> length fs" "build_frames om budget fs 0 out = out @ commas (map (frame_text om) (take n fs))"
    using build_frames_prefix [of fs om budget 0 out] by auto
  have clamp: "clamp_frame_count i \<le> PH_MAX_EXCEPTION_FRAMES" for i by (auto simp: clamp_frame_count_def Let_def)
  have le: "n \<le> PH_MAX_EXCEPTION_FRAMES" using n(1) clamp [of "ex_frame_count ex"] by (auto simp: fs_def split: if_splits option.splits)
  have tk: "take n fs = take n (case ex_frames ex of None \<Rightarrow> [] | Some fs \<Rightarrow> fs)"
    using n(1) by (auto simp: fs_def min_def split: if_splits option.splits)
  show thesis
  proof (rule that [of n])
    show "ph__exception_build_list ex (Some type) (Some message) om budget =
       jt_print (exception_tree ex type message om (take n (case ex_frames ex of None \<Rightarrow> [] | Some fs \<Rightarrow> fs)))"
      unfolding ph__exception_build_list_def Let_def option.case out_def [symmetric] fs_def [symmetric] n(2) tk
      unfolding exception_tree_def out_def
      by (simp add: exception_keys ph_json_bool_def ph__exception_json_cstr_def capped_def frame_text_tree [abs_def] comp_def)
    show "omit_frames om \<Longrightarrow> n = 0" using n(1) by (simp add: fs_def)
  qed (rule le)
qed

section \<open>Facts: the payload is well formed\<close>

definition frame_ok :: "ph_stackframe \<Rightarrow> bool" where
  "frame_ok f \<longleftrightarrow> pred_option cstr (sf_function f) \<and> pred_option cstr (sf_filename f) \<and> pred_option cstr (sf_module f)"

definition exception_ok :: "ph_exception \<Rightarrow> bool" where
  "exception_ok ex \<longleftrightarrow> pred_option cstr (ex_type ex) \<and> pred_option cstr (ex_message ex) \<and>
     pred_option (list_all frame_ok) (ex_frames ex) \<and> pred_option props_wf (ex_extra ex)"

text \<open>The hook is the application's; what it hands back is a set built with the public setters.\<close>

definition hook_ok :: "ph_ctx \<Rightarrow> bool" where
  "hook_ok ctx \<longleftrightarrow> (\<forall>hook. before_send ctx = Some hook \<longrightarrow> (\<forall>n p. props_wf p \<longrightarrow> props_wf (fst (hook n p))))"

abbreviation frames_of :: "ph_exception \<Rightarrow> ph_stackframe list" where
  "frames_of ex \<equiv> (case ex_frames ex of None \<Rightarrow> [] | Some fs \<Rightarrow> fs)"

lemma cstr_capped: "pred_option cstr s \<Longrightarrow> cstr (capped s)"
  by (auto simp: capped_def split: option.split)

lemma frame_tree_ok:
  assumes "frame_ok f"
  shows "jt_wf (frame_tree om f) \<and> jt_depth (frame_tree om f) \<le> 1"
proof -
  let ?ms = "[(''platform'', TStr ''custom''), (''lang'', TStr ''cpp''), (''in_app'', TBool (sf_in_app f \<noteq> 0))] @
     (if \<not> omit_function om \<and> sf_function f \<noteq> None then [(''function'', TStr (capped (sf_function f)))] else []) @
     (if \<not> omit_filename om \<and> sf_filename f \<noteq> None then [(''filename'', TStr (capped (sf_filename f)))] else []) @
     (if \<not> omit_module om \<and> sf_module f \<noteq> None then [(''module'', TStr (capped (sf_module f)))] else []) @
     (if 0 < sf_lineno f then [(''lineno'', TNum (ph_json_int (of_int (sf_lineno f))))] else []) @
     [(''resolved'', TBool True)]"
  have "members_ok 0 ?ms"
    using assms json_number_int_dec by (simp add: frame_ok_def cstr_capped ph_json_int_def)
  from tobj_ok [OF this] show ?thesis by (simp add: frame_tree_def)
qed

lemma exception_tree_ok:
  assumes "exception_ok ex" "cstr type" "cstr message"
  shows "jt_wf (exception_tree ex type message om (take n (frames_of ex)))"
    and "jt_depth (exception_tree ex type message om (take n (frames_of ex))) \<le> 5"
proof -
  have "frame_ok f" if "f \<in> set (take n (frames_of ex))" for f
    using assms(1) in_set_takeD [OF that] by (cases "ex_frames ex") (auto simp: exception_ok_def list_all_iff)
  then have fr: "jt_wf (TArr (map (frame_tree om) (take n (frames_of ex))))"
    "jt_depth (TArr (map (frame_tree om) (take n (frames_of ex)))) \<le> 2"
    using frame_tree_ok by auto
  have "members_ok 2 [(''type'', TStr ''raw''), (''frames'', TArr (map (frame_tree om) (take n (frames_of ex))))]"
    using fr by (simp del: jt_wf.simps(5) jt_depth.simps(1))
  then have st: "jt_wf (TObj [(''type'', TStr ''raw''), (''frames'', TArr (map (frame_tree om) (take n (frames_of ex))))])"
    "jt_depth (TObj [(''type'', TStr ''raw''), (''frames'', TArr (map (frame_tree om) (take n (frames_of ex))))]) \<le> 3"
    using tobj_ok by fastforce+
  have me: "jt_wf (TObj [(''handled'', TBool (ex_handled ex \<noteq> 0)), (''synthetic'', TBool (ex_synthetic ex \<noteq> 0))])"
    "jt_depth (TObj [(''handled'', TBool (ex_handled ex \<noteq> 0)), (''synthetic'', TBool (ex_synthetic ex \<noteq> 0))]) \<le> 3" by simp_all
  have "members_ok 3 [(''type'', TStr (capped (Some type))), (''value'', TStr (capped (Some message))),
      (''mechanism'', TObj [(''handled'', TBool (ex_handled ex \<noteq> 0)), (''synthetic'', TBool (ex_synthetic ex \<noteq> 0))]),
      (''stacktrace'', TObj [(''type'', TStr ''raw''), (''frames'', TArr (map (frame_tree om) (take n (frames_of ex))))])]"
    using st me assms(2,3) by (simp add: cstr_capped del: jt_wf.simps(5,6) jt_depth.simps(1,2))
  from tobj_ok [OF this] show "jt_wf (exception_tree ex type message om (take n (frames_of ex)))"
    "jt_depth (exception_tree ex type message om (take n (frames_of ex))) \<le> 5"
    by (simp_all add: exception_tree_def)
qed

lemma put_str_wf: "props_wf p \<Longrightarrow> cstr k \<Longrightarrow> cstr s \<Longrightarrow> props_wf (props_put_str p k s)"
  using props_set_wf [of p "PH_T_STR (take 191 s)" "Some k" "191 < length s"] cstr_take [of s 191]
  by (simp add: props_put_str_def ph_props_set_str_def copy_capped_def caps split: prod.split)

lemma copy_value_wf: "props_wf p \<Longrightarrow> prop_wf it \<Longrightarrow> props_wf (ph_copy_prop_value p it)"
proof (cases "length (p_items p) < PH_MAX_PROPS")
  case True
  assume "props_wf p" "prop_wf it"
  with True show ?thesis by (simp add: copy_prop_value_append props_wf_def)
next
  case False
  assume "props_wf p" "prop_wf it"
  with False show ?thesis
    by (auto simp: ph_copy_prop_value_def ph_props_set_str_def ph_props_set_double_def ph_props_set_int_def
        ph_props_set_bool_def props_set_def next_slot_def props_wf_def Let_def split: ph_val.split prod.split)
qed

lemma copy_values_wf: "props_wf p \<Longrightarrow> list_all prop_wf its \<Longrightarrow> props_wf (foldl ph_copy_prop_value p its)"
  by (induction its arbitrary: p) (simp_all add: copy_value_wf)

lemma prepare_base_wf: "exception_ok ex \<Longrightarrow> props_wf (ph__exception_prepare_base ex)"
  by (auto simp: ph__exception_prepare_base_def Let_def exception_ok_def props_wf_def [of "the _"]
      intro!: put_str_wf copy_values_wf props_init_wf split: option.split)
    (auto simp: props_wf_def)

lemma remove_key_wf: "props_wf p \<Longrightarrow> props_wf (ph_props_remove_key p k)"
  by (auto simp: props_wf_def list_all_iff intro: le_trans [OF length_filter_le])

lemma find_str_from_end_cstr: "list_all prop_wf its \<Longrightarrow> find_str_from_end k its = Some s \<Longrightarrow> cstr s"
  by (induction its) (auto simp: prop_wf_def split: ph_val.splits if_splits)

lemma find_last_str_cstr: "props_wf p \<Longrightarrow> ph_props_find_last_str p k = Some s \<Longrightarrow> cstr s"
  using find_str_from_end_cstr [of "rev (p_items p)" k s] by (simp add: ph_props_find_last_str_def props_wf_def)

lemma take_type_message_ok:
  assumes "props_wf p" "ph__exception_take_type_message p = (p', type, message)"
  shows "props_wf p'" "cstr type" "cstr message"
proof -
  have r: "p' = ph_props_remove_key (ph_props_remove_key p ''$exception_type'') ''$exception_message''"
    "type = ph_copy_capped [] PH_EXCEPTION_FIELD_CAP
       (Some (case ph_props_find_last_str p ''$exception_type'' of Some v \<Rightarrow> v | None \<Rightarrow> ''Error''))"
    "message = ph_copy_capped [] PH_EXCEPTION_FIELD_CAP
       (Some (case ph_props_find_last_str p ''$exception_message'' of Some v \<Rightarrow> v | None \<Rightarrow> []))"
    using assms(2) by (simp_all add: ph__exception_take_type_message_def Let_def)
  show "props_wf p'" unfolding r(1) by (intro remove_key_wf assms(1))
  show "cstr type" "cstr message"
    unfolding r using find_last_str_cstr [OF assms(1)]
    by (auto simp: ph_copy_capped_def intro!: cstr_take split: option.split)
qed

lemma prepare_props_ok:
  assumes "exception_ok ex" "hook_ok ctx" "prepare_exception_props ctx ex = Some (p, type, message, om)"
  shows "props_wf p" "cstr type" "cstr message"
proof -
  define p0 where "p0 = apply_denylist ctx (ph__exception_prepare_base ex)"
  define p1 where "p1 = (if denylist_has ctx ''type'' then ph_props_remove_key p0 ''$exception_type'' else p0)"
  define p2 where "p2 = (if denylist_has ctx ''message'' then ph_props_remove_key p1 ''$exception_message'' else p1)"
  define p3 where "p3 = (case before_send ctx of None \<Rightarrow> p2 | Some hook \<Rightarrow> fst (hook ''$exception'' p2))"
  have "props_wf p0" using apply_denylist_wf [OF prepare_base_wf [OF assms(1)]] by (simp add: p0_def apply_denylist_def)
  then have "props_wf p2" by (simp add: p1_def p2_def remove_key_wf)
  then have p3: "props_wf p3" using assms(2) by (auto simp: p3_def hook_ok_def split: option.split)
  have "ph__exception_take_type_message p3 = (p, type, message)"
    using assms(3) unfolding prepare_exception_props_def Let_def p0_def [symmetric] p1_def [symmetric] p2_def [symmetric]
    by (auto simp: p3_def split: option.splits prod.splits if_splits)
  from take_type_message_ok [OF p3 this] show "props_wf p" "cstr type" "cstr message" by blast+
qed

lemma exception_extra_entries:
  assumes "exception_ok ex" "cstr type" "cstr message"
  shows "exception_extra ex type message om = [] \<or>
     extra_entries (Some (exception_extra ex type message om))
       [(PH_PK_RAWJSON, ''$exception_list'', ph__exception_build_list ex (Some type) (Some message) om (PH_EVENT_DATA_CAP - PH_EXCEPTION_BLOB_RESERVE))]"
proof -
  let ?v = "ph__exception_build_list ex (Some type) (Some message) om (PH_EVENT_DATA_CAP - PH_EXCEPTION_BLOB_RESERVE)"
  obtain n where n: "?v = jt_print (exception_tree ex type message om (take n (frames_of ex)))" by (rule build_list_tree)
  have raw: "rawjson_ok ?v"
    unfolding rawjson_ok_def
  proof (intro exI conjI)
    show "jt_wf (exception_tree ex type message om (take n (frames_of ex)))" by (rule exception_tree_ok(1) [OF assms])
    show "jt_depth (exception_tree ex type message om (take n (frames_of ex))) \<le> 100"
      using exception_tree_ok(2) [OF assms, of om n] by simp
    show "jt_print (exception_tree ex type message om (take n (frames_of ex))) = ?v" using n by simp
  qed
  have "exception_extra ex type message om = [] \<or> (exception_extra ex type message om = encode_entry (PH_PK_RAWJSON, ''$exception_list'', ?v)
      \<and> length ?v \<le> 0xFFFF)"
    by (auto simp: exception_extra_def ph_pack_str_entry_def pack_one_def encode_entry_def entry_size_def)
  moreover have "entry_sound (PH_PK_RAWJSON, ''$exception_list'', ?v)" if "length ?v \<le> 0xFFFF"
    using raw that by (simp add: entry_sound_def entry_wf_def entry_ok_def PH_PK_RAWJSON_def PH_PK_GROUP_def)
  ultimately show ?thesis by (auto simp: extra_entries_def)
qed

lemma submit_blob_empty_extra: "submit_blob n (Some []) props stamp ctx = submit_blob n None props stamp ctx"
  by (simp add: submit_blob_def)

lemma submit_empty_extra:
  "ph__submit_event rnd t kind fl name did props pm stamp (Some []) ctx = ph__submit_event rnd t kind fl name did props pm stamp None ctx"
proof -
  have "submit_record kind fl nm did props pm stamp (Some []) t sq c = submit_record kind fl nm did props pm stamp None t sq c" for nm sq c
    by (simp add: submit_record_def submit_blob_empty_extra)
  then show ?thesis by (simp only: ph__submit_event_def)
qed

lemma capture_exception_wf [wf_intros]:
  assumes "ctx_wf ctx" "hook_ok ctx" "pred_option exception_ok ex"
  shows "ctx_wf (fst (ph__capture_exception_flags rnd t ex fl ctx))"
proof (cases "enabled ctx \<and> ex \<noteq> None")
  case True
  then obtain x where x: "ex = Some x" "exception_ok x" using assms(3) by auto
  show ?thesis
  proof (cases "prepare_exception_props ctx x")
    case None
    then show ?thesis using True x assms(1) by (simp add: ph__capture_exception_flags_def)
  next
    case (Some r)
    obtain p type message om where r: "r = (p, type, message, om)" by (cases r)
    note ok = prepare_props_ok [OF x(2) assms(2) Some [unfolded r]]
    have "ph__capture_exception_flags rnd t ex fl ctx =
        ph__submit_event rnd t PH_EV_EXCEPTION (PH_EVF_SCRUBBED OR fl) (Some ''$exception'') None
          (Some p) (-1) True (Some (exception_extra x type message om)) ctx"
      using True x Some r by (simp add: ph__capture_exception_flags_def)
    moreover have "ctx_wf (fst (ph__submit_event rnd t PH_EV_EXCEPTION (PH_EVF_SCRUBBED OR fl) (Some ''$exception'') None
          (Some p) (-1) True (Some (exception_extra x type message om)) ctx))"
    proof (cases "exception_extra x type message om = []")
      case True
      have "submit_args_ok None (Some p) None []" using ok(1) by (simp add: submit_args_ok_def extra_entries_def)
      from submit_event_wf [OF assms(1) this] True show ?thesis by (simp add: submit_empty_extra)
    next
      case False
      with exception_extra_entries [OF x(2) ok(2,3), of om] ok(1) obtain xs
        where "submit_args_ok None (Some p) (Some (exception_extra x type message om)) xs"
        by (auto simp: submit_args_ok_def)
      from submit_event_wf [OF assms(1) this] show ?thesis .
    qed
    ultimately show ?thesis by simp
  qed
qed (use assms(1) in \<open>auto simp: ph__capture_exception_flags_def\<close>)

section \<open>Properties\<close>

lemma sanitize_exception_keys:
  "utf8_sanitize ''type'' = ''type''" "utf8_sanitize ''value'' = ''value''" "utf8_sanitize ''mechanism'' = ''mechanism''"
  "utf8_sanitize ''stacktrace'' = ''stacktrace''" "utf8_sanitize ''frames'' = ''frames''" "utf8_sanitize ''platform'' = ''platform''"
  "utf8_sanitize ''lang'' = ''lang''" "utf8_sanitize ''in_app'' = ''in_app''" "utf8_sanitize ''function'' = ''function''"
  "utf8_sanitize ''filename'' = ''filename''" "utf8_sanitize ''module'' = ''module''" "utf8_sanitize ''lineno'' = ''lineno''"
  "utf8_sanitize ''resolved'' = ''resolved''"
  by (rule sanitize_ascii, simp add: byte_val_def)+

text \<open>What a reader finds in one frame under a key that can be suppressed.\<close>

definition shown :: "bool \<Rightarrow> string option \<Rightarrow> string option" where
  "shown omit s = (if omit then None else map_option (\<lambda>s. utf8_sanitize (capped (Some s))) s)"

lemma frame_members:
  "ph_jv_str (ph_jv_get (Some (jt_read D (frame_tree om f))) ''function'') = shown (omit_function om) (sf_function f)"
  "ph_jv_str (ph_jv_get (Some (jt_read D (frame_tree om f))) ''filename'') = shown (omit_filename om) (sf_filename f)"
  "ph_jv_str (ph_jv_get (Some (jt_read D (frame_tree om f))) ''module'') = shown (omit_module om) (sf_module f)"
  by (auto simp: frame_tree_def ph_jv_get_def ph_jv_str_def shown_def sanitize_exception_keys simp del: utf8_sanitize.simps)

text \<open>
  C36. The structured payload of an exception is JSON that reads back as the exception: its type and
  message, cut at the field capacity, and an initial segment of at most 32 of its frames in order,
  each with its function, file and module unless the denylist suppresses that field.
\<close>

theorem exception_list_reads_back:
  assumes "exception_ok ex" "cstr type" "cstr message"
  shows "\<exists>n entry frs. n \<le> PH_MAX_EXCEPTION_FRAMES \<and> (omit_frames om \<longrightarrow> n = 0) \<and>
     ph_jv_parse D (ph__exception_build_list ex (Some type) (Some message) om budget) = Some (JArr [entry]) \<and>
     ph_jv_str (ph_jv_get (Some entry) ''type'') = Some (utf8_sanitize (capped (Some type))) \<and>
     ph_jv_str (ph_jv_get (Some entry) ''value'') = Some (utf8_sanitize (capped (Some message))) \<and>
     ph_jv_get (ph_jv_get (Some entry) ''stacktrace'') ''frames'' = Some (JArr frs) \<and>
     length frs = min n (length (frames_of ex)) \<and>
     (\<forall>i < length frs.
        ph_jv_str (ph_jv_get (Some (frs ! i)) ''function'') = shown (omit_function om) (sf_function (frames_of ex ! i)) \<and>
        ph_jv_str (ph_jv_get (Some (frs ! i)) ''filename'') = shown (omit_filename om) (sf_filename (frames_of ex ! i)) \<and>
        ph_jv_str (ph_jv_get (Some (frs ! i)) ''module'') = shown (omit_module om) (sf_module (frames_of ex ! i)))"
proof -
  obtain n where n: "n \<le> PH_MAX_EXCEPTION_FRAMES"
    "ph__exception_build_list ex (Some type) (Some message) om budget = jt_print (exception_tree ex type message om (take n (frames_of ex)))"
    "omit_frames om \<longrightarrow> n = 0"
    by (rule build_list_tree [of ex type message om budget]) blast
  let ?frs = "map (jt_read D) (map (frame_tree om) (take n (frames_of ex)))"
  let ?st = "JObj [(''type'', JStr (utf8_sanitize ''raw'')), (''frames'', JArr ?frs)]"
  let ?me = "jt_read D (TObj [(''handled'', TBool (ex_handled ex \<noteq> 0)), (''synthetic'', TBool (ex_synthetic ex \<noteq> 0))])"
  let ?entry = "JObj [(''type'', JStr (utf8_sanitize (capped (Some type)))), (''value'', JStr (utf8_sanitize (capped (Some message)))),
      (''mechanism'', ?me), (''stacktrace'', ?st)]"
  have rd: "jt_read D (exception_tree ex type message om (take n (frames_of ex))) = JArr [?entry]"
    by (simp add: exception_tree_def sanitize_exception_keys del: utf8_sanitize.simps)
  have "jt_depth (exception_tree ex type message om (take n (frames_of ex))) \<le> PH_JV_MAX_DEPTH"
    using exception_tree_ok(2) [OF assms, of om n] by (simp add: caps)
  from parse_printed [OF exception_tree_ok(1) [OF assms] this]
  have p: "ph_jv_parse D (ph__exception_build_list ex (Some type) (Some message) om budget) = Some (JArr [?entry])"
    unfolding n(2) rd [symmetric] .
  show ?thesis
    by (rule exI [of _ n], rule exI [of _ ?entry], rule exI [of _ ?frs])
      (use n(1,3) p in \<open>simp add: ph_jv_get_def [of "Some (JObj _)"] frame_members ph_jv_str_def del: utf8_sanitize.simps,
        simp add: frame_members [unfolded ph_jv_str_def] min_def\<close>)
qed

definition sample_exception :: ph_exception where
  "sample_exception = \<lparr>ex_type = Some ''Fault'', ex_message = Some ''bad'', ex_handled = 1, ex_synthetic = 0,
     ex_frames = Some [\<lparr>sf_function = Some ''main'', sf_filename = None, sf_module = None, sf_lineno = 7, sf_in_app = 1\<rparr>],
     ex_frame_count = 1, ex_extra = None\<rparr>"

definition show_all :: omits where
  "show_all = \<lparr>omit_function = False, omit_filename = False, omit_module = False, omit_frames = False\<rparr>"

theorem exception_list_reads_back_witness:
  "\<exists>entry. ph_jv_parse rat_dbl (ph__exception_build_list sample_exception (Some ''Fault'') (Some ''bad'') show_all 3584) = Some (JArr [entry]) \<and>
     ph_jv_str (ph_jv_get (Some entry) ''type'') = Some (utf8_sanitize (capped (Some ''Fault'')))"
proof -
  have h: "exception_ok sample_exception" "cstr ''Fault''" "cstr ''bad''"
    by (simp_all add: exception_ok_def sample_exception_def frame_ok_def)
  from exception_list_reads_back [OF h, of show_all rat_dbl 3584] show ?thesis by blast
qed

text \<open>
  C37. Without a hook, the denylist redacts an exception before its payload is built: a denylisted
  type (under its own key or as \<open>type\<close>) is reported as \<open>Error\<close> and a denylisted message as empty,
  the scalar properties carry no denylisted key and neither of the two temporary keys, and the
  frame fields named by the denylist are suppressed.
\<close>

theorem exception_redaction:
  assumes "before_send ctx = None" "prepare_exception_props ctx ex = Some (p, type, message, om)"
  shows "(''$exception_type'' \<in> set (denylist ctx) \<or> ''type'' \<in> set (denylist ctx) \<longrightarrow> type = ''Error'') \<and>
    (''$exception_message'' \<in> set (denylist ctx) \<or> ''message'' \<in> set (denylist ctx) \<longrightarrow> message = []) \<and>
    (\<forall>it \<in> set (p_items p). prop_key it \<notin> set (denylist ctx) \<and>
       prop_key it \<noteq> ''$exception_type'' \<and> prop_key it \<noteq> ''$exception_message'') \<and>
    (''function'' \<in> set (denylist ctx) \<longrightarrow> omit_function om) \<and> (''filename'' \<in> set (denylist ctx) \<longrightarrow> omit_filename om) \<and>
    (''module'' \<in> set (denylist ctx) \<longrightarrow> omit_module om) \<and> (''frames'' \<in> set (denylist ctx) \<longrightarrow> omit_frames om)"
proof -
  have none: "ph_props_find_last_str q k = None" if "\<And>it. it \<in> set (p_items q) \<Longrightarrow> prop_key it \<noteq> k" for q k
  proof -
    have "find_str_from_end k its = None" if "\<forall>it \<in> set its. prop_key it \<noteq> k" for its
      using that by (induction its) (auto split: ph_val.split)
    with that show ?thesis by (simp add: ph_props_find_last_str_def)
  qed
  define p0 where "p0 = apply_denylist ctx (ph__exception_prepare_base ex)"
  define p1 where "p1 = (if denylist_has ctx ''type'' then ph_props_remove_key p0 ''$exception_type'' else p0)"
  define p2 where "p2 = (if denylist_has ctx ''message'' then ph_props_remove_key p1 ''$exception_message'' else p1)"
  have "ph__exception_take_type_message p2 = (p, type, message)" "om = exception_omits ctx"
    using assms(2) unfolding prepare_exception_props_def Let_def p0_def [symmetric] p1_def [symmetric] p2_def [symmetric] assms(1)
    by (auto split: prod.splits)
  then have r: "p = ph_props_remove_key (ph_props_remove_key p2 ''$exception_type'') ''$exception_message''"
    "type = ph_copy_capped [] PH_EXCEPTION_FIELD_CAP
       (Some (case ph_props_find_last_str p2 ''$exception_type'' of Some v \<Rightarrow> v | None \<Rightarrow> ''Error''))"
    "message = ph_copy_capped [] PH_EXCEPTION_FIELD_CAP
       (Some (case ph_props_find_last_str p2 ''$exception_message'' of Some v \<Rightarrow> v | None \<Rightarrow> []))"
    "om = exception_omits ctx"
    by (simp_all add: ph__exception_take_type_message_def Let_def)
  have k0: "prop_key it \<notin> set (denylist ctx)" if "it \<in> set (p_items p0)" for it
    using that by (simp add: p0_def apply_denylist_def apply_denylist_items)
  have k2: "it \<in> set (p_items p0) \<and> (''type'' \<in> set (denylist ctx) \<longrightarrow> prop_key it \<noteq> ''$exception_type'') \<and>
      (''message'' \<in> set (denylist ctx) \<longrightarrow> prop_key it \<noteq> ''$exception_message'')" if "it \<in> set (p_items p2)" for it
    using that by (auto simp: p1_def p2_def denylist_has_def ph_denylist_has_def split: if_splits)
  have ty: "type = ''Error''" if "''$exception_type'' \<in> set (denylist ctx) \<or> ''type'' \<in> set (denylist ctx)"
  proof -
    have "ph_props_find_last_str p2 ''$exception_type'' = None" by (rule none) (use k0 k2 that in fastforce)
    then show ?thesis unfolding r(2) by (simp add: ph_copy_capped_def caps)
  qed
  have me: "message = []" if "''$exception_message'' \<in> set (denylist ctx) \<or> ''message'' \<in> set (denylist ctx)"
  proof -
    have "ph_props_find_last_str p2 ''$exception_message'' = None" by (rule none) (use k0 k2 that in fastforce)
    then show ?thesis unfolding r(3) by (simp add: ph_copy_capped_def caps)
  qed
  have "\<forall>it \<in> set (p_items p). prop_key it \<notin> set (denylist ctx) \<and>
       prop_key it \<noteq> ''$exception_type'' \<and> prop_key it \<noteq> ''$exception_message''"
    unfolding r(1) using k0 k2 by simp
  with ty me r(4) show ?thesis by (simp add: exception_omits_def denylist_has_def ph_denylist_has_def)
qed

theorem exception_redaction_witness:
  "\<exists>p message om. prepare_exception_props (zero_ctx\<lparr>denylist := [''type'']\<rparr>) sample_exception = Some (p, ''Error'', message, om)"
proof -
  let ?c = "zero_ctx\<lparr>denylist := [''type'']\<rparr>"
  have b: "before_send ?c = None" by (simp add: zero_ctx_def)
  obtain p type message om where r: "prepare_exception_props ?c sample_exception = Some (p, type, message, om)"
    by (cases "prepare_exception_props ?c sample_exception")
      (auto simp: prepare_exception_props_def Let_def zero_ctx_def split: prod.splits)
  from exception_redaction [OF b r] have "type = ''Error''" by simp
  with r show ?thesis by blast
qed

section \<open>A payload that is lost whole\<close>

text \<open>
  The reserve kept free for the last frame is smaller than a frame can be. With three frames whose
  fields need escaping, the list outgrows the buffer it is packed into and the event carries no
  list at all; with two of them it is kept.
\<close>

definition escape_frame :: ph_stackframe where
  "escape_frame = \<lparr>sf_function = Some (replicate 95 (CHR 0x01)), sf_filename = Some (replicate 95 (CHR 0x01)),
     sf_module = Some (replicate 20 (CHR 0x01)), sf_lineno = 0, sf_in_app = 1\<rparr>"

definition escape_exception :: "nat \<Rightarrow> ph_exception" where
  "escape_exception n = sample_exception\<lparr>ex_frames := Some (replicate n escape_frame), ex_frame_count := int n\<rparr>"

lemma control_text: "length (ph_json_str (replicate n (CHR 0x01))) = 6 * n + 2"
proof -
  have "length (json_chars (replicate n (CHR 0x01))) = 6 * n"
    by (induction n) (simp_all add: json_escape_def byte_val_def)
  then show ?thesis by (simp add: ph_json_str_def)
qed

lemma show_all_frames: "\<not> omit_frames show_all" by (simp add: show_all_def)

lemma escape_frame_length: "length (frame_text show_all escape_frame) = 1364"
  by (simp add: frame_text_def escape_frame_def show_all_def ph__exception_json_cstr_def ph_json_bool_def caps control_text)

lemma short_text: "ph_json_str ''Fault'' = ''\"Fault\"''" "ph_json_str ''bad'' = ''\"bad\"''"
  by (simp_all add: json_str_plain plain_char_def byte_val_def)

lemma escape_list_length:
  "length (ph__exception_build_list (escape_exception n) (Some ''Fault'') (Some ''bad'') show_all 3584) =
     (if n = 2 then 2848 else 4213)" if "n = 2 \<or> n = 3"
  using that
  by (auto simp: ph__exception_build_list_def escape_exception_def sample_exception_def clamp_frame_count_def numeral_2_eq_2
      numeral_3_eq_3 ph__exception_json_cstr_def ph_json_bool_def caps short_text escape_frame_length show_all_frames)

lemma exception_list_lost:
  "exception_extra (escape_exception 3) ''Fault'' ''bad'' show_all = [] \<and>
   exception_extra (escape_exception 2) ''Fault'' ''bad'' show_all \<noteq> []"
  using escape_list_length [of 2] escape_list_length [of 3]
  by (simp add: exception_extra_def ph_pack_str_entry_def pack_one_def encode_entry_def entry_size_def caps)

end
