(* ===== verification/Ph_Crash.thy ===== *)
theory Ph_Crash
  imports Ph_Exception
begin

text \<open>
  The in-process crash path of \<^verbatim>\<open>src/ph_crash.c\<close>: the record codec, the snapshot and publication
  done by the POSIX signal handler, the replay on the next run, and arming and disarming.

  The loader, \<open>backtrace\<close> and the file system calls are the operating system's: what they answer
  is an argument of the definitions. Signal numbers are those of Linux; the Windows and
  unsupported branches of the file are not modelled. A file is its content, \<open>fopen\<close> succeeds on
  every file that exists, and so does \<open>remove\<close>.
\<close>

section \<open>Data\<close>

definition PH_CRASH_MAX_FRAMES :: nat where [caps]: "PH_CRASH_MAX_FRAMES = 64"
definition PH_CRASH_MAX_MODULES :: nat where [caps]: "PH_CRASH_MAX_MODULES = 16"
definition PH_CRASH_MODULE_NAME_CAP :: nat where [caps]: "PH_CRASH_MODULE_NAME_CAP = 64"

definition PH_CRASH_RECORD_MAX :: nat where
  "PH_CRASH_RECORD_MAX = 20 + PH_CRASH_MAX_MODULES * (2 + PH_CRASH_MODULE_NAME_CAP) + 2 + PH_CRASH_MAX_FRAMES * (2 + 8)"

text \<open>
  \<open>modules[i]\<close> is the content of its 64-byte array up to the first NUL, all 64 bytes when there is
  none. \<open>sig\<close> and the frame indices are 32-bit \<open>int\<close>s.
\<close>

record ph_crash_info =
  ci_sig :: u32
  ci_fault_addr :: u64
  ci_module_count :: int
  ci_modules :: "string list"
  ci_frame_count :: int
  ci_frame_module :: "int list"
  ci_frame_off :: "u64 list"

section \<open>Codec\<close>

definition CRASH_MAGIC :: bytes where "CRASH_MAGIC = ''PHCR''"
definition CRASH_VERSION :: u16 where "CRASH_VERSION = 2"

definition put_u16 :: "u16 \<Rightarrow> bytes" where
  "put_u16 v = [byte_of (unat v), byte_of (unat (drop_bit 8 v))]"

definition put_u32 :: "u32 \<Rightarrow> bytes" where
  "put_u32 v = map (\<lambda>i. byte_of (unat (drop_bit (8 * i) v))) [0..<4]"

definition put_u64 :: "u64 \<Rightarrow> bytes" where
  "put_u64 v = map (\<lambda>i. byte_of (unat (drop_bit (8 * i) v))) [0..<8]"

definition get_u16 :: "bytes \<Rightarrow> u16" where
  "get_u16 p = of_nat (byte_val (p ! 0)) OR push_bit 8 (of_nat (byte_val (p ! 1)))"

definition get_u32 :: "bytes \<Rightarrow> u32" where
  "get_u32 p = of_nat (byte_val (p ! 0)) OR push_bit 8 (of_nat (byte_val (p ! 1))) OR
     push_bit 16 (of_nat (byte_val (p ! 2))) OR push_bit 24 (of_nat (byte_val (p ! 3)))"

definition get_u64 :: "bytes \<Rightarrow> u64" where
  "get_u64 p = foldl (\<lambda>v i. v OR push_bit (8 * i) (of_nat (byte_val (p ! i)))) 0 [0..<8]"

definition clamp_count :: "int \<Rightarrow> nat \<Rightarrow> nat" where
  "clamp_count n hi = (let n = (if n < 0 then 0 else n) in if int hi < n then hi else nat n)"

definition module_entry :: "string \<Rightarrow> bytes" where
  "module_entry s =
     (let n = bounded_len PH_CRASH_MODULE_NAME_CAP s in put_u16 (of_nat n) @ take n s)"

definition frame_entry :: "int \<Rightarrow> u64 \<Rightarrow> bytes" where
  "frame_entry mi off = put_u16 (if mi < 0 then 0xFFFF else of_int mi) @ put_u64 off"

text \<open>The empty list is the return value 0.\<close>

definition ph_crash_encode :: "ph_crash_info \<Rightarrow> nat \<Rightarrow> bytes" where
  "ph_crash_encode ci cap =
     (let mc = clamp_count (ci_module_count ci) PH_CRASH_MAX_MODULES;
          fc = clamp_count (ci_frame_count ci) PH_CRASH_MAX_FRAMES;
          ms = take mc (ci_modules ci);
          need = 20 + sum_list (map (\<lambda>s. 2 + bounded_len PH_CRASH_MODULE_NAME_CAP s) ms) + (2 + fc * (2 + 8))
      in if cap < need then []
         else CRASH_MAGIC @ put_u16 CRASH_VERSION @ put_u32 (ci_sig ci) @ put_u64 (ci_fault_addr ci) @
              put_u16 (of_nat mc) @ concat (map module_entry ms) @ put_u16 (of_nat fc) @
              concat (map2 frame_entry (take fc (ci_frame_module ci)) (take fc (ci_frame_off ci))))"

text \<open>
  Both loops of the decoder consume the record from the front: \<open>p\<close> is the rest of it, and
  \<open>o + n > len\<close> is \<open>length p < n\<close>.
\<close>

fun decode_modules :: "nat \<Rightarrow> bytes \<Rightarrow> (string list \<times> bytes) option" where
  "decode_modules 0 p = Some ([], p)"
| "decode_modules (Suc n) p =
     (if length p < 2 then None
      else let nl = unat (get_u16 p); p = drop 2 p
           in if PH_CRASH_MODULE_NAME_CAP \<le> nl \<or> length p < nl then None
              else case decode_modules n (drop nl p) of None \<Rightarrow> None
                   | Some (ms, r) \<Rightarrow> Some (cstr_view (take nl p) # ms, r))"

fun decode_frames :: "u16 \<Rightarrow> nat \<Rightarrow> bytes \<Rightarrow> (int \<times> u64) list" where
  "decode_frames mc 0 p = []"
| "decode_frames mc (Suc n) p =
     (let mi = get_u16 p; p = drop 2 p
      in (if mi = 0xFFFF \<or> mc \<le> mi then -1 else int (unat mi), get_u64 p) # decode_frames mc n (drop 8 p))"

definition ph_crash_decode :: "bytes \<Rightarrow> ph_crash_info option" where
  "ph_crash_decode p =
     (if length p < 20 \<or> take 4 p \<noteq> CRASH_MAGIC then None
      else if get_u16 (drop 4 p) \<noteq> CRASH_VERSION then None
      else let sig = get_u32 (drop 6 p); fault = get_u64 (drop 10 p); mc = get_u16 (drop 18 p)
           in if PH_CRASH_MAX_MODULES < unat mc then None
              else case decode_modules (unat mc) (drop 20 p) of None \<Rightarrow> None
              | Some (ms, r) \<Rightarrow>
                  if length r < 2 then None
                  else let fc = unat (get_u16 r); r = drop 2 r
                       in if PH_CRASH_MAX_FRAMES < fc then None
                          else if length r < fc * (2 + 8) then None
                          else let fs = decode_frames mc fc r
                               in Some \<lparr>ci_sig = sig, ci_fault_addr = fault, ci_module_count = int (unat mc), ci_modules = ms,
                                    ci_frame_count = int fc, ci_frame_module = map fst fs, ci_frame_off = map snd fs\<rparr>)"

text \<open>The fault names; the POSIX numbers are those of Linux.\<close>

definition ph_crash_signal_name :: "u32 \<Rightarrow> string" where
  "ph_crash_signal_name sig =
     (if sig = 0xC0000005 then ''EXCEPTION_ACCESS_VIOLATION''
      else if sig = 0xC000001D then ''EXCEPTION_ILLEGAL_INSTRUCTION''
      else if sig = 0xC0000094 then ''EXCEPTION_INT_DIVIDE_BY_ZERO''
      else if sig = 0xC00000FD then ''EXCEPTION_STACK_OVERFLOW''
      else if sig = 0xC0000096 then ''EXCEPTION_PRIV_INSTRUCTION''
      else if sig = 0xC000008C then ''EXCEPTION_ARRAY_BOUNDS_EXCEEDED''
      else if sig = 0xC0000374 then ''EXCEPTION_HEAP_CORRUPTION''
      else if sig = 0x80000003 then ''EXCEPTION_BREAKPOINT''
      else if sig = 11 then ''SIGSEGV''
      else if sig = 6 then ''SIGABRT''
      else if sig = 7 then ''SIGBUS''
      else if sig = 8 then ''SIGFPE''
      else if sig = 4 then ''SIGILL''
      else if sig = 5 then ''SIGTRAP''
      else ''SIGNAL'')"

section \<open>Snapshot of the stack\<close>

text \<open>
  \<open>dladdr\<close> is the loader's answer for an address: the base of the object that holds it (0 for a
  NULL base) and its path. The path scan keeps what follows the last separator.
\<close>

fun basename_from :: "string \<Rightarrow> string \<Rightarrow> string" where
  "basename_from b [] = b"
| "basename_from b (c # cs) = basename_from (if c = CHR ''/'' \<or> c = CHR 0x5C then cs else b) cs"

definition addr_module :: "(u64 \<Rightarrow> (u64 \<times> string option) option) \<Rightarrow> u64 \<Rightarrow> nat \<Rightarrow> (string \<times> u64) option" where
  "addr_module dladdr addr cap =
     (case dladdr addr of None \<Rightarrow> None
      | Some (base, fname) \<Rightarrow>
          if base = 0 then None
          else Some (case fname of None \<Rightarrow> [] | Some s \<Rightarrow> take (cap - 1) (basename_from s s), base))"

fun module_index :: "string \<Rightarrow> string list \<Rightarrow> nat option" where
  "module_index name [] = None"
| "module_index name (m # ms) = (if m = name then Some 0 else map_option Suc (module_index name ms))"

text \<open>One address: the module table after it, the frame's index and the module base.\<close>

definition frame_module_of ::
  "(u64 \<Rightarrow> (u64 \<times> string option) option) \<Rightarrow> u64 \<Rightarrow> string list \<Rightarrow> string list \<times> int \<times> u64" where
  "frame_module_of dladdr pc ms =
     (case addr_module dladdr pc PH_CRASH_MODULE_NAME_CAP of
        None \<Rightarrow> (ms, -1, 0)
      | Some (name, base) \<Rightarrow>
          if name = [] then (ms, -1, base)
          else case module_index name ms of
              Some m \<Rightarrow> (ms, int m, base)
            | None \<Rightarrow> if length ms < PH_CRASH_MAX_MODULES
                      then (ms @ [take (PH_CRASH_MODULE_NAME_CAP - 1) name], int (length ms), base)
                      else (ms, -1, base))"

fun fill_frames_loop ::
  "(u64 \<Rightarrow> (u64 \<times> string option) option) \<Rightarrow> u64 list \<Rightarrow> string list \<Rightarrow> (int \<times> u64) list \<Rightarrow> string list \<times> (int \<times> u64) list" where
  "fill_frames_loop dladdr [] ms fs = (ms, fs)"
| "fill_frames_loop dladdr (pc # pcs) ms fs =
     (if \<not> length fs < PH_CRASH_MAX_FRAMES then (ms, fs)
      else let (ms', idx, base) = frame_module_of dladdr pc ms
           in fill_frames_loop dladdr pcs ms' (fs @ [(idx, if 0 \<le> idx then pc - base else pc)]))"

definition fill_frames :: "(u64 \<Rightarrow> (u64 \<times> string option) option) \<Rightarrow> u64 list \<Rightarrow> ph_crash_info \<Rightarrow> ph_crash_info" where
  "fill_frames dladdr pcs ci =
     (let (ms, fs) = fill_frames_loop dladdr pcs [] []
      in ci\<lparr>ci_module_count := int (length ms), ci_modules := ms, ci_frame_count := int (length fs),
           ci_frame_module := map fst fs, ci_frame_off := map snd fs\<rparr>)"

section \<open>Facts: the codec\<close>

lemma le_val_take_Suc: "n < length p \<Longrightarrow> le_val (take (Suc n) p) = le_val (take n p) + 256 ^ n * byte_val (p ! n)"
proof (induction p arbitrary: n)
  case (Cons b p)
  then show ?case by (cases n) (simp_all add: algebra_simps)
qed simp

lemma word_or_high:
  assumes "v < 2 ^ k"
  shows "(of_nat v :: 'a::len word) OR push_bit k (of_nat b) = of_nat (v + 2 ^ k * b)"
proof -
  have "v + 2 ^ k * b = push_bit k b OR v" using nat_or_push_bit [OF assms, of b] by (simp add: push_bit_eq_mult mult.commute)
  moreover have "(of_nat (push_bit k b OR v) :: 'a word) = push_bit k (of_nat b) OR of_nat v"
    by (rule bit_word_eqI) (auto simp: bit_of_nat_iff bit_or_iff bit_push_bit_iff)
  ultimately show ?thesis by (simp add: or.commute)
qed

lemma get_fold:
  "n \<le> length p \<Longrightarrow> foldl (\<lambda>v i. v OR push_bit (8 * i) (of_nat (byte_val (p ! i)))) (0 :: 'a::len word) [0..<n] = of_nat (le_val (take n p))"
proof (induction n)
  case (Suc n)
  have "le_val (take n p) < 2 ^ (8 * n)" using le_val_less [of "take n p"] Suc.prems by (simp add: min_def power_mult)
  from word_or_high [OF this, of "byte_val (p ! n)"] Suc show ?case
    by (simp add: le_val_take_Suc power_mult del: take_Suc)
qed simp

lemma get_le:
  "2 \<le> length p \<Longrightarrow> get_u16 p = of_nat (le_val (take 2 p))"
  "4 \<le> length q \<Longrightarrow> get_u32 q = of_nat (le_val (take 4 q))"
  "8 \<le> length r \<Longrightarrow> get_u64 r = of_nat (le_val (take 8 r))"
proof -
  have u: "[0..<2] = [0, 1]" "[0..<4] = [0, 1, 2, 3]" by (simp_all add: upt_rec)
  show "2 \<le> length p \<Longrightarrow> get_u16 p = of_nat (le_val (take 2 p))" 
    using get_fold [of 2 p, where ?'a = 16] by (simp add: get_u16_def u)
  show "4 \<le> length q \<Longrightarrow> get_u32 q = of_nat (le_val (take 4 q))" 
    using get_fold [of 4 q, where ?'a = 32] by (simp add: get_u32_def u or.assoc)
  show "8 \<le> length r \<Longrightarrow> get_u64 r = of_nat (le_val (take 8 r))" 
    using get_fold [of 8 r, where ?'a = 64] by (simp add: get_u64_def)
qed

lemma unat_drop_byte: "unat (drop_bit (8 * i) (v :: 'a::len word)) = unat v div 256 ^ i"
  unfolding unat_drop_bit_eq by (simp add: drop_bit_eq_div power_mult)

lemma put_le: "put_u16 a = le_bytes 2 (unat a)" "put_u32 b = le_bytes 4 (unat b)" "put_u64 c = le_bytes 8 (unat c)"
proof -
  have "[0..<2] = [0, 1]" by (simp add: upt_rec)
  then show "put_u16 a = le_bytes 2 (unat a)"
    using unat_drop_byte [of 1 a] by (simp add: put_u16_def le_bytes_def)
  show "put_u32 b = le_bytes 4 (unat b)" "put_u64 c = le_bytes 8 (unat c)"
    by (simp_all only: put_u32_def put_u64_def le_bytes_def unat_drop_byte)
qed

lemma put_lengths [simp]: "length (put_u16 a) = 2" "length (put_u32 b) = 4" "length (put_u64 c) = 8"
  by (simp_all add: put_le)

lemma get_put [simp]: "get_u16 (put_u16 a @ r) = a" "get_u32 (put_u32 b @ r) = b" "get_u64 (put_u64 c @ r) = c"
proof -
  have "unat a < 256 ^ 2" "unat b < 256 ^ 4" "unat c < 256 ^ 8"
    using unsigned_less [of a, where ?'a = nat] unsigned_less [of b, where ?'a = nat] unsigned_less [of c, where ?'a = nat] by simp_all
  then show "get_u16 (put_u16 a @ r) = a" "get_u32 (put_u32 b @ r) = b" "get_u64 (put_u64 c @ r) = c"
    by (simp_all add: get_le put_le le_val_le_bytes)
qed

lemma drop_put [simp]: "drop 2 (put_u16 a @ r) = r" "drop 4 (put_u32 b @ r) = r" "drop 8 (put_u64 c @ r) = r"
  by simp_all

definition crash_info_ok :: "ph_crash_info \<Rightarrow> bool" where
  "crash_info_ok ci \<longleftrightarrow>
     ci_module_count ci = int (length (ci_modules ci)) \<and> length (ci_modules ci) \<le> PH_CRASH_MAX_MODULES \<and>
     (\<forall>s \<in> set (ci_modules ci). cstr s \<and> length s < PH_CRASH_MODULE_NAME_CAP) \<and>
     ci_frame_count ci = int (length (ci_frame_module ci)) \<and> length (ci_frame_module ci) \<le> PH_CRASH_MAX_FRAMES \<and>
     length (ci_frame_off ci) = length (ci_frame_module ci) \<and>
     (\<forall>i \<in> set (ci_frame_module ci). -1 \<le> i \<and> i < ci_module_count ci)"

lemma bounded_len_short: "cstr s \<Longrightarrow> length s < n \<Longrightarrow> bounded_len n s = length s"
  by (induction n s rule: bounded_len.induct) auto

lemma module_entry_ok: "cstr s \<Longrightarrow> length s < PH_CRASH_MODULE_NAME_CAP \<Longrightarrow> module_entry s = put_u16 (of_nat (length s)) @ s"
  by (simp add: module_entry_def bounded_len_short)

lemma decode_encode_modules:
  assumes "\<forall>s \<in> set ms. cstr s \<and> length s < PH_CRASH_MODULE_NAME_CAP"
  shows "decode_modules (length ms) (concat (map module_entry ms) @ r) = Some (ms, r)"
  using assms
proof (induction ms)
  case (Cons s ms)
  then have s: "cstr s" "length s < 64" by (simp_all add: caps)
  then have "unat (of_nat (length s) :: u16) = length s" by (simp add: unat_of_nat)
  with Cons s show ?case by (simp add: module_entry_ok Let_def caps)
qed simp

lemma decode_encode_frames:
  assumes "length offs = length mis" "mc < 0xFFFF" "\<forall>i \<in> set mis. -1 \<le> i \<and> i < int mc"
  shows "decode_frames (of_nat mc) (length mis) (concat (map2 frame_entry mis offs) @ r) = zip mis offs"
  using assms
proof (induction mis arbitrary: offs)
  case (Cons i mis)
  then obtain f offs' where o: "offs = f # offs'" by (cases offs) auto
  have mc: "unat (of_nat mc :: u16) = mc" using Cons.prems(2) by (simp add: unat_of_nat)
  have i: "(if (if i < 0 then 0xFFFF else of_int i :: u16) = 0xFFFF \<or> of_nat mc \<le> (if i < 0 then 0xFFFF else of_int i :: u16) then -1
      else int (unat (if i < 0 then 0xFFFF else of_int i :: u16))) = i"
  proof (cases "i < 0")
    case False
    then obtain k where k: "i = int k" "k < mc" using Cons.prems(3) by (metis list.set_intros(1) not_less of_nat_less_iff zero_le_imp_eq_int)
    then have u: "unat (of_nat k :: u16) = k" using Cons.prems(2) by (simp add: unat_of_nat)
    then have "\<not> (of_nat mc :: u16) \<le> of_nat k" using mc k by (simp add: word_le_nat_alt)
    moreover have "(of_nat k :: u16) \<noteq> 0xFFFF" using u k(2) Cons.prems(2) by auto
    ultimately show ?thesis using k u by simp
  qed (use Cons.prems(3) in auto)
  show ?case using Cons o i by (simp add: frame_entry_def Let_def)
qed simp


lemma encode_size: "length (concat (map2 frame_entry mis offs)) = 10 * min (length mis) (length offs)"
  by (induction mis offs rule: list_induct2') (simp_all add: frame_entry_def)

lemma module_entry_length: "length (module_entry s) = 2 + bounded_len PH_CRASH_MODULE_NAME_CAP s"
  using bounded_len_le(2) [of PH_CRASH_MODULE_NAME_CAP s] by (simp add: module_entry_def Let_def min_absorb2)

lemma modules_size: "length ms \<le> k \<Longrightarrow>
  sum_list (map (\<lambda>s. 2 + bounded_len PH_CRASH_MODULE_NAME_CAP s) ms) \<le> k * (2 + PH_CRASH_MODULE_NAME_CAP)"
proof (induction ms arbitrary: k)
  case (Cons s ms)
  then obtain j where "k = Suc j" "length ms \<le> j" by (cases k) auto
  with Cons.IH [of j] bounded_len_le(1) [of PH_CRASH_MODULE_NAME_CAP s] show ?case by simp
qed simp

lemma clamp_count_id: "n \<le> hi \<Longrightarrow> clamp_count (int n) hi = n"
  by (simp add: clamp_count_def)

lemma encode_ok:
  assumes "crash_info_ok ci" "PH_CRASH_RECORD_MAX \<le> cap"
  shows "ph_crash_encode ci cap = CRASH_MAGIC @ put_u16 CRASH_VERSION @ put_u32 (ci_sig ci) @ put_u64 (ci_fault_addr ci) @
     put_u16 (of_nat (length (ci_modules ci))) @ concat (map module_entry (ci_modules ci)) @
     put_u16 (of_nat (length (ci_frame_module ci))) @ concat (map2 frame_entry (ci_frame_module ci) (ci_frame_off ci))"
proof -
  have ok: "ci_module_count ci = int (length (ci_modules ci))" "length (ci_modules ci) \<le> PH_CRASH_MAX_MODULES"
    "ci_frame_count ci = int (length (ci_frame_module ci))" "length (ci_frame_module ci) \<le> PH_CRASH_MAX_FRAMES"
    "length (ci_frame_off ci) = length (ci_frame_module ci)"
    using assms(1) by (simp_all add: crash_info_ok_def)
  have "sum_list (map (\<lambda>s. 2 + bounded_len PH_CRASH_MODULE_NAME_CAP s) (ci_modules ci)) \<le> 16 * 66"
    using modules_size [OF ok(2)] by (simp add: caps)
  then show ?thesis
    using ok assms(2) by (simp add: ph_crash_encode_def clamp_count_id Let_def PH_CRASH_RECORD_MAX_def caps)
qed

lemma decode_encode:
  assumes "crash_info_ok ci" "PH_CRASH_RECORD_MAX \<le> cap"
  shows "ph_crash_decode (ph_crash_encode ci cap) = Some ci"
proof -
  let ?m = "length (ci_modules ci)" let ?f = "length (ci_frame_module ci)"
  let ?fr = "concat (map2 frame_entry (ci_frame_module ci) (ci_frame_off ci))"
  let ?r = "put_u16 (of_nat ?f) @ ?fr"
  let ?mr = "concat (map module_entry (ci_modules ci)) @ ?r"
  have ok: "ci_module_count ci = int ?m" "?m \<le> 16" "ci_frame_count ci = int ?f" "?f \<le> 64" "length (ci_frame_off ci) = ?f"
    "\<forall>i \<in> set (ci_frame_module ci). -1 \<le> i \<and> i < int ?m" "\<forall>s \<in> set (ci_modules ci). cstr s \<and> length s < PH_CRASH_MODULE_NAME_CAP"
    using assms(1) unfolding crash_info_ok_def caps by fastforce+
  have u: "unat (of_nat ?m :: u16) = ?m" "unat (of_nat ?f :: u16) = ?f" using ok(2,4) by (simp_all add: unat_of_nat)
  let ?e = "ph_crash_encode ci cap"
  have d: "take 4 ?e = CRASH_MAGIC" "drop 4 ?e = put_u16 CRASH_VERSION @ put_u32 (ci_sig ci) @ put_u64 (ci_fault_addr ci) @ put_u16 (of_nat ?m) @ ?mr"
    "drop 6 ?e = put_u32 (ci_sig ci) @ put_u64 (ci_fault_addr ci) @ put_u16 (of_nat ?m) @ ?mr"
    "drop 10 ?e = put_u64 (ci_fault_addr ci) @ put_u16 (of_nat ?m) @ ?mr" "drop 18 ?e = put_u16 (of_nat ?m) @ ?mr" "drop 20 ?e = ?mr" "20 \<le> length ?e"
    unfolding encode_ok [OF assms] by (simp_all add: CRASH_MAGIC_def)
  have md: "decode_modules ?m ?mr = Some (ci_modules ci, ?r)" by (rule decode_encode_modules [OF ok(7)])
  have fd: "decode_frames (of_nat ?m) ?f ?fr = zip (ci_frame_module ci) (ci_frame_off ci)"
    using decode_encode_frames [of "ci_frame_off ci" "ci_frame_module ci" ?m "[]"] ok by simp
  have "\<not> length ?fr < ?f * (2 + 8)" using ok(5) by (simp add: encode_size)
  then show ?thesis
    unfolding ph_crash_decode_def d get_put drop_put using ok d(7) fd u md
    by (simp add: caps Let_def)
qed

lemma decode_modules_ok:
  "decode_modules n p = Some (ms, r) \<Longrightarrow>
     length ms = n \<and> (\<forall>s \<in> set ms. cstr s \<and> length s < PH_CRASH_MODULE_NAME_CAP)"
proof (induction n arbitrary: p ms r)
  case (Suc n)
  then obtain ms' where "decode_modules n (drop (unat (get_u16 p)) (drop 2 p)) = Some (ms', r)"
    "ms = cstr_view (take (unat (get_u16 p)) (drop 2 p)) # ms'" "unat (get_u16 p) < PH_CRASH_MODULE_NAME_CAP"
    by (auto simp: Let_def split: if_splits option.splits)
  with Suc.IH show ?case
    using length_cstr_view_le [of "take (unat (get_u16 p)) (drop 2 p)"] by fastforce
qed simp

lemma decode_frames_ok:
  "length (decode_frames mc n p) = n \<and> (\<forall>(i, _) \<in> set (decode_frames mc n p). -1 \<le> i \<and> i < int (unat mc))"
proof (induction mc n p rule: decode_frames.induct)
  case (2 mc n p)
  have "-1 \<le> (if get_u16 p = 0xFFFF \<or> mc \<le> get_u16 p then -1 else int (unat (get_u16 p)))"
    by (simp del: of_nat_unat)
  moreover have "(if get_u16 p = 0xFFFF \<or> mc \<le> get_u16 p then -1 else int (unat (get_u16 p))) < int (unat mc)"
    by (auto simp: word_le_nat_alt simp del: of_nat_unat)
  ultimately show ?case using 2 by (simp add: Let_def del: of_nat_unat)
qed simp

lemma decode_ok: "ph_crash_decode p = Some ci \<Longrightarrow> crash_info_ok ci"
proof -
  assume a: "ph_crash_decode p = Some ci"
  define mc where "mc = get_u16 (drop 18 p)"
  from a obtain ms r where m: "decode_modules (unat mc) (drop 20 p) = Some (ms, r)" "unat mc \<le> PH_CRASH_MAX_MODULES"
    by (auto simp: ph_crash_decode_def Let_def mc_def split: if_splits option.splits)
  define fs where "fs = decode_frames mc (unat (get_u16 r)) (drop 2 r)"
  have c: "unat (get_u16 r) \<le> PH_CRASH_MAX_FRAMES" "ci_module_count ci = int (unat mc)" "ci_modules ci = ms"
    "ci_frame_count ci = int (unat (get_u16 r))" "ci_frame_module ci = map fst fs" "ci_frame_off ci = map snd fs"
    using a m by (auto simp: ph_crash_decode_def Let_def mc_def [symmetric] fs_def split: if_splits)
  show ?thesis using c m(2) decode_modules_ok [OF m(1)] decode_frames_ok [of mc "unat (get_u16 r)" "drop 2 r"]
    by (auto simp: crash_info_ok_def fs_def [symmetric])
qed

section \<open>Files\<close>

text \<open>The file system as far as the library sees it: the content of each file that exists.\<close>

type_synonym files = "string \<Rightarrow> bytes option"

definition PH_CRASH_FILENAME :: string where "PH_CRASH_FILENAME = ''ph-crash.bin''"

definition crash_path :: "string \<Rightarrow> string" where
  "crash_path dir = snprintf_trunc (PH_PATH_CAP + 32) (dir @ ''/'' @ PH_CRASH_FILENAME)"

definition dir_given :: "string option \<Rightarrow> bool" where
  "dir_given dir \<longleftrightarrow> dir \<noteq> None \<and> dir \<noteq> Some []"

definition discard_crash_record :: "string option \<Rightarrow> files \<Rightarrow> files" where
  "discard_crash_record dir fs = (if \<not> dir_given dir then fs else fs(crash_path (the dir) := None))"

definition ph_signal_crash_handoff_complete :: "string option \<Rightarrow> files \<Rightarrow> files" where
  "ph_signal_crash_handoff_complete dir fs = (if \<not> dir_given dir then fs else fs(crash_path (the dir) := None))"

section \<open>Replay\<close>

definition hex64 :: "u64 \<Rightarrow> string" where
  "hex64 a = ''0x'' @ pad0 16 (nat_hex (unat a))"

definition crash_message :: "ph_crash_info \<Rightarrow> string" where
  "crash_message ci = snprintf_trunc PH_EXCEPTION_FIELD_CAP (ph_crash_signal_name (ci_sig ci) @ '' at '' @ hex64 (ci_fault_addr ci))"

definition crash_frame :: "string list \<Rightarrow> int \<times> u64 \<Rightarrow> ph_stackframe" where
  "crash_frame ms = (\<lambda>(mi, off).
     \<lparr>sf_function = Some (snprintf_trunc 24 (''0x'' @ nat_hex (unat off))), sf_filename = None,
      sf_module = (if 0 \<le> mi then Some (ms ! nat mi) else None), sf_lineno = 0, sf_in_app = 1\<rparr>)"

definition crash_exception :: "ph_crash_info \<Rightarrow> ph_exception" where
  "crash_exception ci =
     (let nf = (if int PH_MAX_EXCEPTION_FRAMES < ci_frame_count ci then int PH_MAX_EXCEPTION_FRAMES else ci_frame_count ci)
      in \<lparr>ex_type = Some (ph_crash_signal_name (ci_sig ci)), ex_message = Some (crash_message ci), ex_handled = 0, ex_synthetic = 0,
          ex_frames = Some (map (crash_frame (ci_modules ci)) (take (nat nf) (zip (ci_frame_module ci) (ci_frame_off ci)))),
          ex_frame_count = nf,
          ex_extra = Some (props_put_str ph_props_init ''crash_origin'' ''signal_crash'')\<rparr>)"

definition ph_signal_crash_replay ::
  "(real \<Rightarrow> real) \<Rightarrow> u64 \<Rightarrow> string option \<Rightarrow> files \<Rightarrow> ph_ctx \<Rightarrow> ph_ctx \<times> files \<times> int" where
  "ph_signal_crash_replay rnd t dir fs ctx =
     (if \<not> dir_given dir then (ctx, fs, 0)
      else case fs (crash_path (the dir)) of None \<Rightarrow> (ctx, fs, 0)
      | Some content \<Rightarrow>
          (case ph_crash_decode (take PH_CRASH_RECORD_MAX content) of
             None \<Rightarrow> (ctx, discard_crash_record dir fs, 0)
           | Some ci \<Rightarrow>
               let (ctx', r) = ph__capture_exception_flags rnd t (Some (crash_exception ci)) PH_EVF_CRASH_REPLAY ctx
               in if r \<noteq> PH_OK then (ctx', discard_crash_record dir fs, 0) else (ctx', fs, 1)))"

section \<open>The POSIX handler\<close>

text \<open>
  What the operating system answers while the handler runs: the return addresses of \<open>backtrace\<close>,
  the program counter of the faulting context (0 where it is not read), the fault address when
  there is a \<open>siginfo\<close>, the loader's map, and the results of \<open>open\<close>, of \<open>write\<close> at each offset, of
  \<open>fsync\<close> and of \<open>link\<close> (on an unused name).
\<close>

record crash_os =
  os_backtrace :: "u64 list"
  os_fault_pc :: u64
  os_si_addr :: "u64 option"
  os_dladdr :: "u64 \<Rightarrow> (u64 \<times> string option) option"
  os_open :: bool
  os_write :: "nat \<Rightarrow> int"
  os_fsync :: bool
  os_link :: bool

datatype disposition = Posix_Handler | Sig_Dfl | Host_Handler nat
datatype altstack = Alt_Off | Alt_Host nat | Alt_Ours

text \<open>The file-scope variables of the POSIX section, and the process state they shadow.\<close>

record posix_state =
  g_posix_path :: string
  g_posix_tmp_path :: string
  g_posix_installed :: bool
  g_prev_altstack :: "altstack option"
  g_altstack_owned :: bool
  g_in_handler :: bool
  g_posix_prev :: "u32 \<Rightarrow> disposition option"
  os_disposition :: "u32 \<Rightarrow> disposition"
  os_altstack :: altstack

definition g_posix_sigs :: "u32 list" where
  "g_posix_sigs = [11, 6, 7, 8, 4]"

definition posix_restore_for_signal :: "u32 \<Rightarrow> posix_state \<Rightarrow> posix_state" where
  "posix_restore_for_signal sig s =
     s\<lparr>os_disposition := (os_disposition s)
        (sig := (case (if sig \<in> set g_posix_sigs then g_posix_prev s sig else None) of Some d \<Rightarrow> d | None \<Rightarrow> Sig_Dfl))\<rparr>"

definition handler_pcs :: "crash_os \<Rightarrow> u64 list" where
  "handler_pcs os =
     take PH_CRASH_MAX_FRAMES ((if os_fault_pc os \<noteq> 0 then [os_fault_pc os] else []) @ take PH_CRASH_MAX_FRAMES (os_backtrace os))"

definition handler_snapshot :: "crash_os \<Rightarrow> u32 \<Rightarrow> ph_crash_info" where
  "handler_snapshot os sig =
     fill_frames (os_dladdr os) (handler_pcs os)
       \<lparr>ci_sig = sig, ci_fault_addr = (case os_si_addr os of Some a \<Rightarrow> a | None \<Rightarrow> 0), ci_module_count = 0, ci_modules = [],
        ci_frame_count = 0, ci_frame_module = [], ci_frame_off = []\<rparr>"

function write_loop :: "(nat \<Rightarrow> int) \<Rightarrow> nat \<Rightarrow> nat \<Rightarrow> nat" where
  "write_loop wr len off =
     (if off < len then (let w = wr off in if 0 < w then write_loop wr len (off + nat w) else off) else off)"
  by pat_completeness auto
termination by (relation "measure (\<lambda>(wr, len, off). len - off)") auto

declare write_loop.simps [simp del]

definition publish_record :: "crash_os \<Rightarrow> string \<Rightarrow> string \<Rightarrow> bytes \<Rightarrow> files \<Rightarrow> files" where
  "publish_record os path tmp rec fs =
     (if rec = [] \<or> \<not> os_open os then fs
      else let off = write_loop (os_write os) (length rec) 0; fs1 = fs(tmp \<mapsto> take off rec)
           in if off = length rec \<and> os_fsync os
              then (let fs2 = (if fs1 path = None \<and> os_link os then fs1(path := fs1 tmp) else fs1) in fs2(tmp := None))
              else fs1)"

text \<open>\<open>None\<close> is the hard exit of a fault inside the handler; otherwise the signal is raised again.\<close>

definition posix_handler :: "crash_os \<Rightarrow> u32 \<Rightarrow> posix_state \<Rightarrow> files \<Rightarrow> (posix_state \<times> files) option" where
  "posix_handler os sig s fs =
     (if g_in_handler s then None
      else let s = s\<lparr>g_in_handler := True\<rparr>;
               ci = handler_snapshot os sig;
               rec = ph_crash_encode ci PH_CRASH_RECORD_MAX;
               fs = publish_record os (g_posix_path s) (g_posix_tmp_path s) rec fs
           in Some (posix_restore_for_signal sig s, fs))"

section \<open>Arming\<close>

text \<open>\<open>mem\<close>, \<open>alt\<close> and \<open>act\<close>: whether the allocation, \<open>sigaltstack\<close> and each \<open>sigaction\<close> succeed.\<close>

fun install_actions :: "(u32 \<Rightarrow> bool) \<Rightarrow> u32 list \<Rightarrow> posix_state \<Rightarrow> posix_state" where
  "install_actions act [] s = s"
| "install_actions act (g # gs) s =
     install_actions act gs
       (if act g then s\<lparr>g_posix_prev := (g_posix_prev s)(g \<mapsto> os_disposition s g),
                       os_disposition := (os_disposition s)(g := Posix_Handler)\<rparr> else s)"

definition ph_signal_crash_install :: "bool \<Rightarrow> bool \<Rightarrow> (u32 \<Rightarrow> bool) \<Rightarrow> string option \<Rightarrow> posix_state \<Rightarrow> posix_state \<times> int" where
  "ph_signal_crash_install mem alt act dir s =
     (if \<not> dir_given dir then (s, 0)
      else if g_posix_installed s then (s, 1)
      else let path = crash_path (the dir);
               s = s\<lparr>g_posix_path := path, g_posix_tmp_path := snprintf_trunc (PH_PATH_CAP + 40) (path @ ''.tmp''),
                     g_prev_altstack := (if alt then Some (os_altstack s) else None), g_altstack_owned := False\<rparr>;
               s = (if mem \<and> alt then s\<lparr>os_altstack := Alt_Ours, g_altstack_owned := True\<rparr> else s);
               s = install_actions act g_posix_sigs (s\<lparr>g_posix_prev := \<lambda>_. None\<rparr>)
           in (s\<lparr>g_posix_installed := True\<rparr>, 1))"

fun uninstall_actions :: "u32 list \<Rightarrow> posix_state \<Rightarrow> posix_state" where
  "uninstall_actions [] s = s"
| "uninstall_actions (g # gs) s =
     uninstall_actions gs
       (case g_posix_prev s g of None \<Rightarrow> s
        | Some d \<Rightarrow> if os_disposition s g = Posix_Handler then s\<lparr>os_disposition := (os_disposition s)(g := d)\<rparr> else s)"

definition ph_signal_crash_uninstall :: "posix_state \<Rightarrow> posix_state" where
  "ph_signal_crash_uninstall s =
     (if \<not> g_posix_installed s then s
      else let s = uninstall_actions g_posix_sigs s;
               s = (if g_altstack_owned s \<and> os_altstack s = Alt_Ours
                    then s\<lparr>os_altstack := (case g_prev_altstack s of Some a \<Rightarrow> a | None \<Rightarrow> Alt_Off)\<rparr> else s)
           in s\<lparr>g_altstack_owned := False, g_prev_altstack := None, g_posix_installed := False\<rparr>)"

section \<open>Facts: snapshot and publication\<close>

definition loader_ok :: "(u64 \<Rightarrow> (u64 \<times> string option) option) \<Rightarrow> bool" where
  "loader_ok dladdr \<longleftrightarrow> (\<forall>a b s. dladdr a = Some (b, Some s) \<longrightarrow> cstr s)"

lemma basename_suffix: "cstr b \<Longrightarrow> cstr s \<Longrightarrow> cstr (basename_from b s)"
  by (induction b s rule: basename_from.induct) auto

lemma addr_module_ok:
  assumes "loader_ok dladdr" "addr_module dladdr pc PH_CRASH_MODULE_NAME_CAP = Some (name, base)"
  shows "cstr name \<and> length name < PH_CRASH_MODULE_NAME_CAP"
  using assms by (fastforce simp: addr_module_def loader_ok_def caps intro!: cstr_take basename_suffix split: option.splits if_splits)

lemma module_index_less: "module_index name ms = Some m \<Longrightarrow> m < length ms"
  by (induction ms arbitrary: m) (auto split: if_splits)

definition table_ok :: "string list \<Rightarrow> (int \<times> u64) list \<Rightarrow> bool" where
  "table_ok ms fs \<longleftrightarrow> length ms \<le> PH_CRASH_MAX_MODULES \<and> (\<forall>s \<in> set ms. cstr s \<and> length s < PH_CRASH_MODULE_NAME_CAP) \<and>
     length fs \<le> PH_CRASH_MAX_FRAMES \<and> (\<forall>(i, _) \<in> set fs. -1 \<le> i \<and> i < int (length ms))"

lemma fill_step_ok:
  assumes "loader_ok dladdr" "table_ok ms fs" "length fs < PH_CRASH_MAX_FRAMES" "frame_module_of dladdr pc ms = (ms', idx, base)"
  shows "table_ok ms' (fs @ [(idx, off)])"
proof -
  have t: "length ms \<le> PH_CRASH_MAX_MODULES" "\<And>s. s \<in> set ms \<Longrightarrow> cstr s \<and> length s < PH_CRASH_MODULE_NAME_CAP"
    "\<And>i x. (i, x) \<in> set fs \<Longrightarrow> -1 \<le> i \<and> i < int (length ms)" using assms(2) by (auto simp: table_ok_def)
  have "ms' = ms \<and> -1 \<le> idx \<and> idx < int (length ms) \<or>
      (\<exists>name. ms' = ms @ [name] \<and> idx = int (length ms) \<and> cstr name \<and> length name < PH_CRASH_MODULE_NAME_CAP \<and> length ms < PH_CRASH_MAX_MODULES)"
    using assms(4) addr_module_ok [OF assms(1), of pc]
    by (auto simp: frame_module_of_def split: option.splits if_splits prod.splits dest: module_index_less)
  then show ?thesis using t assms(3) by (fastforce simp: table_ok_def caps)
qed

lemma fill_frames_loop_ok: "loader_ok dladdr \<Longrightarrow> table_ok ms fs \<Longrightarrow> case_prod table_ok (fill_frames_loop dladdr pcs ms fs)"
proof (induction pcs arbitrary: ms fs)
  case (Cons pc pcs)
  obtain ms' idx base where s: "frame_module_of dladdr pc ms = (ms', idx, base)" by (cases "frame_module_of dladdr pc ms")
  show ?case
  proof (cases "length fs < PH_CRASH_MAX_FRAMES")
    case True
    from Cons.IH [OF Cons.prems(1) fill_step_ok [OF Cons.prems True s]] True s show ?thesis by simp
  qed (use Cons.prems in simp)
qed simp

lemma snapshot_ok:
  assumes "loader_ok (os_dladdr os)"
  shows "crash_info_ok (handler_snapshot os sig)"
proof -
  obtain ms fs where l: "fill_frames_loop (os_dladdr os) (handler_pcs os) [] [] = (ms, fs)" by (cases "fill_frames_loop (os_dladdr os) (handler_pcs os) [] []")
  have "table_ok ms fs" using fill_frames_loop_ok [OF assms, of "[]" "[]" "handler_pcs os"] l by (simp add: table_ok_def)
  then show ?thesis by (auto simp: handler_snapshot_def fill_frames_def l crash_info_ok_def table_ok_def)
qed

lemma write_loop_all:
  "\<forall>i < len. 0 < wr i \<and> wr i \<le> int (len - i) \<Longrightarrow> off \<le> len \<Longrightarrow> write_loop wr len off = len"
proof (induction wr len off rule: write_loop.induct)
  case (1 wr len off)
  show ?case
  proof (cases "off < len")
    case True
    with "1.prems"(1) have w: "0 < wr off" "wr off \<le> int (len - off)" by blast+
    with True have "off + nat (wr off) \<le> len" by linarith
    with "1.IH" [OF True refl w(1) "1.prems"(1)] True w show ?thesis by (simp add: write_loop.simps [of wr len off])
  qed (use "1.prems" in \<open>simp add: write_loop.simps [of wr len len]\<close>)
qed

lemma encode_nonempty: "crash_info_ok ci \<Longrightarrow> ph_crash_encode ci PH_CRASH_RECORD_MAX \<noteq> []"
  by (simp add: encode_ok CRASH_MAGIC_def)

lemma publish_other: "f \<noteq> path \<Longrightarrow> f \<noteq> tmp \<Longrightarrow> publish_record os path tmp rec fs f = fs f"
  by (simp add: publish_record_def Let_def)

lemma publish_path:
  assumes "path \<noteq> tmp"
  shows "publish_record os path tmp rec fs path = fs path \<or> (fs path = None \<and> publish_record os path tmp rec fs path = Some rec)"
  using assms by (simp add: publish_record_def Let_def)

lemma publish_done:
  assumes "path \<noteq> tmp" "fs path = None" "os_open os" "os_fsync os" "os_link os" "rec \<noteq> []"
    "\<forall>i < length rec. 0 < os_write os i \<and> os_write os i \<le> int (length rec - i)"
  shows "publish_record os path tmp rec fs path = Some rec"
  using assms write_loop_all [OF assms(7), of 0] by (simp add: publish_record_def Let_def)

lemma encode_length: "length (ph_crash_encode ci cap) \<le> cap"
proof -
  define mc where "mc = clamp_count (ci_module_count ci) PH_CRASH_MAX_MODULES"
  define fc where "fc = clamp_count (ci_frame_count ci) PH_CRASH_MAX_FRAMES"
  have m: "length (concat (map module_entry ms)) = sum_list (map (\<lambda>s. 2 + bounded_len PH_CRASH_MODULE_NAME_CAP s) ms)" for ms
    by (induction ms) (simp_all add: module_entry_length)
  have f: "length (concat (map2 frame_entry (take fc a) (take fc b))) \<le> fc * 10" for a b by (simp add: encode_size)
  show ?thesis
    unfolding ph_crash_encode_def Let_def mc_def [symmetric] fc_def [symmetric]
    using f [of "ci_frame_module ci" "ci_frame_off ci"] m [of "take mc (ci_modules ci)"]
    by (simp only: length_append put_lengths split: if_split) (simp add: CRASH_MAGIC_def)
qed

lemma signal_name_cstr: "cstr (ph_crash_signal_name sig)"
  by (simp add: ph_crash_signal_name_def)

lemma nat_hex_cstr: "cstr (nat_hex n)"
proof (induction n rule: nat_hex.induct)
  case (1 n)
  have "hex_digit k \<noteq> NUL" if "k < 16" for k using that by (simp add: hex_digit_def)
  with 1 show ?case by (simp add: nat_hex.simps [of n])
qed

lemma hex64_cstr: "cstr (hex64 a)"
  by (simp add: hex64_def pad0_def nat_hex_cstr) (simp add: cstr_def)

lemma crash_exception_ok:
  assumes "crash_info_ok ci"
  shows "exception_ok (crash_exception ci)"
proof -
  have fr: "frame_ok (crash_frame (ci_modules ci) (mi, off))" if "(mi, off) \<in> set (zip (ci_frame_module ci) (ci_frame_off ci))" for mi off
  proof -
    have "mi < ci_module_count ci" using that assms by (auto simp: crash_info_ok_def dest!: set_zip_leftD)
    then have "0 \<le> mi \<Longrightarrow> cstr (ci_modules ci ! nat mi)"
      using assms nth_mem [of "nat mi" "ci_modules ci"] by (auto simp: crash_info_ok_def)
    then show ?thesis using cstr_take nat_hex_cstr by (auto simp: frame_ok_def crash_frame_def snprintf_trunc_def)
  qed
  have "props_wf (props_put_str ph_props_init ''crash_origin'' ''signal_crash'')" by (intro put_str_wf props_init_wf) simp_all
  moreover have "cstr (crash_message ci)"
    using signal_name_cstr hex64_cstr by (auto simp: crash_message_def snprintf_trunc_def)
  moreover have "list_all frame_ok (map (crash_frame (ci_modules ci)) (take n (zip (ci_frame_module ci) (ci_frame_off ci))))" for n
    using fr by (fastforce simp: list_all_iff dest: in_set_takeD)
  ultimately show ?thesis by (simp add: exception_ok_def crash_exception_def Let_def signal_name_cstr)
qed

lemma replay_wf [wf_intros]:
  assumes "ctx_wf ctx" "hook_ok ctx"
  shows "ctx_wf (fst (ph_signal_crash_replay rnd t dir fs ctx))"
proof -
  have "ctx_wf (fst (ph__capture_exception_flags rnd t (Some (crash_exception ci)) PH_EVF_CRASH_REPLAY ctx))" if "crash_info_ok ci" for ci
    using capture_exception_wf [OF assms] crash_exception_ok [OF that] by simp
  then show ?thesis
    using assms(1) decode_ok by (auto simp: ph_signal_crash_replay_def Let_def split: option.split prod.split) (metis fst_conv)+
qed

section \<open>Properties\<close>

text \<open>Every \<open>write\<close> makes progress and takes no more than it was given.\<close>

definition writes_progress :: "crash_os \<Rightarrow> nat \<Rightarrow> bool" where
  "writes_progress os n \<longleftrightarrow> (\<forall>i < n. 0 < os_write os i \<and> os_write os i \<le> int (n - i))"

text \<open>
  C38. The crash record is a faithful wire format: decoding what the handler encodes gives back the
  snapshot, whatever the buffer as long as it has the declared maximum, and whatever bytes the
  decoder accepts it yields counts within the tables, terminated module names and frame indices
  that name a module of the record or none.
\<close>

theorem crash_record_roundtrip:
  assumes "crash_info_ok ci" "PH_CRASH_RECORD_MAX \<le> cap"
  shows "ph_crash_decode (ph_crash_encode ci cap) = Some ci \<and> length (ph_crash_encode ci cap) \<le> cap \<and>
    (\<forall>p ci'. ph_crash_decode p = Some ci' \<longrightarrow> crash_info_ok ci')"
  using decode_encode [OF assms] encode_length decode_ok by blast

theorem crash_record_roundtrip_witness:
  "ph_crash_decode (ph_crash_encode \<lparr>ci_sig = 11, ci_fault_addr = 8, ci_module_count = 1, ci_modules = [''game''],
     ci_frame_count = 2, ci_frame_module = [0, -1], ci_frame_off = [4096, 7]\<rparr> 2000)
   = Some \<lparr>ci_sig = 11, ci_fault_addr = 8, ci_module_count = 1, ci_modules = [''game''],
     ci_frame_count = 2, ci_frame_module = [0, -1], ci_frame_off = [4096, 7]\<rparr>"
proof -
  let ?ci = "\<lparr>ci_sig = 11, ci_fault_addr = 8, ci_module_count = 1, ci_modules = [''game''],
     ci_frame_count = 2, ci_frame_module = [0, -1], ci_frame_off = [4096, 7]\<rparr>"
  have "crash_info_ok ?ci" "PH_CRASH_RECORD_MAX \<le> 2000" by (simp_all add: crash_info_ok_def PH_CRASH_RECORD_MAX_def caps)
  from crash_record_roundtrip [OF this] show ?thesis by simp
qed


definition sample_os :: crash_os where
  "sample_os = \<lparr>os_backtrace = [5000], os_fault_pc = 4100, os_si_addr = Some 8, os_dladdr = \<lambda>a. Some (4096, Some ''/bin/game''),
     os_open = True, os_write = \<lambda>i. 1, os_fsync = True, os_link = True\<rparr>"

definition armed_state :: posix_state where
  "armed_state = \<lparr>g_posix_path = crash_path ''d'', g_posix_tmp_path = crash_path ''d'' @ ''.tmp'', g_posix_installed = True,
     g_prev_altstack = None, g_altstack_owned = False, g_in_handler = False, g_posix_prev = \<lambda>_. None,
     os_disposition = \<lambda>_. Posix_Handler, os_altstack = Alt_Off\<rparr>"


section \<open>Arming and disarming\<close>

lemma install_actions_frame:
  "distinct gs \<Longrightarrow>
     os_disposition (install_actions act gs s) = (\<lambda>g. if g \<in> set gs \<and> act g then Posix_Handler else os_disposition s g) \<and>
     g_posix_prev (install_actions act gs s) = (\<lambda>g. if g \<in> set gs \<and> act g then Some (os_disposition s g) else g_posix_prev s g) \<and>
     os_altstack (install_actions act gs s) = os_altstack s \<and> g_prev_altstack (install_actions act gs s) = g_prev_altstack s \<and>
     g_altstack_owned (install_actions act gs s) = g_altstack_owned s"
  by (induction gs arbitrary: s) (auto simp: fun_eq_iff)

lemma uninstall_actions_frame:
  "distinct gs \<Longrightarrow>
     os_disposition (uninstall_actions gs s) =
       (\<lambda>g. if g \<in> set gs \<and> g_posix_prev s g \<noteq> None \<and> os_disposition s g = Posix_Handler then the (g_posix_prev s g) else os_disposition s g) \<and>
     os_altstack (uninstall_actions gs s) = os_altstack s \<and> g_prev_altstack (uninstall_actions gs s) = g_prev_altstack s \<and>
     g_altstack_owned (uninstall_actions gs s) = g_altstack_owned s"
  by (induction gs arbitrary: s) (auto simp: fun_eq_iff split: option.split)



end
