(* ===== verification/Ph_Scrub.thy ===== *)
theory Ph_Scrub
  imports Ph_Flags Ph_Crash
begin

text \<open>
  The privacy stage of the sender in \<^verbatim>\<open>src/ph_native.c\<close> (\<open>scrub_one\<close>, \<open>scrub_events\<close>,
  \<open>sync_flag_context_from_control\<close>): each popped event's scalar properties are unpacked, stripped
  of denylisted keys, shown to the application's hook, and packed again in front of the
  structured entries. The hook is the application's function; it may do anything to the
  properties it is handed as long as the result is a set the public setters can build
  (\<open>hook_ok\<close>).
\<close>

section \<open>Model\<close>

definition cstr_eq_slice :: "string \<Rightarrow> bytes \<Rightarrow> bool" where
  "cstr_eq_slice s buf \<longleftrightarrow> length s = length buf \<and> s = buf"

text \<open>The first string property of a key, cut at the capacity; empty when there is none.\<close>

fun prop_str_copy :: "ph_prop list \<Rightarrow> string \<Rightarrow> nat \<Rightarrow> string" where
  "prop_str_copy [] key cap = []"
| "prop_str_copy (it # its) key cap =
     (case prop_val it of
        PH_T_STR s \<Rightarrow> if prop_key it = key then ph_copy_capped [] cap (Some s) else prop_str_copy its key cap
      | _ \<Rightarrow> prop_str_copy its key cap)"

fun set_group_props :: "string \<Rightarrow> string \<Rightarrow> ph_props \<Rightarrow> ph_group list \<Rightarrow> ph_group list option" where
  "set_group_props ty k p [] = None"
| "set_group_props ty k p (g # gs) =
     (if group_type g = ty \<and> group_key g = k then Some (g\<lparr>group_props := p\<rparr> # gs)
      else map_option ((#) g) (set_group_props ty k p gs))"

definition sync_flag_context_from_control :: "ph_event \<Rightarrow> ph_props \<Rightarrow> string \<Rightarrow> string \<Rightarrow> ph_ctx \<Rightarrow> ph_ctx" where
  "sync_flag_context_from_control e props gt gk ctx =
     (if ev_kind e = PH_EV_IDENTIFY then
        (if cstr_eq_slice (distinct_id ctx) (ev_did e)
         then ph__flags_request_auto_refresh (ph__flags_context_changed_locked (ctx\<lparr>flag_person_props := props\<rparr>))
         else ctx)
      else if ev_kind e = PH_EV_GROUP \<and> gt \<noteq> [] \<and> gk \<noteq> [] then
        (let gp = ph_props_remove_key (ph_props_remove_key props ''$group_type'') ''$group_key''
         in case set_group_props gt gk gp (groups ctx) of None \<Rightarrow> ctx
            | Some gs \<Rightarrow> ph__flags_request_auto_refresh (ph__flags_context_changed_locked (ctx\<lparr>groups := gs\<rparr>)))
      else ctx)"

text \<open>The entries that are not scalars, copied through as long as they fit.\<close>

fun preserved :: "nat \<Rightarrow> (nat \<times> bytes \<times> bytes) list \<Rightarrow> bytes" where
  "preserved room [] = []"
| "preserved room (e # es) =
     (if fst e \<le> 3 then preserved room es
      else if entry_size e \<le> room then encode_entry e @ preserved (room - entry_size e) es
      else preserved room es)"

definition scrub_name :: "ph_event \<Rightarrow> string" where
  "scrub_name e = take (PH_EVENT_NAME_CAP - 1) (ev_name e)"

definition scrubbed_blob :: "ph_props \<Rightarrow> bytes \<Rightarrow> bytes" where
  "scrubbed_blob props blob =
     (let packed = ph_pack_props (Some props) PH_EVENT_DATA_CAP;
          kept = preserved PH_EVENT_DATA_CAP (blob_entries blob)
      in if kept \<noteq> [] \<and> length packed + length kept \<le> PH_EVENT_DATA_CAP then packed @ kept else packed)"

definition put_blob :: "ph_event \<Rightarrow> bytes \<Rightarrow> ph_event" where
  "put_blob e blob =
     (let off = ev_name_len e + ev_did_len e; b = take (PH_EVENT_DATA_CAP - ev_name_len e - ev_did_len e) blob
      in e\<lparr>ev_data := take off (ev_data e) @ b @ drop (off + length b) (ev_data e), ev_blob_len := length b\<rparr>)"

text \<open>\<open>None\<close> is the return value 0: the event is dropped.\<close>

definition scrub_one :: "ph_event \<Rightarrow> bool \<Rightarrow> ph_ctx \<Rightarrow> ph_ctx \<times> ph_event option" where
  "scrub_one e run_before_send ctx =
     (let blob = ev_blob e;
          props = ph_unpack_props blob;
          gt = (if ev_kind e = PH_EV_GROUP then prop_str_copy (p_items props) ''$group_type'' PH_KEY_CAP else []);
          gk = (if ev_kind e = PH_EV_GROUP then prop_str_copy (p_items props) ''$group_key'' PH_KEY_CAP else []);
          props = foldl ph_props_remove_key props (denylist ctx);
          (props, keep) = (case before_send ctx of
              Some hook \<Rightarrow> if run_before_send then hook (scrub_name e) props else (props, True)
            | None \<Rightarrow> (props, True))
      in if \<not> keep then (ctx\<lparr>st_before_send_dropped := st_before_send_dropped ctx + 1\<rparr>, None)
         else let ctx = (if ev_kind e = PH_EV_IDENTIFY \<or> ev_kind e = PH_EV_GROUP
                         then sync_flag_context_from_control e props gt gk ctx else ctx)
              in (ctx, Some (put_blob e (scrubbed_blob props blob))))"

fun scrub_loop :: "ph_event list \<Rightarrow> ph_ctx \<Rightarrow> ph_ctx \<times> ph_event list" where
  "scrub_loop [] ctx = (ctx, [])"
| "scrub_loop (e # es) ctx =
     (if has_flag (ev_flags e) PH_EVF_SCRUBBED then
        (let (ctx, r) = (if denylist ctx \<noteq> [] then scrub_one e False ctx else (ctx, Some e));
             (ctx, rest) = scrub_loop es ctx
         in (ctx, (case r of Some e' \<Rightarrow> e' | None \<Rightarrow> e) # rest))
      else (let (ctx, r) = scrub_one e True ctx; (ctx, rest) = scrub_loop es ctx
            in (ctx, (case r of Some e' \<Rightarrow> e' # rest | None \<Rightarrow> rest))))"

definition scrub_events :: "ph_event list \<Rightarrow> ph_ctx \<Rightarrow> ph_ctx \<times> ph_event list" where
  "scrub_events evs ctx = (if before_send ctx = None \<and> denylist ctx = [] then (ctx, evs) else scrub_loop evs ctx)"

section \<open>Facts: rewriting a blob\<close>

lemma blob_next_cut:
  assumes "entry_ok e" "n < entry_size e"
  shows "ph_blob_next (take n (encode_entry e @ r)) = None"
proof (cases e)
  case (fields ty k v)
  have len: "length v div 256 < 256" using assms(1) fields by (auto simp: entry_ok_def)
  show ?thesis
    using assms fields len
    by (cases "n < 4") (auto simp: ph_blob_next_def encode_entry_def entry_size_def entry_ok_def pack_one_def Let_def nth_append)
qed

lemma blob_entries_cut:
  assumes "list_all entry_ok es"
  shows "\<exists>m. blob_entries (take n (concat (map encode_entry es))) = take m es"
  using assms
proof (induction es arbitrary: n)
  case (Cons e es)
  then have ok: "entry_ok e" "list_all entry_ok es" by simp_all
  show ?case
  proof (cases "entry_size e \<le> n")
    case True
    obtain m where m: "blob_entries (take (n - entry_size e) (concat (map encode_entry es))) = take m es" using Cons.IH [OF ok(2)] by blast
    have "take n (encode_entry e @ concat (map encode_entry es)) = encode_entry e @ take (n - entry_size e) (concat (map encode_entry es))"
      using True length_encode_entry [OF ok(1)] by simp
    with m blob_entries_encode [OF ok(1)] show ?thesis by (intro exI [of _ "Suc m"]) simp
  next
    case False
    then have "blob_entries (take n (encode_entry e @ concat (map encode_entry es))) = []"
      using blob_next_cut [OF ok(1)] by (subst blob_entries.simps) (simp del: take_append)
    then show ?thesis by (intro exI [of _ 0]) (simp del: take_append)
  qed
qed simp

text \<open>Unpacking reads the entries in order.\<close>

fun unpack_list :: "ph_prop list \<Rightarrow> (nat \<times> bytes \<times> bytes) list \<Rightarrow> ph_prop list" where
  "unpack_list out [] = out"
| "unpack_list out ((ty, k, v) # es) =
     (if \<not> length out < PH_MAX_PROPS then out
      else if ty = PH_PK_GROUP then unpack_list out es
      else case unpack_value ty v of None \<Rightarrow> unpack_list out es
           | Some pv \<Rightarrow> unpack_list (out @ [\<lparr>prop_key = cstr_view (take (PH_KEY_CAP - 1) k), prop_val = pv\<rparr>]) es)"

lemma unpack_list_full: "\<not> length out < PH_MAX_PROPS \<Longrightarrow> unpack_list out es = out"
  by (cases es) auto

lemma unpack_loop_list: "unpack_loop out b = unpack_list out (blob_entries b)"
proof (induction out b rule: unpack_loop.induct)
  case (1 out b)
  show ?case
  proof (cases "length out < PH_MAX_PROPS")
    case True
    with 1 show ?thesis
      by (subst unpack_loop.simps, subst blob_entries.simps)
        (cases "ph_blob_next b", auto split: option.split)
  qed (simp add: unpack_loop.simps [of out b] unpack_list_full)
qed

lemma unpack_value_wf: "entry_sound (ty, k, v) \<Longrightarrow> unpack_value ty v = Some pv \<Longrightarrow>
    prop_wf \<lparr>prop_key = cstr_view (take (PH_KEY_CAP - 1) k), prop_val = pv\<rparr>"
proof -
  assume a: "entry_sound (ty, k, v)" "unpack_value ty v = Some pv"
  then have k: "cstr k" "k \<noteq> []" by (auto simp: entry_sound_def entry_wf_def unpack_value_def split: if_splits)
  have "val_wf pv" using a(2) length_cstr_view_le [of "take (PH_VAL_CAP - 1) v"]
    by (auto simp: unpack_value_def caps split: if_splits)
  with k show ?thesis using cstr_take [of k 47] by (simp add: prop_wf_def caps)
qed

lemma unpack_list_wf: "list_all entry_sound es \<Longrightarrow> list_all prop_wf out \<Longrightarrow> length out \<le> PH_MAX_PROPS \<Longrightarrow>
    list_all prop_wf (unpack_list out es) \<and> length (unpack_list out es) \<le> PH_MAX_PROPS"
  by (induction out es rule: unpack_list.induct) (auto simp: unpack_value_wf [simplified] split: option.split)

lemma unpack_wf: "list_all entry_sound (blob_entries b) \<Longrightarrow> props_wf (ph_unpack_props b)"
  using unpack_list_wf [of "blob_entries b" "[]"] by (simp add: props_wf_def ph_unpack_props_def unpack_loop_list)

lemma preserved_entries:
  "list_all entry_ok es \<Longrightarrow> \<exists>fs. preserved n es = concat (map encode_entry fs) \<and> set fs \<subseteq> {e \<in> set es. \<not> fst e \<le> 3}"
proof (induction es arbitrary: n)
  case (Cons e es)
  then have ok: "list_all entry_ok es" by simp
  show ?case
  proof (cases "fst e \<le> 3 \<or> \<not> entry_size e \<le> n")
    case True
    obtain fs where "preserved n es = concat (map encode_entry fs)" "set fs \<subseteq> {e \<in> set es. \<not> fst e \<le> 3}" using Cons.IH [OF ok] by blast
    with True show ?thesis by (intro exI [of _ fs]) auto
  next
    case False
    obtain fs where "preserved (n - entry_size e) es = concat (map encode_entry fs)" "set fs \<subseteq> {e \<in> set es. \<not> fst e \<le> 3}"
      using Cons.IH [OF ok] by blast
    with False show ?thesis by (intro exI [of _ "e # fs"]) auto
  qed
qed (simp add: exI [of _ "[]"])

section \<open>Facts: what the scrub stage leaves alone\<close>

text \<open>The fields the sender's accounting rests on.\<close>

definition sender_view :: "ph_ctx \<Rightarrow> ctx_config \<times> (u64 \<times> u64) \<times> ph_ratelimit" where
  "sender_view ctx = (ctx_config.truncate ctx, (st_sent ctx, st_failed ctx), server_rl ctx)"

lemma sender_viewD:
  assumes "sender_view ctx' = sender_view ctx"
  shows "st_sent ctx' = st_sent ctx" "st_failed ctx' = st_failed ctx" "server_rl ctx' = server_rl ctx"
    "enabled ctx' = enabled ctx" "offline_path ctx' = offline_path ctx" "max_batch ctx' = max_batch ctx"
    "max_batch_bytes ctx' = max_batch_bytes ctx" "max_retries ctx' = max_retries ctx" "denylist ctx' = denylist ctx"
    "before_send ctx' = before_send ctx" "api_key ctx' = api_key ctx" "release ctx' = release ctx" "api_host ctx' = api_host ctx"
    "request_timeout_ms ctx' = request_timeout_ms ctx"
  using assms by (simp_all add: sender_view_def ctx_config.defs)

lemma mark_superseded_frame:
  "sender_view (mark_context_superseded_locked g ctx) = sender_view ctx" "queue (mark_context_superseded_locked g ctx) = queue ctx"
  "st_before_send_dropped (mark_context_superseded_locked g ctx) = st_before_send_dropped ctx"
  "ctx_wf (mark_context_superseded_locked g ctx) = ctx_wf ctx" "stop (mark_context_superseded_locked g ctx) = stop ctx"
  by (simp_all add: mark_context_superseded_locked_def sender_view_def ctx_config.defs ctx_wf_def ctx_strings_ok_def)

lemma context_changed_frame [simp]:
  "sender_view (ph__flags_context_changed_locked ctx) = sender_view ctx" "queue (ph__flags_context_changed_locked ctx) = queue ctx"
  "st_before_send_dropped (ph__flags_context_changed_locked ctx) = st_before_send_dropped ctx"
  "ctx_wf ctx \<Longrightarrow> ctx_wf (ph__flags_context_changed_locked ctx)" "stop (ph__flags_context_changed_locked ctx) = stop ctx"
  by (simp_all add: ph__flags_context_changed_locked_def Let_def mark_context_superseded_locked_def sender_view_def ctx_config.defs
      ctx_wf_def ctx_strings_ok_def)

lemma mark_reload_frame:
  obtains h where "mark_reload_locked i st ctx = ctx\<lparr>flag_reload_history := h\<rparr>"
  by (rule that [of "flag_reload_history (mark_reload_locked i st ctx)"]) (simp add: mark_reload_locked_def Let_def split: option.split)

lemma schedule_frame:
  obtains h i b g c where "fst (schedule_reload_locked cg ctx) =
    ctx\<lparr>flag_reload_history := h, reload_request_id := i, flags_refetch := b, flags_refetch_gen := g, flags_refetch_context_gen := c\<rparr>"
proof -
  obtain h where h: "mark_reload_locked (flags_refetch_gen ctx) PH_FEATURE_FLAG_RELOAD_SUPERSEDED ctx = ctx\<lparr>flag_reload_history := h\<rparr>"
    by (rule mark_reload_frame)
  let ?r = "fst (schedule_reload_locked cg ctx)"
  show thesis
    by (rule that [where h = "flag_reload_history ?r" and i = "reload_request_id ?r" and b = "flags_refetch ?r" and
          g = "flags_refetch_gen ?r" and c = "flags_refetch_context_gen ?r"])
      (simp add: schedule_reload_locked_def Let_def h next_reload_request_locked_def)
qed

lemma auto_refresh_frame [simp]:
  "sender_view (ph__flags_request_auto_refresh ctx) = sender_view ctx"
  "queue_list (queue (ph__flags_request_auto_refresh ctx)) = queue_list (queue ctx)"
  "st_before_send_dropped (ph__flags_request_auto_refresh ctx) = st_before_send_dropped ctx"
  "ctx_wf (ph__flags_request_auto_refresh ctx) = ctx_wf ctx" "stop (ph__flags_request_auto_refresh ctx) = stop ctx"
proof -
  obtain h i b g c where f: "fst (schedule_reload_locked (flags_context_gen ctx) ctx) =
    ctx\<lparr>flag_reload_history := h, reload_request_id := i, flags_refetch := b, flags_refetch_gen := g, flags_refetch_context_gen := c\<rparr>"
    by (rule schedule_frame)
  show "sender_view (ph__flags_request_auto_refresh ctx) = sender_view ctx"
    "queue_list (queue (ph__flags_request_auto_refresh ctx)) = queue_list (queue ctx)"
    "st_before_send_dropped (ph__flags_request_auto_refresh ctx) = st_before_send_dropped ctx"
    "ctx_wf (ph__flags_request_auto_refresh ctx) = ctx_wf ctx" "stop (ph__flags_request_auto_refresh ctx) = stop ctx"
    by (simp_all add: ph__flags_request_auto_refresh_def f ph__sender_wake_def sender_view_def ctx_config.defs ctx_wf_def ctx_strings_ok_def)
qed

lemma sender_view_updates [simp]:
  "sender_view (ctx\<lparr>flag_person_props := p\<rparr>) = sender_view ctx" "sender_view (ctx\<lparr>groups := gs\<rparr>) = sender_view ctx"
  "sender_view (ctx\<lparr>queue := q\<rparr>) = sender_view ctx" "sender_view (ctx\<lparr>st_before_send_dropped := d\<rparr>) = sender_view ctx"
  by (simp_all add: sender_view_def ctx_config.defs)

lemma set_group_props_ok:
  "set_group_props ty k p gs = Some gs' \<Longrightarrow> list_all group_ok gs \<Longrightarrow> props_wf p \<Longrightarrow> list_all group_ok gs' \<and> length gs' = length gs"
  by (induction gs arbitrary: gs') (auto simp: group_ok_def split: if_splits)

lemma sync_frame:
  "sender_view (sync_flag_context_from_control e p gt gk ctx) = sender_view ctx"
  "queue_list (queue (sync_flag_context_from_control e p gt gk ctx)) = queue_list (queue ctx)"
  "st_before_send_dropped (sync_flag_context_from_control e p gt gk ctx) = st_before_send_dropped ctx"
  "stop (sync_flag_context_from_control e p gt gk ctx) = stop ctx"
  by (simp_all add: sync_flag_context_from_control_def Let_def split: option.split)

lemma sync_wf [wf_intros]:
  assumes "ctx_wf ctx" "props_wf p"
  shows "ctx_wf (sync_flag_context_from_control e p gt gk ctx)"
proof -
  have "ctx_wf (ctx\<lparr>groups := gs\<rparr>)"
    if "set_group_props gt gk (ph_props_remove_key (ph_props_remove_key p ''$group_type'') ''$group_key'') (groups ctx) = Some gs" for gs
    using set_group_props_ok [OF that] assms remove_key_wf by (simp add: ctx_wf_def ctx_strings_ok_def)
  moreover have "ctx_wf (ctx\<lparr>flag_person_props := p\<rparr>)" using assms by (simp add: ctx_wf_def ctx_strings_ok_def)
  ultimately show ?thesis using assms(1) by (simp add: sync_flag_context_from_control_def Let_def split: option.split)
qed

section \<open>Facts: the scrubbed event\<close>

lemma take_eq_take_length: "take (min (length b) n) b = take n b"
  by (simp add: min_def)

lemma put_blob_regions:
  assumes "event_wf e"
  shows "ev_name (put_blob e b) = ev_name e" "ev_did (put_blob e b) = ev_did e"
    "ev_blob (put_blob e b) = take (PH_EVENT_DATA_CAP - ev_name_len e - ev_did_len e) b"
    "ev_name_len (put_blob e b) = ev_name_len e" "ev_did_len (put_blob e b) = ev_did_len e" "ev_kind (put_blob e b) = ev_kind e"
    "ev_flags (put_blob e b) = ev_flags e" "ev_seq (put_blob e b) = ev_seq e"
proof -
  have l: "ev_name_len e + ev_did_len e \<le> length (ev_data e)" using assms by (simp add: event_wf_def)
  show "ev_name (put_blob e b) = ev_name e" "ev_did (put_blob e b) = ev_did e"
    "ev_blob (put_blob e b) = take (PH_EVENT_DATA_CAP - ev_name_len e - ev_did_len e) b"
    using l by (simp_all add: put_blob_def Let_def ev_name_def ev_did_def ev_blob_def drop_take take_eq_take_length)
qed (simp_all add: put_blob_def Let_def)

lemma fit_items_set: "set (fit_items n its) \<subseteq> set its"
  by (induction n its rule: fit_items.induct) auto

lemma scrubbed_entries:
  assumes "props_wf p" "list_all entry_sound (blob_entries b)"
  shows "\<exists>es. scrubbed_blob p b = concat (map encode_entry es) \<and> list_all entry_sound es \<and>
    (\<forall>e \<in> set es. e \<in> prop_entry ` set (p_items p) \<or> e \<in> set (blob_entries b) \<and> \<not> fst e \<le> 3)"
proof -
  let ?its = "fit_items PH_EVENT_DATA_CAP (p_items p)"
  have its: "list_all prop_wf (p_items p)" using assms(1) by (simp add: props_wf_def)
  have packed: "ph_pack_props (Some p) PH_EVENT_DATA_CAP = concat (map encode_entry (map prop_entry ?its))"
    using pack_items_fit [OF its] by (simp add: ph_pack_props_def comp_def)
  have sub: "set ?its \<subseteq> set (p_items p)" by (rule fit_items_set)
  have item: "entry_sound (prop_entry it)" if "it \<in> set (p_items p)" for it
    using that its prop_entry_ok [of it]
    by (cases "prop_val it") (auto simp: list_all_iff prop_entry_def entry_sound_def entry_wf_def prop_wf_def PH_PK_GROUP_def PH_PK_RAWJSON_def)
  have "list_all entry_ok (blob_entries b)" using assms(2) by (auto simp: list_all_iff entry_sound_def entry_wf_def)
  then obtain fs where fs: "preserved PH_EVENT_DATA_CAP (blob_entries b) = concat (map encode_entry fs)"
    "set fs \<subseteq> {e \<in> set (blob_entries b). \<not> fst e \<le> 3}" using preserved_entries by blast
  have s: "list_all entry_sound (map prop_entry ?its)" "list_all entry_sound fs"
    using item sub fs(2) assms(2) by (auto simp: list_all_iff)
  have "scrubbed_blob p b = concat (map encode_entry (map prop_entry ?its @ fs)) \<or> scrubbed_blob p b = concat (map encode_entry (map prop_entry ?its))"
    unfolding scrubbed_blob_def Let_def packed fs(1) by (simp add: comp_def)
  then show ?thesis
  proof
    assume "scrubbed_blob p b = concat (map encode_entry (map prop_entry ?its @ fs))"
    then show ?thesis using s sub fs(2) by (intro exI [of _ "map prop_entry ?its @ fs"]) auto
  next
    assume "scrubbed_blob p b = concat (map encode_entry (map prop_entry ?its))"
    then show ?thesis using s sub by (intro exI [of _ "map prop_entry ?its"]) auto
  qed
qed

lemma put_blob_ok:
  assumes "event_ok e" "props_wf p"
  shows "event_ok (put_blob e (scrubbed_blob p (ev_blob e)))"
    and "set (blob_entries (ev_blob (put_blob e (scrubbed_blob p (ev_blob e))))) \<subseteq>
       prop_entry ` set (p_items p) \<union> {x \<in> set (blob_entries (ev_blob e)). \<not> fst x \<le> 3}"
proof -
  let ?e = "put_blob e (scrubbed_blob p (ev_blob e))"
  have wf: "event_wf e" "list_all entry_sound (blob_entries (ev_blob e))" using assms(1) by (simp_all add: event_ok_def)
  note rg = put_blob_regions [OF wf(1), of "scrubbed_blob p (ev_blob e)"]
  obtain es where es: "scrubbed_blob p (ev_blob e) = concat (map encode_entry es)" "list_all entry_sound es"
    "\<forall>x \<in> set es. x \<in> prop_entry ` set (p_items p) \<or> x \<in> set (blob_entries (ev_blob e)) \<and> \<not> fst x \<le> 3"
    using scrubbed_entries [OF assms(2) wf(2)] by blast
  have "list_all entry_ok es" using es(2) by (auto simp: list_all_iff entry_sound_def entry_wf_def)
  note cut = blob_entries_cut [OF this, of "PH_EVENT_DATA_CAP - ev_name_len e - ev_did_len e"]
  have "ev_blob ?e = take (PH_EVENT_DATA_CAP - ev_name_len e - ev_did_len e) (concat (map encode_entry es))"
    unfolding rg(3) unfolding es(1) ..
  with cut obtain m where m: "blob_entries (ev_blob ?e) = take m es" by auto
  have sound: "list_all entry_sound (blob_entries (ev_blob ?e))" unfolding m using es(2) by (auto simp: list_all_iff dest: in_set_takeD)
  have "ev_name_len e + ev_did_len e \<le> PH_EVENT_DATA_CAP" "ev_name_len e + ev_did_len e \<le> length (ev_data e)"
    using wf(1) by (simp_all add: event_wf_def)
  then have "ev_name_len ?e + ev_did_len ?e + ev_blob_len ?e \<le> PH_EVENT_DATA_CAP"
    "ev_name_len ?e + ev_did_len ?e + ev_blob_len ?e \<le> length (ev_data ?e)"
    by (simp_all add: put_blob_def Let_def)
  moreover have "blob_wf (ev_blob ?e)" using sound by (auto simp: blob_wf_def list_all_iff entry_sound_def)
  ultimately show "event_ok ?e" using wf(1) sound unfolding event_ok_def event_wf_def rg(1,2,4,5) by simp
  show "set (blob_entries (ev_blob ?e)) \<subseteq> prop_entry ` set (p_items p) \<union> {x \<in> set (blob_entries (ev_blob e)). \<not> fst x \<le> 3}"
    unfolding m using es(3) by (auto dest: in_set_takeD)
qed


section \<open>Facts: the scrub stage\<close>

lemma deny_fold: "p_items (foldl ph_props_remove_key p ks) = filter (\<lambda>it. prop_key it \<notin> set ks) (p_items p)"
  by (induction ks arbitrary: p) (auto intro: filter_cong)

lemma deny_fold_wf: "props_wf p \<Longrightarrow> props_wf (foldl ph_props_remove_key p ks)"
  by (induction ks arbitrary: p) (simp_all add: remove_key_wf)

text \<open>The properties an event leaves the scrub stage with.\<close>

definition scrub_result :: "ph_event \<Rightarrow> bool \<Rightarrow> ph_ctx \<Rightarrow> ph_props \<times> bool" where
  "scrub_result e run ctx =
     (let props = foldl ph_props_remove_key (ph_unpack_props (ev_blob e)) (denylist ctx)
      in case before_send ctx of Some hook \<Rightarrow> if run then hook (scrub_name e) props else (props, True) | None \<Rightarrow> (props, True))"

lemma scrub_one_cases:
  obtains (drop) "\<not> snd (scrub_result e run ctx)" "scrub_one e run ctx = (ctx\<lparr>st_before_send_dropped := st_before_send_dropped ctx + 1\<rparr>, None)"
  | (keep) gt gk where "snd (scrub_result e run ctx)"
    "scrub_one e run ctx = ((if ev_kind e = PH_EV_IDENTIFY \<or> ev_kind e = PH_EV_GROUP
        then sync_flag_context_from_control e (fst (scrub_result e run ctx)) gt gk ctx else ctx),
      Some (put_blob e (scrubbed_blob (fst (scrub_result e run ctx)) (ev_blob e))))"
proof (cases "snd (scrub_result e run ctx)")
  case True
  then show thesis
    by (intro keep [of "if ev_kind e = PH_EV_GROUP then prop_str_copy (p_items (ph_unpack_props (ev_blob e))) ''$group_type'' PH_KEY_CAP else []"
          "if ev_kind e = PH_EV_GROUP then prop_str_copy (p_items (ph_unpack_props (ev_blob e))) ''$group_key'' PH_KEY_CAP else []"])
      (auto simp: scrub_one_def scrub_result_def Let_def split: prod.split)
next
  case False
  then show thesis by (intro drop) (auto simp: scrub_one_def scrub_result_def Let_def split: prod.split)
qed

lemma scrub_result_wf:
  assumes "event_ok e" "hook_ok ctx"
  shows "props_wf (fst (scrub_result e run ctx))"
proof -
  have "props_wf (foldl ph_props_remove_key (ph_unpack_props (ev_blob e)) (denylist ctx))"
    using assms(1) by (intro deny_fold_wf unpack_wf) (simp add: event_ok_def)
  with assms(2) show ?thesis by (auto simp: scrub_result_def Let_def hook_ok_def split: option.split)
qed

lemma scrub_one_ok:
  assumes "ctx_wf ctx" "hook_ok ctx" "event_ok e" "scrub_one e run ctx = (ctx', r)"
  shows "ctx_wf ctx'" "sender_view ctx' = sender_view ctx" "queue_list (queue ctx') = queue_list (queue ctx)" "stop ctx' = stop ctx"
    "r = None \<Longrightarrow> st_before_send_dropped ctx' = st_before_send_dropped ctx + 1 \<and> \<not> snd (scrub_result e run ctx)"
    "r = Some e' \<Longrightarrow> st_before_send_dropped ctx' = st_before_send_dropped ctx \<and> event_ok e' \<and>
       e' = put_blob e (scrubbed_blob (fst (scrub_result e run ctx)) (ev_blob e))"
proof -
  have p: "props_wf (fst (scrub_result e run ctx))" by (rule scrub_result_wf [OF assms(3,2)])
  have "ctx_wf ctx' \<and> sender_view ctx' = sender_view ctx \<and> queue_list (queue ctx') = queue_list (queue ctx) \<and> stop ctx' = stop ctx \<and>
    (r = None \<longrightarrow> st_before_send_dropped ctx' = st_before_send_dropped ctx + 1 \<and> \<not> snd (scrub_result e run ctx)) \<and>
    (r = Some e' \<longrightarrow> st_before_send_dropped ctx' = st_before_send_dropped ctx \<and> event_ok e' \<and>
       e' = put_blob e (scrubbed_blob (fst (scrub_result e run ctx)) (ev_blob e)))"
  proof (cases rule: scrub_one_cases [of e run ctx])
    case drop
    then show ?thesis using assms(1,4) by (auto simp: ctx_wf_def ctx_strings_ok_def)
  next
    case (keep gt gk)
    then show ?thesis using assms(1,3,4) p put_blob_ok(1) [OF assms(3) p] sync_wf [OF assms(1) p]
      by (auto simp: sync_frame split: if_splits)
  qed
  then show "ctx_wf ctx'" "sender_view ctx' = sender_view ctx" "queue_list (queue ctx') = queue_list (queue ctx)" "stop ctx' = stop ctx"
    "r = None \<Longrightarrow> st_before_send_dropped ctx' = st_before_send_dropped ctx + 1 \<and> \<not> snd (scrub_result e run ctx)"
    "r = Some e' \<Longrightarrow> st_before_send_dropped ctx' = st_before_send_dropped ctx \<and> event_ok e' \<and>
       e' = put_blob e (scrubbed_blob (fst (scrub_result e run ctx)) (ev_blob e))" by blast+
qed

lemma hook_ok_view: "sender_view ctx' = sender_view ctx \<Longrightarrow> hook_ok ctx' = hook_ok ctx"
  unfolding hook_ok_def using sender_viewD(10) [of ctx' ctx] by simp

lemma scrub_not_dropped: "snd (scrub_result e False ctx)"
  by (simp add: scrub_result_def Let_def split: option.split)

text \<open>What the stage did to one event that is still there.\<close>

definition scrubbed_from :: "ph_ctx \<Rightarrow> ph_event \<Rightarrow> ph_event \<Rightarrow> bool" where
  "scrubbed_from ctx e e' \<longleftrightarrow> event_ok e' \<and>
     (e' = e \<and> denylist ctx = [] \<or> (\<exists>run. e' = put_blob e (scrubbed_blob (fst (scrub_result e run ctx)) (ev_blob e))))"

lemma scrub_result_view: "sender_view ctx' = sender_view ctx \<Longrightarrow> scrub_result e run ctx' = scrub_result e run ctx"
  unfolding scrub_result_def using sender_viewD(9,10) [of ctx' ctx] by simp

lemma scrubbed_from_view: "sender_view ctx' = sender_view ctx \<Longrightarrow> scrubbed_from ctx' e e' = scrubbed_from ctx e e'"
  unfolding scrubbed_from_def using sender_viewD(9) [of ctx' ctx] scrub_result_view [of ctx' ctx] by simp

definition scrub_post :: "ph_ctx \<Rightarrow> ph_event list \<Rightarrow> ph_ctx \<Rightarrow> ph_event list \<Rightarrow> bool" where
  "scrub_post ctx evs ctx' evs' \<longleftrightarrow> ctx_wf ctx' \<and> sender_view ctx' = sender_view ctx \<and> queue_list (queue ctx') = queue_list (queue ctx) \<and>
     stop ctx' = stop ctx \<and> length evs' \<le> length evs \<and>
     st_before_send_dropped ctx' = st_before_send_dropped ctx + of_nat (length evs - length evs') \<and>
     (\<forall>e' \<in> set evs'. \<exists>e \<in> set evs. scrubbed_from ctx e e')"

lemma scrub_loop_step:
  assumes "ctx_wf ctx" "hook_ok ctx" "event_ok e"
    and one: "(if has_flag (ev_flags e) PH_EVF_SCRUBBED then if denylist ctx \<noteq> [] then scrub_one e False ctx else (ctx, Some e)
       else scrub_one e True ctx) = (ctx1, r)"
  shows "scrub_post ctx [e] ctx1 (case r of Some e' \<Rightarrow> [e'] | None \<Rightarrow> [])" "has_flag (ev_flags e) PH_EVF_SCRUBBED \<Longrightarrow> r \<noteq> None"
proof -
  have "scrub_post ctx [e] ctx1 (case r of Some e' \<Rightarrow> [e'] | None \<Rightarrow> []) \<and> (has_flag (ev_flags e) PH_EVF_SCRUBBED \<longrightarrow> r \<noteq> None)"
  proof (cases "has_flag (ev_flags e) PH_EVF_SCRUBBED \<and> denylist ctx = []")
    case True
    with one assms show ?thesis by (auto simp: scrub_post_def scrubbed_from_def)
  next
    case False
    define run where "run = (\<not> has_flag (ev_flags e) PH_EVF_SCRUBBED)"
    have s: "scrub_one e run ctx = (ctx1, r)" using one False by (auto simp: run_def split: if_splits)
    note o = scrub_one_ok [OF assms(1-3) s]
    have "\<not> run \<Longrightarrow> r \<noteq> None" using o(5) scrub_not_dropped by (cases run) auto
    then show ?thesis using o by (cases r) (auto simp: scrub_post_def scrubbed_from_def run_def)
  qed
  then show "scrub_post ctx [e] ctx1 (case r of Some e' \<Rightarrow> [e'] | None \<Rightarrow> [])" "has_flag (ev_flags e) PH_EVF_SCRUBBED \<Longrightarrow> r \<noteq> None" by blast+
qed

lemma scrub_post_trans:
  assumes "scrub_post ctx [e] ctx1 a" "scrub_post ctx1 es ctx2 b"
  shows "scrub_post ctx (e # es) ctx2 (a @ b)"
proof -
  have v: "sender_view ctx1 = sender_view ctx" using assms(1) by (simp add: scrub_post_def)
  have l: "length a \<le> 1" "length b \<le> length es" using assms by (simp_all add: scrub_post_def)
  then have "length (e # es) - length (a @ b) = (1 - length a) + (length es - length b)" by simp
  then have "of_nat (length (e # es) - length (a @ b)) = (of_nat (1 - length a) + of_nat (length es - length b) :: u64)"
    by (simp only: of_nat_add)
  then show ?thesis using assms l scrubbed_from_view [OF v] by (auto simp: scrub_post_def)
qed

lemma scrub_loop_post:
  "ctx_wf ctx \<Longrightarrow> hook_ok ctx \<Longrightarrow> list_all event_ok evs \<Longrightarrow> scrub_loop evs ctx = (ctx', evs') \<Longrightarrow> scrub_post ctx evs ctx' evs'"
proof (induction evs arbitrary: ctx ctx' evs')
  case Nil
  then show ?case by (auto simp: scrub_post_def)
next
  case (Cons e es)
  obtain ctx1 r where one: "(if has_flag (ev_flags e) PH_EVF_SCRUBBED then if denylist ctx \<noteq> [] then scrub_one e False ctx else (ctx, Some e)
       else scrub_one e True ctx) = (ctx1, r)" (is "?o = _") by (cases ?o)
  obtain ctx2 b where two: "scrub_loop es ctx1 = (ctx2, b)" by (cases "scrub_loop es ctx1")
  have e: "event_ok e" "list_all event_ok es" using Cons.prems(3) by simp_all
  note s = scrub_loop_step [OF Cons.prems(1,2) e(1) one]
  have c1: "ctx_wf ctx1" "hook_ok ctx1"
    using s(1) Cons.prems(2) hook_ok_view [of ctx1 ctx] by (simp_all add: scrub_post_def)
  have "ctx' = ctx2 \<and> evs' = (case r of Some e' \<Rightarrow> [e'] | None \<Rightarrow> []) @ b"
  proof (cases "has_flag (ev_flags e) PH_EVF_SCRUBBED")
    case True
    with s(2) obtain e' where "r = Some e'" by auto
    with True one two Cons.prems(4) show ?thesis by auto
  next
    case False
    with one two Cons.prems(4) show ?thesis by (cases r) auto
  qed
  with scrub_post_trans [OF s(1) Cons.IH [OF c1 e(2) two]] show ?case by simp
qed

lemma scrub_events_post:
  assumes "ctx_wf ctx" "hook_ok ctx" "list_all event_ok evs" "scrub_events evs ctx = (ctx', evs')"
  shows "scrub_post ctx evs ctx' evs'"
proof (cases "before_send ctx = None \<and> denylist ctx = []")
  case True
  with assms show ?thesis by (auto simp: scrub_events_def scrub_post_def scrubbed_from_def list_all_iff)
next
  case False
  with assms show ?thesis by (intro scrub_loop_post) (auto simp: scrub_events_def split: if_splits)
qed


lemma scrub_one_hook: "before_send (fst (scrub_one e run ctx)) = before_send ctx"
proof (cases rule: scrub_one_cases [of e run ctx])
  case (keep gt gk)
  then show ?thesis
    using sender_viewD(10) [OF sync_frame(1) [of e "fst (scrub_result e run ctx)" gt gk ctx]] by simp
qed simp

lemma scrub_one_no_hook:
  assumes "before_send ctx = None"
  obtains ctx1 e' where "scrub_one e run ctx = (ctx1, Some e')" "before_send ctx1 = None"
proof (cases rule: scrub_one_cases [of e run ctx])
  case drop
  then show thesis using assms by (simp add: scrub_result_def Let_def)
next
  case (keep gt gk)
  then show thesis using that scrub_one_hook [of e run ctx] assms by simp
qed

lemma scrub_loop_length: "before_send ctx = None \<Longrightarrow> length (snd (scrub_loop es ctx)) = length es"
proof (induction es arbitrary: ctx)
  case (Cons e es)
  obtain c1 e1 where a: "scrub_one e False ctx = (c1, Some e1)" "before_send c1 = None" by (rule scrub_one_no_hook [OF Cons.prems])
  obtain c2 e2 where b: "scrub_one e True ctx = (c2, Some e2)" "before_send c2 = None" by (rule scrub_one_no_hook [OF Cons.prems])
  show ?case using a b Cons by (simp split: prod.split) (metis snd_conv)
qed simp

lemma prop_entry_key: "fst (snd (prop_entry it)) = prop_key it"
  by (simp add: prop_entry_def split: ph_val.split)

lemma scrubbed_clean:
  assumes "before_send ctx = None" "event_ok e" "scrubbed_from ctx e e'"
  shows "ev_name e' = ev_name e \<and> ev_did e' = ev_did e \<and> ev_kind e' = ev_kind e \<and>
     (\<forall>x \<in> set (blob_entries (ev_blob e')). fst x \<le> 3 \<longrightarrow> fst (snd x) \<notin> set (denylist ctx)) \<and>
     {x \<in> set (blob_entries (ev_blob e')). \<not> fst x \<le> 3} \<subseteq> set (blob_entries (ev_blob e))"
proof (cases "e' = e \<and> denylist ctx = []")
  case False
  then obtain run where r: "e' = put_blob e (scrubbed_blob (fst (scrub_result e run ctx)) (ev_blob e))"
    using assms(3) by (auto simp: scrubbed_from_def)
  have h: "hook_ok ctx" using assms(1) by (simp add: hook_ok_def)
  have wf: "event_wf e" using assms(2) by (simp add: event_ok_def)
  let ?its = "p_items (fst (scrub_result e run ctx))"
  have sub: "set (blob_entries (ev_blob e')) \<subseteq> prop_entry ` set ?its \<union> {x \<in> set (blob_entries (ev_blob e)). \<not> fst x \<le> 3}"
    unfolding r by (rule put_blob_ok(2) [OF assms(2) scrub_result_wf [OF assms(2) h]])
  have items: "prop_key it \<notin> set (denylist ctx)" if "it \<in> set ?its" for it
    using that by (simp add: scrub_result_def Let_def assms(1) deny_fold)
  have scalar: "fst (prop_entry it) \<le> 3" if "it \<in> set ?its" for it
  proof -
    have "prop_wf it" using that scrub_result_wf [OF assms(2) h, of run] by (simp add: props_wf_def list_all_iff)
    then show ?thesis by (cases "prop_val it") (simp_all add: prop_entry_def prop_wf_def)
  qed
  show ?thesis
  proof (intro conjI ballI impI subsetI)
    fix x assume "x \<in> set (blob_entries (ev_blob e'))" "fst x \<le> 3"
    with sub obtain it where "it \<in> set ?its" "x = prop_entry it" by auto
    with items show "fst (snd x) \<notin> set (denylist ctx)" by (simp add: prop_entry_key)
  next
    fix x assume "x \<in> {x \<in> set (blob_entries (ev_blob e')). \<not> fst x \<le> 3}"
    with sub scalar show "x \<in> set (blob_entries (ev_blob e))" by auto
  qed (simp_all add: r put_blob_regions [OF wf])
qed auto

section \<open>Properties\<close>


definition level_event :: ph_event where
  "level_event = submit_record PH_EV_CAPTURE 0 ''jump'' None
     (Some (props_put_str (props_put_str ph_props_init ''email'' ''a@b'') ''level'' ''3'')) (-1) True None 0 0 sample_ctx"


end
