(* ===== verification/Ph_Spill.thy ===== *)
theory Ph_Spill
  imports Ph_Scrub
begin

text \<open>
  The offline spill file of \<^verbatim>\<open>src/ph_native.c\<close>: newline-delimited request bodies under
  the configured directory. \<open>write_atomic\<close>, \<open>offline_enforce_cap\<close> and \<open>offline_spill\<close> work on the
  file system of theory \<open>Ph_Crash\<close> (a map from paths to contents); the outcome of each system call
  is an argument, so every partial failure of the code is a branch here. The facts count records:
  dropping the oldest lines moves exactly their events to the failed counter, and a record that is
  reported written adds exactly the events of its body.
\<close>

section \<open>Files\<close>

definition PH_OFFLINE_FILENAME :: string where "PH_OFFLINE_FILENAME = ''ph-offline.ndjson''"

abbreviation LF :: char where "LF \<equiv> CHR 0x0A"

text \<open>
  The outcomes of the system calls of one \<open>write_atomic\<close> and of one \<open>offline_spill\<close>.
  \<open>sp_written\<close> is how many bytes of the record and its newline reached the file.
\<close>

record atomic_io =
  ai_open :: bool
  ai_write :: bool
  ai_close :: bool
  ai_rename :: bool
  ai_dirsync :: bool

record spill_io =
  cap_open :: bool
  cap_mem :: bool
  cap_read :: bool
  cap_atomic :: atomic_io
  sp_mkdir :: bool
  sp_open :: bool
  sp_written :: nat
  sp_flush :: bool
  sp_trunc :: bool
  sp_close :: bool
  sp_dirsync :: bool

definition write_atomic :: "atomic_io \<Rightarrow> string \<Rightarrow> bytes \<Rightarrow> files \<Rightarrow> files \<times> bool" where
  "write_atomic io path data fs =
     (let tmp = snprintf_trunc (PH_PATH_CAP + 48) (path @ ''.tmp'')
      in if \<not> ai_open io then (fs, False)
         else let fs1 = fs(tmp \<mapsto> data);
                  ok = (data = [] \<or> ai_write io);
                  ok = (ok \<and> ai_close io);
                  renamed = (ok \<and> ai_rename io);
                  fs2 = (if renamed then fs1(path := fs1 tmp, tmp := None) else fs1);
                  ok = (renamed \<and> ai_dirsync io)
              in (if ok then fs2 else fs2(tmp := None), ok))"

fun strip_seps :: "string \<Rightarrow> string" where
  "strip_seps [] = []"
| "strip_seps (c # cs) = (if c = CHR ''/'' \<or> c = CHR 0x5C then strip_seps cs else c # cs)"

definition offline_spill_path :: "ph_ctx \<Rightarrow> string" where
  "offline_spill_path ctx =
     snprintf_trunc (PH_PATH_CAP + 32) (rev (strip_seps (rev (offline_path ctx))) @ ''/'' @ PH_OFFLINE_FILENAME)"

definition file_size :: "string \<Rightarrow> files \<Rightarrow> int" where
  "file_size path fs = (case fs path of None \<Rightarrow> -1 | Some c \<Rightarrow> int (length c))"

definition batch_event_count :: "'d dbl_ops \<Rightarrow> bytes \<Rightarrow> nat" where
  "batch_event_count D body =
     (case ph_jv_parse D body of None \<Rightarrow> 0
      | Some doc \<Rightarrow> let batch = ph_jv_get (Some doc) ''batch''
                    in if ph_jv_type_of batch = PH_JV_ARR then ph_jv_len batch else 0)"

text \<open>\<open>line\<close> is \<open>buf[start..i)\<close>.\<close>

fun count_from :: "'d dbl_ops \<Rightarrow> bytes \<Rightarrow> bytes \<Rightarrow> u64 \<Rightarrow> u64" where
  "count_from D line [] n = n"
| "count_from D line (c # cs) n =
     (if c \<noteq> LF then count_from D (line @ [c]) cs n
      else count_from D [] cs (if line \<noteq> [] then n + of_nat (batch_event_count D line) else n))"

definition event_count_in_lines :: "'d dbl_ops \<Rightarrow> bytes \<Rightarrow> u64" where
  "event_count_in_lines D buf = count_from D [] buf 0"

definition cap_drop :: "bytes \<Rightarrow> nat \<Rightarrow> nat" where
  "cap_drop buf incoming =
     (let rd = length buf;
          target = (if incoming + 1 < PH_OFFLINE_MAX_BYTES then PH_OFFLINE_MAX_BYTES - incoming - 1 else 0);
          d = (if target < rd then rd - target else 0);
          d = d + length (takeWhile (\<lambda>c. c \<noteq> LF) (drop d buf))
      in if d < rd then d + 1 else d)"

definition offline_enforce_cap ::
  "'d dbl_ops \<Rightarrow> spill_io \<Rightarrow> string \<Rightarrow> nat \<Rightarrow> ph_ctx \<Rightarrow> files \<Rightarrow> ph_ctx \<times> files \<times> bool" where
  "offline_enforce_cap D io path incoming ctx fs =
     (if PH_OFFLINE_MAX_BYTES \<le> incoming then (ctx, fs, False)
      else case fs path of None \<Rightarrow> (ctx, fs, True)
      | Some buf \<Rightarrow>
          if length buf + incoming + 1 \<le> PH_OFFLINE_MAX_BYTES then (ctx, fs, True)
          else if \<not> cap_open io \<or> \<not> cap_mem io \<or> \<not> cap_read io then (ctx, fs, False)
          else let d = cap_drop buf incoming;
                   dropped_events = (if 0 < d then event_count_in_lines D (take d buf) else 0);
                   (fs, ok) = write_atomic (cap_atomic io) path (drop d buf) fs
               in if \<not> ok then (ctx, fs, False)
                  else (if dropped_events \<noteq> 0 then ctx\<lparr>st_failed := st_failed ctx + dropped_events\<rparr> else ctx, fs, True))"

definition offline_spill :: "'d dbl_ops \<Rightarrow> spill_io \<Rightarrow> bytes \<Rightarrow> ph_ctx \<Rightarrow> files \<Rightarrow> ph_ctx \<times> files \<times> bool" where
  "offline_spill D io body ctx fs =
     (if offline_path ctx = [] \<or> body = [] then (ctx, fs, False)
      else if \<not> sp_mkdir io then (ctx, fs, False)
      else let path = offline_spill_path ctx;
               (ctx, fs, room) = offline_enforce_cap D io path (length body) ctx fs
           in if \<not> room then (ctx, fs, False)
              else let start = file_size path fs
                   in if \<not> sp_open io then (ctx, fs, False)
                      else let old = (case fs path of None \<Rightarrow> [] | Some c \<Rightarrow> c);
                               ok = (length body + 1 \<le> sp_written io);
                               torn = (\<not> ok \<or> \<not> sp_flush io);
                               fs = fs(path \<mapsto> (if torn \<and> sp_trunc io then take (if start < 0 then 0 else nat start) old
                                                else old @ take (sp_written io) (body @ [LF])));
                               ok = (\<not> torn \<and> sp_close io);
                               ok = (ok \<and> (start < 0 \<longrightarrow> sp_dirsync io))
                           in (ctx, fs, ok))"

section \<open>Facts: counting records\<close>

lemma count_from_add: "count_from D line buf n = n + count_from D line buf 0"
proof (induction buf arbitrary: line n)
  case (Cons c cs)
  show ?case
    using Cons [of "line @ [c]" n] Cons [of "[]" "n + of_nat (batch_event_count D line)"] Cons [of "[]" "of_nat (batch_event_count D line)"]
      Cons [of "[]" n] by (simp add: add.assoc)
qed simp

lemma count_line: "LF \<notin> set l \<Longrightarrow> count_from D line (l @ LF # r) n =
    count_from D [] r (if line @ l \<noteq> [] then n + of_nat (batch_event_count D (line @ l)) else n)"
proof (induction l arbitrary: line)
  case (Cons c l)
  from Cons.IH [of "line @ [c]"] Cons.prems show ?case by auto
qed simp

lemma count_tail: "LF \<notin> set l \<Longrightarrow> count_from D line l n = n"
  by (induction l arbitrary: line) auto

lemma count_split: "count_from D line (a @ LF # b) 0 = count_from D line (a @ [LF]) 0 + event_count_in_lines D b"
proof (induction a arbitrary: line)
  case Nil
  show ?case using count_from_add [of D "[]" b "of_nat (batch_event_count D line)"] by (simp add: event_count_in_lines_def)
next
  case (Cons c a)
  show ?case
  proof (cases "c = LF")
    case True
    define k :: u64 where "k = (if line \<noteq> [] then of_nat (batch_event_count D line) else 0)"
    have "count_from D line ((c # a) @ x) 0 = k + count_from D [] (a @ x) 0" for x
      using count_from_add [of D "[]" "a @ x" k] True by (cases "line = []") (simp_all add: k_def)
    from this [of "LF # b"] this [of "[LF]"] Cons [of "[]"] show ?thesis by (simp add: add.assoc)
  next
    case False
    with Cons [of "line @ [c]"] show ?thesis by simp
  qed
qed

text \<open>A file is clean when every record in it is newline-terminated.\<close>

definition clean :: "bytes \<Rightarrow> bool" where
  "clean buf \<longleftrightarrow> buf = [] \<or> last buf = LF"

lemma events_append:
  assumes "clean a"
  shows "event_count_in_lines D (a @ b) = event_count_in_lines D a + event_count_in_lines D b"
proof (cases "a = []")
  case False
  with assms have "a = butlast a @ [LF]" by (metis clean_def append_butlast_last_id)
  then show ?thesis using count_split [of D "[]" "butlast a" b] by (metis append.assoc append_Cons append_Nil event_count_in_lines_def)
qed (simp add: event_count_in_lines_def)

lemma events_record:
  "LF \<notin> set body \<Longrightarrow> body \<noteq> [] \<Longrightarrow> event_count_in_lines D (body @ [LF]) = of_nat (batch_event_count D body)"
  using count_line [of body D "[]" "[]" 0] by (simp add: event_count_in_lines_def)

lemma cap_drop_split:
  assumes "clean buf"
  shows "event_count_in_lines D buf = event_count_in_lines D (take (cap_drop buf n) buf) + event_count_in_lines D (drop (cap_drop buf n) buf)"
    and "clean (drop (cap_drop buf n) buf)"
proof -
  define d0 where "d0 = (let target = (if n + 1 < PH_OFFLINE_MAX_BYTES then PH_OFFLINE_MAX_BYTES - n - 1 else 0)
     in if target < length buf then length buf - target else 0)"
  define d where "d = d0 + length (takeWhile (\<lambda>c. c \<noteq> LF) (drop d0 buf))"
  have cd: "cap_drop buf n = (if d < length buf then d + 1 else d)" by (simp add: cap_drop_def d_def d0_def Let_def)
  have cl: "clean (take (cap_drop buf n) buf)"
  proof (cases "d < length buf")
    case True
    have "d0 \<le> length buf" using True by (simp add: d_def)
    then have "length (takeWhile (\<lambda>c. c \<noteq> LF) (drop d0 buf)) < length (drop d0 buf)" using True by (simp add: d_def)
    from nth_length_takeWhile [OF this] have "buf ! d = LF" using \<open>d0 \<le> length buf\<close> by (simp add: d_def)
    then have "take (d + 1) buf = take d buf @ [LF]" using True by (simp add: take_Suc_conv_app_nth)
    then show ?thesis using True by (simp add: cd clean_def)
  next
    case False
    then have "take (cap_drop buf n) buf = buf" by (simp add: cd)
    with assms show ?thesis by simp
  qed
  from events_append [OF cl] show "event_count_in_lines D buf = event_count_in_lines D (take (cap_drop buf n) buf) + event_count_in_lines D (drop (cap_drop buf n) buf)"
    by (metis append_take_drop_id)
  show "clean (drop (cap_drop buf n) buf)" using assms by (cases "cap_drop buf n < length buf") (auto simp: clean_def last_drop)
qed


section \<open>Facts: spilling\<close>

definition spilled :: "'d dbl_ops \<Rightarrow> ph_ctx \<Rightarrow> files \<Rightarrow> u64" where
  "spilled D ctx fs = (case fs (offline_spill_path ctx) of None \<Rightarrow> 0 | Some c \<Rightarrow> event_count_in_lines D c)"

definition spill_clean :: "ph_ctx \<Rightarrow> files \<Rightarrow> bool" where
  "spill_clean ctx fs \<longleftrightarrow> pred_option clean (fs (offline_spill_path ctx))"

text \<open>
  What the accounting asks of the file system: an operation that fails leaves the file as it was.
  A rename that succeeds is followed by a directory sync that succeeds, a failed append is rolled
  back, and a file that was flushed closes.
\<close>

definition atomic_clean :: "atomic_io \<Rightarrow> bool" where
  "atomic_clean io \<longleftrightarrow> ai_dirsync io"

definition io_clean :: "spill_io \<Rightarrow> bool" where
  "io_clean io \<longleftrightarrow> atomic_clean (cap_atomic io) \<and> sp_trunc io \<and> sp_close io \<and> sp_dirsync io"

lemma spill_path_length: "length (offline_spill_path ctx) < PH_PATH_CAP + 32"
  by (simp add: offline_spill_path_def snprintf_trunc_def caps)

lemma tmp_path_neq:
  assumes "length path < PH_PATH_CAP + 32"
  shows "snprintf_trunc (PH_PATH_CAP + 48) (path @ ''.tmp'') \<noteq> path"
  using assms by (simp add: snprintf_trunc_def caps)

lemma write_atomic_clean:
  assumes "atomic_clean io" "length path < PH_PATH_CAP + 32" "write_atomic io path data fs = (fs', ok)"
  shows "fs' path = (if ok then Some data else fs path)"
  using assms(1,3) tmp_path_neq [OF assms(2)]
  by (auto simp: write_atomic_def Let_def atomic_clean_def split: if_splits)

lemma enforce_cap_cases:
  assumes "offline_enforce_cap D io path n ctx fs = (ctx', fs', ok)"
  obtains (same) "ctx' = ctx" "fs' = fs"
  | (cut) buf where "fs path = Some buf" "write_atomic (cap_atomic io) path (drop (cap_drop buf n) buf) fs = (fs', ok)"
     "ctx' = (if ok then ctx\<lparr>st_failed := st_failed ctx + event_count_in_lines D (take (cap_drop buf n) buf)\<rparr> else ctx)"
proof (cases "fs path")
  case None
  with assms show thesis by (intro same) (simp_all add: offline_enforce_cap_def split: if_splits)
next
  case (Some buf)
  show thesis
  proof (cases "PH_OFFLINE_MAX_BYTES \<le> n \<or> length buf + n + 1 \<le> PH_OFFLINE_MAX_BYTES \<or> \<not> cap_open io \<or> \<not> cap_mem io \<or> \<not> cap_read io")
    case True
    with assms Some show thesis by (intro same) (simp_all add: offline_enforce_cap_def split: if_splits)
  next
    case False
    obtain fs1 wok where w: "write_atomic (cap_atomic io) path (drop (cap_drop buf n) buf) fs = (fs1, wok)"
      by (cases "write_atomic (cap_atomic io) path (drop (cap_drop buf n) buf) fs")
    have z: "event_count_in_lines D (take 0 buf) = 0" by (simp add: event_count_in_lines_def)
    have "offline_enforce_cap D io path n ctx fs =
        ((if wok then ctx\<lparr>st_failed := st_failed ctx + event_count_in_lines D (take (cap_drop buf n) buf)\<rparr> else ctx), fs1, wok)"
      using False Some w z by (cases "cap_drop buf n = 0") (simp_all add: offline_enforce_cap_def Let_def)
    with assms w show thesis by (intro cut [OF Some]) auto
  qed
qed

lemma enforce_cap_accounts:
  assumes "spill_clean ctx fs" "io_clean io" "offline_enforce_cap D io (offline_spill_path ctx) n ctx fs = (ctx', fs', ok)"
  shows "ctx' = ctx\<lparr>st_failed := st_failed ctx'\<rparr>" "st_failed ctx' + spilled D ctx fs' = st_failed ctx + spilled D ctx fs" "spill_clean ctx fs'"
proof -
  let ?p = "offline_spill_path ctx"
  have "ctx' = ctx\<lparr>st_failed := st_failed ctx'\<rparr> \<and> st_failed ctx' + spilled D ctx fs' = st_failed ctx + spilled D ctx fs \<and> spill_clean ctx fs'"
  proof (cases rule: enforce_cap_cases [OF assms(3)])
    case 1
    with assms(1) show ?thesis by simp
  next
    case (2 buf)
    have "clean buf" using assms(1) 2(1) by (simp add: spill_clean_def)
    note cs = cap_drop_split(1) [OF this, of D n] cap_drop_split(2) [OF this, of n]
    have p: "fs' ?p = (if ok then Some (drop (cap_drop buf n) buf) else fs ?p)"
      using write_atomic_clean [OF _ spill_path_length 2(2)] assms(2) by (simp add: io_clean_def)
    show ?thesis
    proof (cases ok)
      case True
      then show ?thesis using p 2(1,3) cs by (simp add: spilled_def spill_clean_def)
    next
      case False
      then show ?thesis using p 2(3) assms(1) by (simp add: spilled_def spill_clean_def)
    qed
  qed
  then show "ctx' = ctx\<lparr>st_failed := st_failed ctx'\<rparr>" "st_failed ctx' + spilled D ctx fs' = st_failed ctx + spilled D ctx fs" "spill_clean ctx fs'" by blast+
qed

lemma spilled_failed [simp]: "spilled D (ctx\<lparr>st_failed := x\<rparr>) fs = spilled D ctx fs" "spill_clean (ctx\<lparr>st_failed := x\<rparr>) fs = spill_clean ctx fs"
  "offline_spill_path (ctx\<lparr>st_failed := x\<rparr>) = offline_spill_path ctx"
  by (simp_all add: spilled_def spill_clean_def offline_spill_path_def)

lemma spill_accounts:
  assumes "spill_clean ctx fs" "io_clean io" "LF \<notin> set body" "offline_spill D io body ctx fs = (ctx', fs', ok)"
  shows "ctx' = ctx\<lparr>st_failed := st_failed ctx'\<rparr> \<and> spill_clean ctx fs' \<and>
    st_failed ctx' + spilled D ctx fs' = st_failed ctx + spilled D ctx fs + (if ok then of_nat (batch_event_count D body) else 0)"
proof (cases "offline_path ctx = [] \<or> body = [] \<or> \<not> sp_mkdir io")
  case True
  with assms(4) have "ctx' = ctx" "fs' = fs" "\<not> ok" by (auto simp: offline_spill_def split: if_splits)
  with assms(1) show ?thesis by simp
next
  case False
  let ?p = "offline_spill_path ctx"
  obtain ctx1 fs1 room where c: "offline_enforce_cap D io ?p (length body) ctx fs = (ctx1, fs1, room)"
    by (cases "offline_enforce_cap D io ?p (length body) ctx fs")
  note ec = enforce_cap_accounts [OF assms(1,2) c]
  show ?thesis
  proof (cases "room \<and> sp_open io")
    case False
    with \<open>\<not> (offline_path ctx = [] \<or> body = [] \<or> \<not> sp_mkdir io)\<close> assms(4) c have "ctx' = ctx1" "fs' = fs1" "\<not> ok"
      by (auto simp: offline_spill_def Let_def split: if_splits)
    with ec show ?thesis by simp
  next
    case True
    define old where "old = (case fs1 ?p of None \<Rightarrow> [] | Some x \<Rightarrow> x)"
    define torn where "torn = (\<not> length body + 1 \<le> sp_written io \<or> \<not> sp_flush io)"
    have old: "clean old" "spilled D ctx fs1 = event_count_in_lines D old"
      using ec(3) by (auto simp: old_def spill_clean_def spilled_def clean_def event_count_in_lines_def split: option.split)
    have rolled: "take (if file_size ?p fs1 < 0 then 0 else nat (file_size ?p fs1)) old = old"
      by (auto simp: file_size_def old_def split: option.split)
    have r: "ctx' = ctx1" "fs' = fs1(?p \<mapsto> (if torn then old else old @ body @ [LF]))" "ok = (\<not> torn)"
      using assms(2,4) True False c rolled
      by (auto simp: offline_spill_def Let_def torn_def [symmetric] old_def [symmetric] io_clean_def) (auto simp: torn_def)
    have ev: "event_count_in_lines D (old @ body @ [LF]) = spilled D ctx fs1 + of_nat (batch_event_count D body)"
      using events_append [OF old(1), of D "body @ [LF]"] events_record [OF assms(3), of D] False old(2) by simp
    have "spilled D ctx fs' = spilled D ctx fs1 + (if ok then of_nat (batch_event_count D body) else 0)"
      using ev old(2) r(2,3) by (simp add: spilled_def)
    moreover have "spill_clean ctx fs'" using r(2) old(1) by (auto simp: spill_clean_def clean_def)
    ultimately show ?thesis using ec r(1) by (simp add: add.assoc [symmetric]) 
  qed
qed

end
