(* ===== verification/Ph_Sender.thy ===== *)
theory Ph_Sender
  imports Ph_Spill
begin

text \<open>
  The delivery pipeline of \<^verbatim>\<open>src/ph_native.c\<close>: posting a body and reading the answer,
  replaying the spill file, retrying with backoff, serializing and splitting a run, and draining
  the queue. The sender is one thread; what it meets (clock readings, answers, outcomes, and what
  other threads do to the shared context while it holds no lock) comes from a \<open>sender_env\<close>, call by
  call. The facts are an accounting invariant kept by every stage (\<open>shifts\<close>, \<open>balanced\<close>): where the
  events are, which acknowledged bodies are counted as sent, and what is known of the answers; and
  the termination of the two drain loops.
\<close>

section \<open>The sender's world\<close>

text \<open>
  What the sender meets, call by call: the readings of the two clocks, the transport's answers,
  the outcomes of file operations and of serialization allocations, and what the other threads
  do to the context at the points where the sender waits (during a POST, a backoff sleep, or
  between two batches). The \<open>k\<close>-th call of a kind gets the \<open>k\<close>-th answer.
\<close>

record sender_env =
  env_mono :: "nat \<Rightarrow> u64"
  env_wall :: "nat \<Rightarrow> u64"
  env_send :: "(nat \<Rightarrow> string \<Rightarrow> bytes \<Rightarrow> int \<Rightarrow> int \<times> ph_send_meta) option"
  env_spill :: "nat \<Rightarrow> spill_io"
  env_rewrite :: "nat \<Rightarrow> atomic_io"
  env_oom :: "nat \<Rightarrow> bool"
  env_others :: "nat \<Rightarrow> ph_ctx \<Rightarrow> ph_ctx"

text \<open>The sender's state: the context, the files, how many calls of each kind were made, the bodies
  handed to the transport with its status, and the number of events taken off the queue.\<close>

record sender =
  sd_ctx :: ph_ctx
  sd_files :: files
  sd_ticks :: nat
  sd_sends :: nat
  sd_spills :: nat
  sd_rewrites :: nat
  sd_bodies :: nat
  sd_turns :: nat
  sd_posted :: "(bytes \<times> int) list"
  sd_popped :: nat

definition read_mono :: "sender_env \<Rightarrow> sender \<Rightarrow> u64 \<times> sender" where
  "read_mono E s = (env_mono E (sd_ticks s), s\<lparr>sd_ticks := Suc (sd_ticks s)\<rparr>)"

definition others :: "sender_env \<Rightarrow> sender \<Rightarrow> sender" where
  "others E s = s\<lparr>sd_ctx := env_others E (sd_turns s) (sd_ctx s), sd_turns := Suc (sd_turns s)\<rparr>"

definition on_ctx :: "(ph_ctx \<Rightarrow> ph_ctx) \<Rightarrow> sender \<Rightarrow> sender" where
  "on_ctx f s = s\<lparr>sd_ctx := f (sd_ctx s)\<rparr>"

definition add_sent :: "nat \<Rightarrow> sender \<Rightarrow> sender" where
  "add_sent n = on_ctx (\<lambda>c. c\<lparr>st_sent := st_sent c + of_nat n\<rparr>)"

definition add_failed :: "nat \<Rightarrow> sender \<Rightarrow> sender" where
  "add_failed n = on_ctx (\<lambda>c. c\<lparr>st_failed := st_failed c + of_nat n\<rparr>)"

section \<open>Posting\<close>

definition build_batch_url :: "ph_ctx \<Rightarrow> string" where
  "build_batch_url ctx = snprintf_trunc (PH_HOST_CAP + 16) (strip_slashes (api_host ctx) @ ''/batch/'')"

definition shutdown_deadline :: "ph_ctx \<Rightarrow> u64" where
  "shutdown_deadline ctx = (if stop ctx then shutdown_deadline_mono_ns ctx else 0)"

definition shutdown_deadline_expired :: "sender_env \<Rightarrow> sender \<Rightarrow> bool \<times> sender" where
  "shutdown_deadline_expired E s =
     (let deadline = shutdown_deadline (sd_ctx s)
      in if deadline = 0 then (False, s)
         else let (now, s) = read_mono E s in (deadline \<le> now, s))"

definition no_meta :: ph_send_meta where
  "no_meta = \<lparr>sm_retry_after = [], sm_body = []\<rparr>"

text \<open>The timeout for the POST: \<open>None\<close> when the shutdown budget is used up.\<close>

definition post_timeout :: "sender_env \<Rightarrow> sender \<Rightarrow> int option \<times> sender" where
  "post_timeout E s =
     (let timeout_ms = request_timeout_ms (sd_ctx s); deadline = shutdown_deadline (sd_ctx s)
      in if deadline = 0 then (Some timeout_ms, s)
         else let (now, s) = read_mono E s
              in if deadline \<le> now then (None, s)
                 else let remaining_ms = (deadline - now) div 1000000
                      in if remaining_ms = 0 then (None, s)
                         else (Some (if remaining_ms < of_int timeout_ms then int (unat remaining_ms) else timeout_ms), s))"

definition post_body :: "sender_env \<Rightarrow> bytes \<Rightarrow> sender \<Rightarrow> (int \<times> ph_send_meta) \<times> sender" where
  "post_body E body s =
     (case env_send E of None \<Rightarrow> ((-1, no_meta), s)
      | Some send \<Rightarrow>
          (case post_timeout E s of
             (None, s) \<Rightarrow> ((-1, no_meta), s)
           | (Some timeout_ms, s) \<Rightarrow>
               let (status, meta) = send (sd_sends s) (build_batch_url (sd_ctx s)) body timeout_ms;
                   s = s\<lparr>sd_sends := Suc (sd_sends s), sd_posted := sd_posted s @ [(body, status)]\<rparr>
               in ((status, meta), others E s)))"

definition quota_limited_events :: "string \<Rightarrow> bool" where
  "quota_limited_events body \<longleftrightarrow> body \<noteq> [] \<and> strstr_c ''quota_limited'' body \<and> strstr_c ''\"events\"'' body"

definition is_2xx :: "int \<Rightarrow> bool" where
  "is_2xx status \<longleftrightarrow> 200 \<le> status \<and> status < 300"

definition post_and_note :: "sender_env \<Rightarrow> bytes \<Rightarrow> sender \<Rightarrow> int \<times> sender" where
  "post_and_note E body s =
     (let ((status, meta), s) = post_body E body s
      in if status = 429 \<or> status = 503 then
           (let (now, s) = read_mono E s
            in (status, on_ctx (\<lambda>c. c\<lparr>server_rl := fst (ph_ratelimit_note_response (server_rl c) status
                                        (Some (sm_retry_after meta)) now (env_wall E (sd_ticks s)))\<rparr>) s))
         else if is_2xx status \<and> quota_limited_events (sm_body meta) then
           (let (now, s) = read_mono E s
            in (status, on_ctx (\<lambda>c. c\<lparr>server_rl := ph_ratelimit_arm (server_rl c) PH_RL_DEFAULT_BACKOFF_MS now\<rparr>) s))
         else (status, s))"

definition blocked :: "sender_env \<Rightarrow> sender \<Rightarrow> bool \<times> sender" where
  "blocked E s = (let (now, s) = read_mono E s in (ph_ratelimit_blocked (server_rl (sd_ctx s)) now, s))"

definition is_permanent_reject :: "int \<Rightarrow> bool" where
  "is_permanent_reject status \<longleftrightarrow> 400 \<le> status \<and> status < 500 \<and> status \<noteq> 408 \<and> status \<noteq> 429"

section \<open>The spill file\<close>

definition spill :: "'d dbl_ops \<Rightarrow> sender_env \<Rightarrow> bytes \<Rightarrow> sender \<Rightarrow> bool \<times> sender" where
  "spill D E body s =
     (let (ctx, fs, ok) = offline_spill D (env_spill E (sd_spills s)) body (sd_ctx s) (sd_files s)
      in (ok, s\<lparr>sd_ctx := ctx, sd_files := fs, sd_spills := Suc (sd_spills s)\<rparr>))"

text \<open>One complete, non-empty line of the file: whether it is kept and whether the replay goes on.\<close>

definition replay_line :: "'d dbl_ops \<Rightarrow> sender_env \<Rightarrow> bytes \<Rightarrow> bool \<Rightarrow> sender \<Rightarrow> (bool \<times> bool) \<times> sender" where
  "replay_line D E line stopped s =
     (let events = batch_event_count D line;
          (stopped, s) = (if \<not> stopped then shutdown_deadline_expired E s else (stopped, s))
      in if stopped then ((True, True), s)
         else if 0 < max_batch_bytes (sd_ctx s) \<and> nat (max_batch_bytes (sd_ctx s)) < length line then
           ((False, False), if 0 < events then add_failed events s else s)
         else let (status, s) = post_and_note E line s
              in if is_2xx status then
                   (let s = (if 0 < events then add_sent events s else s); (b, s) = blocked E s in ((False, b), s))
                 else if is_permanent_reject status then ((False, False), if 0 < events then add_failed events s else s)
                 else ((True, True), s))"

fun replay_loop :: "'d dbl_ops \<Rightarrow> sender_env \<Rightarrow> bytes \<Rightarrow> bytes \<Rightarrow> bool \<Rightarrow> bytes \<Rightarrow> sender \<Rightarrow> bytes \<times> sender" where
  "replay_loop D E [] line stopped keep s = (keep, s)"
| "replay_loop D E (c # cs) line stopped keep s =
     (if c \<noteq> LF then replay_loop D E cs (line @ [c]) stopped keep s
      else if line = [] then replay_loop D E cs [] stopped keep s
      else let ((keep_line, stopped), s) = replay_line D E line stopped s
           in replay_loop D E cs [] stopped (if keep_line then keep @ line @ [LF] else keep) s)"

text \<open>The file is read whole; \<open>remove\<close> of the drained file succeeds.\<close>

definition offline_replay :: "'d dbl_ops \<Rightarrow> sender_env \<Rightarrow> sender \<Rightarrow> sender" where
  "offline_replay D E s =
     (if offline_path (sd_ctx s) = [] then s
      else let (expired, s) = shutdown_deadline_expired E s
           in if expired then s
              else let path = offline_spill_path (sd_ctx s)
                   in case sd_files s path of None \<Rightarrow> s
                      | Some buf \<Rightarrow>
                          if buf = [] then s
                          else let (keep, s) = replay_loop D E buf [] False [] s
                               in if keep = [] then s\<lparr>sd_files := (sd_files s)(path := None)\<rparr>
                                  else let (fs, ok) = write_atomic (env_rewrite E (sd_rewrites s)) path keep (sd_files s)
                                       in s\<lparr>sd_files := fs, sd_rewrites := Suc (sd_rewrites s)\<rparr>)"

section \<open>Sending\<close>

text \<open>
  The wait looks at \<open>stop\<close> before each nap of at most 50 ms; other threads run during a nap.
\<close>

function sender_backoff_wait :: "sender_env \<Rightarrow> int \<Rightarrow> int \<Rightarrow> sender \<Rightarrow> bool \<times> sender" where
  "sender_backoff_wait E ms slept s =
     (if slept < ms then
        (if stop (sd_ctx s) then (True, s)
         else sender_backoff_wait E ms (slept + (if 50 < ms - slept then 50 else ms - slept)) (others E s))
      else (False, s))"
  by pat_completeness auto
termination by (relation "measure (\<lambda>(E, ms, slept, s). nat (ms - slept))") auto

declare sender_backoff_wait.simps [simp del]

definition PH_RETRY_BASE_MS :: int where "PH_RETRY_BASE_MS = 100"
definition PH_RETRY_MAX_MS :: int where "PH_RETRY_MAX_MS = 2000"

definition retry_backoff :: "nat \<Rightarrow> int" where
  "retry_backoff attempt =
     (let shift = (if 6 < attempt - 1 then 6 else attempt - 1); backoff = PH_RETRY_BASE_MS * 2 ^ shift
      in if PH_RETRY_MAX_MS < backoff then PH_RETRY_MAX_MS else backoff)"

text \<open>The loop over attempts; \<open>left\<close> is \<open>attempts - attempt\<close>.\<close>

fun send_attempts :: "sender_env \<Rightarrow> bytes \<Rightarrow> nat \<Rightarrow> nat \<Rightarrow> int \<Rightarrow> sender \<Rightarrow> int \<times> sender" where
  "send_attempts E body attempt 0 status s = (status, s)"
| "send_attempts E body attempt (Suc left) status s =
     (let (interrupted, s) =
            (if 0 < attempt then
               sender_backoff_wait E (retry_backoff attempt) 0 (on_ctx (\<lambda>c. c\<lparr>st_retries := st_retries c + 1\<rparr>) s)
             else (False, s))
      in if interrupted then (status, s)
         else let (status, s) = post_and_note E body s
              in if is_2xx status then (status, s)
                 else if is_permanent_reject status then (status, s)
                 else let (b, s) = blocked E s
                      in if b then (status, s) else send_attempts E body (Suc attempt) left status s)"

definition handoff :: "bool \<Rightarrow> sender \<Rightarrow> sender" where
  "handoff has_crash_replay s =
     (if has_crash_replay
      then s\<lparr>sd_files := ph_signal_crash_handoff_complete (Some (offline_path (sd_ctx s))) (sd_files s)\<rparr> else s)"

definition settle_body :: "'d dbl_ops \<Rightarrow> sender_env \<Rightarrow> bytes \<Rightarrow> nat \<Rightarrow> bool \<Rightarrow> int \<Rightarrow> sender \<Rightarrow> sender" where
  "settle_body D E body n has_crash_replay status s =
     (if is_2xx status then handoff has_crash_replay (add_sent n s)
      else if is_permanent_reject status then add_failed n s
      else if offline_path (sd_ctx s) \<noteq> [] then
        (let (ok, s) = spill D E body s in if ok then handoff has_crash_replay s else add_failed n s)
      else add_failed n s)"

definition send_one :: "'d dbl_ops \<Rightarrow> sender_env \<Rightarrow> bytes \<Rightarrow> nat \<Rightarrow> bool \<Rightarrow> sender \<Rightarrow> bool \<times> sender" where
  "send_one D E body n has_crash_replay s =
     (let attempts = (if 0 \<le> max_retries (sd_ctx s) then nat (max_retries (sd_ctx s)) + 1 else 1);
          (status, s) = send_attempts E body 0 attempts (-1) s
      in blocked E (settle_body D E body n has_crash_replay status s))"

definition refresh_clock_epoch :: "sender_env \<Rightarrow> sender \<Rightarrow> sender" where
  "refresh_clock_epoch E s =
     (let (now, s) = read_mono E s; wall = env_wall E (sd_ticks s)
      in on_ctx (\<lambda>c. c\<lparr>epoch_wall_ns := ph_correct_wall_epoch (epoch_wall_ns c) (epoch_mono_ns c) wall now 1000000000\<rparr>) s)"

definition has_replay :: "ph_event list \<Rightarrow> bool" where
  "has_replay evs \<longleftrightarrow> list_ex (\<lambda>e. has_flag (ev_flags e) PH_EVF_CRASH_REPLAY) evs"

text \<open>The body of a run, \<open>None\<close> when serialization runs out of memory.\<close>

definition serialize_run :: "double_libc \<Rightarrow> sender_env \<Rightarrow> ph_event list \<Rightarrow> sender \<Rightarrow> bytes option \<times> sender" where
  "serialize_run L E evs s =
     (let s = refresh_clock_epoch E s
      in (if env_oom E (sd_bodies s) then None else Some (ph_serialize_batch L (sd_ctx s) evs), s\<lparr>sd_bodies := Suc (sd_bodies s)\<rparr>))"

definition over_cap :: "sender \<Rightarrow> bytes \<Rightarrow> bool" where
  "over_cap s body \<longleftrightarrow> 0 < max_batch_bytes (sd_ctx s) \<and> nat (max_batch_bytes (sd_ctx s)) < length body"

function persist_run :: "double_libc \<Rightarrow> 'd dbl_ops \<Rightarrow> sender_env \<Rightarrow> ph_event list \<Rightarrow> sender \<Rightarrow> sender" where
  "persist_run L D E evs s =
     (if offline_path (sd_ctx s) = [] then add_failed (length evs) s
      else let (r, s) = serialize_run L E evs s
           in case r of None \<Rightarrow> add_failed (length evs) s
              | Some body \<Rightarrow>
                  if over_cap s body then
                    (if 1 < length evs then
                       persist_run L D E (drop (length evs div 2) evs) (persist_run L D E (take (length evs div 2) evs) s)
                     else add_failed 1 s)
                  else let (ok, s) = spill D E body s
                       in if \<not> ok then add_failed (length evs) s else handoff (has_replay evs) s)"
  by pat_completeness auto
termination by (relation "measure (\<lambda>(L, D, E, evs, s). length evs)") auto

declare persist_run.simps [simp del]

function send_run :: "double_libc \<Rightarrow> 'd dbl_ops \<Rightarrow> sender_env \<Rightarrow> ph_event list \<Rightarrow> sender \<Rightarrow> bool \<times> sender" where
  "send_run L D E evs s =
     (let (expired, s) = shutdown_deadline_expired E s
      in if expired then (False, persist_run L D E evs s)
         else let (r, s) = serialize_run L E evs s
              in case r of None \<Rightarrow> (False, add_failed (length evs) s)
                 | Some body \<Rightarrow>
                     if over_cap s body then
                       (if 1 < length evs then
                          (let (b, s) = send_run L D E (take (length evs div 2) evs) s
                           in if b then (True, persist_run L D E (drop (length evs div 2) evs) s)
                              else send_run L D E (drop (length evs div 2) evs) s)
                        else (False, add_failed 1 s))
                     else send_one D E body (length evs) (has_replay evs) s)"
  by pat_completeness auto
termination by (relation "measure (\<lambda>(L, D, E, evs, s). length evs)") auto

declare send_run.simps [simp del]

definition scrub :: "ph_event list \<Rightarrow> sender \<Rightarrow> ph_event list \<times> sender" where
  "scrub evs s = (let (ctx, evs) = scrub_events evs (sd_ctx s) in (evs, s\<lparr>sd_ctx := ctx\<rparr>))"

definition send_batch :: "double_libc \<Rightarrow> 'd dbl_ops \<Rightarrow> sender_env \<Rightarrow> ph_event list \<Rightarrow> sender \<Rightarrow> sender" where
  "send_batch L D E evs s = (let (evs, s) = scrub evs s in if evs = [] then s else snd (send_run L D E evs s))"

definition spill_batch :: "double_libc \<Rightarrow> 'd dbl_ops \<Rightarrow> sender_env \<Rightarrow> ph_event list \<Rightarrow> sender \<Rightarrow> sender" where
  "spill_batch L D E evs s = (let (evs, s) = scrub evs s in if evs = [] then s else persist_run L D E evs s)"

definition pop :: "sender \<Rightarrow> ph_event list \<times> sender" where
  "pop s = (let (q, evs) = ph_queue_pop_batch (queue (sd_ctx s)) (nat (max_batch (sd_ctx s)))
            in (evs, s\<lparr>sd_ctx := (sd_ctx s)\<lparr>queue := q\<rparr>, sd_popped := sd_popped s + length evs\<rparr>))"


section \<open>Draining\<close>

text \<open>
  Both loops go on as long as there are events, and other threads may add some at every turn; the
  fuel bounds the turns and \<open>None\<close> means that it ran out.
\<close>

fun settle_queued :: "double_libc \<Rightarrow> 'd dbl_ops \<Rightarrow> sender_env \<Rightarrow> nat \<Rightarrow> sender \<Rightarrow> sender option" where
  "settle_queued L D E 0 s = None"
| "settle_queued L D E (Suc fuel) s =
     (let (evs, s) = pop (others E s)
      in if evs = [] then Some s
         else settle_queued L D E fuel
                (if offline_path (sd_ctx s) \<noteq> [] then spill_batch L D E evs s else add_failed (length evs) s))"

fun drain_loop :: "double_libc \<Rightarrow> 'd dbl_ops \<Rightarrow> sender_env \<Rightarrow> nat \<Rightarrow> sender \<Rightarrow> sender option" where
  "drain_loop L D E 0 s = None"
| "drain_loop L D E (Suc fuel) s =
     (let (expired, s) = shutdown_deadline_expired E s
      in if expired then settle_queued L D E fuel s
         else let (evs, s) = pop (others E s)
              in if evs = [] then Some s
                 else let (b, s) = blocked E (send_batch L D E evs s)
                      in if b then Some s else drain_loop L D E fuel s)"

text \<open>\<open>a && b\<close> reads the second operand's clock only when the first holds; likewise \<open>||\<close>.\<close>

definition drain_open :: "sender_env \<Rightarrow> sender \<Rightarrow> bool \<times> sender" where
  "drain_open E s =
     (let (b, s) = blocked E s
      in if b then (False, s) else let (expired, s) = shutdown_deadline_expired E s in (\<not> expired, s))"

definition drain_settles :: "sender_env \<Rightarrow> bool \<Rightarrow> sender \<Rightarrow> bool \<times> sender" where
  "drain_settles E final s =
     (let (expired, s) = shutdown_deadline_expired E s
      in if expired then (True, s) else if final then blocked E s else (False, s))"

definition drain :: "double_libc \<Rightarrow> 'd dbl_ops \<Rightarrow> sender_env \<Rightarrow> nat \<Rightarrow> bool \<Rightarrow> sender \<Rightarrow> sender option" where
  "drain L D E fuel final s =
     (let s = on_ctx (\<lambda>c. c\<lparr>sending := True\<rparr>) s;
          (go, s) = drain_open E s
      in case (if go then drain_loop L D E fuel (offline_replay D E s) else Some s) of None \<Rightarrow> None
         | Some s \<Rightarrow>
             let (settle, s) = drain_settles E final s
             in case (if settle then settle_queued L D E fuel s else Some s) of None \<Rightarrow> None
                | Some s \<Rightarrow> Some (on_ctx (\<lambda>c. c\<lparr>sending := False, drain_gen := drain_gen c + 1\<rparr>) s))"

section \<open>Facts: what a body holds\<close>

lemma event_ok_sendable: "event_ok e \<Longrightarrow> sendable fragment_tree e"
proof -
  assume a: "event_ok e"
  have "jt_wf (fragment_tree v) \<and> jt_depth (fragment_tree v) \<le> 100 \<and> jt_print (fragment_tree v) = v" if "rawjson_ok v" for v
    unfolding fragment_tree_def using that unfolding rawjson_ok_def by (rule someI_ex)
  moreover have "rawjson_ok v" if "(PH_PK_RAWJSON, k, v) \<in> set (blob_entries (ev_blob e))" for k v
    using a that by (fastforce simp: event_ok_def list_all_iff entry_sound_def)
  ultimately show ?thesis using a by (auto simp: sendable_def event_ok_def raw_wf_def)
qed

lemma batch_body:
  assumes "printf_ok L g" "list_all event_ok evs" "ctx_wf ctx"
  shows "batch_event_count D (ph_serialize_batch L ctx evs) = length evs" "LF \<notin> set (ph_serialize_batch L ctx evs)"
proof -
  have e: "e \<in> set evs \<Longrightarrow> sendable fragment_tree e" for e using assms(2) event_ok_sendable by (simp add: list_all_iff)
  have c: "ctx_strings_ok ctx" using assms(3) by (simp add: ctx_wf_def)
  have "ph_jv_parse D (ph_serialize_batch L ctx evs) = Some (jt_read D (batch_tree fragment_tree L ctx evs))"
    by (rule batch_parses [OF assms(1) e c])
  then show "batch_event_count D (ph_serialize_batch L ctx evs) = length evs"
    by (simp add: batch_event_count_def batch_array ph_jv_type_of_def ph_jv_len_def Let_def)
  have tree: "ph_serialize_batch L ctx evs = jt_print (batch_tree fragment_tree L ctx evs)"
    using e by (intro serialize_batch_tree raw_wf_ok) (simp add: sendable_def)
  have "0x20 \<le> byte_val x" if "x \<in> set (ph_serialize_batch L ctx evs)" for x
    using that batch_tree_ok [OF assms(1) e c] jt_print_printable unfolding tree by blast
  moreover have "byte_val LF = 10" by (simp add: byte_val_def)
  ultimately show "LF \<notin> set (ph_serialize_batch L ctx evs)" by fastforce
qed

section \<open>The accounting invariant\<close>

text \<open>
  What the other threads and the file system are assumed to do: other threads keep the context
  well formed touch neither the configuration nor the delivery counters nor the back-pressure
  deadline, and do not take back a stop; a failed file operation leaves the file as it was, and the rewrite after a replay
  succeeds. With \<open>Q\<close>, other threads also leave the queue alone.
\<close>

definition others_ok :: "(ph_ctx \<Rightarrow> ph_ctx) \<Rightarrow> bool" where
  "others_ok f \<longleftrightarrow> (\<forall>c. (ctx_wf c \<and> hook_ok c \<longrightarrow> ctx_wf (f c)) \<and> sender_view (f c) = sender_view c \<and>
     st_before_send_dropped (f c) = st_before_send_dropped c \<and> (stop c \<longrightarrow> stop (f c)))"

definition rewrite_ok :: "atomic_io \<Rightarrow> bool" where
  "rewrite_ok io \<longleftrightarrow> ai_open io \<and> ai_write io \<and> ai_close io \<and> ai_rename io \<and> ai_dirsync io"

definition quiet :: "sender_env \<Rightarrow> bool" where
  "quiet E \<longleftrightarrow> (\<forall>k c. queue_list (queue (env_others E k c)) = queue_list (queue c))"

definition env_ok :: "bool \<Rightarrow> sender_env \<Rightarrow> bool" where
  "env_ok Q E \<longleftrightarrow> (\<forall>k. io_clean (env_spill E k) \<and> rewrite_ok (env_rewrite E k) \<and> others_ok (env_others E k)) \<and> (Q \<longrightarrow> quiet E)"

text \<open>
  A promise: whether the other threads leave the queue alone, and what is known of the transport's
  answers to the posts made to a URL.
\<close>

type_synonym promise = "bool \<times> (string \<Rightarrow> bytes \<Rightarrow> int \<Rightarrow> bool)"

definition env_keeps :: "promise \<Rightarrow> sender_env \<Rightarrow> bool" where
  "env_keeps Q E \<longleftrightarrow> env_ok (fst Q) E \<and> (\<forall>send k url body t. env_send E = Some send \<longrightarrow> snd Q url body (fst (send k url body t)))"

lemma env_keeps_any: "env_ok q E \<Longrightarrow> env_keeps (q, \<lambda>url body status. True) E"
  by (simp add: env_keeps_def)

definition sender_ok :: "sender \<Rightarrow> bool" where
  "sender_ok s \<longleftrightarrow> ctx_wf (sd_ctx s) \<and> enabled (sd_ctx s) \<and> hook_ok (sd_ctx s) \<and>
     length (offline_path (sd_ctx s)) < PH_PATH_CAP \<and> spill_clean (sd_ctx s) (sd_files s) \<and>
     (\<forall>(body, status) \<in> set (sd_posted s). \<not> over_cap s body)"

text \<open>Every event the sender has taken is delivered, failed, dropped by the hook, or in the spill file.\<close>

definition books :: "'d dbl_ops \<Rightarrow> sender \<Rightarrow> u64" where
  "books D s = st_sent (sd_ctx s) + st_failed (sd_ctx s) + st_before_send_dropped (sd_ctx s) + spilled D (sd_ctx s) (sd_files s)"

text \<open>The events of the bodies the server has acknowledged, and those not yet counted as sent.\<close>

fun acked :: "'d dbl_ops \<Rightarrow> (bytes \<times> int) list \<Rightarrow> u64" where
  "acked D [] = 0"
| "acked D ((body, status) # ps) = (if is_2xx status then of_nat (batch_event_count D body) else 0) + acked D ps"

definition uncounted :: "'d dbl_ops \<Rightarrow> sender \<Rightarrow> u64" where
  "uncounted D s = acked D (sd_posted s) - st_sent (sd_ctx s)"

text \<open>
  A step that adds \<open>n\<close> events to the books and \<open>g\<close> to the acknowledged but uncounted ones, keeping the
  configuration, and whose posts are answered as promised.
\<close>

definition shifts :: "promise \<Rightarrow> 'd dbl_ops \<Rightarrow> nat \<Rightarrow> u64 \<Rightarrow> sender \<Rightarrow> sender \<Rightarrow> bool" where
  "shifts Q D n g s s' \<longleftrightarrow> sender_ok s \<longrightarrow>
     sender_ok s' \<and> books D s' = books D s + of_nat n \<and> uncounted D s' = uncounted D s + g \<and>
     ctx_config.truncate (sd_ctx s') = ctx_config.truncate (sd_ctx s) \<and>
     sd_popped s' = sd_popped s \<and> (stop (sd_ctx s) \<longrightarrow> stop (sd_ctx s')) \<and>
     (fst Q \<longrightarrow> queue_list (queue (sd_ctx s')) = queue_list (queue (sd_ctx s))) \<and>
     (\<forall>(body, status) \<in> set (sd_posted s'). (body, status) \<in> set (sd_posted s) \<or> snd Q (build_batch_url (sd_ctx s)) body status)"

abbreviation moves :: "promise \<Rightarrow> 'd dbl_ops \<Rightarrow> nat \<Rightarrow> sender \<Rightarrow> sender \<Rightarrow> bool" where
  "moves Q D n s s' \<equiv> shifts Q D n 0 s s'"

lemma moves_refl [simp]: "moves Q D 0 s s"
  by (auto simp: shifts_def)

lemma url_config: "ctx_config.truncate c' = ctx_config.truncate c \<Longrightarrow> build_batch_url c' = build_batch_url c"
  by (simp add: ctx_config.defs build_batch_url_def)

lemma acked_append: "acked D (ps @ qs) = acked D ps + acked D qs"
  by (induction ps) (auto simp: ac_simps)

lemma shifts_trans: "shifts Q D m g s s1 \<Longrightarrow> shifts Q D n h s1 s2 \<Longrightarrow> shifts Q D (m + n) (g + h) s s2"
proof -
  assume a: "shifts Q D m g s s1" "shifts Q D n h s1 s2"
  show ?thesis
    unfolding shifts_def
  proof
    assume "sender_ok s"
    with a have b: "sender_ok s1" "sender_ok s2" "build_batch_url (sd_ctx s1) = build_batch_url (sd_ctx s)"
      using url_config [of "sd_ctx s1" "sd_ctx s"] by (simp_all add: shifts_def)
    with a \<open>sender_ok s\<close> show "sender_ok s2 \<and> books D s2 = books D s + of_nat (m + n) \<and> uncounted D s2 = uncounted D s + (g + h) \<and>
        ctx_config.truncate (sd_ctx s2) = ctx_config.truncate (sd_ctx s) \<and>
        sd_popped s2 = sd_popped s \<and> (stop (sd_ctx s) \<longrightarrow> stop (sd_ctx s2)) \<and>
        (fst Q \<longrightarrow> queue_list (queue (sd_ctx s2)) = queue_list (queue (sd_ctx s))) \<and>
        (\<forall>(body, status) \<in> set (sd_posted s2). (body, status) \<in> set (sd_posted s) \<or> snd Q (build_batch_url (sd_ctx s)) body status)"
      by (auto simp: shifts_def add.assoc)
  qed
qed

lemma moves_trans: "moves Q D m s s1 \<Longrightarrow> moves Q D n s1 s2 \<Longrightarrow> moves Q D (m + n) s s2"
  using shifts_trans [of Q D m 0 s s1 n 0 s2] by simp

lemma moves_trans0: "moves Q D 0 s s1 \<Longrightarrow> shifts Q D n g s1 s2 \<Longrightarrow> shifts Q D n g s s2"
  using shifts_trans [of Q D 0 0 s s1 n g s2] by simp

lemma moves_then0: "shifts Q D n g s s1 \<Longrightarrow> moves Q D 0 s1 s2 \<Longrightarrow> shifts Q D n g s s2"
  using shifts_trans [of Q D n g s s1 0 0 s2] by simp

text \<open>A step on the context alone.\<close>

lemma config_fields:
  assumes "ctx_config.truncate c' = ctx_config.truncate c"
  shows "offline_path c' = offline_path c" "enabled c' = enabled c" "before_send c' = before_send c" "offline_spill_path c' = offline_spill_path c"
    "max_batch c' = max_batch c" "max_batch_bytes c' = max_batch_bytes c" "denylist c' = denylist c"
  using assms by (simp_all add: ctx_config.defs offline_spill_path_def)

lemma moves_ctx:
  assumes "ctx_wf (sd_ctx s) \<Longrightarrow> ctx_wf (sd_ctx s')" "ctx_config.truncate (sd_ctx s') = ctx_config.truncate (sd_ctx s)"
    "st_sent (sd_ctx s') + st_failed (sd_ctx s') + st_before_send_dropped (sd_ctx s') =
       st_sent (sd_ctx s) + st_failed (sd_ctx s) + st_before_send_dropped (sd_ctx s) + of_nat n"
    "sd_files s' = sd_files s" "sd_popped s' = sd_popped s" "sd_posted s' = sd_posted s"
    "fst Q \<Longrightarrow> queue_list (queue (sd_ctx s')) = queue_list (queue (sd_ctx s))" "stop (sd_ctx s) \<Longrightarrow> stop (sd_ctx s')"
    "st_sent (sd_ctx s') + g = st_sent (sd_ctx s)"
  shows "shifts Q D n g s s'"
proof -
  note f = config_fields [OF assms(2)]
  have "sender_ok s \<Longrightarrow> sender_ok s'"
    using assms(1) unfolding sender_ok_def assms(4,6) over_cap_def hook_ok_def spill_clean_def f by simp
  moreover have "books D s' = books D s + of_nat n"
    unfolding books_def assms(3,4) spilled_def f by (simp add: add.assoc add.left_commute add.commute)
  moreover have "uncounted D s' = uncounted D s + g" using assms(9) by (simp add: uncounted_def assms(6) algebra_simps)
  ultimately show ?thesis using assms by (auto simp: shifts_def)
qed

lemma wf_counters [simp]:
  "ctx_wf (c\<lparr>st_sent := a\<rparr>) = ctx_wf c" "ctx_wf (c\<lparr>st_failed := a\<rparr>) = ctx_wf c" "ctx_wf (c\<lparr>st_retries := a\<rparr>) = ctx_wf c"
  "ctx_wf (c\<lparr>server_rl := r\<rparr>) = ctx_wf c" "ctx_wf (c\<lparr>epoch_wall_ns := w\<rparr>) = ctx_wf c"
  "ctx_wf (c\<lparr>sending := b\<rparr>) = ctx_wf c" "ctx_wf (c\<lparr>drain_gen := g\<rparr>) = ctx_wf c"
  by (simp_all add: ctx_wf_def ctx_strings_ok_def)

lemma moves_add [simp]: "shifts Q D n (- of_nat n) s (add_sent n s)" "moves Q D n s (add_failed n s)"
  by (rule moves_ctx, simp_all add: add_sent_def add_failed_def on_ctx_def ctx_config.defs ac_simps)+

lemma moves_on_ctx [simp]:
  "moves Q D 0 s (on_ctx (\<lambda>c. c\<lparr>st_retries := f c\<rparr>) s)" "moves Q D 0 s (on_ctx (\<lambda>c. c\<lparr>server_rl := g c\<rparr>) s)"
  "moves Q D 0 s (on_ctx (\<lambda>c. c\<lparr>epoch_wall_ns := h c\<rparr>) s)" "moves Q D 0 s (on_ctx (\<lambda>c. c\<lparr>sending := b\<rparr>) s)"
  "moves Q D 0 s (on_ctx (\<lambda>c. c\<lparr>sending := b, drain_gen := i c\<rparr>) s)"
  by (rule moves_ctx, simp_all add: on_ctx_def ctx_config.defs)+

lemma moves_bump [simp]: "moves Q D 0 s (s\<lparr>sd_ticks := a\<rparr>)" "moves Q D 0 s (s\<lparr>sd_bodies := a\<rparr>)"
  by (rule moves_ctx, simp_all)+

definition ack :: "'d dbl_ops \<Rightarrow> bytes \<Rightarrow> int \<Rightarrow> u64" where
  "ack D body status = (if is_2xx status then of_nat (batch_event_count D body) else 0)"

lemma shifts_posted:
  "\<not> over_cap s body \<Longrightarrow> snd Q (build_batch_url (sd_ctx s)) body status \<Longrightarrow>
   shifts Q D 0 (ack D body status) s (s\<lparr>sd_sends := a, sd_posted := sd_posted s @ [(body, status)]\<rparr>)"
  by (auto simp: shifts_def sender_ok_def books_def over_cap_def uncounted_def acked_append ack_def)

text \<open>The size cap is part of the configuration.\<close>

lemma moves_cap: "shifts Q D n g s s' \<Longrightarrow> sender_ok s \<Longrightarrow> over_cap s' body = over_cap s body"
  using config_fields(6) [of "sd_ctx s'" "sd_ctx s"] by (simp add: shifts_def over_cap_def)

lemma movesI: "(sender_ok s \<Longrightarrow> shifts Q D n g s s') \<Longrightarrow> shifts Q D n g s s'"
  by (auto simp: shifts_def)

lemma moves_read [simp]: "moves Q D 0 s (snd (read_mono E s))"
  by (simp add: read_mono_def)

lemma moves_others:
  assumes "env_keeps Q E"
  shows "moves Q D 0 s (others E s)"
proof (rule movesI)
  assume "sender_ok s"
  moreover have "others_ok (env_others E (sd_turns s))" "fst Q \<Longrightarrow> quiet E" using assms by (simp_all add: env_keeps_def env_ok_def)
  ultimately show "moves Q D 0 s (others E s)"
    by (intro moves_ctx) (simp_all add: others_def others_ok_def sender_view_def quiet_def sender_ok_def)
qed

lemma moves_expired [simp]: "moves Q D 0 s (snd (shutdown_deadline_expired E s))"
  using moves_read [of Q D s E] by (cases "read_mono E s") (simp add: shutdown_deadline_expired_def Let_def)

lemma moves_blocked [simp]: "moves Q D 0 s (snd (blocked E s))"
  using moves_read [of Q D s E] by (cases "read_mono E s") (simp add: blocked_def Let_def)

lemma moves_post_timeout: "moves Q D 0 s (snd (post_timeout E s))"
  using moves_read [of Q D s E] by (cases "read_mono E s") (simp add: post_timeout_def Let_def)

lemma shifts_post:
  assumes "env_keeps Q E" "\<not> over_cap s body" "post_body E body s = ((status, meta), s')"
  shows "shifts Q D 0 (ack D body status) s s'"
proof -
  obtain r s1 where t: "post_timeout E s = (r, s1)" by (cases "post_timeout E s")
  have m1: "moves Q D 0 s s1" using moves_post_timeout [of Q D s E] t by simp
  have "sd_ctx s1 = sd_ctx s" using t by (auto simp: post_timeout_def read_mono_def Let_def split: if_splits)
  then have c: "\<not> over_cap s1 body" using assms(2) by (simp add: over_cap_def)
  have z: "ack D body (- 1) = 0" by (simp add: ack_def is_2xx_def)
  show ?thesis
  proof (cases "env_send E = None \<or> r = None")
    case True
    then show ?thesis using assms(3) t m1 z by (auto simp: post_body_def split: option.splits)
  next
    case False
    then obtain send tm where f: "env_send E = Some send" "r = Some tm" by auto
    let ?u = "build_batch_url (sd_ctx s1)"
    obtain st m where a: "send (sd_sends s1) ?u body tm = (st, m)" by (cases "send (sd_sends s1) ?u body tm")
    have "snd Q ?u body (fst (send (sd_sends s1) ?u body tm))" using assms(1) f(1) by (simp add: env_keeps_def)
    then have p: "snd Q ?u body st" by (simp add: a)
    have "shifts Q D 0 (ack D body st) s1 (others E (s1\<lparr>sd_sends := n, sd_posted := sd_posted s1 @ [(body, st)]\<rparr>))" for n
      by (rule moves_then0 [OF shifts_posted [OF c p] moves_others [OF assms(1)]])
    from moves_trans0 [OF m1 this] assms(3) f t a show ?thesis by (auto simp: post_body_def)
  qed
qed

lemma shifts_post_and_note:
  assumes "env_keeps Q E" "\<not> over_cap s body" "post_and_note E body s = (status, s')"
  shows "shifts Q D 0 (ack D body status) s s'"
proof -
  obtain st m s1 where p: "post_body E body s = ((st, m), s1)" by (cases "post_body E body s") auto
  have m1: "shifts Q D 0 (ack D body st) s s1" by (rule shifts_post [OF assms(1,2) p])
  obtain now s2 where r: "read_mono E s1 = (now, s2)" by (cases "read_mono E s1")
  have m2: "shifts Q D 0 (ack D body st) s s2" using moves_then0 [OF m1 moves_read [of Q D s1 E]] r by simp
  show ?thesis using assms(3) m1 m2 p r by (auto simp: post_and_note_def Let_def intro: moves_then0 split: if_splits)
qed

section \<open>Facts: the sending stages keep the books\<close>

lemma moves_spill:
  assumes "env_keeps Q E" "LF \<notin> set body" "spill D E body s = (ok, s')"
  shows "moves Q D (if ok then batch_event_count D body else 0) s s'"
proof -
  obtain ctx fs where r: "offline_spill D (env_spill E (sd_spills s)) body (sd_ctx s) (sd_files s) = (ctx, fs, ok)"
    "s' = s\<lparr>sd_ctx := ctx, sd_files := fs, sd_spills := Suc (sd_spills s)\<rparr>"
    using assms(3) by (auto simp: spill_def Let_def split: prod.splits)
  have io: "io_clean (env_spill E (sd_spills s))" using assms(1) by (simp add: env_keeps_def env_ok_def)
  show ?thesis
  proof (cases "spill_clean (sd_ctx s) (sd_files s)")
    case True
    note a = spill_accounts [OF True io assms(2) r(1)]
    define x where "x = st_failed ctx"
    have c: "ctx = (sd_ctx s)\<lparr>st_failed := x\<rparr>" using a by (simp add: x_def)
    have "sender_ok s \<Longrightarrow> sender_ok s'" using a r(2) by (simp add: sender_ok_def c hook_ok_def over_cap_def)
    moreover have "books D s' = books D s + of_nat (if ok then batch_event_count D body else 0)"
      using a r(2) by (simp add: books_def c ac_simps)
    moreover have "uncounted D s' = uncounted D s" using r(2) c by (simp add: uncounted_def)
    ultimately show ?thesis using r(2) c by (auto simp: shifts_def ctx_config.defs)
  qed (simp add: shifts_def sender_ok_def)
qed

lemma crash_path_neq:
  assumes "length (offline_path ctx) < PH_PATH_CAP"
  shows "crash_path (offline_path ctx) \<noteq> offline_spill_path ctx"
proof
  have "length (strip_seps xs) \<le> length xs" for xs by (induction xs) auto
  from this [of "rev (offline_path ctx)"] assms
  have "crash_path (offline_path ctx) = offline_path ctx @ ''/ph-crash.bin''"
    "offline_spill_path ctx = rev (strip_seps (rev (offline_path ctx))) @ ''/ph-offline.ndjson''"
    by (simp_all add: crash_path_def offline_spill_path_def snprintf_trunc_def PH_CRASH_FILENAME_def PH_OFFLINE_FILENAME_def caps)
  moreover assume "crash_path (offline_path ctx) = offline_spill_path ctx"
  ultimately have "rev (offline_path ctx @ ''/ph-crash.bin'') = rev (rev (strip_seps (rev (offline_path ctx))) @ ''/ph-offline.ndjson'')" by simp
  then show False by simp
qed

lemma moves_handoff [simp]: "moves Q D 0 s (handoff b s)"
proof (cases "length (offline_path (sd_ctx s)) < PH_PATH_CAP")
  case True
  have "ph_signal_crash_handoff_complete (Some (offline_path (sd_ctx s))) fs (offline_spill_path (sd_ctx s)) = fs (offline_spill_path (sd_ctx s))" for fs
    using crash_path_neq [OF True] by (simp add: ph_signal_crash_handoff_complete_def)
  then show ?thesis by (auto simp: handoff_def shifts_def sender_ok_def books_def spilled_def spill_clean_def over_cap_def uncounted_def)
qed (simp add: shifts_def sender_ok_def)

lemma moves_backoff: "env_keeps Q E \<Longrightarrow> moves Q D 0 s (snd (sender_backoff_wait E ms slept s))"
proof (induction E ms slept s rule: sender_backoff_wait.induct)
  case (1 E ms slept s)
  show ?case
  proof (cases "slept < ms \<and> \<not> stop (sd_ctx s)")
    case True
    with 1 have "moves Q D 0 (others E s) (snd (sender_backoff_wait E ms (slept + (if 50 < ms - slept then 50 else ms - slept)) (others E s)))" by blast
    from moves_trans0 [OF moves_others [OF "1.prems"] this] True show ?thesis by (simp add: sender_backoff_wait.simps [of E ms slept s])
  qed (simp add: sender_backoff_wait.simps [of E ms slept s])
qed

lemma ack_other [simp]: "\<not> is_2xx status \<Longrightarrow> ack D body status = 0"
  by (simp add: ack_def)

lemma shifts_attempts:
  "env_keeps Q E \<Longrightarrow> sender_ok s \<Longrightarrow> \<not> over_cap s body \<Longrightarrow> \<not> is_2xx status \<Longrightarrow>
   send_attempts E body attempt left status s = (st', s') \<Longrightarrow> shifts Q D 0 (ack D body st') s s'"
proof (induction left arbitrary: attempt status s)
  case (Suc left)
  define w where "w = (if 0 < attempt then sender_backoff_wait E (retry_backoff attempt) 0 (on_ctx (\<lambda>c. c\<lparr>st_retries := st_retries c + 1\<rparr>) s)
     else (False, s))"
  obtain i s1 where w1: "w = (i, s1)" by (cases w)
  have m1: "moves Q D 0 s s1"
  proof (cases "0 < attempt")
    case True
    then have "s1 = snd (sender_backoff_wait E (retry_backoff attempt) 0 (on_ctx (\<lambda>c. c\<lparr>st_retries := st_retries c + 1\<rparr>) s))"
      using w1 by (simp add: w_def)
    then show ?thesis using moves_trans0 [OF moves_on_ctx(1) moves_backoff [OF Suc.prems(1)]] by simp
  qed (use w1 in \<open>simp add: w_def\<close>)
  obtain st s2 where p: "post_and_note E body s1 = (st, s2)" by (cases "post_and_note E body s1")
  have "\<not> over_cap s1 body" using moves_cap [OF m1 Suc.prems(2)] Suc.prems(3) by simp
  then have m2: "shifts Q D 0 (ack D body st) s s2" by (rule moves_trans0 [OF m1 shifts_post_and_note [OF Suc.prems(1) _ p]])
  obtain b s3 where b: "blocked E s2 = (b, s3)" by (cases "blocked E s2")
  have m3: "shifts Q D 0 (ack D body st) s s3" using moves_then0 [OF m2 moves_blocked [of Q D s2 E]] b by simp
  have r: "send_attempts E body attempt (Suc left) status s =
      (if i then (status, s1) else if is_2xx st then (st, s2) else if is_permanent_reject st then (st, s2)
       else if b then (st, s3) else send_attempts E body (Suc attempt) left st s3)"
    by (simp add: w_def [symmetric] w1 p b Let_def)
  show ?case
  proof (cases "i \<or> is_2xx st \<or> is_permanent_reject st \<or> b")
    case True
    with m1 m2 m3 Suc.prems(4,5) show ?thesis unfolding r by (auto split: if_splits)
  next
    case False
    then have m: "moves Q D 0 s s3" using m3 by simp
    have "send_attempts E body (Suc attempt) left st s3 = (st', s')" "\<not> is_2xx st" using False Suc.prems(5) unfolding r by simp_all
    moreover have "sender_ok s3" using m Suc.prems(2) by (simp add: shifts_def)
    moreover have "\<not> over_cap s3 body" using moves_cap [OF m Suc.prems(2)] Suc.prems(3) by simp
    ultimately show ?thesis using moves_trans0 [OF m] Suc.IH [OF Suc.prems(1)] by blast
  qed
qed simp

lemma shifts_settle:
  assumes "env_keeps Q E" "LF \<notin> set body" "batch_event_count D body = n"
  shows "shifts Q D n (- ack D body status) s (settle_body D E body n cr status s)"
proof -
  obtain ok s1 where p: "spill D E body s = (ok, s1)" by (cases "spill D E body s")
  have m: "moves Q D (if ok then n else 0) s s1" using moves_spill [OF assms(1,2) p] assms(3) by (cases ok) auto
  have "moves Q D n s (handoff cr s1)" if ok using moves_then0 [OF m moves_handoff] that by simp
  moreover have "moves Q D n s (add_failed n s1)" if "\<not> ok" using moves_trans0 [of Q D s s1 n] m that by simp
  moreover have "shifts Q D n (- of_nat n) s (handoff cr (add_sent n s))" by (rule moves_then0 [OF moves_add(1) moves_handoff])
  ultimately show ?thesis using assms(3) by (simp add: settle_body_def p ack_def)
qed

lemma moves_send_one:
  assumes "env_keeps Q E" "LF \<notin> set body" "batch_event_count D body = n" "\<not> over_cap s body"
  shows "moves Q D n s (snd (send_one D E body n cr s))"
proof (rule movesI)
  assume ok: "sender_ok s"
  define k where "k = (if 0 \<le> max_retries (sd_ctx s) then nat (max_retries (sd_ctx s)) + 1 else 1)"
  obtain st s1 where a: "send_attempts E body 0 k (-1) s = (st, s1)" by (cases "send_attempts E body 0 k (-1) s")
  have "shifts Q D 0 (ack D body st) s s1" by (rule shifts_attempts [OF assms(1) ok assms(4) _ a]) (simp add: is_2xx_def)
  from shifts_trans [OF this shifts_settle [OF assms(1-3), where status = st and cr = cr]] have "moves Q D n s (settle_body D E body n cr st s1)" by simp
  from moves_then0 [OF this moves_blocked] a
  show "moves Q D n s (snd (send_one D E body n cr s))" by (simp add: send_one_def k_def [symmetric])
qed

lemma moves_refresh: "moves Q D 0 s (refresh_clock_epoch E s)"
proof -
  obtain now s1 where r: "read_mono E s = (now, s1)" by (cases "read_mono E s")
  have "moves Q D 0 s s1" using moves_read [of Q D s E] r by simp
  from moves_trans0 [OF this moves_on_ctx(3)] r show ?thesis by (simp add: refresh_clock_epoch_def Let_def)
qed

lemma serialize_run_ok:
  assumes "printf_ok L g" "list_all event_ok evs" "serialize_run L E evs s = (r, s')"
  shows "moves Q D 0 s s'"
    "sender_ok s \<Longrightarrow> r = Some body \<Longrightarrow> batch_event_count D body = length evs \<and> LF \<notin> set body"
proof -
  let ?s = "refresh_clock_epoch E s"
  have r: "r = (if env_oom E (sd_bodies ?s) then None else Some (ph_serialize_batch L (sd_ctx ?s) evs))"
    "s' = ?s\<lparr>sd_bodies := Suc (sd_bodies ?s)\<rparr>" using assms(3) by (auto simp: serialize_run_def Let_def)
  show "moves Q D 0 s s'" unfolding r(2) by (rule moves_trans0 [OF moves_refresh moves_bump(2)])
  assume "sender_ok s" "r = Some body"
  then have "ctx_wf (sd_ctx ?s)" using moves_refresh [of Q D s E] by (simp add: shifts_def sender_ok_def)
  from batch_body(1) [OF assms(1,2) this, of D] batch_body(2) [OF assms(1,2) this] r(1) \<open>r = Some body\<close> show "batch_event_count D body = length evs \<and> LF \<notin> set body"
    by (simp split: if_splits)
qed

lemma halves: "list_all event_ok evs \<Longrightarrow> list_all event_ok (take n evs) \<and> list_all event_ok (drop n evs)"
  by (auto simp: list_all_iff dest: in_set_takeD in_set_dropD)

lemma moves_halves:
  assumes "moves Q D (length (take k evs)) s s1" "moves Q D (length (drop k evs)) s1 s2"
  shows "moves Q D (length evs) s s2"
proof -
  have "length (take k evs) + length (drop k evs) = length evs" by (metis append_take_drop_id length_append)
  with moves_trans [OF assms] show ?thesis by simp
qed

lemma moves_persist:
  assumes "env_keeps Q E" "printf_ok L g"
  shows "list_all event_ok evs \<Longrightarrow> evs \<noteq> [] \<Longrightarrow> moves Q D (length evs) s (persist_run L D E evs s)"
proof (induction "length evs" arbitrary: evs s rule: less_induct)
  case less
  show ?case
  proof (rule movesI)
    assume ok: "sender_ok s"
    obtain r s1 where r: "serialize_run L E evs s = (r, s1)" by (cases "serialize_run L E evs s")
    note m1 = serialize_run_ok(1) [OF assms(2) less.prems(1) r, of Q D]
    show "moves Q D (length evs) s (persist_run L D E evs s)"
    proof (cases "offline_path (sd_ctx s) = [] \<or> r = None")
      case True
      then show ?thesis using r moves_trans0 [OF m1 moves_add(2)] by (subst persist_run.simps) auto
    next
      case False
      then obtain body where b: "r = Some body" "offline_path (sd_ctx s) \<noteq> []" by auto
      note body = serialize_run_ok(2) [OF assms(2) less.prems(1) r ok b(1), of D]
      let ?h = "length evs div 2"
      show ?thesis
      proof (cases "over_cap s1 body")
        case over: True
        show ?thesis
        proof (cases "1 < length evs")
          case True
          have "moves Q D (length (take ?h evs)) s1 (persist_run L D E (take ?h evs) s1)" for s1
            using True halves [OF less.prems(1)] by (intro less.hyps) (auto simp: min_def)
          moreover have "moves Q D (length (drop ?h evs)) s1 (persist_run L D E (drop ?h evs) s1)" for s1
            using True halves [OF less.prems(1)] by (intro less.hyps) auto
          ultimately have "moves Q D (length evs) s1 (persist_run L D E (drop ?h evs) (persist_run L D E (take ?h evs) s1))"
            by (rule moves_halves)
          from moves_trans0 [OF m1 this] show ?thesis using b r over True by (subst persist_run.simps) simp
        next
          case False
          then have "length evs = 1" using less.prems(2) by (cases evs) auto
          then show ?thesis using moves_trans0 [OF m1 moves_add(2) [of Q D 1]] b r over by (subst persist_run.simps) simp
        qed
      next
        case False
        obtain ok' s2 where p: "spill D E body s1 = (ok', s2)" by (cases "spill D E body s1")
        have m2: "moves Q D (if ok' then length evs else 0) s s2"
          using moves_trans0 [OF m1 moves_spill [OF assms(1) _ p]] body by (cases ok') auto
        then have "moves Q D (length evs) s (if \<not> ok' then add_failed (length evs) s2 else handoff (has_replay evs) s2)"
          by (cases ok') (auto intro: moves_trans0 moves_then0)
        then show ?thesis using b r False p by (subst persist_run.simps) simp
      qed
    qed
  qed
qed


lemma moves_send_run:
  assumes "env_keeps Q E" "printf_ok L g"
  shows "list_all event_ok evs \<Longrightarrow> evs \<noteq> [] \<Longrightarrow> moves Q D (length evs) s (snd (send_run L D E evs s))"
proof (induction "length evs" arbitrary: evs s rule: less_induct)
  case less
  obtain x s0 where e: "shutdown_deadline_expired E s = (x, s0)" by (cases "shutdown_deadline_expired E s")
  have m0: "moves Q D 0 s s0" using moves_expired [of Q D s E] e by simp
  have "moves Q D (length evs) s0 (snd (send_run L D E evs s))"
  proof (rule movesI)
    assume ok: "sender_ok s0"
    obtain r s1 where r: "serialize_run L E evs s0 = (r, s1)" by (cases "serialize_run L E evs s0")
    note m1 = serialize_run_ok(1) [OF assms(2) less.prems(1) r, of Q D]
    show "moves Q D (length evs) s0 (snd (send_run L D E evs s))"
    proof (cases "x \<or> r = None")
      case True
      then show ?thesis using e r moves_trans0 [OF m1 moves_add(2)] moves_persist [OF assms less.prems]
        by (subst send_run.simps) auto
    next
      case False
      then obtain body where b: "r = Some body" "\<not> x" by auto
      note body = serialize_run_ok(2) [OF assms(2) less.prems(1) r ok b(1), of D]
      let ?h = "length evs div 2"
      show ?thesis
      proof (cases "over_cap s1 body")
        case over: True
        show ?thesis
        proof (cases "1 < length evs")
          case True
          obtain bl s2 where f: "send_run L D E (take ?h evs) s1 = (bl, s2)" by (cases "send_run L D E (take ?h evs) s1")
          have "moves Q D (length (take ?h evs)) s1 (snd (send_run L D E (take ?h evs) s1))"
            using True halves [OF less.prems(1)] by (intro less.hyps) (auto simp: min_def)
          then have first: "moves Q D (length (take ?h evs)) s1 s2" by (simp add: f)
          have "moves Q D (length (drop ?h evs)) s2 (snd (send_run L D E (drop ?h evs) s2))"
            using True halves [OF less.prems(1)] by (intro less.hyps) auto
          moreover have "moves Q D (length (drop ?h evs)) s2 (persist_run L D E (drop ?h evs) s2)"
            using True halves [OF less.prems(1)] by (intro moves_persist [OF assms]) auto
          ultimately have "moves Q D (length evs) s0 (if bl then persist_run L D E (drop ?h evs) s2 else snd (send_run L D E (drop ?h evs) s2))"
            using moves_trans0 [OF m1 moves_halves [OF first]] by auto
          then show ?thesis using e b r over True f by (subst send_run.simps) (cases bl, simp_all)
        next
          case False
          then have "length evs = 1" using less.prems(2) by (cases evs) auto
          then show ?thesis using moves_trans0 [OF m1 moves_add(2) [of Q D 1]] e b r over by (subst send_run.simps) simp
        qed
      next
        case False
        have "moves Q D (length evs) s1 (snd (send_one D E body (length evs) (has_replay evs) s1))"
          using body False by (intro moves_send_one [OF assms(1)]) simp_all
        from moves_trans0 [OF m1 this] show ?thesis using e b r False by (subst send_run.simps) simp
      qed
    qed
  qed
  with m0 show ?case by (rule moves_trans0)
qed

lemma moves_scrub:
  assumes "sender_ok s" "list_all event_ok evs" "scrub evs s = (evs', s')"
  shows "moves Q D (length evs - length evs') s s'" "list_all event_ok evs'" "length evs' \<le> length evs"
proof -
  obtain ctx where r: "scrub_events evs (sd_ctx s) = (ctx, evs')" "s' = s\<lparr>sd_ctx := ctx\<rparr>"
    using assms(3) by (auto simp: scrub_def Let_def split: prod.splits)
  have "ctx_wf (sd_ctx s)" "hook_ok (sd_ctx s)" using assms(1) by (simp_all add: sender_ok_def)
  note p = scrub_events_post [OF this assms(2) r(1), unfolded scrub_post_def]
  show "moves Q D (length evs - length evs') s s'"
  proof (rule moves_ctx)
    show "ctx_config.truncate (sd_ctx s') = ctx_config.truncate (sd_ctx s)" using p r(2) by (simp add: sender_view_def)
    show "st_sent (sd_ctx s') + st_failed (sd_ctx s') + st_before_send_dropped (sd_ctx s') =
        st_sent (sd_ctx s) + st_failed (sd_ctx s) + st_before_send_dropped (sd_ctx s) + of_nat (length evs - length evs')"
      using p r(2) by (simp add: sender_view_def)
    show "st_sent (sd_ctx s') + 0 = st_sent (sd_ctx s)" using p r(2) by (simp add: sender_view_def)
  qed (use p r(2) in simp_all)
  show "list_all event_ok evs'" "length evs' \<le> length evs" using p by (auto simp: list_all_iff scrubbed_from_def)
qed

lemma moves_batch:
  assumes "env_keeps Q E" "printf_ok L g" "list_all event_ok evs"
  shows "moves Q D (length evs) s (send_batch L D E evs s)" "moves Q D (length evs) s (spill_batch L D E evs s)"
proof -
  obtain evs' s1 where sc: "scrub evs s = (evs', s1)" by (cases "scrub evs s")
  have "moves Q D (length evs) s (send_batch L D E evs s) \<and> moves Q D (length evs) s (spill_batch L D E evs s)" if ok: "sender_ok s"
  proof -
    note m = moves_scrub [OF ok assms(3) sc]
    have len: "length evs - length evs' + length evs' = length evs" using m(3) by simp
    show ?thesis
    proof (cases "evs' = []")
      case True
      with m(1) show ?thesis by (simp add: send_batch_def spill_batch_def sc)
    next
      case False
      with moves_trans [OF m(1) moves_send_run [OF assms(1,2) m(2) False], of D] moves_trans [OF m(1) moves_persist [OF assms(1,2) m(2) False], of D]
      show ?thesis by (simp add: send_batch_def spill_batch_def sc len)
    qed
  qed
  then show "moves Q D (length evs) s (send_batch L D E evs s)" "moves Q D (length evs) s (spill_batch L D E evs s)"
    by (auto intro: movesI)
qed

section \<open>Facts: the replay keeps the books\<close>

lemma files_post [simp]:
  "sd_files (snd (read_mono E s)) = sd_files s" "sd_files (others E s) = sd_files s" "sd_files (on_ctx f s) = sd_files s"
  "sd_files (add_sent n s) = sd_files s" "sd_files (add_failed n s) = sd_files s"
  by (simp_all add: read_mono_def others_def on_ctx_def add_sent_def add_failed_def)

lemma files_clock [simp]:
  "sd_files (snd (shutdown_deadline_expired E s)) = sd_files s" "sd_files (snd (blocked E s)) = sd_files s"
  "sd_files (snd (post_timeout E s)) = sd_files s"
  by (simp_all add: shutdown_deadline_expired_def blocked_def post_timeout_def read_mono_def Let_def)

lemma files_post_body [simp]: "sd_files (snd (post_body E body s)) = sd_files s"
proof -
  obtain r s1 where t: "post_timeout E s = (r, s1)" by (cases "post_timeout E s")
  then have "sd_files s1 = sd_files s" using files_clock(3) [of E s] by simp
  then show ?thesis by (auto simp: post_body_def t Let_def split: option.split prod.split)
qed

lemma files_post_and_note [simp]: "sd_files (snd (post_and_note E body s)) = sd_files s"
proof -
  obtain st m s1 where p: "post_body E body s = ((st, m), s1)" by (cases "post_body E body s") auto
  then have "sd_files s1 = sd_files s" using files_post_body [of E body s] by simp
  then show ?thesis by (simp add: post_and_note_def p read_mono_def Let_def)
qed

lemma moves_replay_line:
  assumes "env_keeps Q E" "replay_line D E line stopped s = ((kept, st), s')"
  shows "moves Q D (if kept then 0 else batch_event_count D line) s s'" "sd_files s' = sd_files s"
proof -
  let ?n = "batch_event_count D line"
  obtain x s1 where x: "(if \<not> stopped then shutdown_deadline_expired E s else (stopped, s)) = (x, s1)" (is "?x = _") by (cases ?x)
  have "s1 = (if stopped then s else snd (shutdown_deadline_expired E s))" using x by (auto split: if_splits)
  then have m1: "moves Q D 0 s s1" "sd_files s1 = sd_files s" by simp_all
  have pos: "(if 0 < ?n then add_failed ?n t else t) = add_failed ?n t" "(if 0 < ?n then add_sent ?n t else t) = add_sent ?n t" for t
    by (simp_all add: add_failed_def add_sent_def on_ctx_def)
  obtain status s2 where p: "post_and_note E line s1 = (status, s2)" by (cases "post_and_note E line s1")
  have f2: "sd_files s2 = sd_files s" using files_post_and_note [of E line s1] p m1(2) by simp
  have m2: "shifts Q D 0 (ack D line status) s s2" if "\<not> over_cap s1 line"
    by (rule moves_trans0 [OF m1(1) shifts_post_and_note [OF assms(1) that p]])
  obtain b s3 where b: "blocked E (add_sent ?n s2) = (b, s3)" by (cases "blocked E (add_sent ?n s2)")
  have f3: "sd_files s3 = sd_files s" using files_clock(2) [of E "add_sent ?n s2"] b f2 by simp
  have m3: "moves Q D ?n s s3" if "\<not> over_cap s1 line" "is_2xx status"
    using moves_then0 [OF shifts_trans [OF m2 [OF that(1)] moves_add(1) [of Q D ?n]] moves_blocked [of Q D "add_sent ?n s2" E]] b that(2)
    by (simp add: ack_def)
  have m4: "moves Q D 0 s s2" "moves Q D ?n s (add_failed ?n s2)" if "\<not> over_cap s1 line" "\<not> is_2xx status"
    using shifts_trans [OF m2 [OF that(1)] moves_add(2) [of Q D ?n]] m2 [OF that(1)] that(2) by simp_all
  have mf: "moves Q D ?n s (add_failed ?n s1)"
    by (rule moves_trans0 [OF m1(1) moves_add(2)])
  have r: "replay_line D E line stopped s =
      (if x then ((True, True), s1)
       else if over_cap s1 line then ((False, False), add_failed ?n s1)
       else if is_2xx status then ((False, b), s3)
       else if is_permanent_reject status then ((False, False), add_failed ?n s2) else ((True, True), s2))"
    unfolding replay_line_def over_cap_def Let_def x prod.case pos p b ..
  show "moves Q D (if kept then 0 else ?n) s s'" "sd_files s' = sd_files s"
    using assms(2) m1 m3 m4 mf f2 f3 unfolding r by (auto split: if_splits)
qed

lemma replay_loop_accounts:
  assumes "env_keeps Q E"
  shows "replay_loop D E buf line stopped keep s = (keep', s') \<Longrightarrow> clean keep \<Longrightarrow> LF \<notin> set line \<Longrightarrow>
    sd_files s' = sd_files s \<and> clean keep' \<and>
    (\<exists>n. moves Q D n s s' \<and> of_nat n + event_count_in_lines D keep' = event_count_in_lines D keep + count_from D line buf 0)"
proof (induction buf arbitrary: line stopped keep s)
  case Nil
  then show ?case by (auto intro!: exI [of _ 0])
next
  case (Cons c buf)
  show ?case
  proof (cases "c = LF \<and> line \<noteq> []")
    case False
    then show ?thesis using Cons by (cases "c = LF") auto
  next
    case True
    let ?m = "batch_event_count D line"
    obtain kept st s1 where l: "replay_line D E line stopped s = ((kept, st), s1)" by (cases "replay_line D E line stopped s") auto
    note rl = moves_replay_line [OF assms l]
    let ?k = "if kept then keep @ line @ [LF] else keep"
    have loop: "replay_loop D E buf [] st ?k s1 = (keep', s')" using Cons.prems(1) True l by simp
    have cl: "clean ?k" using Cons.prems(2) by (simp add: clean_def)
    obtain n where n: "sd_files s' = sd_files s1" "clean keep'" "moves Q D n s1 s'"
      "of_nat n + event_count_in_lines D keep' = event_count_in_lines D ?k + count_from D [] buf 0"
      using Cons.IH [OF loop cl] by auto
    have ek: "event_count_in_lines D ?k = event_count_in_lines D keep + (if kept then of_nat ?m else 0)"
      using events_append [OF Cons.prems(2), of D "line @ [LF]"] events_record [OF Cons.prems(3), of D] True by simp
    have cf: "count_from D line (c # buf) 0 = of_nat ?m + count_from D [] buf 0"
      using True count_from_add [of D "[]" buf "of_nat ?m"] by simp
    have "moves Q D ((if kept then 0 else ?m) + n) s s'" by (rule moves_trans [OF rl(1) n(3)])
    moreover have "of_nat ((if kept then 0 else ?m) + n) + event_count_in_lines D keep' =
        event_count_in_lines D keep + count_from D line (c # buf) 0"
    proof -
      have "of_nat ((if kept then 0 else ?m) + n) + event_count_in_lines D keep' =
          (if kept then 0 else of_nat ?m) + (of_nat n + event_count_in_lines D keep')" by (simp add: add.assoc)
      also have "\<dots> = event_count_in_lines D keep + (of_nat ?m + count_from D [] buf 0)"
        unfolding n(4) ek by (simp add: add.assoc add.left_commute)
      finally show ?thesis unfolding cf .
    qed
    ultimately show ?thesis using n(1,2) rl(2) by auto
  qed
qed

text \<open>Replacing the file by records with the right count settles what the replay moved.\<close>

lemma moves_rewrite:
  assumes "moves Q D n s s1" "sd_files s (offline_spill_path (sd_ctx s)) = Some buf" "sd_files s1 = sd_files s"
    "of_nat n + event_count_in_lines D keep = event_count_in_lines D buf" "clean keep"
    "sd_ctx s2 = sd_ctx s1" "sd_popped s2 = sd_popped s1" "sd_posted s2 = sd_posted s1"
    "sd_files s2 (offline_spill_path (sd_ctx s)) = (if keep = [] then None else Some keep)"
  shows "moves Q D 0 s s2"
proof (rule movesI)
  assume ok: "sender_ok s"
  then have m: "sender_ok s1" "books D s1 = books D s + of_nat n" "ctx_config.truncate (sd_ctx s1) = ctx_config.truncate (sd_ctx s)"
    "sd_popped s1 = sd_popped s" "fst Q \<Longrightarrow> queue_list (queue (sd_ctx s1)) = queue_list (queue (sd_ctx s))"
    "stop (sd_ctx s) \<Longrightarrow> stop (sd_ctx s1)" "uncounted D s1 = uncounted D s"
    "\<forall>(body, status) \<in> set (sd_posted s1). (body, status) \<in> set (sd_posted s) \<or> snd Q (build_batch_url (sd_ctx s)) body status"
    using assms(1) by (simp_all add: shifts_def)
  have p: "offline_spill_path (sd_ctx s1) = offline_spill_path (sd_ctx s)" using config_fields(4) [OF m(3)] .
  have z: "event_count_in_lines D [] = 0" by (simp add: event_count_in_lines_def)
  have e1: "spilled D (sd_ctx s1) (sd_files s1) = event_count_in_lines D buf" using assms(2,3) p by (simp add: spilled_def)
  have e2: "spilled D (sd_ctx s2) (sd_files s2) = event_count_in_lines D keep"
    using assms(6,9) p z by (simp add: spilled_def)
  have "books D s2 = books D s1 - event_count_in_lines D buf + event_count_in_lines D keep"
    unfolding books_def assms(6) e1 e2 [unfolded assms(6)] by simp
  also have "\<dots> = books D s" unfolding m(2) assms(4) [symmetric] by simp
  finally have b: "books D s2 = books D s" .
  have "sender_ok s2"
    using m(1) assms(5,6,8,9) p by (simp add: sender_ok_def spill_clean_def over_cap_def)
  moreover have "uncounted D s2 = uncounted D s" using m(7) assms(6,8) by (simp add: uncounted_def)
  ultimately show "moves Q D 0 s s2" using b m assms(6-8) by (simp add: shifts_def)
qed

lemma moves_offline_replay:
  assumes "env_keeps Q E"
  shows "moves Q D 0 s (offline_replay D E s)"
proof -
  obtain x s1 where x: "shutdown_deadline_expired E s = (x, s1)" by (cases "shutdown_deadline_expired E s")
  have m1: "moves Q D 0 s s1" using moves_expired [of Q D s E] x by simp
  let ?p = "offline_spill_path (sd_ctx s1)"
  show ?thesis
  proof (cases "offline_path (sd_ctx s) = [] \<or> x \<or> sd_files s1 ?p = None \<or> sd_files s1 ?p = Some []")
    case True
    then show ?thesis using m1 x by (auto simp: offline_replay_def Let_def)
  next
    case False
    then obtain buf where buf: "sd_files s1 ?p = Some buf" "buf \<noteq> []" by auto
    obtain keep s2 where l: "replay_loop D E buf [] False [] s1 = (keep, s2)" by (cases "replay_loop D E buf [] False [] s1")
    obtain n where n: "sd_files s2 = sd_files s1" "clean keep" "moves Q D n s1 s2" "of_nat n + event_count_in_lines D keep = event_count_in_lines D buf"
      using replay_loop_accounts [OF assms l] by (auto simp: clean_def event_count_in_lines_def)
    obtain fs ok where w: "write_atomic (env_rewrite E (sd_rewrites s2)) ?p keep (sd_files s2) = (fs, ok)"
      by (cases "write_atomic (env_rewrite E (sd_rewrites s2)) ?p keep (sd_files s2)")
    have rw: "rewrite_ok (env_rewrite E (sd_rewrites s2))" using assms by (simp add: env_keeps_def env_ok_def)
    then have "atomic_clean (env_rewrite E (sd_rewrites s2))" "ok"
      using w by (auto simp: rewrite_ok_def atomic_clean_def write_atomic_def Let_def)
    then have fsp: "fs ?p = Some keep" using write_atomic_clean [OF _ spill_path_length w] by simp
    define s3 where "s3 = (if keep = [] then s2\<lparr>sd_files := (sd_files s2)(?p := None)\<rparr>
        else s2\<lparr>sd_files := fs, sd_rewrites := Suc (sd_rewrites s2)\<rparr>)"
    have "offline_replay D E s = s3"
      using False buf x l w by (auto simp: offline_replay_def Let_def s3_def)
    moreover have "moves Q D 0 s1 s3"
      by (rule moves_rewrite [OF n(3) buf(1) n(1,4,2)]) (simp_all add: s3_def fsp)
    ultimately show ?thesis using moves_trans0 [OF m1] by simp
  qed
qed

section \<open>Facts: draining\<close>

lemma pop_ok:
  assumes "sender_ok s" "pop s = (evs, s')"
  shows "list_all event_ok evs" "sender_ok s'" "books D s' = books D s" "sd_popped s' = sd_popped s + length evs"
    "ctx_config.truncate (sd_ctx s') = ctx_config.truncate (sd_ctx s)"
    "queue_list (queue (sd_ctx s)) = evs @ queue_list (queue (sd_ctx s'))" "stop (sd_ctx s') = stop (sd_ctx s)"
    "evs = [] \<Longrightarrow> 0 < max_batch (sd_ctx s) \<Longrightarrow> queue_list (queue (sd_ctx s)) = []"
    "uncounted D s' = uncounted D s" "sd_posted s' = sd_posted s"
proof -
  define k where "k = nat (max_batch (sd_ctx s))"
  obtain q where q: "ph_queue_pop_batch (queue (sd_ctx s)) k = (q, evs)"
    "s' = s\<lparr>sd_ctx := (sd_ctx s)\<lparr>queue := q\<rparr>, sd_popped := sd_popped s + length evs\<rparr>"
    using assms(2) by (auto simp: pop_def Let_def k_def split: prod.splits)
  have wf: "ctx_wf (sd_ctx s)" "enabled (sd_ctx s)" using assms(1) by (simp_all add: sender_ok_def)
  then have inv: "queue_inv (queue (sd_ctx s))" "list_all event_ok (queue_list (queue (sd_ctx s)))" by (simp_all add: ctx_wf_def)
  have l: "evs = take k (queue_list (queue (sd_ctx s)))" "queue_list q = drop k (queue_list (queue (sd_ctx s)))" "queue_inv q"
    using pop_batch_list [OF inv(1), of k] pop_batch_inv [OF inv(1), of k] q(1) by simp_all
  show "list_all event_ok evs" using halves [OF inv(2)] l(1) by simp
  have c: "ctx_config.truncate ((sd_ctx s)\<lparr>queue := q\<rparr>) = ctx_config.truncate (sd_ctx s)" by (simp add: ctx_config.defs)
  have "ctx_wf ((sd_ctx s)\<lparr>queue := q\<rparr>)" using wf l(2,3) halves [OF inv(2)] by (simp add: ctx_wf_def ctx_strings_ok_def)
  then show "sender_ok s'" "books D s' = books D s" "sd_popped s' = sd_popped s + length evs"
    using assms(1) config_fields [OF c] by (simp_all add: q(2) sender_ok_def hook_ok_def books_def spilled_def spill_clean_def over_cap_def)
  show "ctx_config.truncate (sd_ctx s') = ctx_config.truncate (sd_ctx s)" using c q(2) by simp
  show "queue_list (queue (sd_ctx s)) = evs @ queue_list (queue (sd_ctx s'))" using l q(2) by simp
  show "stop (sd_ctx s') = stop (sd_ctx s)" by (simp add: q(2))
  show "evs = [] \<Longrightarrow> 0 < max_batch (sd_ctx s) \<Longrightarrow> queue_list (queue (sd_ctx s)) = []" using l(1) by (auto simp: k_def)
  show "uncounted D s' = uncounted D s" "sd_posted s' = sd_posted s" by (simp_all add: q(2) uncounted_def)
qed

text \<open>
  The books against the events taken off the queue, the events acknowledged against those counted as
  sent, and the answers to the posts against the promise.
\<close>

definition balanced :: "promise \<Rightarrow> 'd dbl_ops \<Rightarrow> sender \<Rightarrow> sender \<Rightarrow> bool" where
  "balanced Q D s s' \<longleftrightarrow> sender_ok s \<longrightarrow>
     sender_ok s' \<and> sd_popped s \<le> sd_popped s' \<and> books D s' = books D s + of_nat (sd_popped s' - sd_popped s) \<and>
     uncounted D s' = uncounted D s \<and> ctx_config.truncate (sd_ctx s') = ctx_config.truncate (sd_ctx s) \<and>
     (\<forall>(body, status) \<in> set (sd_posted s'). (body, status) \<in> set (sd_posted s) \<or> snd Q (build_batch_url (sd_ctx s)) body status)"

lemma balanced_refl [simp]: "balanced Q D s s"
  by (auto simp: balanced_def)

lemma balanced_trans: "balanced Q D s s1 \<Longrightarrow> balanced Q D s1 s2 \<Longrightarrow> balanced Q D s s2"
proof -
  assume a: "balanced Q D s s1" "balanced Q D s1 s2"
  show ?thesis
    unfolding balanced_def
  proof
    assume "sender_ok s"
    with a have p: "sd_popped s \<le> sd_popped s1" "sd_popped s1 \<le> sd_popped s2" "sender_ok s2" "uncounted D s2 = uncounted D s"
      "ctx_config.truncate (sd_ctx s2) = ctx_config.truncate (sd_ctx s)" "ctx_config.truncate (sd_ctx s1) = ctx_config.truncate (sd_ctx s)"
      "books D s2 = books D s + (of_nat (sd_popped s1 - sd_popped s) + of_nat (sd_popped s2 - sd_popped s1))"
      by (auto simp: balanced_def add.assoc)
    then have "(sd_popped s1 - sd_popped s) + (sd_popped s2 - sd_popped s1) = sd_popped s2 - sd_popped s" by simp
    then have b: "books D s2 = books D s + of_nat (sd_popped s2 - sd_popped s)" using p(7) by (metis of_nat_add)
    have "\<forall>(body, status) \<in> set (sd_posted s2). (body, status) \<in> set (sd_posted s) \<or> snd Q (build_batch_url (sd_ctx s)) body status"
      using a \<open>sender_ok s\<close> url_config [OF p(6)] by (auto simp: balanced_def)
    with p(1-5) b show "sender_ok s2 \<and> sd_popped s \<le> sd_popped s2 \<and> books D s2 = books D s + of_nat (sd_popped s2 - sd_popped s) \<and>
        uncounted D s2 = uncounted D s \<and> ctx_config.truncate (sd_ctx s2) = ctx_config.truncate (sd_ctx s) \<and>
        (\<forall>(body, status) \<in> set (sd_posted s2). (body, status) \<in> set (sd_posted s) \<or> snd Q (build_batch_url (sd_ctx s)) body status)"
      by simp
  qed
qed

lemma moves_balanced: "moves Q D 0 s s' \<Longrightarrow> balanced Q D s s'"
  by (simp add: shifts_def balanced_def)

lemma balancedI: "(sender_ok s \<Longrightarrow> balanced Q D s s') \<Longrightarrow> balanced Q D s s'"
  by (auto simp: balanced_def)

lemma batch_balanced:
  assumes "pop s = (evs, s1)" "\<And>s. moves Q D (length evs) s (f s)"
  shows "balanced Q D s (f s1)"
proof (rule balancedI)
  assume ok: "sender_ok s"
  note p = pop_ok [OF ok assms(1)]
  note q = p(3,9) [of D] p(2,4,5,10) url_config [OF p(5)]
  from assms(2) [of s1] q show "balanced Q D s (f s1)" by (simp add: shifts_def balanced_def)
qed

lemma empty_pop_balanced:
  assumes "pop s = ([], s1)"
  shows "balanced Q D s s1"
  using batch_balanced [OF assms, of Q D "\<lambda>s. s"] by simp

lemma settle_balanced:
  assumes "env_keeps Q E" "printf_ok L g"
  shows "settle_queued L D E fuel s = Some s' \<Longrightarrow> balanced Q D s s'"
proof (induction fuel arbitrary: s)
  case (Suc fuel)
  have m: "moves Q D 0 s (others E s)" by (rule moves_others [OF assms(1)])
  obtain evs s1 where p: "pop (others E s) = (evs, s1)" by (cases "pop (others E s)")
  have "balanced Q D (others E s) s'"
  proof (rule balancedI)
    assume ok: "sender_ok (others E s)"
    note e = pop_ok(1) [OF ok p]
    show "balanced Q D (others E s) s'"
    proof (cases "evs = []")
      case True
      have "balanced Q D (others E s) s1" using p True by (auto intro: empty_pop_balanced)
      with Suc.prems p True show ?thesis by simp
    next
      case False
      define f where "f = (\<lambda>s. if offline_path (sd_ctx s) \<noteq> [] then spill_batch L D E evs s else add_failed (length evs) s)"
      have "moves Q D (length evs) s (f s)" for s using moves_batch(2) [OF assms e, of D s] by (simp add: f_def)
      from batch_balanced [OF p this] have "balanced Q D (others E s) (f s1)" .
      moreover have "balanced Q D (f s1) s'" using Suc.prems p False by (intro Suc.IH) (simp add: f_def)
      ultimately show ?thesis by (rule balanced_trans)
    qed
  qed
  with moves_balanced [OF m] show ?case by (rule balanced_trans)
qed simp

lemma drain_loop_balanced:
  assumes "env_keeps Q E" "printf_ok L g"
  shows "drain_loop L D E fuel s = Some s' \<Longrightarrow> balanced Q D s s'"
proof (induction fuel arbitrary: s)
  case (Suc fuel)
  obtain x s0 where x: "shutdown_deadline_expired E s = (x, s0)" by (cases "shutdown_deadline_expired E s")
  have b0: "balanced Q D s s0" using moves_balanced [OF moves_expired [of Q D s E]] x by simp
  show ?case
  proof (cases x)
    case True
    with Suc.prems x have "settle_queued L D E fuel s0 = Some s'" by simp
    from balanced_trans [OF b0 settle_balanced [OF assms this]] show ?thesis .
  next
    case False
    have b1: "balanced Q D s (others E s0)" using balanced_trans [OF b0 moves_balanced [OF moves_others [OF assms(1)]]] .
    obtain evs s1 where p: "pop (others E s0) = (evs, s1)" by (cases "pop (others E s0)")
    have "balanced Q D (others E s0) s'"
    proof (rule balancedI)
      assume ok: "sender_ok (others E s0)"
      note e = pop_ok(1) [OF ok p]
      show "balanced Q D (others E s0) s'"
      proof (cases "evs = []")
        case True
        have "balanced Q D (others E s0) s1" using p True by (auto intro: empty_pop_balanced)
        with Suc.prems x p True False show ?thesis by simp
      next
        case F: False
        obtain b s2 where b: "blocked E (send_batch L D E evs s1) = (b, s2)" by (cases "blocked E (send_batch L D E evs s1)")
        have "moves Q D (length evs) s (snd (blocked E (send_batch L D E evs s)))" for s
          by (rule moves_then0 [OF moves_batch(1) [OF assms e] moves_blocked])
        from batch_balanced [OF p this] have "balanced Q D (others E s0) s2" by (simp add: b)
        moreover have "balanced Q D s2 s'" using Suc.prems x p F False b Suc.IH [of s2] by (cases b) simp_all
        ultimately show ?thesis by (rule balanced_trans)
      qed
    qed
    with b1 show ?thesis by (rule balanced_trans)
  qed
qed simp

lemma moves_drain_guards: "moves Q D 0 s (snd (drain_open E s))" "moves Q D 0 s (snd (drain_settles E final s))"
proof -
  obtain b s1 where b: "blocked E s = (b, s1)" by (cases "blocked E s")
  obtain x s2 where x: "shutdown_deadline_expired E s = (x, s2)" by (cases "shutdown_deadline_expired E s")
  have m: "moves Q D 0 s s1" "moves Q D 0 s s2" using moves_blocked [of Q D s E] moves_expired [of Q D s E] by (simp_all add: b x)
  show "moves Q D 0 s (snd (drain_open E s))"
    using m(1) moves_trans0 [OF m(1) moves_expired [of Q D s1 E]] by (cases "shutdown_deadline_expired E s1") (simp add: drain_open_def b)
  show "moves Q D 0 s (snd (drain_settles E final s))"
    using m(2) moves_trans0 [OF m(2) moves_blocked [of Q D s2 E]] by (simp add: drain_settles_def x)
qed

lemma drain_balanced:
  assumes "env_keeps Q E" "printf_ok L g" "drain L D E fuel final s = Some s'"
  shows "balanced Q D s s'"
proof -
  define s0 where "s0 = on_ctx (\<lambda>c. c\<lparr>sending := True\<rparr>) s"
  obtain go s1 where o: "drain_open E s0 = (go, s1)" by (cases "drain_open E s0")
  have "moves Q D 0 s0 s1" using moves_drain_guards(1) [of Q D s0 E] by (simp add: o)
  then have b1: "balanced Q D s s1" using moves_balanced [OF moves_trans0 [OF moves_on_ctx(4) [of Q D s True]]] by (simp add: s0_def)
  obtain s2 where s2: "(if go then drain_loop L D E fuel (offline_replay D E s1) else Some s1) = Some s2"
    using assms(3) by (auto simp: drain_def Let_def s0_def [symmetric] o split: option.splits)
  have "balanced Q D s1 s2"
  proof (cases go)
    case True
    with s2 have "drain_loop L D E fuel (offline_replay D E s1) = Some s2" by simp
    from balanced_trans [OF moves_balanced [OF moves_offline_replay [OF assms(1)]] drain_loop_balanced [OF assms(1,2) this]] show ?thesis .
  qed (use s2 in simp)
  with b1 have b2: "balanced Q D s s2" by (rule balanced_trans)
  obtain st s3 where d: "drain_settles E final s2 = (st, s3)" by (cases "drain_settles E final s2")
  have "moves Q D 0 s2 s3" using moves_drain_guards(2) [of Q D s2 E final] by (simp add: d)
  with b2 have b3: "balanced Q D s s3" by (blast intro: balanced_trans moves_balanced)
  obtain s4 where s4: "(if st then settle_queued L D E fuel s3 else Some s3) = Some s4" "s' = on_ctx (\<lambda>c. c\<lparr>sending := False, drain_gen := drain_gen c + 1\<rparr>) s4"
    using assms(3) by (auto simp: drain_def Let_def s0_def [symmetric] o s2 d split: option.splits)
  have "balanced Q D s3 s4"
  proof (cases st)
    case True
    with s4(1) show ?thesis using settle_balanced [OF assms(1,2), of D fuel s3 s4] by simp
  qed (use s4(1) in simp)
  with b3 have "balanced Q D s s4" by (rule balanced_trans)
  from balanced_trans [OF this moves_balanced [OF moves_on_ctx(5)]] show ?thesis unfolding s4(2) .
qed

section \<open>Facts: draining ends\<close>

abbreviation queued :: "sender \<Rightarrow> ph_event list" where
  "queued s \<equiv> queue_list (queue (sd_ctx s))"

definition ready :: "bool \<Rightarrow> sender \<Rightarrow> nat \<Rightarrow> bool" where
  "ready st s n \<longleftrightarrow> sender_ok s \<and> 0 < max_batch (sd_ctx s) \<and> length (queued s) \<le> n \<and> (st \<longrightarrow> stop (sd_ctx s))"

lemma ready_moves: "moves (True, A) D k s s' \<Longrightarrow> ready st s n \<Longrightarrow> ready st s' n"
  using config_fields(5) [of "sd_ctx s'" "sd_ctx s"] by (simp add: ready_def shifts_def)

lemma ready_pop:
  assumes "ready st s (Suc n)" "pop s = (evs, s')" "evs \<noteq> []"
  shows "ready st s' n" "list_all event_ok evs"
proof -
  have ok: "sender_ok s" using assms(1) by (simp add: ready_def)
  note p = pop_ok [OF ok assms(2)]
  have "length (queued s') < length (queued s)" using p(6) assms(3) by simp
  then show "ready st s' n" using assms(1) p(2,7) config_fields(5) [OF p(5)] by (simp add: ready_def)
  show "list_all event_ok evs" by (rule p(1))
qed

lemma ready_Suc:
  assumes "ready st s n" "queued s \<noteq> []"
  obtains m where "n = Suc m"
  using assms by (cases n) (simp_all add: ready_def del: queue_list_length)

lemma ready_pop_empty:
  assumes "ready st s n" "pop s = ([], s')"
  shows "queued s = []" "ready st s' 0"
proof -
  have ok: "sender_ok s" using assms(1) by (simp add: ready_def)
  note p = pop_ok [OF ok assms(2)]
  show "queued s = []" using p(8) assms(1) by (simp add: ready_def)
  then show "ready st s' 0" using assms(1) p(2,6,7) config_fields(5) [OF p(5)] by (simp add: ready_def)
qed

lemma settle_terminates:
  assumes "env_keeps (True, A) E" "printf_ok L g"
  shows "ready st s n \<Longrightarrow> n < fuel \<Longrightarrow> \<exists>s'. settle_queued L D E fuel s = Some s' \<and> ready st s' 0"
proof (induction fuel arbitrary: s n)
  case (Suc fuel)
  have r: "ready st (others E s) n" by (rule ready_moves [OF moves_others [OF assms(1), where D = D] Suc.prems(1)])
  obtain evs s1 where p: "pop (others E s) = (evs, s1)" by (cases "pop (others E s)")
  show ?case
  proof (cases "evs = []")
    case True
    then show ?thesis using p ready_pop_empty(2) [OF r] by simp
  next
    case False
    have "queued (others E s) \<noteq> []"
      using pop_ok(6) [OF _ p] r False by (auto simp: ready_def)
    then obtain m where m: "n = Suc m" by (rule ready_Suc [OF r])
    note q = ready_pop [OF r [unfolded m] p False]
    define f where "f = (\<lambda>s. if offline_path (sd_ctx s) \<noteq> [] then spill_batch L D E evs s else add_failed (length evs) s)"
    have "moves (True, A) D (length evs) s1 (f s1)" using moves_batch(2) [OF assms q(2), of D s1] by (simp add: f_def)
    then have "ready st (f s1) m" using q(1) by (rule ready_moves)
    with Suc.IH [of "f s1" m] Suc.prems(2) m show ?thesis using p False by (simp add: f_def)
  qed
qed simp

lemma drain_loop_terminates:
  assumes "env_keeps (True, A) E" "printf_ok L g"
  shows "ready st s n \<Longrightarrow> n < fuel \<Longrightarrow> \<exists>s'. drain_loop L D E (Suc fuel) s = Some s' \<and> ready st s' n"
proof (induction fuel arbitrary: s n)
  case (Suc fuel)
  obtain x s0 where x: "shutdown_deadline_expired E s = (x, s0)" by (cases "shutdown_deadline_expired E s")
  have "moves (True, A) D 0 s s0" using moves_expired [of "(True, A)" D s E] by (simp add: x)
  then have r0: "ready st s0 n" using Suc.prems(1) by (rule ready_moves)
  show ?case
  proof (cases x)
    case True
    obtain s' where "settle_queued L D E (Suc fuel) s0 = Some s'" "ready st s' 0"
      using settle_terminates [OF assms r0 Suc.prems(2)] by blast
    with x True show ?thesis by (auto simp: ready_def simp del: settle_queued.simps)
  next
    case False
    have r: "ready st (others E s0) n" by (rule ready_moves [OF moves_others [OF assms(1), where D = D] r0])
    obtain evs s1 where p: "pop (others E s0) = (evs, s1)" by (cases "pop (others E s0)")
    show ?thesis
    proof (cases "evs = []")
      case True
      with p have "ready st s1 n" using ready_pop_empty(2) [OF r] by (auto simp: ready_def)
      with x False p True show ?thesis by simp
    next
      case F: False
      have "queued (others E s0) \<noteq> []" using pop_ok(6) [OF _ p] r F by (auto simp: ready_def)
      then obtain m where m: "n = Suc m" by (rule ready_Suc [OF r])
      note q = ready_pop [OF r [unfolded m] p F]
      obtain b s2 where b: "blocked E (send_batch L D E evs s1) = (b, s2)" by (cases "blocked E (send_batch L D E evs s1)")
      have "moves (True, A) D (length evs) s1 (snd (blocked E (send_batch L D E evs s1)))"
        by (rule moves_then0 [OF moves_batch(1) [OF assms q(2)] moves_blocked])
      then have r2: "ready st s2 m" using q(1) b by (auto intro: ready_moves)
      then have "ready st s2 n" using m by (simp add: ready_def)
      moreover obtain s' where "drain_loop L D E (Suc fuel) s2 = Some s'" "ready st s' m"
        using Suc.IH [OF r2] Suc.prems(2) m by auto
      moreover have "drain_loop L D E (Suc (Suc fuel)) s = (if b then Some s2 else drain_loop L D E (Suc fuel) s2)"
        using x False p F b by simp
      ultimately show ?thesis using m by (auto simp: ready_def simp del: drain_loop.simps)
    qed
  qed
qed simp

lemma drain_ends:
  assumes "env_keeps (True, A) E" "printf_ok L g" "ready st s n" "n + 1 < fuel"
  shows "\<exists>s'. drain L D E fuel final s = Some s' \<and> ready st s' n"
proof -
  obtain k where k: "fuel = Suc k" "n < k" using assms(4) by (cases fuel) auto
  define s0 where "s0 = on_ctx (\<lambda>c. c\<lparr>sending := True\<rparr>) s"
  have r0: "ready st s0 n" unfolding s0_def by (rule ready_moves [OF moves_on_ctx(4) [where D = D] assms(3)])
  obtain go s1 where o: "drain_open E s0 = (go, s1)" by (cases "drain_open E s0")
  have "moves (True, A) D 0 s0 s1" using moves_drain_guards(1) [of "(True, A)" D s0 E] by (simp add: o)
  then have r1: "ready st s1 n" using r0 by (rule ready_moves)
  have r1': "ready st (offline_replay D E s1) n" by (rule ready_moves [OF moves_offline_replay [OF assms(1)] r1])
  obtain s2 where s2: "(if go then drain_loop L D E fuel (offline_replay D E s1) else Some s1) = Some s2" "ready st s2 n"
    using drain_loop_terminates [OF assms(1,2) r1' k(2), of D] r1 k(1) by (cases go) auto
  obtain x s3 where d: "drain_settles E final s2 = (x, s3)" by (cases "drain_settles E final s2")
  have "moves (True, A) D 0 s2 s3" using moves_drain_guards(2) [of "(True, A)" D s2 E final] by (simp add: d)
  then have r3: "ready st s3 n" using s2(2) by (rule ready_moves)
  obtain s4 where s4: "(if x then settle_queued L D E fuel s3 else Some s3) = Some s4" "ready st s4 n"
    using settle_terminates [OF assms(1,2) r3, of fuel D] k r3 by (cases x) (auto simp: ready_def)
  from ready_moves [OF moves_on_ctx(5) [where D = D] s4(2)] show ?thesis
    by (auto simp add: drain_def Let_def s0_def [symmetric] o s2(1) d s4(1))
qed

text \<open>Once the deadline has passed, draining settles every queued event without the network.\<close>

lemma posted_frame [simp]:
  "sd_posted (others E s) = sd_posted s" "sd_posted (add_failed n s) = sd_posted s" "sd_posted (snd (pop s)) = sd_posted s"
  "sd_posted (snd (scrub evs s)) = sd_posted s" "sd_posted (snd (spill D E body s)) = sd_posted s" "sd_posted (handoff b s) = sd_posted s"
  "sd_posted (snd (serialize_run L E evs s)) = sd_posted s" "sd_posted (on_ctx f s) = sd_posted s"
  by (simp_all add: others_def add_failed_def on_ctx_def pop_def scrub_def spill_def handoff_def serialize_run_def refresh_clock_epoch_def
      read_mono_def Let_def case_prod_beta)

lemma posted_persist: "sd_posted (persist_run L D E evs s) = sd_posted s"
proof (induction L D E evs s rule: persist_run.induct)
  case (1 L D E evs s)
  obtain r s1 where r: "serialize_run L E evs s = (r, s1)" by (cases "serialize_run L E evs s")
  have p: "sd_posted s1 = sd_posted s" using posted_frame(7) [of L E evs s] by (simp add: r)
  show ?case
  proof (cases "offline_path (sd_ctx s) = [] \<or> r = None")
    case False
    then obtain body where b: "r = Some body" by auto
    obtain ok s2 where k: "spill D E body s1 = (ok, s2)" by (cases "spill D E body s1")
    have q: "sd_posted s2 = sd_posted s1" using posted_frame(5) [of D E body s1] by (simp add: k)
    show ?thesis
      using 1 False r b k p q by (subst persist_run.simps) (simp add: Let_def)
  qed (use r p in \<open>auto simp: persist_run.simps [of L D E evs s]\<close>)
qed

lemma posted_settle: "settle_queued L D E fuel s = Some s' \<Longrightarrow> sd_posted s' = sd_posted s"
proof (induction fuel arbitrary: s)
  case (Suc fuel)
  obtain evs s1 where p: "pop (others E s) = (evs, s1)" by (cases "pop (others E s)")
  have q: "sd_posted s1 = sd_posted s" using posted_frame(3) [of "others E s"] by (simp add: p)
  obtain evs' s2 where c: "scrub evs s1 = (evs', s2)" by (cases "scrub evs s1")
  have r: "sd_posted s2 = sd_posted s" using posted_frame(4) [of evs s1] q by (simp add: c)
  show ?case using Suc.prems Suc.IH p q r c by (fastforce simp: spill_batch_def posted_persist split: if_splits)
qed simp

lemma drain_expired:
  assumes "env_keeps (True, A) E" "printf_ok L g" "ready True s n" "n < fuel"
    "shutdown_deadline_mono_ns (sd_ctx s) \<noteq> 0" "\<And>k. shutdown_deadline_mono_ns (sd_ctx s) \<le> env_mono E k"
  shows "\<exists>s'. drain L D E fuel final s = Some s' \<and> queued s' = [] \<and> sd_posted s' = sd_posted s"
proof -
  define s0 where "s0 = on_ctx (\<lambda>c. c\<lparr>sending := True\<rparr>) s"
  have r0: "ready True s0 n" unfolding s0_def by (rule ready_moves [OF moves_on_ctx(4) [where D = D] assms(3)])
  have x: "shutdown_deadline_expired E (s0\<lparr>sd_ticks := a\<rparr>) = (True, s0\<lparr>sd_ticks := Suc a\<rparr>)" for a
    using r0 assms(5,6) by (simp add: shutdown_deadline_expired_def shutdown_deadline_def read_mono_def ready_def s0_def on_ctx_def)
  obtain a where o: "drain_open E s0 = (False, s0\<lparr>sd_ticks := a\<rparr>)"
  proof -
    have "drain_open E s0 = (False, s0\<lparr>sd_ticks := Suc (sd_ticks s0)\<rparr>) \<or> drain_open E s0 = (False, s0\<lparr>sd_ticks := Suc (Suc (sd_ticks s0))\<rparr>)"
      using x [of "Suc (sd_ticks s0)"] by (simp add: drain_open_def blocked_def read_mono_def Let_def)
    then show thesis using that by blast
  qed
  have d: "drain_settles E final (s0\<lparr>sd_ticks := a\<rparr>) = (True, s0\<lparr>sd_ticks := Suc a\<rparr>)" using x by (simp add: drain_settles_def)
  have "ready True (s0\<lparr>sd_ticks := Suc a\<rparr>) n" by (rule ready_moves [OF moves_bump(1) [where D = D] r0])
  then obtain s4 where s4: "settle_queued L D E fuel (s0\<lparr>sd_ticks := Suc a\<rparr>) = Some s4" "ready True s4 0"
    using settle_terminates [OF assms(1,2) _ assms(4)] by blast
  then have "queued (on_ctx (\<lambda>c. c\<lparr>sending := False, drain_gen := drain_gen c + 1\<rparr>) s4) = []"
    by (simp add: ready_def on_ctx_def del: queue_list_length)
  moreover have "sd_posted s4 = sd_posted s" using posted_settle [OF s4(1)] by (simp add: s0_def)
  ultimately show ?thesis using s4(1) by (simp add: drain_def Let_def s0_def [symmetric] o d)
qed

end
