(* ===== verification/Ph_Native.thy ===== *)
theory Ph_Native
  imports Ph_Sender
begin

text \<open>
  The sender thread of \<^verbatim>\<open>src/ph_native.c\<close>: its main loop with flag fetches and health
  snapshots, its start and stop, and the flush that waits for it. The properties span the whole
  delivery pipeline: no event is lost silently, a stopped sender ends, an expired shutdown settles
  the queue without the network, and no body exceeds the configured size.
\<close>

section \<open>The sender thread\<close>

text \<open>The health snapshot. The text is handed to the callback with the length \<open>snprintf\<close> reports.\<close>

definition u64_dec :: "u64 \<Rightarrow> string" where
  "u64_dec x = nat_dec (unat x)"

definition stats_text :: "ph_ctx \<Rightarrow> string" where
  "stats_text ctx =
     (let queued = of_nat (ph_queue_size (queue ctx)); ring_dropped = ph_queue_dropped (queue ctx);
          bs = st_before_send_dropped ctx; total = rl_dropped ctx + ring_dropped + bs
      in ''{\"queued\":'' @ u64_dec queued @ '',\"queue_cap\":'' @ int_dec (max_queue ctx) @ '',\"sent\":'' @ u64_dec (st_sent ctx) @
         '',\"failed\":'' @ u64_dec (st_failed ctx) @ '',\"retries\":'' @ u64_dec (st_retries ctx) @
         '',\"dropped\":{\"total\":'' @ u64_dec total @ '',\"rate_limited\":'' @ u64_dec (rl_dropped ctx) @
         '',\"queue_overflow\":'' @ u64_dec ring_dropped @ '',\"before_send\":'' @ u64_dec bs @ ''}}'')"

definition emit_stats :: "ph_ctx \<Rightarrow> (string \<times> nat) option" where
  "emit_stats ctx =
     (if \<not> has_on_stats ctx then None
      else let len = length (stats_text ctx)
           in if 0 < len then Some (snprintf_trunc 320 (stats_text ctx), len) else None)"

definition sender_wait :: "sender_env \<Rightarrow> sender \<Rightarrow> sender" where
  "sender_wait E s =
     (let s = (if ph_queue_wait_parks (queue (sd_ctx s)) (nat (flush_at (sd_ctx s))) then others E s else s)
      in on_ctx (\<lambda>c. c\<lparr>queue := ph_queue_wait_exit (queue c)\<rparr>) s)"

text \<open>A pending flag fetch, run unless the sender is stopping; other threads run during the request.\<close>

definition service_flags ::
  "double_libc \<Rightarrow> 'd dbl_ops \<Rightarrow> sender_env \<Rightarrow> (string \<Rightarrow> bytes \<Rightarrow> int \<Rightarrow> int \<times> bytes) option \<Rightarrow> sender \<Rightarrow> sender" where
  "service_flags L D E fetch s =
     (if stop (sd_ctx s) then s
      else case ph__flags_take_fetch (sd_ctx s) of
          (ctx, None) \<Rightarrow> s\<lparr>sd_ctx := ctx\<rparr>
        | (ctx, Some (refetch_gen, refetch_context_gen)) \<Rightarrow>
            let (ctx, status) = ph__flags_fetch D L fetch (env_others E (sd_turns s)) refetch_context_gen ctx
            in s\<lparr>sd_ctx := ph__flags_complete_fetch refetch_gen status ctx, sd_turns := Suc (sd_turns s)\<rparr>)"

definition stats_turn :: "sender_env \<Rightarrow> u64 \<Rightarrow> sender \<Rightarrow> (u64 \<times> (string \<times> nat) list) \<times> sender" where
  "stats_turn E last_stats s =
     (if has_on_stats (sd_ctx s) \<and> 0 < stats_interval_ms (sd_ctx s) then
        (let (now, s) = read_mono E s
         in if of_int (stats_interval_ms (sd_ctx s)) * 1000000 \<le> now - last_stats
            then ((now, case emit_stats (sd_ctx s) of None \<Rightarrow> [] | Some r \<Rightarrow> [r]), s)
            else ((last_stats, []), s))
      else ((last_stats, []), s))"

definition sender_park :: "sender_env \<Rightarrow> sender \<Rightarrow> bool \<times> sender" where
  "sender_park E s =
     (let (now, s) = read_mono E s; rem = ph_ratelimit_remaining_ms (server_rl (sd_ctx s)) now
      in if 0 < rem then sender_backoff_wait E (if 2000000000 < rem then 2000000000 else int (unat rem)) 0 s
         else (False, s))"

text \<open>The thread's loop: at most \<open>turns\<close> turns, each drain with \<open>fuel\<close>; the reports it made are
  collected in \<open>reports\<close>.\<close>

fun sender_main ::
  "double_libc \<Rightarrow> 'd dbl_ops \<Rightarrow> sender_env \<Rightarrow> (string \<Rightarrow> bytes \<Rightarrow> int \<Rightarrow> int \<times> bytes) option \<Rightarrow> nat \<Rightarrow> nat \<Rightarrow>
   u64 \<Rightarrow> (string \<times> nat) list \<Rightarrow> sender \<Rightarrow> (sender \<times> (string \<times> nat) list) option" where
  "sender_main L D E fetch 0 fuel last_stats reports s = None"
| "sender_main L D E fetch (Suc turns) fuel last_stats reports s =
     (case drain L D E fuel False (sender_wait E s) of None \<Rightarrow> None
      | Some s \<Rightarrow>
          let s = service_flags L D E fetch s;
              ((last_stats, new), s) = stats_turn E last_stats s;
              reports = reports @ new;
              (leave, s) = (if stop (sd_ctx s) then (True, s) else sender_park E s)
          in if leave then map_option (\<lambda>s. (s, reports)) (drain L D E fuel True s)
             else sender_main L D E fetch turns fuel last_stats reports s)"

text \<open>\<open>event_size\<close> is \<open>sizeof(ph_event)\<close>; the flags say whether the allocation and the thread start succeed.\<close>

definition ph__sender_start :: "nat \<Rightarrow> bool \<Rightarrow> bool \<Rightarrow> ph_ctx \<Rightarrow> ph_ctx \<times> bool" where
  "ph__sender_start event_size alloc_ok thread_ok ctx =
     (let ctx = ctx\<lparr>stop := False, shutdown_deadline_mono_ns := 0, sending := False, server_rl := ph_ratelimit_init\<rparr>
      in if (2 ^ 64 - 1) div event_size < unat (of_int (max_batch ctx) :: u64) then (ctx, False)
         else if \<not> alloc_ok then (ctx, False)
         else if thread_ok then (ctx\<lparr>sender_running := True\<rparr>, True)
         else (ctx\<lparr>sender_running := False\<rparr>, False))"

text \<open>Stopping: the deadline saturates; \<open>joined\<close> is what the sender thread does until it ends.\<close>

definition stop_deadline :: "u64 \<Rightarrow> int \<Rightarrow> u64" where
  "stop_deadline now timeout_ms =
     (let budget = of_int timeout_ms * 1000000 in if - 1 - now < budget then - 1 else now + budget)"

definition request_stop :: "u64 \<Rightarrow> ph_ctx \<Rightarrow> ph_ctx" where
  "request_stop now ctx =
     ph__sender_wake (ctx\<lparr>shutdown_deadline_mono_ns := stop_deadline now (request_timeout_ms ctx), stop := True\<rparr>)"

definition ph__sender_stop_and_join :: "u64 \<Rightarrow> (ph_ctx \<Rightarrow> ph_ctx) \<Rightarrow> ph_ctx \<Rightarrow> ph_ctx" where
  "ph__sender_stop_and_join now joined ctx =
     (if \<not> sender_running ctx then ctx
      else let ctx = joined (request_stop now ctx)
           in ph__flags_abort_pending (ctx\<lparr>sender_running := False\<rparr>))"

section \<open>Flush\<close>

text \<open>One look at the state under \<open>flush_lock\<close>: how long to wait, or \<open>None\<close> to return. The clock is
  read only with a positive timeout.\<close>

definition flush_wait :: "int \<Rightarrow> u64 \<Rightarrow> u64 \<Rightarrow> ph_ctx \<Rightarrow> u64 \<Rightarrow> int option" where
  "flush_wait timeout_ms deadline gen0 ctx now =
     (let idle = (gen0 < drain_gen ctx \<and> ph_queue_size (queue ctx) = 0 \<and> \<not> sending ctx)
      in if idle \<or> timeout_ms = 0 then None
         else if 0 < timeout_ms then
           (if deadline \<le> now then None
            else let remaining = sint (ucast ((deadline - now) div 1000000) :: 32 word);
                     remaining = (if remaining \<le> 0 then 1 else remaining)
                 in Some (if 100 < remaining then 100 else remaining))
         else Some 100)"

fun flush_loop :: "sender_env \<Rightarrow> nat \<Rightarrow> int \<Rightarrow> u64 \<Rightarrow> u64 \<Rightarrow> sender \<Rightarrow> sender option" where
  "flush_loop E 0 timeout_ms deadline gen0 s = None"
| "flush_loop E (Suc fuel) timeout_ms deadline gen0 s =
     (case flush_wait timeout_ms deadline gen0 (sd_ctx s) (env_mono E (sd_ticks s)) of None \<Rightarrow> Some s
      | Some ms \<Rightarrow> flush_loop E fuel timeout_ms deadline gen0 (others E (s\<lparr>sd_ticks := Suc (sd_ticks s)\<rparr>)))"

definition ph_flush :: "sender_env \<Rightarrow> nat \<Rightarrow> bool \<Rightarrow> bool \<Rightarrow> int \<Rightarrow> sender \<Rightarrow> sender option" where
  "ph_flush E fuel in_callback on_sender timeout_ms s =
     (if \<not> enabled (sd_ctx s) \<or> \<not> sender_running (sd_ctx s) then Some s
      else if in_callback then Some s
      else if on_sender then Some s
      else let (deadline, s) = (if 0 < timeout_ms then let (now, s) = read_mono E s in (now + of_int timeout_ms * 1000000, s) else (0, s));
               gen0 = drain_gen (sd_ctx s)
           in flush_loop E fuel timeout_ms deadline gen0 (others E (on_ctx ph__sender_wake s)))"

section \<open>Facts: the sender thread\<close>

lemma length_u64_dec: "length (u64_dec x) \<le> 20"
proof -
  have "unat x < 2 ^ 64" using unsigned_less [of x, where 'a = nat] by simp
  then show ?thesis unfolding u64_dec_def by (intro length_nat_dec) simp_all
qed

lemma length_int_dec: "\<bar>i\<bar> < 10 ^ k \<Longrightarrow> 0 < k \<Longrightarrow> length (int_dec i) \<le> Suc k"
proof -
  assume a: "\<bar>i\<bar> < 10 ^ k" "0 < k"
  then have "nat \<bar>i\<bar> < 10 ^ k" by (simp add: nat_less_iff)
  from length_nat_dec [OF this a(2)] show ?thesis by (auto simp: int_dec_def abs_if)
qed

lemma stats_text_length:
  assumes "\<bar>max_queue ctx\<bar> < 2 ^ 31"
  shows "length (stats_text ctx) < 320" "stats_text ctx \<noteq> []"
proof -
  have "length (int_dec (max_queue ctx)) \<le> 11" using length_int_dec [of "max_queue ctx" 10] assms by simp
  then show "length (stats_text ctx) < 320"
    using length_u64_dec [of "of_nat (ph_queue_size (queue ctx))"] length_u64_dec [of "st_sent ctx"] length_u64_dec [of "st_failed ctx"]
      length_u64_dec [of "st_retries ctx"] length_u64_dec [of "rl_dropped ctx + ph_queue_dropped (queue ctx) + st_before_send_dropped ctx"]
      length_u64_dec [of "rl_dropped ctx"] length_u64_dec [of "ph_queue_dropped (queue ctx)"] length_u64_dec [of "st_before_send_dropped ctx"]
    by (simp add: stats_text_def Let_def)
qed (simp add: stats_text_def Let_def)

lemma stop_deadline_saturates:
  "unat (stop_deadline now ms) = min (2 ^ 64 - 1) (unat now + unat (of_int ms * 1000000 :: u64))"
proof -
  let ?b = "of_int ms * 1000000 :: u64"
  have m: "unat (- 1 - now :: u64) = 2 ^ 64 - 1 - unat now"
    using unsigned_minus_1_eq_mask by (subst unat_sub) (simp_all add: mask_eq_exp_minus_1 unsigned_minus_1_eq_mask)
  have n: "unat now < 2 ^ 64" "unat ?b < 2 ^ 64" using unsigned_less [of now, where 'a = nat] unsigned_less [of ?b, where 'a = nat] by simp_all
  show ?thesis
  proof (cases "- 1 - now < ?b")
    case True
    then show ?thesis using m n by (simp add: stop_deadline_def Let_def word_less_nat_alt unsigned_minus_1_eq_mask mask_eq_exp_minus_1)
  next
    case False
    then have "unat now + unat ?b < 2 ^ 64" using m n by (simp add: word_less_nat_alt)
    then have "unat (now + ?b) = unat now + unat ?b" using unat_add_lem [of now ?b] by simp
    with False m n show ?thesis by (simp add: stop_deadline_def Let_def word_less_nat_alt)
  qed
qed

lemma wait_exit_queue [simp]: "queue_list (ph_queue_wait_exit q) = queue_list q" "queue_inv (ph_queue_wait_exit q) = queue_inv q"
  by (simp_all add: ph_queue_wait_exit_def queue_list_def queue_inv_def)

lemma moves_wait: "env_keeps Q E \<Longrightarrow> moves Q D 0 s (sender_wait E s)"
proof -
  assume e: "env_keeps Q E"
  have m: "moves Q D 0 s (on_ctx (\<lambda>c. c\<lparr>queue := ph_queue_wait_exit (queue c)\<rparr>) s)" for s
    by (rule moves_ctx) (simp_all add: on_ctx_def ctx_config.defs ctx_wf_def ctx_strings_ok_def)
  show ?thesis using m moves_trans0 [OF moves_others [OF e] m] by (simp add: sender_wait_def)
qed

text \<open>A flag fetch touches the flag fields of the context it finds after the request.\<close>

lemma ingest_frame: "\<exists>fs. fst (flags_ingest_for_context D json cgen ctx) = ctx\<lparr>flags := fs\<rparr>"
proof -
  have "\<exists>fs. ctx = ctx\<lparr>flags := fs\<rparr>" by (rule exI [of _ "flags ctx"]) simp
  moreover have "\<exists>fs. flags_replace p ctx = ctx\<lparr>flags := fs\<rparr>" for p by (auto simp: flags_replace_def)
  ultimately show ?thesis
    using merge_frame [of _ ctx] by (auto simp: flags_ingest_for_context_def Let_def split: option.split)
qed

lemma fetch_cases:
  obtains "fst (ph__flags_fetch D L fetch busy cg ctx) = ctx"
  | "fst (ph__flags_fetch D L fetch busy cg ctx) = busy ctx"
  | resp where "fst (ph__flags_fetch D L fetch busy cg ctx) = fst (flags_ingest_for_context D resp cg (busy ctx))"
proof -
  let ?r = "ph__flags_fetch D L fetch busy cg ctx"
  consider "cg \<noteq> flags_context_gen ctx" | "cg = flags_context_gen ctx" "fetch = None"
    | send where "cg = flags_context_gen ctx" "fetch = Some send" by (cases fetch) blast+
  then show thesis
  proof cases
    case 1
    then show thesis using that(1) by (simp add: ph__flags_fetch_def)
  next
    case 2
    then show thesis using that(2) by (simp add: ph__flags_fetch_def Let_def)
  next
    case 3
    obtain st resp where r: "send (flags_url ctx) (flags_request_body L ctx) (request_timeout_ms ctx) = (st, resp)"
      by (cases "send (flags_url ctx) (flags_request_body L ctx) (request_timeout_ms ctx)")
    have "fst ?r = (if 200 \<le> st \<and> st < 300
        then fst (flags_ingest_for_context D (cstr_view (take (PH_FLAGS_RESP_CAP - 1) resp)) cg (busy ctx)) else busy ctx)"
      using 3 r by (simp add: ph__flags_fetch_def Let_def)
    then show thesis using that(2) that(3) [of "cstr_view (take (PH_FLAGS_RESP_CAP - 1) resp)"] by argo
  qed
qed

lemma moves_flag_fields:
  "moves Q D 0 s (s\<lparr>sd_ctx := fst (ph__flags_take_fetch (sd_ctx s))\<rparr>)"
  "moves Q D 0 s (s\<lparr>sd_ctx := fst (flags_ingest_for_context D' json cg (sd_ctx s))\<rparr>)"
  "moves Q D 0 s (s\<lparr>sd_ctx := ph__flags_complete_fetch g st (sd_ctx s), sd_turns := a\<rparr>)"
proof -
  show "moves Q D 0 s (s\<lparr>sd_ctx := fst (ph__flags_take_fetch (sd_ctx s))\<rparr>)"
    by (rule moves_ctx) (simp_all add: ph__flags_take_fetch_def ctx_config.defs ctx_wf_def ctx_strings_ok_def)
  obtain fs where fs: "fst (flags_ingest_for_context D' json cg (sd_ctx s)) = (sd_ctx s)\<lparr>flags := fs\<rparr>" using ingest_frame by blast
  have "ctx_wf (sd_ctx s) \<Longrightarrow> ctx_wf ((sd_ctx s)\<lparr>flags := fs\<rparr>)" using ingest_wf [of "sd_ctx s" D' json cg] by (simp add: fs)
  then show "moves Q D 0 s (s\<lparr>sd_ctx := fst (flags_ingest_for_context D' json cg (sd_ctx s))\<rparr>)"
    unfolding fs by (intro moves_ctx) (simp_all add: ctx_config.defs)
  define f where "f c = mark_reload_locked g st c" for c
  have h: "f c = c\<lparr>flag_reload_history := flag_reload_history (f c)\<rparr>" for c
    by (rule mark_reload_frame [of g st c]) (simp add: f_def)
  have k: "ctx_wf (f c) = ctx_wf c" "ctx_config.truncate (f c) = ctx_config.truncate c" "st_sent (f c) = st_sent c" "st_failed (f c) = st_failed c"
    "st_before_send_dropped (f c) = st_before_send_dropped c" "queue (f c) = queue c" "stop (f c) = stop c" for c
    by (subst h, simp add: ctx_config.defs ctx_wf_def ctx_strings_ok_def)+
  show "moves Q D 0 s (s\<lparr>sd_ctx := ph__flags_complete_fetch g st (sd_ctx s), sd_turns := a\<rparr>)"
    unfolding ph__flags_complete_fetch_def f_def [symmetric]
    by (rule moves_ctx) (simp_all add: k, simp_all add: ctx_config.defs ctx_wf_def ctx_strings_ok_def)
qed

lemma moves_flags:
  assumes "env_keeps Q E"
  shows "moves Q D' 0 s (service_flags L D E fetch s)"
proof (cases "stop (sd_ctx s)")
  case False
  obtain ctx r where t: "ph__flags_take_fetch (sd_ctx s) = (ctx, r)" by (cases "ph__flags_take_fetch (sd_ctx s)")
  let ?s = "s\<lparr>sd_ctx := ctx\<rparr>"
  have m1: "moves Q D' 0 s ?s" using moves_flag_fields(1) [of Q D' s] by (simp add: t)
  show ?thesis
  proof (cases r)
    case None
    with m1 False t show ?thesis by (simp add: service_flags_def)
  next
    case (Some p)
    then obtain g cg where r: "r = Some (g, cg)" by (cases p) simp
    let ?b = "env_others E (sd_turns s)"
    obtain c st where f: "ph__flags_fetch D L fetch ?b cg ctx = (c, st)" by (cases "ph__flags_fetch D L fetch ?b cg ctx")
    have v: "service_flags L D E fetch s = (s\<lparr>sd_ctx := c\<rparr>)\<lparr>sd_ctx := ph__flags_complete_fetch g st (sd_ctx (s\<lparr>sd_ctx := c\<rparr>)), sd_turns := Suc (sd_turns s)\<rparr>"
      using False t r f by (simp add: service_flags_def)
    have m2: "moves Q D' 0 s (others E ?s)" by (rule moves_trans0 [OF m1 moves_others [OF assms]])
    have b: "moves Q D' 0 s (s\<lparr>sd_ctx := ?b ctx\<rparr>)"
      by (rule moves_trans0 [OF m2]) (rule moves_ctx, simp_all add: others_def)
    have "moves Q D' 0 s (s\<lparr>sd_ctx := c\<rparr>)"
    proof (rule fetch_cases [of D L fetch ?b cg ctx])
      fix resp assume "fst (ph__flags_fetch D L fetch ?b cg ctx) = fst (flags_ingest_for_context D resp cg (?b ctx))"
      then show ?thesis using moves_trans0 [OF b moves_flag_fields(2) [where D' = D and json = resp and cg = cg]] by (simp add: f)
    qed (use m1 b f in simp_all)
    from moves_trans0 [OF this moves_flag_fields(3) [where g = g and st = st and a = "Suc (sd_turns s)"]] show ?thesis unfolding v by simp
  qed
qed (simp add: service_flags_def)

lemma moves_stats: "moves Q D 0 s (snd (stats_turn E last_stats s))"
  using moves_read [of Q D s E] by (cases "read_mono E s") (simp add: stats_turn_def Let_def)

lemma moves_park: "env_keeps Q E \<Longrightarrow> moves Q D 0 s (snd (sender_park E s))"
  using moves_read [of Q D s E] moves_trans0 [OF moves_read [of Q D s E] moves_backoff]
  by (cases "read_mono E s") (simp add: sender_park_def Let_def)

text \<open>One turn up to the decision to leave.\<close>

definition turn_tail ::
  "double_libc \<Rightarrow> 'd dbl_ops \<Rightarrow> sender_env \<Rightarrow> (string \<Rightarrow> bytes \<Rightarrow> int \<Rightarrow> int \<times> bytes) option \<Rightarrow> u64 \<Rightarrow> sender \<Rightarrow>
   (u64 \<times> (string \<times> nat) list) \<times> bool \<times> sender" where
  "turn_tail L D E fetch last_stats s =
     (let (r, s) = stats_turn E last_stats (service_flags L D E fetch s)
      in (r, if stop (sd_ctx s) then (True, s) else sender_park E s))"

lemma sender_main_turn:
  assumes "drain L D E fuel False (sender_wait E s) = Some s1" "turn_tail L D E fetch last_stats s1 = ((last', new), leave, s2)"
  shows "sender_main L D E fetch (Suc turns) fuel last_stats reports s =
    (if leave then map_option (\<lambda>s. (s, reports @ new)) (drain L D E fuel True s2)
     else sender_main L D E fetch turns fuel last' (reports @ new) s2)"
  using assms by (auto simp: turn_tail_def Let_def split: prod.splits)

lemma moves_tail:
  assumes "env_keeps Q E" "turn_tail L D E fetch last_stats s = (r, leave, s')"
  shows "moves Q D 0 s s'" "sender_ok s \<Longrightarrow> stop (sd_ctx s) \<Longrightarrow> leave"
proof -
  obtain r1 s1 where t: "stats_turn E last_stats (service_flags L D E fetch s) = (r1, s1)"
    by (cases "stats_turn E last_stats (service_flags L D E fetch s)")
  have m: "moves Q D 0 s s1"
    using moves_trans0 [OF moves_flags [OF assms(1), of D s L D fetch] moves_stats [of Q D _ E last_stats]] by (simp add: t)
  have e: "(leave, s') = (if stop (sd_ctx s1) then (True, s1) else sender_park E s1)" using assms(2) by (simp add: turn_tail_def t)
  show "moves Q D 0 s s'"
    using e m moves_trans0 [OF m moves_park [OF assms(1)]] by (cases "sender_park E s1") (simp split: if_splits)
  show "sender_ok s \<Longrightarrow> stop (sd_ctx s) \<Longrightarrow> leave" using e m by (simp add: shifts_def)
qed

lemma sender_main_balanced:
  assumes "env_keeps Q E" "printf_ok L g"
  shows "sender_main L D E fetch turns fuel last_stats reports s = Some (s', reports') \<Longrightarrow> balanced Q D s s'"
proof (induction turns arbitrary: last_stats reports s)
  case (Suc turns)
  obtain s1 where d: "drain L D E fuel False (sender_wait E s) = Some s1" using Suc.prems by (auto split: option.splits)
  have b1: "balanced Q D s s1"
    by (rule balanced_trans [OF moves_balanced [OF moves_wait [OF assms(1)]] drain_balanced [OF assms d]])
  obtain last' new leave s2 where t: "turn_tail L D E fetch last_stats s1 = ((last', new), leave, s2)"
    by (cases "turn_tail L D E fetch last_stats s1") auto
  have b2: "balanced Q D s s2" by (rule balanced_trans [OF b1 moves_balanced [OF moves_tail(1) [OF assms(1) t]]])
  note u = Suc.prems [unfolded sender_main_turn [OF d t]]
  show ?case
  proof (cases leave)
    case True
    then obtain s3 where "drain L D E fuel True s2 = Some s3" "s3 = s'" using u by auto
    then show ?thesis using balanced_trans [OF b2 drain_balanced [OF assms]] by simp
  next
    case False
    then have "balanced Q D s2 s'" using u Suc.IH by simp
    with b2 show ?thesis by (rule balanced_trans)
  qed
qed simp

text \<open>A sender told to stop leaves after the turn it is in.\<close>

lemma sender_main_ends:
  assumes "env_ok True E" "printf_ok L g" "ready True s n" "n + 1 < fuel"
  shows "\<exists>s' reports'. sender_main L D E fetch (Suc turns) fuel last_stats reports s = Some (s', reports') \<and> stop (sd_ctx s')"
proof -
  note e = env_keeps_any [OF assms(1)]
  have "ready True (sender_wait E s) n" by (rule ready_moves [OF moves_wait [OF e, where D = D] assms(3)])
  then obtain s1 where d: "drain L D E fuel False (sender_wait E s) = Some s1" "ready True s1 n"
    using drain_ends [OF e assms(2) _ assms(4)] by blast
  obtain last' new leave s2 where t: "turn_tail L D E fetch last_stats s1 = ((last', new), leave, s2)"
    by (cases "turn_tail L D E fetch last_stats s1") auto
  note m = moves_tail [OF e t]
  have leave: leave using m(2) d(2) by (simp add: ready_def)
  have "ready True s2 n" by (rule ready_moves [OF m(1) d(2)])
  then obtain s3 where "drain L D E fuel True s2 = Some s3" "ready True s3 n" using drain_ends [OF e assms(2) _ assms(4)] by blast
  then show ?thesis using sender_main_turn [OF d(1) t] leave by (simp add: ready_def)
qed

section \<open>What the sender relies on in a transport\<close>

text \<open>
  A transport that reports a success only for a body that was delivered. With one, \<open>sent\<close> counts
  exactly the events of the bodies answered with a success, and each of them was delivered.
\<close>

locale transport =
  fixes send :: "nat \<Rightarrow> string \<Rightarrow> bytes \<Rightarrow> int \<Rightarrow> int \<times> ph_send_meta"
    and delivered :: "string \<Rightarrow> bytes \<Rightarrow> bool"
  assumes acknowledged: "is_2xx (fst (send k url body timeout)) \<Longrightarrow> delivered url body"
begin

lemma promised: "env_ok q E \<Longrightarrow> env_send E = Some send \<Longrightarrow> env_keeps (q, \<lambda>url body status. is_2xx status \<longrightarrow> delivered url body) E"
  by (simp add: env_keeps_def acknowledged)

lemma sent_delivered:
  assumes "env_ok q E" "env_send E = Some send" "printf_ok L g" "sender_ok s" "sd_posted s = []" "st_sent (sd_ctx s) = 0"
    "sender_main L D E fetch turns fuel last_stats reports s = Some (s', reports')"
  shows "st_sent (sd_ctx s') = acked D (sd_posted s')"
    "(body, status) \<in> set (sd_posted s') \<Longrightarrow> is_2xx status \<Longrightarrow> delivered (build_batch_url (sd_ctx s)) body"
proof -
  note b = sender_main_balanced [OF promised [OF assms(1,2)] assms(3,7), unfolded balanced_def, rule_format, OF assms(4)]
  show "st_sent (sd_ctx s') = acked D (sd_posted s')" using b assms(5,6) by (simp add: uncounted_def)
  show "(body, status) \<in> set (sd_posted s') \<Longrightarrow> is_2xx status \<Longrightarrow> delivered (build_batch_url (sd_ctx s)) body"
    using b assms(5) by fastforce
qed

end

section \<open>Facts: flush\<close>

lemma flush_loop_ends:
  assumes "0 < timeout_ms" "deadline \<le> env_mono E (sd_ticks s + k)"
  shows "\<exists>s'. flush_loop E (Suc k) timeout_ms deadline gen0 s = Some s'"
  using assms(2)
proof (induction k arbitrary: s)
  case (Suc k)
  have "\<exists>s'. flush_loop E (Suc k) timeout_ms deadline gen0 (others E (s\<lparr>sd_ticks := Suc (sd_ticks s)\<rparr>)) = Some s'"
    by (rule Suc.IH) (use Suc.prems in \<open>simp add: others_def\<close>)
  then show ?case by (subst flush_loop.simps) (auto split: option.split simp del: flush_loop.simps)
qed (use assms(1) in \<open>simp add: flush_wait_def\<close>)

section \<open>Properties\<close>

definition good_atomic :: atomic_io where
  "good_atomic = \<lparr>ai_open = True, ai_write = True, ai_close = True, ai_rename = True, ai_dirsync = True\<rparr>"

definition good_spill :: spill_io where
  "good_spill = \<lparr>cap_open = True, cap_mem = True, cap_read = True, cap_atomic = good_atomic, sp_mkdir = True, sp_open = True,
     sp_written = 100000, sp_flush = True, sp_trunc = True, sp_close = True, sp_dirsync = True\<rparr>"

definition sample_env :: sender_env where
  "sample_env = \<lparr>env_mono = of_nat, env_wall = of_nat, env_send = Some (\<lambda>k url body t. (if k = 0 then 500 else 200, no_meta)),
     env_spill = \<lambda>k. good_spill, env_rewrite = \<lambda>k. good_atomic, env_oom = \<lambda>k. False, env_others = \<lambda>k c. c\<rparr>"

definition sample_sender :: sender where
  "sample_sender = \<lparr>sd_ctx = (fst (ph_capture id 5 (Some ''jump'') None sample_ctx))\<lparr>max_batch := 50\<rparr>, sd_files = \<lambda>_. None,
     sd_ticks = 0, sd_sends = 0, sd_spills = 0, sd_rewrites = 0, sd_bodies = 0, sd_turns = 0, sd_posted = [], sd_popped = 0\<rparr>"

lemma sample_env_ok: "env_ok Q sample_env"
  by (simp add: env_ok_def sample_env_def good_spill_def good_atomic_def io_clean_def atomic_clean_def rewrite_ok_def others_ok_def quiet_def)

lemma sample_sender_ok: "sender_ok sample_sender" "0 < max_batch (sd_ctx sample_sender)" "length (queued sample_sender) = 1"
  "st_sent (sd_ctx sample_sender) = 0" "st_failed (sd_ctx sample_sender) = 0" "st_before_send_dropped (sd_ctx sample_sender) = 0"
proof -
  let ?c = "fst (ph_capture id 5 (Some ''jump'') None sample_ctx)"
  have wf: "ctx_wf ?c" by (rule capture_wf [OF sample_ctx_wf(1)]) simp_all
  have "copy_capture_event_name ''jump'' = (''jump'', False)" by code_simp
  then have c: "?c = fst (ph__submit_event id 5 PH_EV_CAPTURE 0 (Some ''jump'') None None (- 1) True None sample_ctx)"
    by (simp add: ph_capture_def sample_ctx_wf case_prod_beta)
  then obtain a tk lm dr q where f: "?c = sample_ctx\<lparr>seq := a, rl_tokens := tk, rl_last_mono := lm, rl_dropped := dr, queue := q\<rparr>"
    using submit_frame [of id 5 PH_EV_CAPTURE 0 "Some ''jump''" None None "-1" True None sample_ctx] by metis
  have sd: "sd_ctx sample_sender = sample_ctx\<lparr>seq := a, rl_tokens := tk, rl_last_mono := lm, rl_dropped := dr, queue := q, max_batch := 50\<rparr>"
    "sd_files sample_sender = (\<lambda>_. None)" "sd_posted sample_sender = []"
    by (simp_all add: sample_sender_def f)
  show "sender_ok sample_sender" using wf [unfolded f]
    by (simp add: sender_ok_def sd ctx_wf_def ctx_strings_ok_def hook_ok_def spill_clean_def sample_ctx_def zero_ctx_def caps)
  show "0 < max_batch (sd_ctx sample_sender)" by (simp add: sample_sender_def)
  show "st_sent (sd_ctx sample_sender) = 0" "st_failed (sd_ctx sample_sender) = 0" "st_before_send_dropped (sd_ctx sample_sender) = 0"
    by (simp_all add: sd(1) sample_ctx_def zero_ctx_def)
  have ad: "admits id PH_EV_CAPTURE 5 sample_ctx" by (simp add: admits_def rate_limit_admit_def sample_ctx_def zero_ctx_def)
  obtain q' where "fst (ph__submit_event id 5 PH_EV_CAPTURE 0 (Some ''jump'') None None (- 1) True None sample_ctx) =
      (admitted_ctx id PH_EV_CAPTURE 5 sample_ctx)\<lparr>queue := q'\<rparr>" "length (queue_list q') = 1"
    by (rule submit_event_ok [OF sample_ctx_wf(2,1) ad, of 0 "''jump''" None None "-1" True None])
      (simp add: sample_ctx_wf(3) del: queue_list_length)
  with c show "length (queued sample_sender) = 1" by (simp add: sample_sender_def del: queue_list_length)
qed

definition stopped_sender :: sender where
  "stopped_sender = on_ctx (\<lambda>c. c\<lparr>stop := True\<rparr>) sample_sender"

lemma stopped_sender_ready: "ready True stopped_sender 1"
proof -
  have "moves (True, A) rat_dbl 0 sample_sender stopped_sender" for A
    unfolding stopped_sender_def by (rule moves_ctx) (simp_all add: on_ctx_def ctx_config.defs ctx_wf_def ctx_strings_ok_def)
  then have "sender_ok stopped_sender" using sample_sender_ok(1) by (simp add: shifts_def)
  with sample_sender_ok(2,3) show ?thesis by (simp add: ready_def stopped_sender_def on_ctx_def del: queue_list_length)
qed

definition late_env :: sender_env where
  "late_env = sample_env\<lparr>env_mono := \<lambda>k. 1000\<rparr>"

lemma late_env_ok: "env_ok Q late_env"
  using sample_env_ok [of Q] by (simp add: late_env_def env_ok_def quiet_def)

definition late_sender :: sender where
  "late_sender = on_ctx (\<lambda>c. c\<lparr>shutdown_deadline_mono_ns := 900\<rparr>) stopped_sender"

lemma late_sender_ready: "ready True late_sender 1" "shutdown_deadline_mono_ns (sd_ctx late_sender) = 900"
proof -
  have "moves (True, A) rat_dbl 0 stopped_sender late_sender" for A
    unfolding late_sender_def by (rule moves_ctx) (simp_all add: on_ctx_def ctx_config.defs ctx_wf_def ctx_strings_ok_def)
  then show "ready True late_sender 1" using stopped_sender_ready by (rule ready_moves)
qed (simp add: late_sender_def on_ctx_def)






definition capped_sender :: sender where
  "capped_sender = (on_ctx (\<lambda>c. c\<lparr>max_batch_bytes := 400\<rparr>) stopped_sender)\<lparr>sd_posted := [(''[]'', 200)]\<rparr>"


end
