(* ===== verification/Ph_Core.thy ===== *)
theory Ph_Core
  imports Ph_Native
begin

text \<open>
  The library's instance and its public calls, from \<^verbatim>\<open>src/ph_core.c\<close>: configuration and its
  validation, \<open>ph_init\<close> and \<open>ph_shutdown\<close>, identity, groups and super properties. (The enqueue path
  of the same file is theory \<open>Ph_Submit\<close>.) A call is a function on the context; \<open>ph_init\<close> works on
  the process, which also has the files and the signal state. Clock readings, seeds and the results
  of allocations are arguments.

  The interface the sender relies on while other threads call the library is the locale
  \<open>shared_context\<close>, interpreted on the calls of this theory. \<open>ph_log\<close> and the mutexes and condition
  variables are not part of the state.
\<close>

section \<open>Configuration\<close>

text \<open>
  The caller's configuration. Pointers that may be null are options; the denylist is the array
  the caller passed, of which the first \<open>cfg_property_denylist_count\<close> elements are read.
\<close>

record ph_config =
  cfg_api_key :: "string option"
  cfg_api_host :: "string option"
  cfg_distinct_id :: "string option"
  cfg_flush_at :: int
  cfg_flush_interval_ms :: int
  cfg_max_batch :: int
  cfg_max_queue :: int
  cfg_request_timeout_ms :: int
  cfg_max_retries :: int
  cfg_gzip :: bool
  cfg_offline_path :: "string option"
  cfg_release :: "string option"
  cfg_enabled :: bool
  cfg_person_profiles :: int
  cfg_send_feature_flag_events :: bool
  cfg_preload_flags :: bool
  cfg_disable_geoip :: bool
  cfg_before_send :: "before_send_fn option"
  cfg_rate_limit_per_sec :: int
  cfg_property_denylist :: "string option list option"
  cfg_property_denylist_count :: int
  cfg_crash_handler :: bool
  cfg_max_batch_bytes :: int
  cfg_on_stats :: bool
  cfg_stats_interval_ms :: int

definition def_int :: "int \<Rightarrow> int \<Rightarrow> int" where
  "def_int v fallback = (if 0 < v then v else fallback)"

definition PH_CONFIG_MAX_BATCH :: int where "PH_CONFIG_MAX_BATCH = 10000"
definition PH_CONFIG_MAX_QUEUE :: int where "PH_CONFIG_MAX_QUEUE = 100000"

definition DEFAULT_HOST :: string where "DEFAULT_HOST = ''https://us.i.posthog.com''"

definition string_over_cap :: "string option \<Rightarrow> nat \<Rightarrow> bool" where
  "string_over_cap s n = (case s of None \<Rightarrow> False | Some s \<Rightarrow> n \<le> length s)"

definition given :: "string option \<Rightarrow> bool" where
  "given s = (case s of None \<Rightarrow> False | Some s \<Rightarrow> s \<noteq> [])"

definition config_host :: "ph_config \<Rightarrow> string" where
  "config_host cfg = (if given (cfg_api_host cfg) then the (cfg_api_host cfg) else DEFAULT_HOST)"

definition config_denylist :: "ph_config \<Rightarrow> string option list" where
  "config_denylist cfg = (case cfg_property_denylist cfg of None \<Rightarrow> []
     | Some d \<Rightarrow> take (nat (cfg_property_denylist_count cfg)) d)"

definition validate_config :: "ph_config option \<Rightarrow> ph_result" where
  "validate_config c =
     (case c of None \<Rightarrow> PH_ERR_BADARG
      | Some cfg \<Rightarrow>
          if \<not> cfg_enabled cfg then PH_OK
          else if \<not> given (cfg_api_key cfg) then PH_ERR_BADARG
          else if \<not> given (cfg_distinct_id cfg) then PH_ERR_BADARG
          else let host = config_host cfg
          in if take 7 host \<noteq> ''http://'' \<and> take 8 host \<noteq> ''https://'' then PH_ERR_BADARG
          else if string_over_cap (cfg_api_key cfg) PH_API_KEY_CAP \<or> string_over_cap (Some host) PH_HOST_CAP \<or>
                  string_over_cap (cfg_release cfg) PH_RELEASE_CAP \<or> string_over_cap (cfg_offline_path cfg) PH_PATH_CAP \<or>
                  string_over_cap (cfg_distinct_id cfg) PH_DISTINCT_ID_CAP then PH_ERR_BADARG
          else if cfg_person_profiles cfg < PH_IDENTIFIED_ONLY \<or> PH_NEVER < cfg_person_profiles cfg then PH_ERR_BADARG
          else if cfg_flush_at cfg < 0 \<or> cfg_flush_interval_ms cfg < 0 \<or> cfg_max_batch cfg < 0 \<or> cfg_max_queue cfg < 0 \<or>
                  cfg_request_timeout_ms cfg < 0 \<or> cfg_max_retries cfg < 0 \<or> cfg_max_batch_bytes cfg < 0 \<or>
                  cfg_stats_interval_ms cfg < 0 then PH_ERR_BADARG
          else if PH_CONFIG_MAX_BATCH < def_int (cfg_max_batch cfg) 50 \<or>
                  PH_CONFIG_MAX_QUEUE < def_int (cfg_max_queue cfg) 1000 then PH_ERR_BADARG
          else if cfg_property_denylist_count cfg < 0 \<or> int PH_MAX_DENYLIST < cfg_property_denylist_count cfg then PH_ERR_BADARG
          else if 0 < cfg_property_denylist_count cfg \<and> cfg_property_denylist cfg = None then PH_ERR_BADARG
          else if list_ex (\<lambda>s. string_over_cap s PH_KEY_CAP) (config_denylist cfg) then PH_ERR_BADARG
          else PH_OK)"

definition ph_config_defaults :: ph_config where
  "ph_config_defaults = \<lparr>cfg_api_key = None, cfg_api_host = Some DEFAULT_HOST, cfg_distinct_id = None,
     cfg_flush_at = 20, cfg_flush_interval_ms = 30000, cfg_max_batch = 50, cfg_max_queue = 1000,
     cfg_request_timeout_ms = 10000, cfg_max_retries = 3, cfg_gzip = True, cfg_offline_path = None, cfg_release = None,
     cfg_enabled = True, cfg_person_profiles = PH_IDENTIFIED_ONLY, cfg_send_feature_flag_events = True,
     cfg_preload_flags = True, cfg_disable_geoip = False, cfg_before_send = None, cfg_rate_limit_per_sec = 0,
     cfg_property_denylist = None, cfg_property_denylist_count = 0, cfg_crash_handler = False,
     cfg_max_batch_bytes = 1024 * 1024, cfg_on_stats = False, cfg_stats_interval_ms = 0\<rparr>"

section \<open>Lifecycle\<close>

text \<open>What \<open>ph_init\<close> reads from the system and which of its system calls succeed.\<close>

record init_env =
  in_wall :: u64
  in_mono :: u64
  in_seed :: u64
  in_queue_mem :: bool
  in_event_size :: nat
  in_scratch_mem :: bool
  in_thread :: bool
  in_round :: "real \<Rightarrow> real"
  in_tick :: u64
  in_stack_mem :: bool
  in_sigaltstack :: bool
  in_sigaction :: "u32 \<Rightarrow> bool"

text \<open>The process: the context, the files and the signal state.\<close>

record process =
  pr_ctx :: ph_ctx
  pr_files :: files
  pr_posix :: posix_state

text \<open>\<open>memset(&g_ph, 0, ...)\<close>: the ticket counter of the flags component is outside the context.\<close>

definition cleared :: "ph_ctx \<Rightarrow> ph_ctx" where
  "cleared ctx = zero_ctx\<lparr>reload_request_id := reload_request_id ctx\<rparr>"

definition zero_event :: ph_event where
  "zero_event = \<lparr>ev_kind = PH_EV_CAPTURE, ev_flags = 0, ev_name_len = 0, ev_did_len = 0, ev_blob_len = 0,
     ev_mono_ns = 0, ev_epoch_wall_ns = 0, ev_epoch_mono_ns = 0, ev_seq = 0, ev_data = []\<rparr>"

definition init_denylist :: "ph_config \<Rightarrow> string list" where
  "init_denylist cfg =
     map (\<lambda>s. ph_copy_capped [] PH_KEY_CAP s)
       (filter given (if 0 < cfg_property_denylist_count cfg then take PH_MAX_DENYLIST (config_denylist cfg) else []))"

definition init_ctx :: "init_env \<Rightarrow> ph_config \<Rightarrow> ph_ctx \<Rightarrow> ph_ctx" where
  "init_ctx ie cfg ctx =
     (let rate = (if 0 < cfg_rate_limit_per_sec cfg then real_of_int (cfg_rate_limit_per_sec cfg) else 0)
      in (cleared ctx)\<lparr>
        api_key := ph_copy_capped [] PH_API_KEY_CAP (cfg_api_key cfg),
        api_host := ph_copy_capped [] PH_HOST_CAP (Some (config_host cfg)),
        release := ph_copy_capped [] PH_RELEASE_CAP (cfg_release cfg),
        offline_path := ph_copy_capped [] PH_PATH_CAP (cfg_offline_path cfg),
        person_profiles := cfg_person_profiles cfg,
        flush_at := def_int (cfg_flush_at cfg) 20,
        flush_interval_ms := def_int (cfg_flush_interval_ms cfg) 30000,
        max_batch := def_int (cfg_max_batch cfg) 50,
        max_queue := def_int (cfg_max_queue cfg) 1000,
        request_timeout_ms := def_int (cfg_request_timeout_ms cfg) 10000,
        max_retries := (if 0 \<le> cfg_max_retries cfg then cfg_max_retries cfg else 3),
        use_gzip := cfg_gzip cfg,
        send_feature_flag_events := cfg_send_feature_flag_events cfg,
        disable_geoip := cfg_disable_geoip cfg,
        before_send := cfg_before_send cfg,
        has_on_stats := cfg_on_stats cfg,
        stats_interval_ms := cfg_stats_interval_ms cfg,
        max_batch_bytes := (if 0 < cfg_max_batch_bytes cfg then cfg_max_batch_bytes cfg else 0),
        super_props := ph_props_init,
        flag_person_props := ph_props_init,
        flags_context_gen := 1,
        distinct_id := ph_copy_capped [] PH_DISTINCT_ID_CAP (cfg_distinct_id cfg),
        identified := False,
        epoch_wall_ns := in_wall ie,
        epoch_mono_ns := in_mono ie,
        uuid_salt := in_seed ie,
        denylist := init_denylist cfg,
        rl_rate := rate, rl_burst := rate, rl_tokens := rate, rl_last_mono := in_mono ie, rl_dropped := 0,
        initialized := True\<rparr>)"

definition init_crash :: "init_env \<Rightarrow> ph_config \<Rightarrow> process \<Rightarrow> process" where
  "init_crash ie cfg p =
     (let dir = offline_path (pr_ctx p)
      in if cfg_crash_handler cfg \<and> dir \<noteq> [] then
           (let (ctx, fs, n) = ph_signal_crash_replay (in_round ie) (in_tick ie) (Some dir) (pr_files p) (pr_ctx p);
                (ps, k) = ph_signal_crash_install (in_stack_mem ie) (in_sigaltstack ie) (in_sigaction ie) (Some dir) (pr_posix p)
            in \<lparr>pr_ctx = ctx, pr_files = fs, pr_posix = ps\<rparr>)
         else p)"

text \<open>
  The last component is where the preloading \<open>ph_reload_feature_flags\<close> stands when \<open>ph_init\<close> starts
  to wait for the sender.
\<close>

definition ph_init :: "init_env \<Rightarrow> ph_config option \<Rightarrow> process \<Rightarrow> process \<times> ph_result \<times> reload_client" where
  "ph_init ie c p =
     (if initialized (pr_ctx p) then (p, PH_ERR, RDone)
      else if validate_config c \<noteq> PH_OK then (p, validate_config c, RDone)
      else let cfg = the c; ctx = init_ctx ie cfg (pr_ctx p)
           in if \<not> cfg_enabled cfg then (p\<lparr>pr_ctx := ctx\<lparr>enabled := False\<rparr>\<rparr>, PH_OK, RDone)
              else case ph_queue_init (max_queue ctx) (in_queue_mem ie) zero_event of
                  None \<Rightarrow> (p\<lparr>pr_ctx := ctx\<lparr>initialized := False\<rparr>\<rparr>, PH_ERR, RDone)
                | Some q \<Rightarrow>
                    let (ctx, started) = ph__sender_start (in_event_size ie) (in_scratch_mem ie) (in_thread ie)
                                           (ctx\<lparr>queue := q, enabled := True\<rparr>)
                    in if \<not> started then (p\<lparr>pr_ctx := cleared ctx\<rparr>, PH_ERR, RDone)
                       else let p = init_crash ie cfg (p\<lparr>pr_ctx := ctx\<rparr>)
                            in if cfg_preload_flags cfg then
                                 (let (ctx, client) = ph_reload_feature_flags_step False (pr_ctx p) RStart
                                  in (p\<lparr>pr_ctx := ctx\<rparr>, PH_OK, client))
                               else (p, PH_OK, RDone))"

definition ph_shutdown :: "bool \<Rightarrow> bool \<Rightarrow> u64 \<Rightarrow> (ph_ctx \<Rightarrow> ph_ctx) \<Rightarrow> process \<Rightarrow> process" where
  "ph_shutdown in_callback on_sender now joined p =
     (if \<not> initialized (pr_ctx p) then p
      else if in_callback \<or> (sender_running (pr_ctx p) \<and> on_sender) then p
      else let p = p\<lparr>pr_posix := ph_signal_crash_uninstall (pr_posix p)\<rparr>;
               ctx = (if enabled (pr_ctx p) then ph__sender_stop_and_join now joined (pr_ctx p) else pr_ctx p)
           in p\<lparr>pr_ctx := cleared ctx\<rparr>)"

section \<open>Identity\<close>

definition gen_anon_id :: "u64 \<Rightarrow> u64 \<Rightarrow> string" where
  "gen_anon_id wall seed = ph_copy_capped [] PH_DISTINCT_ID_CAP (Some (ph_uuid_v7 (wall div 1000000) seed 0))"

definition immediate_flag_props :: "ph_props option \<Rightarrow> ph_ctx \<Rightarrow> ph_props" where
  "immediate_flag_props p ctx =
     (case p of None \<Rightarrow> ph_props_init
      | Some p \<Rightarrow> if before_send ctx \<noteq> None then ph_props_init else ph_apply_denylist p (denylist ctx))"

definition ph_identify :: "(real \<Rightarrow> real) \<Rightarrow> u64 \<Rightarrow> string option \<Rightarrow> ph_props option \<Rightarrow> ph_ctx \<Rightarrow> ph_ctx" where
  "ph_identify rnd t did set_props ctx =
     (if \<not> enabled ctx \<or> \<not> given did then ctx
      else let person = immediate_flag_props set_props ctx;
               ctx = ctx\<lparr>distinct_id := ph_copy_capped [] PH_DISTINCT_ID_CAP did, identified := True, flag_person_props := person\<rparr>;
               ctx = ph__flags_context_changed_locked ctx;
               ctx = fst (ph__submit_event rnd t PH_EV_IDENTIFY 0 (Some ''$identify'') did set_props 0 False None ctx)
           in ph__flags_request_auto_refresh ctx)"

definition ph_alias :: "(real \<Rightarrow> real) \<Rightarrow> u64 \<Rightarrow> string option \<Rightarrow> string option \<Rightarrow> ph_ctx \<Rightarrow> ph_ctx" where
  "ph_alias rnd t new_id old_id ctx =
     (if \<not> enabled ctx \<or> \<not> given new_id \<or> \<not> given old_id then ctx
      else let new_capped = ph_copy_capped [] PH_DISTINCT_ID_CAP new_id;
               old_capped = ph_copy_capped [] PH_DISTINCT_ID_CAP old_id;
               p = props_put_str ph_props_init ''alias'' new_capped
           in fst (ph__submit_event rnd t PH_EV_ALIAS 0 (Some ''$create_alias'') (Some old_capped) (Some p) 0 False None ctx))"

text \<open>What is written to the caller's buffer (\<open>None\<close>: nothing), and the result.\<close>

definition ph_get_distinct_id :: "bool \<Rightarrow> int \<Rightarrow> ph_ctx \<Rightarrow> string option \<times> ph_result" where
  "ph_get_distinct_id want n ctx =
     (if \<not> want \<or> n \<le> 0 then (None, PH_ERR_BADARG)
      else if \<not> enabled ctx then (Some [], PH_ERR_DISABLED)
      else (Some (ph_copy_capped [] (nat n) (Some (distinct_id ctx))),
            if nat n \<le> length (distinct_id ctx) then PH_ERR_TRUNCATED else PH_OK))"

definition ph_reset :: "u64 \<Rightarrow> u64 \<Rightarrow> ph_ctx \<Rightarrow> ph_ctx" where
  "ph_reset wall seed ctx =
     (if \<not> enabled ctx then ctx
      else ph__flags_request_auto_refresh (ph__flags_context_changed_locked
             (ctx\<lparr>distinct_id := gen_anon_id wall seed, identified := False, super_props := ph_props_init,
                  flag_person_props := ph_props_init, groups := []\<rparr>)))"

section \<open>Groups and super properties\<close>

fun put_group :: "ph_group \<Rightarrow> ph_group list \<Rightarrow> ph_group list option" where
  "put_group g [] = None"
| "put_group g (h # hs) =
     (if group_type h = group_type g then Some (h\<lparr>group_key := group_key g, group_props := group_props g\<rparr> # hs)
      else map_option ((#) h) (put_group g hs))"

text \<open>The membership table after the call, \<open>None\<close> when it does not change.\<close>

definition remember_group :: "ph_group \<Rightarrow> ph_group list \<Rightarrow> ph_group list option" where
  "remember_group g gs =
     (case put_group g gs of Some gs' \<Rightarrow> Some gs'
      | None \<Rightarrow> if length gs < PH_MAX_GROUPS then Some (gs @ [g]) else None)"

definition group_event_props :: "string \<Rightarrow> string \<Rightarrow> ph_props option \<Rightarrow> ph_props" where
  "group_event_props type key set_props =
     (let p = props_put_str (props_put_str ph_props_init ''$group_type'' type) ''$group_key'' key
      in case set_props of None \<Rightarrow> p | Some s \<Rightarrow> foldl ph_copy_prop_value p (p_items s))"

definition ph_group_call :: "(real \<Rightarrow> real) \<Rightarrow> u64 \<Rightarrow> string option \<Rightarrow> string option \<Rightarrow> ph_props option \<Rightarrow> ph_ctx \<Rightarrow> ph_ctx" where
  "ph_group_call rnd t type key set_props ctx =
     (if \<not> enabled ctx \<or> \<not> given type \<or> \<not> given key then ctx
      else let type_capped = ph_copy_capped [] PH_KEY_CAP type;
               key_capped = ph_copy_capped [] PH_KEY_CAP key;
               gprops = immediate_flag_props set_props ctx;
               ctx = (case remember_group \<lparr>group_type = type_capped, group_key = key_capped, group_props = gprops\<rparr> (groups ctx) of
                        None \<Rightarrow> ctx
                      | Some gs \<Rightarrow> ph__flags_request_auto_refresh (ph__flags_context_changed_locked (ctx\<lparr>groups := gs\<rparr>)));
               did = snprintf_trunc (PH_KEY_CAP * 2 + 4) (''$'' @ type_capped @ ''_'' @ key_capped)
           in fst (ph__submit_event rnd t PH_EV_GROUP 0 (Some ''$groupidentify'') (Some did)
                     (Some (group_event_props type_capped key_capped set_props)) 0 False None ctx))"

fun put_item :: "ph_prop \<Rightarrow> ph_prop list \<Rightarrow> ph_prop list option" where
  "put_item it [] = None"
| "put_item it (x # xs) = (if prop_key x = prop_key it then Some (it # xs) else map_option ((#) x) (put_item it xs))"

definition register_one :: "ph_props \<Rightarrow> ph_prop \<Rightarrow> ph_props" where
  "register_one p it =
     (case put_item it (p_items p) of Some xs \<Rightarrow> p\<lparr>p_items := xs\<rparr>
      | None \<Rightarrow> if length (p_items p) < PH_MAX_PROPS then p\<lparr>p_items := p_items p @ [it]\<rparr> else p)"

definition ph_register :: "ph_props option \<Rightarrow> ph_ctx \<Rightarrow> ph_ctx" where
  "ph_register props ctx =
     (if \<not> enabled ctx then ctx
      else case props of None \<Rightarrow> ctx
      | Some p \<Rightarrow> ctx\<lparr>super_props := foldl register_one (super_props ctx) (p_items p)\<rparr>)"

fun drop_item :: "string \<Rightarrow> ph_prop list \<Rightarrow> ph_prop list" where
  "drop_item k [] = []"
| "drop_item k (x # xs) = (if prop_key x = k then xs else x # drop_item k xs)"

definition ph_unregister :: "string option \<Rightarrow> ph_ctx \<Rightarrow> ph_ctx" where
  "ph_unregister key ctx =
     (if \<not> enabled ctx then ctx
      else case key of None \<Rightarrow> ctx
      | Some k \<Rightarrow> ctx\<lparr>super_props := (super_props ctx)\<lparr>p_items := drop_item k (p_items (super_props ctx))\<rparr>\<rparr>)"

definition ph_dropped_events :: "ph_ctx \<Rightarrow> u64" where
  "ph_dropped_events ctx =
     (if \<not> initialized ctx then 0
      else (if enabled ctx then ph_queue_dropped (queue ctx) else 0) + rl_dropped ctx + st_before_send_dropped ctx + st_failed ctx)"

section \<open>Facts: every operation keeps the invariant\<close>

lemma immediate_wf [wf_intros]: "pred_option props_wf p \<Longrightarrow> props_wf (immediate_flag_props p ctx)"
  by (auto simp: immediate_flag_props_def intro: props_init_wf apply_denylist_wf split: option.split)

lemma ctx_wf_identity:
  assumes "ctx_wf ctx" "cstr d" "length d < PH_DISTINCT_ID_CAP" "props_wf p"
  shows "ctx_wf (ctx\<lparr>distinct_id := d, identified := b, flag_person_props := p\<rparr>)"
  using assms by (simp add: ctx_wf_def ctx_strings_ok_def)

lemma submit_plain_wf:
  "ctx_wf ctx \<Longrightarrow> pred_option cstr did \<Longrightarrow> pred_option props_wf props \<Longrightarrow>
   ctx_wf (fst (ph__submit_event rnd t kind fl nm did props pm stamp None ctx))"
  by (rule submit_event_wf [where xs = "[]"]) (simp_all add: submit_args_ok_def extra_entries_def)

lemma identify_wf [wf_intros]:
  assumes "ctx_wf ctx" "pred_option cstr did" "pred_option props_wf set_props"
  shows "ctx_wf (ph_identify rnd t did set_props ctx)"
proof -
  have d: "cstr (ph_copy_capped [] PH_DISTINCT_ID_CAP did)" "length (ph_copy_capped [] PH_DISTINCT_ID_CAP did) < PH_DISTINCT_ID_CAP"
    using copy_capped_ok [of PH_DISTINCT_ID_CAP did "[]"] assms(2) by (simp_all add: caps)
  show ?thesis
    unfolding ph_identify_def Let_def using assms d
    by (simp add: submit_plain_wf ctx_wf_identity immediate_wf)
qed

lemma alias_wf [wf_intros]:
  assumes "ctx_wf ctx" "pred_option cstr new_id" "pred_option cstr old_id"
  shows "ctx_wf (ph_alias rnd t new_id old_id ctx)"
proof -
  have "cstr (ph_copy_capped [] PH_DISTINCT_ID_CAP s)" if "pred_option cstr s" for s
    using copy_capped_ok [of PH_DISTINCT_ID_CAP s "[]"] that by (simp add: caps)
  with assms show ?thesis
    by (simp add: ph_alias_def Let_def submit_plain_wf put_str_wf props_init_wf)
qed

lemma reset_wf [wf_intros]: "ctx_wf ctx \<Longrightarrow> ctx_wf (ph_reset wall seed ctx)"
proof -
  assume a: "ctx_wf ctx"
  have "cstr (gen_anon_id wall seed)" "length (gen_anon_id wall seed) < PH_DISTINCT_ID_CAP"
    using copy_capped_ok [of PH_DISTINCT_ID_CAP "Some (ph_uuid_v7 (wall div 1000000) seed 0)" "[]"] cstr_uuid
    by (simp_all add: gen_anon_id_def caps)
  with a have "ctx_wf (ctx\<lparr>distinct_id := gen_anon_id wall seed, identified := False, super_props := ph_props_init,
      flag_person_props := ph_props_init, groups := []\<rparr>)" by (simp add: ctx_wf_def ctx_strings_ok_def props_init_wf)
  with a show ?thesis by (simp add: ph_reset_def)
qed

lemma put_group_ok:
  "put_group g gs = Some gs' \<Longrightarrow> group_ok g \<Longrightarrow> list_all group_ok gs \<Longrightarrow> list_all group_ok gs' \<and> length gs' = length gs"
  by (induction gs arbitrary: gs') (auto simp: group_ok_def split: if_splits)

lemma remember_group_ok:
  assumes "remember_group g gs = Some gs'" "group_ok g" "list_all group_ok gs" "length gs \<le> PH_MAX_GROUPS"
  shows "list_all group_ok gs' \<and> length gs' \<le> PH_MAX_GROUPS"
  using assms put_group_ok by (auto simp: remember_group_def split: option.splits if_splits)

lemma ctx_wf_groups: "ctx_wf ctx \<Longrightarrow> list_all group_ok gs \<Longrightarrow> length gs \<le> PH_MAX_GROUPS \<Longrightarrow> ctx_wf (ctx\<lparr>groups := gs\<rparr>)"
  by (simp add: ctx_wf_def ctx_strings_ok_def)

lemma group_event_props_wf:
  "cstr ty \<Longrightarrow> cstr k \<Longrightarrow> pred_option props_wf p \<Longrightarrow> props_wf (group_event_props ty k p)"
  by (auto simp: group_event_props_def Let_def props_wf_def [of "the p"] intro!: put_str_wf copy_values_wf props_init_wf split: option.split)
    (simp add: props_wf_def)

lemma group_wf [wf_intros]:
  assumes "ctx_wf ctx" "pred_option cstr ty" "pred_option cstr k" "pred_option props_wf set_props"
  shows "ctx_wf (ph_group_call rnd t ty k set_props ctx)"
proof -
  let ?ty = "ph_copy_capped [] PH_KEY_CAP ty" and ?k = "ph_copy_capped [] PH_KEY_CAP k"
  let ?g = "\<lparr>group_type = ?ty, group_key = ?k, group_props = immediate_flag_props set_props ctx\<rparr>"
  have s: "cstr ?ty" "length ?ty < PH_KEY_CAP" "cstr ?k" "length ?k < PH_KEY_CAP"
    using copy_capped_ok [of PH_KEY_CAP ty "[]"] copy_capped_ok [of PH_KEY_CAP k "[]"] assms(2,3) by (simp_all add: caps)
  have g: "group_ok ?g" using s assms(4) by (simp add: group_ok_def immediate_wf)
  define c where "c = (case remember_group ?g (groups ctx) of None \<Rightarrow> ctx
    | Some gs \<Rightarrow> ph__flags_request_auto_refresh (ph__flags_context_changed_locked (ctx\<lparr>groups := gs\<rparr>)))"
  have "ctx_wf (ctx\<lparr>groups := gs\<rparr>)" if "remember_group ?g (groups ctx) = Some gs" for gs
    using remember_group_ok [OF that g] assms(1) by (intro ctx_wf_groups) (simp_all add: ctx_wf_def)
  then have "ctx_wf c" using assms(1) by (simp add: c_def split: option.split)
  moreover have "cstr (snprintf_trunc n (''$'' @ ?ty @ ''_'' @ ?k))" for n
    using s by (auto simp: snprintf_trunc_def intro!: cstr_take)
  ultimately show ?thesis
    using assms s unfolding ph_group_call_def Let_def c_def [symmetric]
    by (simp add: submit_plain_wf group_event_props_wf)
qed

lemma put_item_wf: "put_item it xs = Some ys \<Longrightarrow> prop_wf it \<Longrightarrow> list_all prop_wf xs \<Longrightarrow> list_all prop_wf ys \<and> length ys = length xs"
  by (induction xs arbitrary: ys) (auto split: if_splits)

lemma register_one_wf: "props_wf p \<Longrightarrow> prop_wf it \<Longrightarrow> props_wf (register_one p it)"
  using put_item_wf [of it "p_items p"] by (auto simp: register_one_def props_wf_def split: option.split)

lemma register_all_wf: "props_wf p \<Longrightarrow> list_all prop_wf its \<Longrightarrow> props_wf (foldl register_one p its)"
  by (induction its arbitrary: p) (simp_all add: register_one_wf)

lemma ctx_wf_super: "ctx_wf ctx \<Longrightarrow> props_wf p \<Longrightarrow> ctx_wf (ctx\<lparr>super_props := p\<rparr>)"
  by (simp add: ctx_wf_def ctx_strings_ok_def)

lemma register_wf [wf_intros]: "ctx_wf ctx \<Longrightarrow> pred_option props_wf p \<Longrightarrow> ctx_wf (ph_register p ctx)"
proof -
  assume a: "ctx_wf ctx" "pred_option props_wf p"
  have "props_wf (foldl register_one (super_props ctx) (p_items q))" if "p = Some q" for q
    by (rule register_all_wf) (use a that in \<open>simp_all add: ctx_wf_def props_wf_def\<close>)
  with a(1) show ?thesis by (simp add: ph_register_def ctx_wf_super split: option.split)
qed

lemma drop_item_wf: "list_all prop_wf xs \<Longrightarrow> list_all prop_wf (drop_item k xs)" "length (drop_item k xs) \<le> length xs"
  by (induction xs) auto

lemma unregister_wf [wf_intros]: "ctx_wf ctx \<Longrightarrow> ctx_wf (ph_unregister k ctx)"
proof -
  assume a: "ctx_wf ctx"
  then have "props_wf ((super_props ctx)\<lparr>p_items := drop_item k' (p_items (super_props ctx))\<rparr>)" for k'
    using drop_item_wf [where xs = "p_items (super_props ctx)" and k = k'] by (auto simp: ctx_wf_def props_wf_def)
  with a show ?thesis by (simp add: ph_unregister_def ctx_wf_super split: option.split)
qed

text \<open>Reading a flag may queue an exposure event.\<close>

lemma flag_text_cstr: "flag_ok f \<Longrightarrow> cstr (flag_text f)"
  using copy_capped_ok [of PH_FLAG_VARIANT_CAP "fl_variant f" "[]"]
  by (cases "fl_variant f") (auto simp: flag_text_def flag_ok_def caps ph_copy_capped_def intro: cstr_take)

lemma emit_wf: "ctx_wf ctx \<Longrightarrow> flag_ok f \<Longrightarrow> cstr k \<Longrightarrow>
    ctx_wf (emit_ff_called rnd t k (flag_text f) (fl_variant f \<noteq> None) (fl_enabled f) ctx)"
proof (cases "enabled ctx")
  case True
  assume a: "ctx_wf ctx" "flag_ok f" "cstr k"
  have "length (flag_text f) < PH_VAL_CAP" using flag_text_length [of f] by (simp add: caps)
  then have "props_wf (ff_props k f)"
    using flag_text_cstr [OF a(2)] cstr_take [OF a(3)] by (auto simp: props_wf_def prop_wf_def ff_props_def caps split: option.split)
  then show ?thesis unfolding emit_ff_called_unfold [OF True] using a(1) by (intro submit_plain_wf) simp_all
qed (simp add: emit_ff_called_def)

lemma resolve_and_emit_wf: "ctx_wf ctx \<Longrightarrow> cstr k \<Longrightarrow> ctx_wf (fst (resolve_and_emit rnd t k ctx))"
proof (cases "find_locked k ctx")
  case (Some f)
  assume a: "ctx_wf ctx" "cstr k"
  have "flag_ok f" using a(1) Some by (auto simp: find_locked_def ctx_wf_def list_all_iff find_Some_iff)
  with a emit_wf [OF _ this a(2)] Some show ?thesis by (simp add: resolve_and_emit_def resolve_def)
qed (simp add: resolve_and_emit_def resolve_def)

lemma flag_reads_wf [wf_intros]:
  assumes "ctx_wf ctx" "pred_option cstr k"
  shows "ctx_wf (fst (ph_is_feature_enabled rnd t k fb ctx))" "ctx_wf (fst (ph_get_feature_flag rnd t k out ctx))"
proof -
  have r: "ctx_wf c" if "resolve_and_emit rnd t (the k) ctx = (c, r)" "k \<noteq> None" for c r
    using resolve_and_emit_wf [of ctx "the k" rnd t] that assms by auto
  show "ctx_wf (fst (ph_is_feature_enabled rnd t k fb ctx))" "ctx_wf (fst (ph_get_feature_flag rnd t k out ctx))"
    using assms(1) r by (auto simp: ph_is_feature_enabled_def ph__flags_is_enabled_def ph_get_feature_flag_def ph__flags_get_def
        split: option.split prod.split)
qed

lemma reload_async_frame:
  obtains h i b g c q where "fst (ph__flags_reload_async want ctx) =
    ctx\<lparr>flag_reload_history := h, reload_request_id := i, flags_refetch := b, flags_refetch_gen := g, flags_refetch_context_gen := c, queue := q\<rparr>"
    "q = queue ctx \<or> q = ph_queue_wake (queue ctx)"
proof (cases "want \<and> enabled ctx \<and> sender_running ctx")
  case True
  obtain c1 gn where s: "schedule_reload_locked (flags_context_gen ctx) ctx = (c1, gn)" by fastforce
  obtain h i b g c where f: "c1 = ctx\<lparr>flag_reload_history := h, reload_request_id := i, flags_refetch := b, flags_refetch_gen := g, flags_refetch_context_gen := c\<rparr>"
    by (rule schedule_frame [of "flags_context_gen ctx" ctx]) (simp add: s)
  obtain c2 ok where a: "alloc_reload_record_locked gn (flags_context_gen c1) c1 = (c2, ok)" by fastforce
  have "c2 = c1\<lparr>flag_reload_history := flag_reload_history c2\<rparr>"
    using a by (auto simp: alloc_reload_record_locked_def split: prod.splits option.splits if_splits)
  then have "fst (ph__flags_reload_async want ctx) = ph__sender_wake (c1\<lparr>flag_reload_history := flag_reload_history c2\<rparr>)"
    using True s a by (simp add: ph__flags_reload_async_def)
  then show thesis
    by (intro that [where h = "flag_reload_history c2" and i = i and b = b and g = g and c = c and q = "ph_queue_wake (queue ctx)"]) (simp_all add: ph__sender_wake_def f)
next
  case False
  then have "fst (ph__flags_reload_async want ctx) = ctx" by (auto simp: ph__flags_reload_async_def)
  then show thesis using that [where h = "flag_reload_history ctx" and i = "reload_request_id ctx" and b = "flags_refetch ctx" and g = "flags_refetch_gen ctx"
        and c = "flags_refetch_context_gen ctx" and q = "queue ctx"] by simp
qed

lemma reload_async_wf [wf_intros]: "ctx_wf ctx \<Longrightarrow> ctx_wf (fst (ph__flags_reload_async want ctx))"
  by (rule reload_async_frame [of want ctx]) (auto simp: ctx_wf_def ctx_strings_ok_def)

section \<open>Facts: what the calls leave to the sender\<close>

definition same_view :: "ph_ctx \<Rightarrow> ph_ctx \<Rightarrow> bool" where
  "same_view c c' \<longleftrightarrow> sender_view c' = sender_view c \<and> st_before_send_dropped c' = st_before_send_dropped c \<and> (stop c \<longrightarrow> stop c')"

lemma same_view_refl [simp]: "same_view c c"
  by (simp add: same_view_def)

lemma same_view_submit [simp]: "same_view c (fst (ph__submit_event rnd t kind fl name did props pm stamp extra c')) = same_view c c'"
  by (rule submit_frame [of rnd t kind fl name did props pm stamp extra c']) (simp add: same_view_def sender_view_def ctx_config.defs)

lemma same_view_flags [simp]:
  "same_view c (ph__flags_context_changed_locked c') = same_view c c'" "same_view c (ph__flags_request_auto_refresh c') = same_view c c'"
  "same_view c (fst (ph__flags_reload_async want c')) = same_view c c'"
  by (simp_all add: same_view_def) (rule reload_async_frame [of want c'], simp add: sender_view_def ctx_config.defs)

lemma same_view_update [simp]:
  "same_view c (c'\<lparr>distinct_id := d, identified := i, flag_person_props := p\<rparr>) = same_view c c'" "same_view c (c'\<lparr>groups := g\<rparr>) = same_view c c'"
  "same_view c (c'\<lparr>distinct_id := d, identified := i, super_props := s, flag_person_props := p\<rparr>) = same_view c c'"
  "same_view c (c'\<lparr>super_props := s\<rparr>) = same_view c c'" "same_view c (c'\<lparr>flags := fs\<rparr>) = same_view c c'"
  by (simp_all add: same_view_def sender_view_def ctx_config.defs)

lemma same_view_calls [simp]:
  "same_view c (fst (ph_capture rnd t ev p c))" "same_view c (ph_identify rnd t did p c)" "same_view c (ph_alias rnd t n' o' c)"
  "same_view c (ph_reset wall seed c)" "same_view c (ph_register p c)" "same_view c (ph_unregister k c)"
  "same_view c (fst (ph__capture_exception_flags rnd t ex fl c))" "same_view c (ph_group_call rnd t ty k p c)"
  by (simp_all add: ph_capture_def ph_identify_def ph_alias_def ph_reset_def ph_register_def ph_unregister_def ph_group_call_def
      ph__capture_exception_flags_def Let_def case_prod_beta split: option.split)

lemma same_view_resolve: "same_view c (fst (resolve_and_emit rnd t k c))"
  by (simp add: resolve_and_emit_def resolve_def emit_ff_called_def Let_def split: option.split)

lemma same_view_reads [simp]:
  "same_view c (fst (ph_is_feature_enabled rnd t k fb c))" "same_view c (fst (ph_get_feature_flag rnd t k out c))"
  using same_view_resolve [of c rnd t "the k"]
  by (auto simp: ph_is_feature_enabled_def ph__flags_is_enabled_def ph_get_feature_flag_def ph__flags_get_def split: option.split prod.split)

section \<open>Any sequence of calls\<close>

text \<open>
  The calls of the public interface, and the steps the sender thread takes on the shared context.
\<close>

datatype api_op =
    Capture "string option" "ph_props option"
  | Capture_exception "ph_exception option"
  | Identify "string option" "ph_props option"
  | Alias "string option" "string option"
  | Reset u64 u64
  | Group "string option" "string option" "ph_props option"
  | Register "ph_props option"
  | Unregister "string option"
  | Is_enabled "string option" int
  | Get_flag "string option" "int option"
  | Reload bool
  | Request_stop u64
  | Sender_pop nat
  | Sender_scrub "ph_event list"
  | Sender_fetch
  | Sender_ingest bytes u64
  | Sender_count u64 u64 u64

fun api_exec :: "'d dbl_ops \<Rightarrow> (real \<Rightarrow> real) \<Rightarrow> u64 \<times> api_op \<Rightarrow> ph_ctx \<Rightarrow> ph_ctx" where
  "api_exec D rnd (t, Capture ev p) c = fst (ph_capture rnd t ev p c)"
| "api_exec D rnd (t, Capture_exception ex) c = ph_capture_exception rnd t ex c"
| "api_exec D rnd (t, Identify did p) c = ph_identify rnd t did p c"
| "api_exec D rnd (t, Alias n' o') c = ph_alias rnd t n' o' c"
| "api_exec D rnd (t, Reset wall seed) c = ph_reset wall seed c"
| "api_exec D rnd (t, Group ty k p) c = ph_group_call rnd t ty k p c"
| "api_exec D rnd (t, Register p) c = ph_register p c"
| "api_exec D rnd (t, Unregister k) c = ph_unregister k c"
| "api_exec D rnd (t, Is_enabled k fb) c = fst (ph_is_feature_enabled rnd t k fb c)"
| "api_exec D rnd (t, Get_flag k out) c = fst (ph_get_feature_flag rnd t k out c)"
| "api_exec D rnd (t, Reload want) c = fst (ph__flags_reload_async want c)"
| "api_exec D rnd (t, Request_stop now) c = request_stop now c"
| "api_exec D rnd (t, Sender_pop n) c = c\<lparr>queue := fst (ph_queue_pop_batch (queue c) n)\<rparr>"
| "api_exec D rnd (t, Sender_scrub evs) c = fst (scrub_events evs c)"
| "api_exec D rnd (t, Sender_fetch) c = fst (ph__flags_take_fetch c)"
| "api_exec D rnd (t, Sender_ingest json g) c =
     (let (c', st) = flags_ingest_for_context D json g c in ph__flags_complete_fetch (flags_fetch_inflight_gen c') st c')"
| "api_exec D rnd (t, Sender_count a b r) c = c\<lparr>st_sent := a, st_failed := b, st_retries := r\<rparr>"

text \<open>Arguments are C strings and property sets built with the setters.\<close>

fun op_ok :: "api_op \<Rightarrow> bool" where
  "op_ok (Capture ev p) = pred_option props_wf p"
| "op_ok (Capture_exception ex) = pred_option exception_ok ex"
| "op_ok (Identify did p) = (pred_option cstr did \<and> pred_option props_wf p)"
| "op_ok (Alias n' o') = (pred_option cstr n' \<and> pred_option cstr o')"
| "op_ok (Group ty k p) = (pred_option cstr ty \<and> pred_option cstr k \<and> pred_option props_wf p)"
| "op_ok (Register p) = pred_option props_wf p"
| "op_ok (Is_enabled k fb) = pred_option cstr k"
| "op_ok (Get_flag k out) = pred_option cstr k"
| "op_ok (Sender_scrub evs) = list_all event_ok evs"
| "op_ok _ = True"

fun client_op :: "api_op \<Rightarrow> bool" where
  "client_op (Sender_pop n) = False"
| "client_op (Sender_scrub evs) = False"
| "client_op Sender_fetch = False"
| "client_op (Sender_ingest json g) = False"
| "client_op (Sender_count a b r) = False"
| "client_op _ = True"

text \<open>
  What the sender relies on when other threads call the library: each operation keeps the context
  well formed and the configuration fixed, and a client's operation leaves the sender's accounts
  alone.
\<close>

locale shared_context =
  fixes exec :: "'op \<Rightarrow> ph_ctx \<Rightarrow> ph_ctx" and ok :: "'op \<Rightarrow> bool" and client :: "'op \<Rightarrow> bool"
  assumes exec_wf: "ok op \<Longrightarrow> ctx_wf c \<Longrightarrow> hook_ok c \<Longrightarrow> ctx_wf (exec op c)"
    and exec_config: "ok op \<Longrightarrow> ctx_wf c \<Longrightarrow> hook_ok c \<Longrightarrow> ctx_config.truncate (exec op c) = ctx_config.truncate c"
    and exec_view: "client op \<Longrightarrow> same_view c (exec op c)"
begin

lemma hook_kept: "ok op \<Longrightarrow> ctx_wf c \<Longrightarrow> hook_ok c \<Longrightarrow> hook_ok (exec op c)"
  using exec_config [of op c] config_fields(3) [of "exec op c" c] by (simp add: hook_ok_def)

lemma run_wf:
  "list_all ok ops \<Longrightarrow> ctx_wf c \<Longrightarrow> hook_ok c \<Longrightarrow>
   ctx_wf (fold exec ops c) \<and> hook_ok (fold exec ops c) \<and> ctx_config.truncate (fold exec ops c) = ctx_config.truncate c"
  by (induction ops arbitrary: c) (simp_all add: exec_wf exec_config hook_kept)

lemma run_view: "list_all client ops \<Longrightarrow> same_view c (fold exec ops c)"
proof (induction ops arbitrary: c)
  case (Cons op ops)
  then have "same_view c (exec op c)" "same_view (exec op c) (fold exec ops (exec op c))" by (simp_all add: exec_view)
  then show ?case by (simp add: same_view_def)
qed simp

lemma clients_are_others: "list_all (\<lambda>op. ok op \<and> client op) ops \<Longrightarrow> others_ok (fold exec ops)"
proof -
  assume a: "list_all (\<lambda>op. ok op \<and> client op) ops"
  then have "list_all ok ops" "list_all client ops" by (simp_all add: list_all_iff)
  then show ?thesis using run_wf run_view by (simp add: others_ok_def same_view_def)
qed

end

lemma same_view_config: "same_view c c' \<Longrightarrow> ctx_config.truncate c' = ctx_config.truncate c"
  by (simp add: same_view_def sender_view_def)

lemma stop_view [simp]: "same_view c (request_stop now c)"
  by (simp add: request_stop_def ph__sender_wake_def same_view_def sender_view_def ctx_config.defs)

lemma stop_wf [wf_intros]: "ctx_wf c \<Longrightarrow> ctx_wf (request_stop now c)"
  by (simp add: request_stop_def ph__sender_wake_def ctx_wf_def ctx_strings_ok_def)

lemma client_view: "client_op op \<Longrightarrow> same_view c (api_exec D rnd (t, op) c)"
  by (cases op) (simp_all add: ph_capture_exception_def)

lemma complete_config: "ctx_config.truncate (ph__flags_complete_fetch g st c) = ctx_config.truncate c"
  "ctx_wf (ph__flags_complete_fetch g st c) = ctx_wf c"
proof -
  have "ctx_config.truncate (mark_reload_locked g st c) = ctx_config.truncate c" "ctx_wf (mark_reload_locked g st c) = ctx_wf c" for c
    by (rule mark_reload_frame [of g st c], simp add: ctx_config.defs ctx_wf_def ctx_strings_ok_def)+
  then show "ctx_config.truncate (ph__flags_complete_fetch g st c) = ctx_config.truncate c"
    "ctx_wf (ph__flags_complete_fetch g st c) = ctx_wf c"
    by (simp_all add: ph__flags_complete_fetch_def) (simp_all add: ctx_config.defs ctx_wf_def ctx_strings_ok_def)
qed

lemma exec_ok:
  assumes "op_ok op" "ctx_wf c" "hook_ok c"
  shows "ctx_wf (api_exec D rnd (t, op) c) \<and> ctx_config.truncate (api_exec D rnd (t, op) c) = ctx_config.truncate c"
proof (cases "client_op op")
  case True
  then have "ctx_wf (api_exec D rnd (t, op) c)"
    using assms by (cases op) (simp_all add: ph_capture_exception_def wf_intros)
  with same_view_config [OF client_view [OF True]] show ?thesis by blast
next
  case False
  then show ?thesis
  proof (cases op)
    case (Sender_pop n)
    have "ctx_wf (c\<lparr>queue := fst (ph_queue_pop_batch (queue c) n)\<rparr>)"
    proof (cases "enabled c")
      case True
      then have q: "queue_inv (queue c)" "list_all event_ok (queue_list (queue c))" using assms(2) by (simp_all add: ctx_wf_def)
      show ?thesis
        using pop_batch_list [OF q(1), of n] pop_batch_inv [OF q(1), of n] halves [OF q(2)] assms(2)
        by (simp add: ctx_wf_def ctx_strings_ok_def case_prod_beta)
    qed (use assms(2) in \<open>simp add: ctx_wf_def ctx_strings_ok_def\<close>)
    then show ?thesis by (simp add: Sender_pop ctx_config.defs)
  next
    case (Sender_scrub evs)
    obtain c' evs' where s: "scrub_events evs c = (c', evs')" by (cases "scrub_events evs c")
    from scrub_events_post [OF assms(2,3) _ s] assms(1) show ?thesis
      by (simp add: Sender_scrub s scrub_post_def sender_view_def)
  next
    case (Sender_ingest json g)
    obtain fs where "fst (flags_ingest_for_context D json g c) = c\<lparr>flags := fs\<rparr>" using ingest_frame by blast
    then have "ctx_config.truncate (fst (flags_ingest_for_context D json g c)) = ctx_config.truncate c" by (simp add: ctx_config.defs)
    then show ?thesis using ingest_wf [OF assms(2), of D json g] by (simp add: Sender_ingest case_prod_beta complete_config Let_def)
  qed (use assms(2) in \<open>simp_all add: ph__flags_take_fetch_def ctx_config.defs ctx_wf_def ctx_strings_ok_def\<close>)
qed

interpretation api: shared_context "api_exec D rnd" "\<lambda>(t, op). op_ok op" "\<lambda>(t, op). client_op op" for D :: "'d dbl_ops" and rnd
proof
  fix x :: "u64 \<times> api_op" and c
  obtain t op where x: "x = (t, op)" by (cases x)
  show "ctx_wf (api_exec D rnd x c)" if "case x of (t, op) \<Rightarrow> op_ok op" "ctx_wf c" "hook_ok c"
    using exec_ok [of op c D rnd t] that by (simp add: x)
  show "ctx_config.truncate (api_exec D rnd x c) = ctx_config.truncate c" if "case x of (t, op) \<Rightarrow> op_ok op" "ctx_wf c" "hook_ok c"
    using exec_ok [of op c D rnd t] that by (simp add: x)
  show "same_view c (api_exec D rnd x c)" if "case x of (t, op) \<Rightarrow> client_op op"
    using client_view [of op c D rnd t] that by (simp add: x)
qed

section \<open>Facts: initialisation\<close>

text \<open>The strings of a configuration are C strings and its hook returns a set the setters can build.\<close>

definition config_ok :: "ph_config \<Rightarrow> bool" where
  "config_ok cfg \<longleftrightarrow> pred_option cstr (cfg_api_key cfg) \<and> pred_option cstr (cfg_api_host cfg) \<and>
     pred_option cstr (cfg_distinct_id cfg) \<and> pred_option cstr (cfg_release cfg) \<and>
     (\<forall>hook. cfg_before_send cfg = Some hook \<longrightarrow> (\<forall>n p. props_wf p \<longrightarrow> props_wf (fst (hook n p))))"

lemma validate_outcomes: "validate_config c = PH_OK \<or> validate_config c = PH_ERR_BADARG"
  by (simp add: validate_config_def Let_def split: option.split)

lemma if_badarg: "(if b then PH_ERR_BADARG else x) = PH_OK \<longleftrightarrow> \<not> b \<and> x = PH_OK"
  by simp

lemma validate_okD:
  assumes "validate_config (Some cfg) = PH_OK" "cfg_enabled cfg"
  shows "given (cfg_api_key cfg)" "given (cfg_distinct_id cfg)"
    "take 7 (config_host cfg) = ''http://'' \<or> take 8 (config_host cfg) = ''https://''"
    "\<not> string_over_cap (cfg_api_key cfg) PH_API_KEY_CAP" "\<not> string_over_cap (Some (config_host cfg)) PH_HOST_CAP"
    "\<not> string_over_cap (cfg_release cfg) PH_RELEASE_CAP" "\<not> string_over_cap (cfg_offline_path cfg) PH_PATH_CAP"
    "\<not> string_over_cap (cfg_distinct_id cfg) PH_DISTINCT_ID_CAP" "0 \<le> cfg_max_retries cfg"
    "def_int (cfg_max_batch cfg) 50 \<le> PH_CONFIG_MAX_BATCH" "def_int (cfg_max_queue cfg) 1000 \<le> PH_CONFIG_MAX_QUEUE"
    "cfg_property_denylist_count cfg \<le> int PH_MAX_DENYLIST"
    "list_all (\<lambda>s. \<not> string_over_cap s PH_KEY_CAP) (config_denylist cfg)"
  using assms by (simp_all add: validate_config_def Let_def if_badarg not_less list_ex_iff list_all_iff del: de_Morgan_disj split del: if_split)
    (simp_all add: not_less)

lemma capped_whole: "\<not> string_over_cap s n \<Longrightarrow> 0 < n \<Longrightarrow> ph_copy_capped [] n s = (case s of None \<Rightarrow> [] | Some x \<Rightarrow> x)"
  by (simp add: string_over_cap_def ph_copy_capped_def split: option.splits)

lemma def_int_pos: "0 < d \<Longrightarrow> 0 < def_int v d"
  by (simp add: def_int_def)

lemma init_ctx_wf:
  assumes "config_ok cfg"
  shows "ctx_wf ((init_ctx ie cfg ctx)\<lparr>enabled := False\<rparr>)"
proof -
  have s: "cstr (ph_copy_capped [] n x) \<and> length (ph_copy_capped [] n x) < n" if "0 < n" "pred_option cstr x" for n x
    using copy_capped_ok that by blast
  have "0 < PH_API_KEY_CAP" "0 < PH_RELEASE_CAP" "0 < PH_DISTINCT_ID_CAP" by (simp_all add: caps)
  with s assms have "cstr (ph_copy_capped [] PH_API_KEY_CAP (cfg_api_key cfg))" "cstr (ph_copy_capped [] PH_RELEASE_CAP (cfg_release cfg))"
    "cstr (ph_copy_capped [] PH_DISTINCT_ID_CAP (cfg_distinct_id cfg))" "length (ph_copy_capped [] PH_DISTINCT_ID_CAP (cfg_distinct_id cfg)) < PH_DISTINCT_ID_CAP"
    by (simp_all add: config_ok_def)
  then show ?thesis by (simp add: ctx_wf_def ctx_strings_ok_def init_ctx_def cleared_def zero_ctx_def props_init_wf Let_def)
qed

lemma queue_init_facts:
  assumes "ph_queue_init n ok e0 = Some q"
  shows "queue_inv q" "queue_list q = []" "q_cap q = nat (max n (int PH_QUEUE_MIN_CAP))"
  using assms by (auto simp: ph_queue_init_def queue_inv_def queue_list_def Let_def caps split: if_splits)

text \<open>What the successful path hands to the crash and preload steps.\<close>

definition started :: "ph_config \<Rightarrow> ph_ctx \<Rightarrow> bool" where
  "started cfg c \<longleftrightarrow> ctx_wf c \<and> hook_ok c \<and> initialized c \<and> enabled c \<and> sender_running c \<and>
     api_key c = the (cfg_api_key cfg) \<and> api_host c = config_host cfg \<and>
     release c = (case cfg_release cfg of None \<Rightarrow> [] | Some r \<Rightarrow> r) \<and>
     offline_path c = (case cfg_offline_path cfg of None \<Rightarrow> [] | Some d \<Rightarrow> d) \<and> length (offline_path c) < PH_PATH_CAP \<and>
     distinct_id c = the (cfg_distinct_id cfg) \<and> \<not> identified c \<and> before_send c = cfg_before_send cfg \<and>
     denylist c = map the (filter given (config_denylist cfg)) \<and>
     0 < flush_at c \<and> 0 < max_batch c \<and> max_batch c \<le> PH_CONFIG_MAX_BATCH \<and> 0 < max_queue c \<and> 0 < request_timeout_ms c \<and>
     st_sent c = 0 \<and> st_failed c = 0 \<and> st_before_send_dropped c = 0"

lemma started_view:
  assumes "started cfg c" "same_view c c'" "ctx_wf c'" "distinct_id c' = distinct_id c" "identified c' = identified c" "sender_running c' = sender_running c"
  shows "started cfg c'"
proof -
  have t: "ctx_config.truncate c' = ctx_config.truncate c" by (rule same_view_config [OF assms(2)])
  have v: "st_sent c' = st_sent c" "st_failed c' = st_failed c" "st_before_send_dropped c' = st_before_send_dropped c"
    using assms(2) by (simp_all add: same_view_def sender_view_def)
  have f: "initialized c' = initialized c" "enabled c' = enabled c" "api_key c' = api_key c" "api_host c' = api_host c" "release c' = release c"
    "offline_path c' = offline_path c" "before_send c' = before_send c" "denylist c' = denylist c" "flush_at c' = flush_at c"
    "max_batch c' = max_batch c" "max_queue c' = max_queue c" "request_timeout_ms c' = request_timeout_ms c"
    using t by (simp_all add: ctx_config.defs)
  show ?thesis using assms(1,3) unfolding started_def hook_ok_def f v assms(4-6) by blast
qed

lemma init_denylist_whole:
  assumes "validate_config (Some cfg) = PH_OK" "cfg_enabled cfg"
  shows "init_denylist cfg = map the (filter given (config_denylist cfg))"
proof -
  note v = validate_okD(12,13) [OF assms]
  have "take PH_MAX_DENYLIST (config_denylist cfg) = config_denylist cfg"
    using v(1) by (auto simp: config_denylist_def split: option.split)
  moreover have "config_denylist cfg = []" if "cfg_property_denylist_count cfg \<le> 0"
    using that by (simp add: config_denylist_def split: option.split)
  moreover have "ph_copy_capped [] PH_KEY_CAP s = the s" if "s \<in> set (config_denylist cfg)" "given s" for s
    using v(2) that capped_whole [of s PH_KEY_CAP] by (auto simp: list_all_iff given_def caps split: option.splits)
  ultimately show ?thesis by (cases "0 < cfg_property_denylist_count cfg") (simp_all add: init_denylist_def)
qed

lemma init_started:
  assumes "config_ok cfg" "validate_config (Some cfg) = PH_OK" "cfg_enabled cfg"
    "ph_queue_init (max_queue (init_ctx ie cfg ctx)) ok zero_event = Some q"
    "ph__sender_start n a b ((init_ctx ie cfg ctx)\<lparr>queue := q, enabled := True\<rparr>) = (c, True)"
  shows "started cfg c"
proof -
  note v = validate_okD [OF assms(2,3)]
  have c: "c = (init_ctx ie cfg ctx)\<lparr>queue := q, enabled := True, stop := False, shutdown_deadline_mono_ns := 0, sending := False,
      server_rl := ph_ratelimit_init, sender_running := True\<rparr>"
    using assms(5) by (simp add: ph__sender_start_def Let_def split: if_splits)
  have wf: "ctx_wf c" using init_ctx_wf [OF assms(1), of ie ctx] queue_init_facts [OF assms(4)]
    by (simp add: c ctx_wf_def ctx_strings_ok_def)
  have copies: "ph_copy_capped [] PH_API_KEY_CAP (cfg_api_key cfg) = the (cfg_api_key cfg)"
    "ph_copy_capped [] PH_HOST_CAP (Some (config_host cfg)) = config_host cfg"
    "ph_copy_capped [] PH_RELEASE_CAP (cfg_release cfg) = (case cfg_release cfg of None \<Rightarrow> [] | Some r \<Rightarrow> r)"
    "ph_copy_capped [] PH_PATH_CAP (cfg_offline_path cfg) = (case cfg_offline_path cfg of None \<Rightarrow> [] | Some d \<Rightarrow> d)"
    "ph_copy_capped [] PH_DISTINCT_ID_CAP (cfg_distinct_id cfg) = the (cfg_distinct_id cfg)"
    using v(1,2) capped_whole [OF v(4)] capped_whole [OF v(5)] capped_whole [OF v(6)] capped_whole [OF v(7)] capped_whole [OF v(8)]
    by (auto simp: caps given_def split: option.splits)
  have "length (case cfg_offline_path cfg of None \<Rightarrow> [] | Some d \<Rightarrow> d) < PH_PATH_CAP"
    using v(7) by (auto simp: string_over_cap_def caps split: option.splits)
  moreover have "hook_ok c" using assms(1) by (simp add: c hook_ok_def config_ok_def init_ctx_def Let_def)
  ultimately show ?thesis
    using wf v(10) by (simp add: started_def) (simp add: c init_ctx_def Let_def cleared_def zero_ctx_def copies init_denylist_whole [OF assms(2,3)] def_int_def)
qed

lemma capture_exception_frame:
  "distinct_id (fst (ph__capture_exception_flags rnd t ex fl c)) = distinct_id c"
  "identified (fst (ph__capture_exception_flags rnd t ex fl c)) = identified c"
  "sender_running (fst (ph__capture_exception_flags rnd t ex fl c)) = sender_running c"
proof -
  have "distinct_id (fst (ph__submit_event rnd t kind f nm did p pm st xs c)) = distinct_id c \<and>
      identified (fst (ph__submit_event rnd t kind f nm did p pm st xs c)) = identified c \<and>
      sender_running (fst (ph__submit_event rnd t kind f nm did p pm st xs c)) = sender_running c" for kind f nm did p pm st xs
    by (rule submit_frame [of rnd t kind f nm did p pm st xs c]) simp
  then show "distinct_id (fst (ph__capture_exception_flags rnd t ex fl c)) = distinct_id c"
    "identified (fst (ph__capture_exception_flags rnd t ex fl c)) = identified c"
    "sender_running (fst (ph__capture_exception_flags rnd t ex fl c)) = sender_running c"
    by (simp_all add: ph__capture_exception_flags_def split: option.split)
qed

lemma replay_started: "started cfg c \<Longrightarrow> started cfg (fst (ph_signal_crash_replay rnd t dir fs c))"
proof -
  assume a: "started cfg c"
  have "same_view c (fst (ph_signal_crash_replay rnd t dir fs c)) \<and>
      distinct_id (fst (ph_signal_crash_replay rnd t dir fs c)) = distinct_id c \<and>
      identified (fst (ph_signal_crash_replay rnd t dir fs c)) = identified c \<and>
      sender_running (fst (ph_signal_crash_replay rnd t dir fs c)) = sender_running c"
    by (simp add: ph_signal_crash_replay_def Let_def case_prod_beta capture_exception_frame split: option.split)
  moreover have "ctx_wf (fst (ph_signal_crash_replay rnd t dir fs c))" using a by (intro replay_wf) (simp_all add: started_def)
  ultimately show ?thesis using started_view [OF a] by blast
qed

lemma preload_started: "started cfg c \<Longrightarrow> started cfg (fst (ph_reload_feature_flags_step False c RStart))"
proof -
  assume a: "started cfg c"
  let ?c = "fst (ph__flags_reload_async True c)"
  have e: "fst (ph_reload_feature_flags_step False c RStart) = ?c" by (simp add: ph_reload_feature_flags_step_def Let_def case_prod_beta)
  have "distinct_id ?c = distinct_id c \<and> identified ?c = identified c \<and> sender_running ?c = sender_running c"
    by (rule reload_async_frame [of True c]) simp
  moreover have "ctx_wf ?c" using a by (intro reload_async_wf) (simp add: started_def)
  ultimately show ?thesis unfolding e using started_view [OF a] by simp
qed

text \<open>The ways a call of \<open>ph_init\<close> can end.\<close>

lemma init_enabled:
  assumes "\<not> initialized (pr_ctx p)" "validate_config (Some cfg) = PH_OK" "cfg_enabled cfg"
  shows "ph_init ie (Some cfg) p =
    (case ph_queue_init (max_queue (init_ctx ie cfg (pr_ctx p))) (in_queue_mem ie) zero_event of
       None \<Rightarrow> (p\<lparr>pr_ctx := (init_ctx ie cfg (pr_ctx p))\<lparr>initialized := False\<rparr>\<rparr>, PH_ERR, RDone)
     | Some q \<Rightarrow>
         let (c, ok) = ph__sender_start (in_event_size ie) (in_scratch_mem ie) (in_thread ie) ((init_ctx ie cfg (pr_ctx p))\<lparr>queue := q, enabled := True\<rparr>);
             p1 = init_crash ie cfg (p\<lparr>pr_ctx := c\<rparr>);
             (c1, cl) = ph_reload_feature_flags_step False (pr_ctx p1) RStart
         in if \<not> ok then (p\<lparr>pr_ctx := cleared c\<rparr>, PH_ERR, RDone)
            else if cfg_preload_flags cfg then (p1\<lparr>pr_ctx := c1\<rparr>, PH_OK, cl) else (p1, PH_OK, RDone))"
  unfolding ph_init_def Let_def by (simp add: assms case_prod_beta split: option.split)

lemma init_early:
  "initialized (pr_ctx p) \<Longrightarrow> ph_init ie c p = (p, PH_ERR, RDone)"
  "\<not> initialized (pr_ctx p) \<Longrightarrow> validate_config c \<noteq> PH_OK \<Longrightarrow> ph_init ie c p = (p, validate_config c, RDone)"
  "\<not> initialized (pr_ctx p) \<Longrightarrow> validate_config (Some cfg) = PH_OK \<Longrightarrow> \<not> cfg_enabled cfg \<Longrightarrow>
     ph_init ie (Some cfg) p = (p\<lparr>pr_ctx := (init_ctx ie cfg (pr_ctx p))\<lparr>enabled := False\<rparr>\<rparr>, PH_OK, RDone)"
  by (simp_all add: ph_init_def Let_def)

lemma init_success:
  assumes "config_ok cfg" "ph_init ie (Some cfg) p = (p', PH_OK, client)" "cfg_enabled cfg"
  shows "started cfg (pr_ctx p')"
proof -
  let ?i = "init_ctx ie cfg (pr_ctx p)"
  have n: "\<not> initialized (pr_ctx p)" using assms(2) init_early(1) [of p ie "Some cfg"] by auto
  have v: "validate_config (Some cfg) = PH_OK" using assms(2) init_early(2) [OF n, of "Some cfg" ie] by auto
  note u = init_enabled [OF n v assms(3), of ie]
  obtain q where q: "ph_queue_init (max_queue ?i) (in_queue_mem ie) zero_event = Some q"
    using assms(2) u by (cases "ph_queue_init (max_queue ?i) (in_queue_mem ie) zero_event") simp_all
  obtain c ok where s: "ph__sender_start (in_event_size ie) (in_scratch_mem ie) (in_thread ie) (?i\<lparr>queue := q, enabled := True\<rparr>) = (c, ok)"
    by (cases "ph__sender_start (in_event_size ie) (in_scratch_mem ie) (in_thread ie) (?i\<lparr>queue := q, enabled := True\<rparr>)")
  define p1 where "p1 = init_crash ie cfg (p\<lparr>pr_ctx := c\<rparr>)"
  obtain c1 cl where r: "ph_reload_feature_flags_step False (pr_ctx p1) RStart = (c1, cl)" by (cases "ph_reload_feature_flags_step False (pr_ctx p1) RStart")
  have e: "(p', PH_OK, client) = (if \<not> ok then (p\<lparr>pr_ctx := cleared c\<rparr>, PH_ERR, RDone)
      else if cfg_preload_flags cfg then (p1\<lparr>pr_ctx := c1\<rparr>, PH_OK, cl) else (p1, PH_OK, RDone))"
    using assms(2) unfolding u q option.case Let_def s prod.case p1_def [symmetric] r by simp
  then have ok: ok by (simp split: if_splits)
  have "started cfg c" using init_started [OF assms(1) v assms(3) q] s ok by simp
  then have p1: "started cfg (pr_ctx p1)"
    using replay_started by (simp add: p1_def init_crash_def Let_def case_prod_beta)
  then have "started cfg c1" using preload_started [OF p1] r by simp
  with p1 e ok show ?thesis by (simp split: if_splits)
qed

lemma init_failure:
  assumes "ph_init ie (Some cfg) p = (p', r, client)" "r \<noteq> PH_OK" "\<not> initialized (pr_ctx p)"
  shows "\<not> initialized (pr_ctx p') \<and> pr_files p' = pr_files p \<and> pr_posix p' = pr_posix p \<and> client = RDone"
proof (cases "validate_config (Some cfg) = PH_OK")
  case v: True
  then have en: "cfg_enabled cfg" using assms init_early(3) [OF assms(3) v, of ie] by auto
  note u = init_enabled [OF assms(3) v en, of ie]
  show ?thesis
    using assms(1,2) unfolding u
    by (auto simp: Let_def case_prod_beta cleared_def zero_ctx_def split: option.splits if_splits)
qed (use assms init_early(2) [OF assms(3), of "Some cfg" ie] in auto)

section \<open>Properties\<close>


definition sample_config :: ph_config where
  "sample_config = ph_config_defaults\<lparr>cfg_api_key := Some ''phc_key'', cfg_api_host := Some ''http://h'', cfg_distinct_id := Some ''anon-1'', cfg_preload_flags := False\<rparr>"

definition sample_init :: init_env where
  "sample_init = \<lparr>in_wall = 5, in_mono = 3, in_seed = 9, in_queue_mem = True, in_event_size = 4096, in_scratch_mem = True, in_thread = True,
     in_round = id, in_tick = 4, in_stack_mem = True, in_sigaltstack = True, in_sigaction = \<lambda>s. True\<rparr>"

definition sample_process :: process where
  "sample_process = \<lparr>pr_ctx = zero_ctx, pr_files = \<lambda>_. None,
     pr_posix = \<lparr>g_posix_path = [], g_posix_tmp_path = [], g_posix_installed = False, g_prev_altstack = None, g_altstack_owned = False,
       g_in_handler = False, g_posix_prev = \<lambda>_. None, os_disposition = \<lambda>_. Sig_Dfl, os_altstack = Alt_Off\<rparr>\<rparr>"

lemma sample_config_ok: "config_ok sample_config" "cfg_enabled sample_config" "validate_config (Some sample_config) = PH_OK"
proof -
  show "config_ok sample_config" "cfg_enabled sample_config"
    by (simp_all add: config_ok_def sample_config_def ph_config_defaults_def DEFAULT_HOST_def)
  show "validate_config (Some sample_config) = PH_OK" by code_simp
qed

lemma sample_init_ok: "\<exists>p' client. ph_init sample_init (Some sample_config) sample_process = (p', PH_OK, client) \<and>
    pr_files p' = (\<lambda>_. None)"
proof -
  have n: "\<not> initialized (pr_ctx sample_process)" by (simp add: sample_process_def zero_ctx_def)
  have c: "\<not> cfg_preload_flags sample_config" "\<not> cfg_crash_handler sample_config" "max_batch (init_ctx sample_init sample_config c) = 50" for c
    by (simp_all add: sample_config_def ph_config_defaults_def init_ctx_def def_int_def Let_def)
  have q: "\<exists>q. ph_queue_init k (in_queue_mem sample_init) zero_event = Some q" for k
    by (simp add: ph_queue_init_def sample_init_def Let_def)
  have s: "\<exists>d. ph__sender_start (in_event_size sample_init) (in_scratch_mem sample_init) (in_thread sample_init) d' = (d, True)"
    if "max_batch d' = 50" for d'
    using that by (simp add: ph__sender_start_def sample_init_def Let_def)
  obtain q where q: "ph_queue_init (max_queue (init_ctx sample_init sample_config (pr_ctx sample_process))) (in_queue_mem sample_init) zero_event = Some q"
    using q by blast
  obtain d where d: "ph__sender_start (in_event_size sample_init) (in_scratch_mem sample_init) (in_thread sample_init)
      ((init_ctx sample_init sample_config (pr_ctx sample_process))\<lparr>queue := q, enabled := True\<rparr>) = (d, True)"
    using s [of "(init_ctx sample_init sample_config (pr_ctx sample_process))\<lparr>queue := q, enabled := True\<rparr>"] c(3) by auto
  show ?thesis
    unfolding init_enabled [OF n sample_config_ok(3,2)] q option.case Let_def d prod.case
    by (simp add: c(1,2) case_prod_beta init_crash_def sample_process_def)
qed


text \<open>
  C3. In every state the library can reach, the shared context is well formed. Starting from a
  successful \<open>ph_init\<close>, after any sequence of public calls with C-string arguments and of the
  sender's steps on the context, every field is within its capacity and every queued event is one
  the serializer can write: the whole queue, as one batch, is a document the library's own reader
  accepts and in which it counts the queued events; and the configuration is still the one
  \<open>ph_init\<close> stored.
\<close>

theorem sdk_states_well_formed:
  assumes "config_ok cfg" "cfg_enabled cfg" "ph_init ie (Some cfg) p = (p', PH_OK, client)"
    "list_all (\<lambda>(t, op). op_ok op) ops" "ctx = fold (api_exec D rnd) ops (pr_ctx p')" "printf_ok L g"
  shows "ctx_wf ctx \<and> ctx_config.truncate ctx = ctx_config.truncate (pr_ctx p') \<and>
    batch_event_count D' (ph_serialize_batch L ctx (queue_list (queue ctx))) = ph_queue_size (queue ctx)"
proof -
  have s: "started cfg (pr_ctx p')" by (rule init_success [OF assms(1,3,2)])
  have r: "ctx_wf ctx" "ctx_config.truncate ctx = ctx_config.truncate (pr_ctx p')"
    using api.run_wf [OF assms(4), of "pr_ctx p'" D rnd] s by (simp_all add: assms(5) started_def)
  have "enabled ctx" using config_fields(2) [OF r(2)] s by (simp add: started_def)
  then have "list_all event_ok (queue_list (queue ctx))" using r(1) by (simp add: ctx_wf_def)
  from batch_body(1) [OF assms(6) this r(1), of D'] r show ?thesis by (simp add: ph_queue_size_def)
qed

theorem sdk_states_well_formed_witness:
  "\<exists>p' client. ph_init sample_init (Some sample_config) sample_process = (p', PH_OK, client) \<and>
     ctx_wf (fold (api_exec rat_dbl id) [(5, Capture (Some ''jump'') None), (6, Identify (Some ''u1'') None), (7, Sender_pop 10)] (pr_ctx p'))"
proof -
  obtain p' client where i: "ph_init sample_init (Some sample_config) sample_process = (p', PH_OK, client)" using sample_init_ok by blast
  have "list_all (\<lambda>(t, op). op_ok op) [(5, Capture (Some ''jump'') None), (6, Identify (Some ''u1'') None), (7, Sender_pop 10)]" by simp
  from sdk_states_well_formed [OF sample_config_ok(1,2) i this refl sample_libc_ok] i show ?thesis by blast
qed

lemma refresh_identity:
  "distinct_id (ph__flags_request_auto_refresh c) = distinct_id c" "identified (ph__flags_request_auto_refresh c) = identified c"
  "flags (ph__flags_request_auto_refresh c) = flags c"
  by (rule schedule_frame [of "flags_context_gen c" c], simp add: ph__flags_request_auto_refresh_def ph__sender_wake_def)+

lemma context_changed_identity:
  "distinct_id (ph__flags_context_changed_locked c) = distinct_id c" "identified (ph__flags_context_changed_locked c) = identified c"
  "flags (ph__flags_context_changed_locked c) = []"
  by (simp_all add: ph__flags_context_changed_locked_def mark_context_superseded_locked_def Let_def)

lemma control_admits: "admits rnd PH_EV_IDENTIFY t c" "admits rnd PH_EV_GROUP t c" "admits rnd PH_EV_ALIAS t c"
  by (simp_all add: admits_def rate_limit_admit_def)



end
