(* ===== verification/Ph_Durable.thy ===== *)
theory Ph_Durable
  imports Ph_Spill
begin

text \<open>
  The file primitives of \<^verbatim>\<open>src/ph_native.c\<close> under the spill file, on a disk that can lose power. A disk
  has what the processes see (names, and the bytes of each file) and, for every name and every file,
  what may be found there after a crash: a written file that was not synced may hold anything behind
  the bytes it had, a created or renamed name may be there or not until its directory is synced. The
  outcomes of the system calls are arguments. The facts relate these steps to \<open>write_atomic\<close> and
  \<open>offline_spill\<close> of theory \<open>Ph_Spill\<close>, which they refine, and say what a crash at any point leaves.
  File modes are not part of the state.
\<close>

section \<open>The disk\<close>

record disk =
  dk_names :: "string \<Rightarrow> nat option"
  dk_data :: "nat \<Rightarrow> bytes"
  dk_next :: nat
  dk_entry :: "string \<Rightarrow> nat option \<Rightarrow> bool"
  dk_store :: "nat \<Rightarrow> bytes \<Rightarrow> bool"

definition sys_create :: "string \<Rightarrow> disk \<Rightarrow> disk" where
  "sys_create path d =
     d\<lparr>dk_names := (dk_names d)(path := Some (dk_next d)), dk_data := (dk_data d)(dk_next d := []), dk_next := Suc (dk_next d),
       dk_entry := (dk_entry d)(path := \<lambda>e. dk_entry d path e \<or> e = Some (dk_next d)), dk_store := (dk_store d)(dk_next d := \<lambda>b. b = [])\<rparr>"

definition sys_truncate :: "nat \<Rightarrow> nat \<Rightarrow> disk \<Rightarrow> disk" where
  "sys_truncate i n d =
     d\<lparr>dk_data := (dk_data d)(i := take n (dk_data d i)),
       dk_store := (dk_store d)(i := \<lambda>b. dk_store d i b \<or> (\<exists>c. dk_store d i c \<and> b = take n c))\<rparr>"

definition sys_append :: "nat \<Rightarrow> bytes \<Rightarrow> disk \<Rightarrow> disk" where
  "sys_append i bs d =
     (if bs = [] then d
      else d\<lparr>dk_data := (dk_data d)(i := dk_data d i @ bs), dk_store := (dk_store d)(i := \<lambda>b. \<exists>c y. dk_store d i c \<and> b = c @ y)\<rparr>)"

definition sys_fsync :: "nat \<Rightarrow> disk \<Rightarrow> disk" where
  "sys_fsync i d = d\<lparr>dk_store := (dk_store d)(i := \<lambda>b. b = dk_data d i)\<rparr>"

definition sys_rename :: "string \<Rightarrow> string \<Rightarrow> disk \<Rightarrow> disk" where
  "sys_rename tmp path d =
     d\<lparr>dk_names := (dk_names d)(path := dk_names d tmp, tmp := None),
       dk_entry := (dk_entry d)(path := \<lambda>e. dk_entry d path e \<or> e = dk_names d tmp, tmp := \<lambda>e. dk_entry d tmp e \<or> e = None)\<rparr>"

definition sys_fsync_dir :: "disk \<Rightarrow> disk" where
  "sys_fsync_dir d = d\<lparr>dk_entry := \<lambda>n e. e = dk_names d n\<rparr>"

definition sys_remove :: "string \<Rightarrow> disk \<Rightarrow> disk" where
  "sys_remove path d =
     (if dk_names d path = None then d
      else d\<lparr>dk_names := (dk_names d)(path := None), dk_entry := (dk_entry d)(path := \<lambda>e. dk_entry d path e \<or> e = None)\<rparr>)"

text \<open>What the processes see, and what a crash may leave under a name.\<close>

definition view :: "disk \<Rightarrow> files" where
  "view d = (\<lambda>n. map_option (dk_data d) (dk_names d n))"

definition crash_leaves :: "disk \<Rightarrow> string \<Rightarrow> bytes option \<Rightarrow> bool" where
  "crash_leaves d n c \<longleftrightarrow> c = None \<and> dk_entry d n None \<or> (\<exists>i b. dk_entry d n (Some i) \<and> dk_store d i b \<and> c = Some b)"

text \<open>The names and contents on a disk that was fully synced.\<close>

definition settled :: "disk \<Rightarrow> bool" where
  "settled d \<longleftrightarrow> (\<forall>n e. dk_entry d n e \<longleftrightarrow> e = dk_names d n) \<and> (\<forall>n i b. dk_names d n = Some i \<longrightarrow> (dk_store d i b \<longleftrightarrow> b = dk_data d i))"

definition disk_wf :: "disk \<Rightarrow> bool" where
  "disk_wf d \<longleftrightarrow> (\<forall>n i. dk_names d n = Some i \<longrightarrow> i < dk_next d) \<and> (\<forall>n i. dk_entry d n (Some i) \<longrightarrow> i < dk_next d) \<and>
     (\<forall>m n i. dk_names d m = Some i \<longrightarrow> dk_names d n = Some i \<longrightarrow> m = n) \<and> (\<forall>n. dk_entry d n (dk_names d n))"

section \<open>The primitives\<close>

definition open_private_file :: "bool \<Rightarrow> bool \<Rightarrow> string \<Rightarrow> bool \<Rightarrow> disk \<Rightarrow> disk \<times> nat option" where
  "open_private_file fd_ok file_ok path append_mode d =
     (if \<not> fd_ok then (d, None)
      else case dk_names d path of
          None \<Rightarrow> (sys_create path d, if file_ok then Some (dk_next d) else None)
        | Some i \<Rightarrow> (if append_mode then d else sys_truncate i 0 d, if file_ok then Some i else None))"

definition durable_flush :: "bool \<Rightarrow> bool \<Rightarrow> nat \<Rightarrow> disk \<Rightarrow> disk \<times> bool" where
  "durable_flush flush_ok sync_ok f d = (if flush_ok \<and> sync_ok then (sys_fsync f d, True) else (d, False))"

definition durable_close :: "bool \<Rightarrow> bool \<Rightarrow> bool \<Rightarrow> nat \<Rightarrow> disk \<Rightarrow> disk \<times> bool" where
  "durable_close flush_ok sync_ok close_ok f d =
     (let (d, ok) = durable_flush flush_ok sync_ok f d in (d, if \<not> close_ok then False else ok))"

definition truncate_file :: "bool \<Rightarrow> nat \<Rightarrow> nat \<Rightarrow> disk \<Rightarrow> disk" where
  "truncate_file ok f n d = (if ok then sys_truncate f n d else d)"

definition atomic_replace :: "bool \<Rightarrow> string \<Rightarrow> string \<Rightarrow> disk \<Rightarrow> disk \<times> bool" where
  "atomic_replace ok tmp path d = (if ok then (sys_rename tmp path d, True) else (d, False))"

definition fsync_offline_dir :: "bool \<Rightarrow> bool \<Rightarrow> bool \<Rightarrow> disk \<Rightarrow> disk \<times> bool" where
  "fsync_offline_dir open_ok sync_ok close_ok d =
     (if \<not> open_ok then (d, False)
      else (if sync_ok then sys_fsync_dir d else d, if \<not> close_ok then False else sync_ok))"

text \<open>The calls of one \<open>write_atomic\<close>; the disks in between, first and last included, and its result.\<close>

record atomic_calls =
  ac_fd :: bool
  ac_file :: bool
  ac_written :: nat
  ac_flush :: bool
  ac_sync :: bool
  ac_close :: bool
  ac_rename :: bool
  ac_dir_open :: bool
  ac_dir_sync :: bool
  ac_dir_close :: bool
  ac_remove :: bool

definition tmp_of :: "string \<Rightarrow> string" where
  "tmp_of path = snprintf_trunc (PH_PATH_CAP + 48) (path @ ''.tmp'')"

definition write_atomic_steps :: "atomic_calls \<Rightarrow> string \<Rightarrow> bytes \<Rightarrow> disk \<Rightarrow> disk list \<times> bool" where
  "write_atomic_steps c path data d =
     (let tmp = tmp_of path
      in case open_private_file (ac_fd c) (ac_file c) tmp False d of (d1, None) \<Rightarrow> ([d, d1], False)
      | (d1, Some f) \<Rightarrow>
          let d2 = sys_append f (take (ac_written c) data) d1;
              ok = (data = [] \<or> length data \<le> ac_written c);
              (d3, closed) = durable_close (ac_flush c) (ac_sync c) (ac_close c) f d2;
              ok = (if \<not> closed then False else ok);
              (d4, ok) = (if ok then atomic_replace (ac_rename c) tmp path d3 else (d3, False));
              (d5, ok) = (if ok then fsync_offline_dir (ac_dir_open c) (ac_dir_sync c) (ac_dir_close c) d4 else (d4, False));
              d6 = (if \<not> ok \<and> ac_remove c then sys_remove tmp d5 else d5)
          in ([d, d1, d2, d3, d4, d5, d6], ok))"

text \<open>The calls of one append in \<open>offline_spill\<close>, from the open to the directory sync.\<close>

record append_calls =
  ap_fd :: bool
  ap_file :: bool
  ap_written :: nat
  ap_flush :: bool
  ap_sync :: bool
  ap_trunc :: bool
  ap_flush2 :: bool
  ap_sync2 :: bool
  ap_close :: bool
  ap_dir_open :: bool
  ap_dir_sync :: bool
  ap_dir_close :: bool

definition append_steps :: "append_calls \<Rightarrow> string \<Rightarrow> bytes \<Rightarrow> disk \<Rightarrow> disk list \<times> bool" where
  "append_steps c path body d =
     (let start = file_size path (view d)
      in case open_private_file (ap_fd c) (ap_file c) path True d of (d1, None) \<Rightarrow> ([d, d1], False)
      | (d1, Some f) \<Rightarrow>
          let d2 = sys_append f (take (ap_written c) (body @ [LF])) d1;
              ok = (length body + 1 \<le> ap_written c);
              (d3, flushed) = (if ok then durable_flush (ap_flush c) (ap_sync c) f d2 else (d2, False));
              torn = (\<not> ok \<or> \<not> flushed);
              d4 = (if torn then truncate_file (ap_trunc c) f (if start < 0 then 0 else nat start) d3 else d3);
              d5 = (if torn then fst (durable_flush (ap_flush2 c) (ap_sync2 c) f d4) else d4);
              ok = (if \<not> ap_close c then False else \<not> torn);
              (d6, ok) = (if ok \<and> start < 0 then fsync_offline_dir (ap_dir_open c) (ap_dir_sync c) (ap_dir_close c) d5 else (d5, ok))
          in ([d, d1, d2, d3, d4, d5, d6], ok))"

text \<open>The steps of \<open>offline_spill\<close>; \<open>read_ok\<close> tells whether a full file could be read back for the cap.\<close>

definition offline_spill_steps :: "bool \<Rightarrow> bool \<Rightarrow> atomic_calls \<Rightarrow> append_calls \<Rightarrow> bytes \<Rightarrow> ph_ctx \<Rightarrow> disk \<Rightarrow> disk list \<times> bool" where
  "offline_spill_steps mkdir_ok read_ok ac ap body ctx d =
     (let path = offline_spill_path ctx
      in if offline_path ctx = [] \<or> body = [] \<or> \<not> mkdir_ok \<or> PH_OFFLINE_MAX_BYTES \<le> length body then ([d], False)
      else case view d path of None \<Rightarrow> append_steps ap path body d
      | Some buf \<Rightarrow>
          if length buf + length body + 1 \<le> PH_OFFLINE_MAX_BYTES then append_steps ap path body d
          else if \<not> read_ok then ([d], False)
          else let (ds, ok) = write_atomic_steps ac path (drop (cap_drop buf (length body)) buf) d
               in if \<not> ok then (ds, False)
                  else let (es, ok) = append_steps ap path body (List.last ds) in (ds @ es, ok))"

section \<open>Facts: one file changes\<close>

text \<open>Names other than \<open>p\<close> are as on \<open>d\<close>, on disk and in memory.\<close>

definition others_same :: "string \<Rightarrow> disk \<Rightarrow> disk \<Rightarrow> bool" where
  "others_same p d s \<longleftrightarrow> (\<forall>n. n \<noteq> p \<longrightarrow> dk_entry s n = dk_entry d n \<and> dk_names s n = dk_names d n \<and>
     (\<forall>i. dk_entry d n (Some i) \<longrightarrow> dk_store s i = dk_store d i \<and> dk_data s i = dk_data d i))"

lemma others_crash: "others_same p d s \<Longrightarrow> n \<noteq> p \<Longrightarrow> crash_leaves s n = crash_leaves d n"
  unfolding crash_leaves_def others_same_def by (rule ext) auto

lemma others_view: "others_same p d s \<Longrightarrow> disk_wf d \<Longrightarrow> n \<noteq> p \<Longrightarrow> view s n = view d n"
  unfolding view_def others_same_def disk_wf_def by (cases "dk_names d n") (auto, metis)

lemma others_refl: "others_same p d d"
  by (simp add: others_same_def)

text \<open>File \<open>f\<close> is not found under another name than \<open>p\<close>.\<close>

definition only_under :: "string \<Rightarrow> nat \<Rightarrow> disk \<Rightarrow> bool" where
  "only_under p f d \<longleftrightarrow> (\<forall>n. n \<noteq> p \<longrightarrow> \<not> dk_entry d n (Some f))"

lemma others_file:
  assumes "others_same p d s" "only_under p f d"
  shows "others_same p d (sys_append f bs s)" "others_same p d (sys_truncate f k s)" "others_same p d (sys_fsync f s)" "others_same p d (sys_remove p s)"
  using assms by (auto simp: others_same_def only_under_def sys_append_def sys_truncate_def sys_fsync_def sys_remove_def)

text \<open>What opening a file gives on a settled disk.\<close>

lemma settled_crash: "settled d \<Longrightarrow> crash_leaves d n x \<longleftrightarrow> x = view d n"
  by (cases "dk_names d n") (auto simp: settled_def crash_leaves_def view_def)

lemma opened:
  assumes "settled d" "disk_wf d" "open_private_file a b p m d = (d1, r)"
  shows "others_same p d d1" "r = Some f \<Longrightarrow> only_under p f d \<and> dk_names d1 p = Some f \<and>
      dk_data d1 f = (if m then case view d p of None \<Rightarrow> [] | Some x \<Rightarrow> x else []) \<and>
      (\<forall>e. dk_entry d1 p e \<longrightarrow> e = dk_names d p \<or> e = Some f) \<and> (dk_names d p = None \<or> dk_names d p = Some f)"
proof -
  show "others_same p d d1"
  proof (cases "dk_names d p")
    case None
    have "\<not> dk_entry d n (Some (dk_next d))" for n using assms(2) by (auto simp: disk_wf_def)
    with assms(3) None show ?thesis
      by (auto simp: open_private_file_def others_same_def sys_create_def split: if_splits)
  next
    case (Some i)
    have "only_under p i d" using assms(1,2) Some unfolding only_under_def settled_def disk_wf_def by metis
    then show ?thesis using assms(3) Some others_file(2) [OF others_refl] others_refl
      by (auto simp: open_private_file_def split: if_splits)
  qed
  assume r: "r = Some f"
  have f: "dk_names d p = Some f \<or> f = dk_next d" using assms(3) r by (auto simp: open_private_file_def split: if_splits option.splits)
  have o: "only_under p f d"
  proof (cases "dk_names d p = Some f")
    case False
    with f assms(2) show ?thesis by (auto simp: only_under_def disk_wf_def)
  qed (use assms(1,2) in \<open>unfold only_under_def settled_def disk_wf_def, metis\<close>)
  show "only_under p f d \<and> dk_names d1 p = Some f \<and>
      dk_data d1 f = (if m then case view d p of None \<Rightarrow> [] | Some x \<Rightarrow> x else []) \<and>
      (\<forall>e. dk_entry d1 p e \<longrightarrow> e = dk_names d p \<or> e = Some f) \<and> (dk_names d p = None \<or> dk_names d p = Some f)"
    using assms r o by (auto simp: open_private_file_def sys_create_def sys_truncate_def settled_def view_def split: if_splits option.splits)
qed

lemma opened_next:
  assumes "disk_wf d" "open_private_file a b p m d = (d1, r)"
  shows "dk_next d \<le> dk_next d1" "r = Some f \<Longrightarrow> f < dk_next d1"
  using assms by (auto simp: open_private_file_def sys_create_def sys_truncate_def disk_wf_def split: if_splits option.splits)

section \<open>Facts: the rewrite\<close>

text \<open>A file that was written whole and synced under the temporary name.\<close>

definition prepared :: "string \<Rightarrow> bytes \<Rightarrow> disk \<Rightarrow> disk \<Rightarrow> nat \<Rightarrow> bool" where
  "prepared tmp data d s f \<longleftrightarrow> others_same tmp d s \<and> only_under tmp f d \<and> dk_names s tmp = Some f \<and> dk_data s f = data \<and>
     (\<forall>b. dk_store s f b \<longleftrightarrow> b = data) \<and> f < dk_next s \<and> dk_next d \<le> dk_next s"

lemma atomic_shape:
  assumes "settled d" "disk_wf d" "tmp = tmp_of path" "write_atomic_steps c path data d = (ds, ok)" "tmp \<noteq> path"
  obtains (kept) "\<not> ok" "\<forall>s \<in> set ds. others_same tmp d s"
  | (renamed) s f where "prepared tmp data d s f"
      "\<forall>t \<in> set ds. others_same tmp d t \<or> t = sys_rename tmp path s \<or> t = sys_fsync_dir (sys_rename tmp path s)"
      "ok \<Longrightarrow> List.last ds = sys_fsync_dir (sys_rename tmp path s)"
proof -
  obtain d1 r where o: "open_private_file (ac_fd c) (ac_file c) tmp False d = (d1, r)" by fastforce
  note d1 = opened [OF assms(1,2) o] opened_next [OF assms(2) o]
  show thesis
  proof (cases r)
    case None
    then show thesis using assms(3,4) o d1(1) others_refl by (intro kept) (auto simp: write_atomic_steps_def)
  next
    case (Some f)
    define d2 where "d2 = sys_append f (take (ac_written c) data) d1"
    define d3 where "d3 = fst (durable_close (ac_flush c) (ac_sync c) (ac_close c) f d2)"
    define d4 where "d4 = sys_rename tmp path d3"
    define d5 where "d5 = fst (fsync_offline_dir (ac_dir_open c) (ac_dir_sync c) (ac_dir_close c) d4)"
    have u: "only_under tmp f d" using d1(2) Some by blast
    have o2: "others_same tmp d d2" unfolding d2_def by (rule others_file(1) [OF d1(1) u])
    then have o3: "others_same tmp d d3" using others_file(3) [OF o2 u]
      by (simp add: d3_def durable_close_def durable_flush_def)
    let ?w = "(data = [] \<or> length data \<le> ac_written c) \<and> snd (durable_close (ac_flush c) (ac_sync c) (ac_close c) f d2)"
    have gone: "dk_names d4 tmp = None" "dk_names d5 tmp = None"
      using assms(5) by (auto simp: d4_def d5_def sys_rename_def fsync_offline_dir_def sys_fsync_dir_def)
    show thesis
    proof (cases "?w \<and> ac_rename c")
      case False
      then have e: "ds = [d, d1, d2, d3, d3, d3, if ac_remove c then sys_remove tmp d3 else d3]" "\<not> ok" using assms(3,4) o Some
        by (auto simp: write_atomic_steps_def atomic_replace_def d2_def d3_def Let_def split: prod.splits if_splits)
      then show thesis using others_refl d1(1) o2 o3 others_file(4) [OF o3 u] by (intro kept) auto
    next
      case True
      then have e: "ds = [d, d1, d2, d3, d4, d5, d5]" "ok = snd (fsync_offline_dir (ac_dir_open c) (ac_dir_sync c) (ac_dir_close c) d4)"
        using assms(3,4) o Some gone
        by (auto simp: write_atomic_steps_def atomic_replace_def d2_def d3_def d4_def d5_def sys_remove_def Let_def split: prod.splits if_splits)
      have "take (ac_written c) data = data" using True by auto
      then have f2: "dk_data d2 f = data" "dk_names d2 tmp = Some f" "dk_next d2 = dk_next d1" using d1(2) Some
        by (auto simp: d2_def sys_append_def)
      have "d3 = sys_fsync f d2" using True by (auto simp: d3_def durable_close_def durable_flush_def split: if_splits)
      then have p: "prepared tmp data d d3 f" using f2 o3 u d1(3,4) Some by (simp add: prepared_def sys_fsync_def)
      moreover have "d5 = d4 \<or> d5 = sys_fsync_dir d4" by (auto simp: d5_def fsync_offline_dir_def)
      moreover have "ok \<Longrightarrow> d5 = sys_fsync_dir d4" using e(2) by (auto simp: d5_def fsync_offline_dir_def split: if_splits)
      ultimately show thesis using e(1) others_refl d1(1) o2 o3 unfolding d4_def by (intro renamed [of d3 f]) auto
    qed
  qed
qed

lemma renamed_crash:
  assumes "settled d" "disk_wf d" "prepared tmp data d s f" "n \<noteq> tmp" "tmp \<noteq> path" "crash_leaves (sys_rename tmp path s) n x"
  shows "x = view d n \<or> n = path \<and> x = Some data"
proof -
  have s: "crash_leaves s n x \<Longrightarrow> x = view d n" using others_crash [of tmp d s n] assms(3,4) settled_crash [OF assms(1)] by (simp add: prepared_def)
  show ?thesis
  proof (cases "n = path")
    case True
    then show ?thesis using assms(3,5,6) s by (auto simp: crash_leaves_def sys_rename_def prepared_def)
  next
    case False
    then show ?thesis using assms(4,6) s by (auto simp: crash_leaves_def sys_rename_def)
  qed
qed

lemma renamed_settled:
  assumes "settled d" "disk_wf d" "prepared tmp data d s f" "tmp \<noteq> path" "t = sys_fsync_dir (sys_rename tmp path s)"
  shows "settled t" "disk_wf t" "view t = (view d)(tmp := None, path \<mapsto> data)"
proof -
  have names: "dk_names t n = (if n = tmp then None else if n = path then Some f else dk_names d n)" for n
    using assms(3-5) by (auto simp: prepared_def sys_fsync_dir_def sys_rename_def others_same_def)
  have rest: "dk_entry t n e \<longleftrightarrow> e = dk_names t n" "dk_store t = dk_store s" "dk_data t = dk_data s" "dk_next t = dk_next s" for n e
    using assms(5) by (simp_all add: sys_fsync_dir_def sys_rename_def)
  have old: "i \<noteq> f \<and> i < dk_next d \<and> dk_store s i = dk_store d i \<and> dk_data s i = dk_data d i" if "n \<noteq> tmp" "dk_names d n = Some i" for n i
  proof -
    have "dk_entry d n (Some i)" "i < dk_next d" using assms(2) that(2) unfolding disk_wf_def by metis+
    with assms(3) that(1) show ?thesis unfolding prepared_def only_under_def others_same_def by metis
  qed
  show "settled t" using old assms(1,3) by (auto simp: settled_def rest names prepared_def)
  have inj: "m = n" if "dk_names t m = Some i" "dk_names t n = Some i" for m n i
    using that old [of m i] old [of n i] assms(2) unfolding names disk_wf_def by (metis option.distinct(1) option.inject)
  have less: "i < dk_next s" if "dk_names t n = Some i" for n i
    using that old [of n i] assms(3) by (auto simp: names prepared_def split: if_splits)
  show "disk_wf t" using inj less by (simp add: disk_wf_def rest)
  show "view t = (view d)(tmp := None, path \<mapsto> data)"
  proof (rule ext)
    fix n
    show "view t n = ((view d)(tmp := None, path \<mapsto> data)) n"
      using old [of n] assms(3,4) by (cases "dk_names d n") (auto simp: view_def names rest prepared_def)
  qed
qed

section \<open>Facts: the append\<close>

text \<open>The file begins with the bytes \<open>b\<close>, in memory and in whatever a crash leaves of it.\<close>

definition begins :: "bytes \<Rightarrow> nat \<Rightarrow> disk \<Rightarrow> bool" where
  "begins b f s \<longleftrightarrow> prefix b (dk_data s f) \<and> (\<forall>x. dk_store s f x \<longrightarrow> prefix b x)"

lemma begins_steps:
  assumes "begins b f s"
  shows "begins b f (sys_append f y s)" "begins b f (sys_truncate f (length b) s)" "begins b f (sys_fsync f s)"
  using assms by (auto simp: begins_def sys_append_def sys_truncate_def sys_fsync_def prefix_def)

definition old_bytes :: "string \<Rightarrow> disk \<Rightarrow> bytes" where
  "old_bytes p d = (case view d p of None \<Rightarrow> [] | Some b \<Rightarrow> b)"

text \<open>A disk on which only the file \<open>f\<close> under \<open>p\<close> has grown.\<close>

definition growing :: "string \<Rightarrow> nat \<Rightarrow> disk \<Rightarrow> disk \<Rightarrow> bool" where
  "growing p f d s \<longleftrightarrow> others_same p d s \<and> begins (old_bytes p d) f s \<and> (\<forall>e. dk_entry s p e \<longrightarrow> e = dk_names d p \<or> e = Some f) \<and>
     (dk_names d p = None \<or> dk_names d p = Some f) \<and> dk_names s p = Some f \<and> f < dk_next s \<and> dk_next d \<le> dk_next s"

lemma growing_crash:
  assumes "settled d" "growing p f d s" "crash_leaves s n x"
  shows "x = view d n \<or> n = p \<and> (\<exists>y. x = Some (old_bytes p d @ y))"
proof (cases "n = p")
  case True
  have f: "i = f" if "dk_entry s p (Some i)" for i using assms(2) that unfolding growing_def by fastforce
  have b: "\<exists>y. b = old_bytes p d @ y" if "dk_store s f b" for b using assms(2) that by (auto simp: growing_def begins_def prefix_def)
  have "dk_names d p = None" if "dk_entry s p None" using assms(2) that unfolding growing_def by fastforce
  then show ?thesis using True assms(3) f b unfolding crash_leaves_def by (auto simp: view_def)
next
  case False
  then show ?thesis using assms others_crash [of p d s n] settled_crash [OF assms(1)] by (simp add: growing_def)
qed

lemma growing_steps:
  assumes "growing p f d s" "only_under p f d"
  shows "growing p f d (sys_append f y s)" "growing p f d (sys_truncate f (length (old_bytes p d)) s)" "growing p f d (sys_fsync f s)"
proof -
  have o: "others_same p d s" and b: "begins (old_bytes p d) f s" using assms(1) by (simp_all add: growing_def)
  note r = others_file [OF o assms(2)] begins_steps [OF b]
  show "growing p f d (sys_append f y s)" using assms(1) r(1,5) by (simp add: growing_def sys_append_def)
  show "growing p f d (sys_truncate f (length (old_bytes p d)) s)" using assms(1) r(2,6) by (simp add: growing_def sys_truncate_def)
  show "growing p f d (sys_fsync f s)" using assms(1) r(3,7) by (simp add: growing_def sys_fsync_def)
qed

lemma opened_growing:
  assumes "settled d" "disk_wf d" "open_private_file a b p True d = (d1, Some f)"
  shows "growing p f d d1" "only_under p f d" "dk_data d1 f = old_bytes p d"
proof -
  note o = opened [OF assms] opened_next [OF assms(2,3)]
  show "only_under p f d" "dk_data d1 f = old_bytes p d" using o(2) by (auto simp: old_bytes_def)
  then have "begins (old_bytes p d) f d1" using assms
    by (auto simp: begins_def open_private_file_def sys_create_def settled_def split: if_splits option.splits)
  then show "growing p f d d1" using o by (auto simp: growing_def)
qed

lemma grown_settled:
  assumes "settled d" "disk_wf d" "growing p f d s" "only_under p f d" "\<forall>b. dk_store s f b \<longleftrightarrow> b = dk_data s f"
    "\<forall>e. dk_entry s p e \<longleftrightarrow> e = Some f"
  shows "settled s" "disk_wf s" "view s = (view d)(p \<mapsto> dk_data s f)"
proof -
  have g: "others_same p d s" "dk_names s p = Some f" "f < dk_next s" "dk_next d \<le> dk_next s" using assms(3) by (auto simp: growing_def)
  have names: "dk_names s n = (if n = p then Some f else dk_names d n)" for n using g by (simp add: others_same_def)
  have entries: "dk_entry s n e \<longleftrightarrow> e = dk_names s n" for n e
    using g assms(1,6) unfolding others_same_def settled_def by (cases "n = p") simp_all
  have old: "i \<noteq> f \<and> i < dk_next d \<and> dk_store s i = dk_store d i \<and> dk_data s i = dk_data d i" if "n \<noteq> p" "dk_names d n = Some i" for n i
  proof -
    have "dk_entry d n (Some i)" "i < dk_next d" using assms(2) that(2) unfolding disk_wf_def by metis+
    with assms(4) g(1) that(1) show ?thesis unfolding only_under_def others_same_def by metis
  qed
  show "settled s" using old assms(1,5) by (auto simp: settled_def names entries)
  have inj: "m = n" if "dk_names s m = Some i" "dk_names s n = Some i" for m n i
    using that old [of m i] old [of n i] assms(2) unfolding names disk_wf_def by (metis option.inject)
  have less: "i < dk_next s" if "dk_names s n = Some i" for n i
    using that old [of n i] g(3,4) by (auto simp: names split: if_splits)
  show "disk_wf s" using inj less by (simp add: disk_wf_def entries)
  show "view s = (view d)(p \<mapsto> dk_data s f)"
  proof (rule ext)
    fix n
    show "view s n = ((view d)(p \<mapsto> dk_data s f)) n" using old [of n] by (cases "dk_names d n") (auto simp: view_def names)
  qed
qed

lemma fsync_dir_growing:
  assumes "growing p f d s" "settled d"
  shows "growing p f d (sys_fsync_dir s)"
proof -
  have "dk_entry (sys_fsync_dir s) n = dk_entry d n" if "n \<noteq> p" for n
    using assms that unfolding growing_def others_same_def settled_def sys_fsync_dir_def by (intro ext) simp
  then have "others_same p d (sys_fsync_dir s)" using assms(1) by (simp add: growing_def others_same_def sys_fsync_dir_def)
  then show ?thesis using assms(1) by (simp add: growing_def sys_fsync_dir_def begins_def)
qed

lemma old_start: "(if file_size p (view d) < 0 then 0 else nat (file_size p (view d))) = length (old_bytes p d)"
    "file_size p (view d) < 0 \<longleftrightarrow> dk_names d p = None"
  by (simp_all add: file_size_def old_bytes_def view_def split: option.split)

lemma open_failed_growing:
  assumes "settled d" "disk_wf d" "open_private_file a b p True d = (d1, None)"
  shows "d1 = d \<or> (\<exists>f. growing p f d d1)"
proof (cases a)
  case True
  obtain e f where o: "open_private_file True True p True d = (e, Some f)"
    by (cases "dk_names d p") (auto simp: open_private_file_def)
  then have "e = d1" using assms(3) True by (auto simp: open_private_file_def split: option.splits if_splits)
  with opened_growing(1) [OF assms(1,2) o] show ?thesis by blast
qed (use assms(3) in \<open>simp add: open_private_file_def\<close>)

text \<open>The disks of an append: all have only grown, and after success the last one was synced.\<close>

lemma append_shape:
  assumes "settled d" "disk_wf d" "append_steps c p body d = (ds, ok)"
  obtains (unopened) "\<not> ok" "\<forall>s \<in> set ds. s = d \<or> (\<exists>f. growing p f d s)" "ds \<noteq> []"
  | (opened) f where "only_under p f d" "\<forall>s \<in> set ds. s = d \<or> growing p f d s"
      "ok \<Longrightarrow> dk_data (List.last ds) f = old_bytes p d @ body @ [LF] \<and> (\<forall>b. dk_store (List.last ds) f b \<longleftrightarrow> b = dk_data (List.last ds) f) \<and>
         (\<forall>e. dk_entry (List.last ds) p e \<longleftrightarrow> e = Some f) \<and> growing p f d (List.last ds)"
proof -
  obtain d1 r where o: "open_private_file (ap_fd c) (ap_file c) p True d = (d1, r)" by fastforce
  show thesis
  proof (cases r)
    case None
    then show thesis using assms(3) o open_failed_growing [OF assms(1,2), of "ap_fd c" "ap_file c" p d1]
      by (intro unopened) (auto simp: append_steps_def)
  next
    case (Some f)
    note g = opened_growing [OF assms(1,2) o [unfolded Some]]
    note steps = growing_steps [OF _ g(2)]
    define d2 where "d2 = sys_append f (take (ap_written c) (body @ [LF])) d1"
    have g2: "growing p f d d2" unfolding d2_def by (rule steps(1) [OF g(1)])
    let ?n = "length (old_bytes p d)"
    show thesis
    proof (cases "length body + 1 \<le> ap_written c \<and> ap_flush c \<and> ap_sync c")
      case False
      define d3 where "d3 = truncate_file (ap_trunc c) f ?n d2"
      define d4 where "d4 = fst (durable_flush (ap_flush2 c) (ap_sync2 c) f d3)"
      have g3: "growing p f d d3" using g2 steps(2) by (simp add: d3_def truncate_file_def)
      then have g4: "growing p f d d4" using steps(3) by (simp add: d4_def durable_flush_def)
      have "ds = [d, d1, d2, d2, d3, d4, d4]" "\<not> ok" using assms(3) o Some False
        by (auto simp: append_steps_def old_start(1) durable_flush_def d2_def d3_def d4_def Let_def split: if_splits)
      then show thesis using g(1,2) g2 g3 g4 by (intro opened [of f]) auto
    next
      case True
      define d3 where "d3 = sys_fsync f d2"
      define d4 where "d4 = (if ap_close c \<and> dk_names d p = None
        then fst (fsync_offline_dir (ap_dir_open c) (ap_dir_sync c) (ap_dir_close c) d3) else d3)"
      have g3: "growing p f d d3" unfolding d3_def by (rule steps(3) [OF g2])
      have g4: "growing p f d d4" using g3 fsync_dir_growing [OF g3 assms(1)] by (simp add: d4_def fsync_offline_dir_def)
      have ds: "ds = [d, d1, d2, d3, d3, d3, d4]" using assms(3) o Some True
        by (auto simp: append_steps_def old_start durable_flush_def d2_def d3_def d4_def Let_def split: if_splits prod.splits)
      have ok: "ok \<longleftrightarrow> ap_close c \<and> (dk_names d p = None \<longrightarrow> ap_dir_open c \<and> ap_dir_sync c \<and> ap_dir_close c)" using assms(3) o Some True
        by (auto simp: append_steps_def old_start durable_flush_def fsync_offline_dir_def d2_def d3_def Let_def split: if_splits prod.splits)
      have "dk_data d4 = dk_data d3" "dk_store d4 = dk_store d3" by (simp_all add: d4_def fsync_offline_dir_def sys_fsync_dir_def)
      moreover have "take (ap_written c) (body @ [LF]) = body @ [LF]" using True by (intro take_all) simp
      ultimately have data: "dk_data d4 f = old_bytes p d @ body @ [LF]" "\<forall>b. dk_store d4 f b \<longleftrightarrow> b = dk_data d4 f"
        using g(3) by (simp_all add: d3_def d2_def sys_fsync_def sys_append_def del: take_append)
      have ent: "dk_entry d4 p e \<longleftrightarrow> e = Some f" if ok for e
      proof (cases "dk_names d p")
        case None
        then show ?thesis using that ok g3 by (simp add: d4_def fsync_offline_dir_def sys_fsync_dir_def growing_def)
      next
        case (Some i)
        then have "d4 = d3" "i = f" using g3 by (auto simp: d4_def growing_def)
        moreover have "dk_entry d3 p = dk_entry d p" using o Some
          by (auto simp: d3_def d2_def sys_fsync_def sys_append_def open_private_file_def split: if_splits)
        ultimately show ?thesis using assms(1) Some by (simp add: settled_def)
      qed
      show thesis using ds g(1,2) g2 g3 g4 data ent by (intro opened [of f]) auto
    qed
  qed
qed

lemma grown_crash:
  assumes "settled d" "s = d \<or> (\<exists>f. growing p f d s)" "crash_leaves s n x"
  shows "x = view d n \<or> n = p \<and> (\<exists>y. x = Some (old_bytes p d @ y))"
proof (cases "s = d")
  case True
  with assms(3) settled_crash [OF assms(1)] show ?thesis by simp
next
  case False
  with assms(2) obtain f where "growing p f d s" by blast
  from growing_crash [OF assms(1) this assms(3)] show ?thesis .
qed

lemma append_crash:
  assumes "settled d" "disk_wf d" "append_steps c p body d = (ds, ok)"
  shows "\<forall>s \<in> set ds. \<forall>n x. crash_leaves s n x \<longrightarrow> x = view d n \<or> n = p \<and> (\<exists>y. x = Some (old_bytes p d @ y))"
    "ok \<Longrightarrow> settled (List.last ds) \<and> disk_wf (List.last ds) \<and> view (List.last ds) = (view d)(p \<mapsto> old_bytes p d @ body @ [LF])"
proof -
  have "(\<forall>s \<in> set ds. \<forall>n x. crash_leaves s n x \<longrightarrow> x = view d n \<or> n = p \<and> (\<exists>y. x = Some (old_bytes p d @ y))) \<and>
    (ok \<longrightarrow> settled (List.last ds) \<and> disk_wf (List.last ds) \<and> view (List.last ds) = (view d)(p \<mapsto> old_bytes p d @ body @ [LF]))"
    (is "?c \<and> ?o")
  proof (cases rule: append_shape [OF assms])
    case 1
    have ?c by (intro ballI allI impI) (rule grown_crash [OF assms(1) 1(2) [rule_format]])
    with 1(1) show ?thesis by blast
  next
    case (2 f)
    have "s = d \<or> (\<exists>f. growing p f d s)" if "s \<in> set ds" for s using 2(2) that by blast
    then have ?c by (intro ballI allI impI) (rule grown_crash [OF assms(1)])
    moreover have ?o using 2(1,3) grown_settled [OF assms(1,2), of p f "List.last ds"] by simp
    ultimately show ?thesis by (rule conjI)
  qed
  then show "\<forall>s \<in> set ds. \<forall>n x. crash_leaves s n x \<longrightarrow> x = view d n \<or> n = p \<and> (\<exists>y. x = Some (old_bytes p d @ y))"
    "ok \<Longrightarrow> settled (List.last ds) \<and> disk_wf (List.last ds) \<and> view (List.last ds) = (view d)(p \<mapsto> old_bytes p d @ body @ [LF])"
    by blast+
qed

lemma atomic_crash:
  assumes "settled d" "disk_wf d" "write_atomic_steps c path data d = (ds, ok)" "tmp_of path \<noteq> path"
  shows "s \<in> set ds \<Longrightarrow> n \<noteq> tmp_of path \<Longrightarrow> crash_leaves s n x \<Longrightarrow> x = view d n \<or> n = path \<and> x = Some data"
    "ok \<Longrightarrow> settled (List.last ds) \<and> disk_wf (List.last ds) \<and> view (List.last ds) = (view d)(tmp_of path := None, path \<mapsto> data)"
proof -
  have same: "x = view d n" if "others_same (tmp_of path) d t" "n \<noteq> tmp_of path" "crash_leaves t n x" for t
    using others_crash [OF that(1,2)] settled_crash [OF assms(1)] that(3) by simp
  show "x = view d n \<or> n = path \<and> x = Some data" if m: "s \<in> set ds" "n \<noteq> tmp_of path" "crash_leaves s n x"
  proof (cases rule: atomic_shape [OF assms(1,2) refl assms(3,4)])
    case 1
    then have "others_same (tmp_of path) d s" using m(1) by blast
    from same [OF this m(2,3)] show ?thesis by simp
  next
    case (2 r f)
    note z = renamed_settled [OF assms(1,2) 2(1) assms(4) refl]
    consider (a) "others_same (tmp_of path) d s" | (b) "s = sys_rename (tmp_of path) path r"
      | (c) "s = sys_fsync_dir (sys_rename (tmp_of path) path r)" using 2(2) m(1) by blast
    then show ?thesis
    proof cases
      case a
      from same [OF this m(2,3)] show ?thesis by simp
    next
      case b
      from renamed_crash [OF assms(1,2) 2(1) m(2) assms(4) m(3) [unfolded b]] show ?thesis .
    next
      case c
      have "x = view s n" using settled_crash [OF z(1)] m(3) unfolding c by simp
      then show ?thesis using z(3) m(2) unfolding c by (simp split: if_splits)
    qed
  qed
  show "settled (List.last ds) \<and> disk_wf (List.last ds) \<and> view (List.last ds) = (view d)(tmp_of path := None, path \<mapsto> data)" if ok
  proof (cases rule: atomic_shape [OF assms(1,2) refl assms(3,4)])
    case (2 r f)
    with renamed_settled [OF assms(1,2) 2(1) assms(4) refl] that show ?thesis by simp
  qed (use that in blast)
qed

section \<open>Facts: what the processes see\<close>

text \<open>File \<open>f\<close> has the name \<open>p\<close> and no other.\<close>

definition linked :: "string \<Rightarrow> nat \<Rightarrow> disk \<Rightarrow> bool" where
  "linked p f s \<longleftrightarrow> dk_names s p = Some f \<and> (\<forall>n. dk_names s n = Some f \<longrightarrow> n = p)"

lemma view_file:
  assumes "linked p f s" "dk_names t = dk_names s" "dk_data t = (dk_data s)(f := b)"
  shows "view t = (view s)(p \<mapsto> b)"
proof (rule ext)
  fix n
  show "view t n = ((view s)(p \<mapsto> b)) n"
  proof (cases "n = p")
    case True
    with assms(1) show ?thesis by (simp add: view_def assms(2,3) linked_def)
  next
    case False
    with assms(1) have "dk_names s n \<noteq> Some f" by (auto simp: linked_def)
    with False show ?thesis by (cases "dk_names s n") (simp_all add: view_def assms(2,3))
  qed
qed

lemma view_steps:
  assumes "linked p f s"
  shows "view (sys_append f y s) = (view s)(p \<mapsto> dk_data s f @ y)" "view (sys_truncate f k s) = (view s)(p \<mapsto> take k (dk_data s f))"
proof -
  have "dk_data (sys_append f y s) = (dk_data s)(f := dk_data s f @ y)" by (cases "y = []") (simp_all add: sys_append_def)
  moreover have "dk_names (sys_append f y s) = dk_names s" by (simp add: sys_append_def)
  ultimately show "view (sys_append f y s) = (view s)(p \<mapsto> dk_data s f @ y)" by (intro view_file [OF assms])
  show "view (sys_truncate f k s) = (view s)(p \<mapsto> take k (dk_data s f))" by (intro view_file [OF assms]) (simp_all add: sys_truncate_def)
qed

lemma view_syncs: "view (sys_fsync f s) = view s" "view (sys_fsync_dir s) = view s"
  by (simp_all add: view_def sys_fsync_def sys_fsync_dir_def)

lemma linked_steps:
  "linked p f (sys_append f y s) = linked p f s" "linked p f (sys_truncate g k s) = linked p f s" "linked p f (sys_fsync g s) = linked p f s"
  by (simp_all add: linked_def sys_append_def sys_truncate_def sys_fsync_def)

lemma view_rename: "view (sys_rename tmp path s) = (view s)(path := view s tmp, tmp := None)"
  and view_remove: "view (sys_remove tmp s) = (view s)(tmp := None)"
  by (auto simp: view_def sys_rename_def sys_remove_def fun_eq_iff)

lemma open_view:
  assumes "disk_wf d"
  shows "open_private_file True True p m d = (d1, Some f) \<Longrightarrow>
    linked p f d1 \<and> dk_data d1 f = (if m then old_bytes p d else []) \<and> view d1 = (view d)(p \<mapsto> if m then old_bytes p d else [])"
proof -
  assume o: "open_private_file True True p m d = (d1, Some f)"
  show ?thesis
  proof (cases "dk_names d p")
    case None
    then have "d1 = sys_create p d" "f = dk_next d" using o by (auto simp: open_private_file_def)
    moreover have "dk_names d n \<noteq> Some (dk_next d)" for n using assms by (auto simp: disk_wf_def)
    ultimately show ?thesis using None
      by (auto simp: linked_def sys_create_def view_def old_bytes_def fun_eq_iff intro!: option.map_cong)
  next
    case (Some i)
    then have e: "d1 = (if m then d else sys_truncate f 0 d)" "f = i" using o by (auto simp: open_private_file_def)
    have l: "linked p f d" using Some assms unfolding linked_def disk_wf_def e(2) by blast
    have b: "old_bytes p d = dk_data d f" "view d p = Some (dk_data d f)" using Some e(2) by (simp_all add: old_bytes_def view_def)
    show ?thesis
    proof (cases m)
      case True
      then show ?thesis using l b e(1) by (simp add: fun_upd_idem)
    next
      case False
      then show ?thesis using l e(1) view_steps(2) [OF l, of 0] by (simp add: linked_steps) (simp add: sys_truncate_def)
    qed
  qed
qed

text \<open>The outcomes that the coarser definitions of theory \<open>Ph_Spill\<close> take.\<close>

definition atomic_of :: "atomic_calls \<Rightarrow> bytes \<Rightarrow> atomic_io" where
  "atomic_of c data = \<lparr>ai_open = ac_fd c, ai_write = (length data \<le> ac_written c), ai_close = ac_flush c \<and> ac_sync c \<and> ac_close c,
     ai_rename = ac_rename c, ai_dirsync = ac_dir_open c \<and> ac_dir_sync c \<and> ac_dir_close c\<rparr>"

definition spill_of :: "bool \<Rightarrow> bool \<Rightarrow> atomic_calls \<Rightarrow> append_calls \<Rightarrow> bytes \<Rightarrow> spill_io" where
  "spill_of mkdir_ok read_ok ac ap data = \<lparr>cap_open = read_ok, cap_mem = True, cap_read = True, cap_atomic = atomic_of ac data,
     sp_mkdir = mkdir_ok, sp_open = ap_fd ap, sp_written = ap_written ap, sp_flush = ap_flush ap \<and> ap_sync ap, sp_trunc = ap_trunc ap,
     sp_close = ap_close ap, sp_dirsync = ap_dir_open ap \<and> ap_dir_sync ap \<and> ap_dir_close ap\<rparr>"

lemma write_atomic_view:
  assumes "disk_wf d" "tmp_of path \<noteq> path" "ac_file c" "ac_remove c" "write_atomic_steps c path data d = (ds, ok)"
  shows "write_atomic (atomic_of c data) path data (view d) = (view (List.last ds), ok)"
proof (cases "ac_fd c")
  case True
  let ?t = "tmp_of path"
  obtain d1 f where o: "open_private_file True True ?t False d = (d1, Some f)"
    by (cases "dk_names d ?t") (auto simp: open_private_file_def)
  note v = open_view [OF assms(1) o]
  define d3 where "d3 = fst (durable_close (ac_flush c) (ac_sync c) (ac_close c) f (sys_append f (take (ac_written c) data) d1))"
  have v3: "view d3 = (view d)(?t \<mapsto> take (ac_written c) data)" using v view_steps(1) [of ?t f d1]
    by (simp add: d3_def durable_close_def durable_flush_def view_syncs)
  let ?w = "(data = [] \<or> length data \<le> ac_written c) \<and> ac_flush c \<and> ac_sync c \<and> ac_close c"
  show ?thesis
  proof (cases "?w \<and> ac_rename c")
    case False
    then have "List.last ds = sys_remove ?t d3" "\<not> ok" using assms(3-5) o True
      by (auto simp: write_atomic_steps_def atomic_replace_def durable_close_def durable_flush_def d3_def Let_def split: if_splits)
    then show ?thesis using True False v3
      by (auto simp: write_atomic_def atomic_of_def tmp_of_def [symmetric] Let_def view_remove)
  next
    case w: True
    have t: "take (ac_written c) data = data" using w by auto
    define d5 where "d5 = fst (fsync_offline_dir (ac_dir_open c) (ac_dir_sync c) (ac_dir_close c) (sys_rename ?t path d3))"
    have v5: "view d5 = (view d)(?t := None, path \<mapsto> data)" using assms(2) v3 t
      by (auto simp: d5_def fsync_offline_dir_def view_syncs view_rename fun_eq_iff)
    have "List.last ds = (if ok then d5 else sys_remove ?t d5)" "ok \<longleftrightarrow> ac_dir_open c \<and> ac_dir_sync c \<and> ac_dir_close c"
      using assms(3-5) o True w by (auto simp: write_atomic_steps_def atomic_replace_def durable_close_def durable_flush_def
          fsync_offline_dir_def d3_def d5_def Let_def split: if_splits)
    then show ?thesis using True w v5 assms(2)
      by (auto simp: write_atomic_def atomic_of_def tmp_of_def [symmetric] Let_def view_remove fun_eq_iff)
  qed
qed (use assms(5) in \<open>auto simp: write_atomic_steps_def open_private_file_def write_atomic_def atomic_of_def Let_def\<close>)

lemma append_view:
  assumes "disk_wf d" "ap_file c" "append_steps c p body d = (ds, ok)" "ap_fd c"
  shows "view (List.last ds) = (view d)(p \<mapsto> (if (\<not> length body + 1 \<le> ap_written c \<or> \<not> (ap_flush c \<and> ap_sync c)) \<and> ap_trunc c
      then old_bytes p d else old_bytes p d @ take (ap_written c) (body @ [LF])))"
    "ok \<longleftrightarrow> length body + 1 \<le> ap_written c \<and> ap_flush c \<and> ap_sync c \<and> ap_close c \<and>
      (view d p = None \<longrightarrow> ap_dir_open c \<and> ap_dir_sync c \<and> ap_dir_close c)"
proof -
  obtain d1 f where o: "open_private_file True True p True d = (d1, Some f)"
    by (cases "dk_names d p") (auto simp: open_private_file_def)
  note v = open_view [OF assms(1) o]
  define d2 where "d2 = sys_append f (take (ap_written c) (body @ [LF])) d1"
  have l: "linked p f d2" "dk_data d2 f = old_bytes p d @ take (ap_written c) (body @ [LF])"
    using v by (auto simp: d2_def linked_steps) (simp add: sys_append_def)
  have v2: "view d2 = (view d)(p \<mapsto> old_bytes p d @ take (ap_written c) (body @ [LF]))" using v view_steps(1) [of p f d1] by (simp add: d2_def)
  let ?torn = "\<not> length body + 1 \<le> ap_written c \<or> \<not> (ap_flush c \<and> ap_sync c)"
  have n: "view d p = None \<longleftrightarrow> dk_names d p = None" by (simp add: view_def)
  show "ok \<longleftrightarrow> length body + 1 \<le> ap_written c \<and> ap_flush c \<and> ap_sync c \<and> ap_close c \<and>
      (view d p = None \<longrightarrow> ap_dir_open c \<and> ap_dir_sync c \<and> ap_dir_close c)"
    using assms(2-4) o unfolding n by (auto simp: append_steps_def old_start durable_flush_def fsync_offline_dir_def Let_def split: if_splits)
  have "view (List.last ds) = (if ?torn \<and> ap_trunc c then view (sys_truncate f (length (old_bytes p d)) d2) else view d2)"
  proof (cases ?torn)
    case True
    then have "List.last ds = fst (durable_flush (ap_flush2 c) (ap_sync2 c) f (truncate_file (ap_trunc c) f (length (old_bytes p d)) d2))"
      using assms(2-4) o by (auto simp: append_steps_def old_start(1) durable_flush_def d2_def Let_def split: if_splits)
    with True show ?thesis by (simp add: durable_flush_def truncate_file_def view_syncs)
  next
    case False
    then have "List.last ds = sys_fsync f d2 \<or> List.last ds = sys_fsync_dir (sys_fsync f d2)"
      using assms(2-4) o by (auto simp: append_steps_def old_start(2) durable_flush_def fsync_offline_dir_def d2_def Let_def split: if_splits)
    with False show ?thesis by (auto simp: view_syncs)
  qed
  then show "view (List.last ds) = (view d)(p \<mapsto> (if ?torn \<and> ap_trunc c
      then old_bytes p d else old_bytes p d @ take (ap_written c) (body @ [LF])))"
    using v2 view_steps(2) [OF l(1)] l(2) by (auto split: if_splits)
qed

lemma tmp_neq: "tmp_of (offline_spill_path ctx) \<noteq> offline_spill_path ctx"
  unfolding tmp_of_def by (rule tmp_path_neq [OF spill_path_length])

text \<open>The three ways through \<open>offline_spill\<close>: nothing is done, an append, a rewrite and then an append.\<close>

lemma spill_shape:
  assumes "offline_spill_steps mkdir_ok read_ok ac ap body ctx d = (ds, ok)" "path = offline_spill_path ctx"
    "old = old_bytes path d" "trimmed = drop (cap_drop old (length body)) old"
  obtains (none) "ds = [d]" "\<not> ok"
  | (plain) "append_steps ap path body d = (ds, ok)"
  | (rewrite_failed) "write_atomic_steps ac path trimmed d = (ds, False)" "\<not> ok"
  | (rewritten) as es where "write_atomic_steps ac path trimmed d = (as, True)" "append_steps ap path body (List.last as) = (es, ok)" "ds = as @ es"
proof -
  define skip where "skip \<longleftrightarrow> offline_path ctx = [] \<or> body = [] \<or> \<not> mkdir_ok \<or> PH_OFFLINE_MAX_BYTES \<le> length body"
  define fits where "fits \<longleftrightarrow> view d path = None \<or> length old + length body + 1 \<le> PH_OFFLINE_MAX_BYTES"
  have u: "(ds, ok) = (if skip then ([d], False) else if fits then append_steps ap path body d else if \<not> read_ok then ([d], False)
      else let (as, r) = write_atomic_steps ac path trimmed d
           in if \<not> r then (as, False) else let (es, r) = append_steps ap path body (List.last as) in (as @ es, r))"
    unfolding assms(1) [symmetric] offline_spill_steps_def Let_def skip_def fits_def assms(2-4) old_bytes_def
    by (cases "view d (offline_spill_path ctx)") simp_all
  consider "skip \<or> \<not> fits \<and> \<not> read_ok" | "\<not> skip" "fits" | "\<not> skip" "\<not> fits" "read_ok" by blast
  then show thesis
  proof cases
    case 1
    then show thesis using u by (intro none) (auto split: if_splits)
  next
    case 2
    then show thesis using u by (intro plain) simp
  next
    case 3
    obtain as r where w: "write_atomic_steps ac path trimmed d = (as, r)" by fastforce
    obtain es q where a: "append_steps ap path body (List.last as) = (es, q)" by fastforce
    show thesis
    proof (cases r)
      case True
      with u 3 w a have "ds = as @ es" "ok = q" by simp_all
      with True w a show thesis by (intro rewritten [of as es]) simp_all
    next
      case False
      with u 3 w have "ds = as" "\<not> ok" by simp_all
      with False w show thesis by (intro rewrite_failed) simp_all
    qed
  qed
qed

lemma append_nonempty: "append_steps c p body d = (ds, ok) \<Longrightarrow> ds \<noteq> []"
  by (auto simp: append_steps_def Let_def split: prod.splits option.splits if_splits)

lemma spill_crash:
  assumes "settled d" "disk_wf d" "path = offline_spill_path ctx" "old = old_bytes path d" "trimmed = drop (cap_drop old (length body)) old"
    "offline_spill_steps mkdir_ok read_ok ac ap body ctx d = (ds, ok)"
  shows "s \<in> set ds \<Longrightarrow> n \<noteq> tmp_of path \<Longrightarrow> crash_leaves s n x \<Longrightarrow>
      x = view d n \<or> n = path \<and> (\<exists>y. x = Some (old @ y) \<or> x = Some (trimmed @ y))"
    "ok \<Longrightarrow> \<exists>kept \<in> {old, trimmed}. settled (List.last ds) \<and> view (List.last ds) path = Some (kept @ body @ [LF])"
proof -
  have t: "tmp_of path \<noteq> path" using assms(3) tmp_neq by simp
  show "x = view d n \<or> n = path \<and> (\<exists>y. x = Some (old @ y) \<or> x = Some (trimmed @ y))"
    if m: "s \<in> set ds" "n \<noteq> tmp_of path" "crash_leaves s n x"
  proof (cases rule: spill_shape [OF assms(6,3-5)])
    case 1
    then show ?thesis using m settled_crash [OF assms(1)] by simp
  next
    case 2
    from append_crash(1) [OF assms(1,2) this] m(1,3) assms(4) show ?thesis by blast
  next
    case 3
    from atomic_crash(1) [OF assms(1,2) 3(1) t m] show ?thesis by auto
  next
    case (4 as es)
    note w = atomic_crash [OF assms(1,2) 4(1) t]
    have l: "settled (List.last as)" "disk_wf (List.last as)" "view (List.last as) = (view d)(tmp_of path := None, path \<mapsto> trimmed)" using w(2) by simp_all
    have o: "old_bytes path (List.last as) = trimmed" by (simp add: old_bytes_def l(3))
    show ?thesis
    proof (cases "s \<in> set as")
      case True
      from w(1) [OF this m(2,3)] show ?thesis by auto
    next
      case False
      then have "s \<in> set es" using 4(3) m(1) by simp
      then have "x = view (List.last as) n \<or> n = path \<and> (\<exists>y. x = Some (trimmed @ y))"
        using append_crash(1) [OF l(1,2) 4(2)] m(3) unfolding o by blast
      then show ?thesis using m(2) by (auto simp: l(3) split: if_splits)
    qed
  qed
  show "\<exists>kept \<in> {old, trimmed}. settled (List.last ds) \<and> view (List.last ds) path = Some (kept @ body @ [LF])" if ok
  proof (cases rule: spill_shape [OF assms(6,3-5)])
    case 2
    from append_crash(2) [OF assms(1,2) this \<open>ok\<close>] assms(4) show ?thesis by simp
  next
    case (4 as es)
    note w = atomic_crash(2) [OF assms(1,2) 4(1) t, simplified]
    have o: "old_bytes path (List.last as) = trimmed" by (simp add: old_bytes_def w)
    from append_crash(2) [OF _ _ 4(2) \<open>ok\<close>] w append_nonempty [OF 4(2)] 4(3) o show ?thesis by simp
  qed (use that in blast)+
qed

text \<open>The steps are those of \<open>offline_spill\<close>: what it computes is what the processes see at the end.\<close>

lemma spill_after_cap:
  assumes "disk_wf e" "ap_file ap" "append_steps ap path body e = (es, ok)" "path = offline_spill_path ctx"
    "offline_path ctx \<noteq> []" "body \<noteq> []" "mkdir_ok"
    "offline_enforce_cap D (spill_of mkdir_ok read_ok ac ap trimmed) path (length body) ctx fs = (c', view e, True)"
  shows "snd (offline_spill D (spill_of mkdir_ok read_ok ac ap trimmed) body ctx fs) = (view (List.last es), ok)"
proof (cases "ap_fd ap")
  case True
  note v = append_view [OF assms(1-3) True]
  have o: "old_bytes path e = (case view e path of None \<Rightarrow> [] | Some c \<Rightarrow> c)" by (simp add: old_bytes_def)
  have n: "file_size path (view e) < 0 \<longleftrightarrow> view e path = None" by (simp add: file_size_def split: option.split)
  have t: "take (if file_size path (view e) < 0 then 0 else nat (file_size path (view e))) (old_bytes path e) = old_bytes path e"
    by (simp add: old_start(1))
  define io where "io = spill_of mkdir_ok read_ok ac ap trimmed"
  have io: "sp_mkdir io" "sp_open io" "sp_written io = ap_written ap" "sp_flush io \<longleftrightarrow> ap_flush ap \<and> ap_sync ap" "sp_trunc io = ap_trunc ap"
    "sp_close io = ap_close ap" "sp_dirsync io \<longleftrightarrow> ap_dir_open ap \<and> ap_dir_sync ap \<and> ap_dir_close ap"
    using assms(7) True by (simp_all add: io_def spill_of_def)
  let ?torn = "\<not> length body + 1 \<le> ap_written ap \<or> \<not> (ap_flush ap \<and> ap_sync ap)"
  have "snd (offline_spill D io body ctx fs) = ((view e)(path \<mapsto> (if ?torn \<and> ap_trunc ap
        then take (if file_size path (view e) < 0 then 0 else nat (file_size path (view e))) (old_bytes path e)
        else old_bytes path e @ take (ap_written ap) (body @ [LF]))),
      (\<not> ?torn \<and> ap_close ap) \<and> (file_size path (view e) < 0 \<longrightarrow> ap_dir_open ap \<and> ap_dir_sync ap \<and> ap_dir_close ap))"
    using assms(5,6) assms(8) [folded io_def, unfolded assms(4)]
    by (simp only: offline_spill_def Let_def io o [unfolded assms(4)] assms(4) prod.case if_False simp_thms snd_conv)
  note this [unfolded t, unfolded n io_def]
  moreover have "(\<not> ?torn \<and> ap_close ap) \<and> (view e path = None \<longrightarrow> ap_dir_open ap \<and> ap_dir_sync ap \<and> ap_dir_close ap) \<longleftrightarrow> ok"
    unfolding v(2) by blast
  ultimately show ?thesis unfolding v(1) by (simp only:)
next
  case False
  then have "es = [e, e]" "\<not> ok" using assms(3) by (simp_all add: append_steps_def open_private_file_def Let_def)
  then show ?thesis using assms(4-8) False by (auto simp: offline_spill_def spill_of_def Let_def)
qed

lemma spill_view:
  assumes "settled d" "disk_wf d" "path = offline_spill_path ctx" "old = old_bytes path d" "trimmed = drop (cap_drop old (length body)) old"
    "offline_spill_steps mkdir_ok read_ok ac ap body ctx d = (ds, ok)" "ac_file ac" "ac_remove ac" "ap_file ap"
  shows "snd (offline_spill D (spill_of mkdir_ok read_ok ac ap trimmed) body ctx (view d)) = (view (List.last ds), ok)"
proof -
  define io where "io = spill_of mkdir_ok read_ok ac ap trimmed"
  have io: "sp_mkdir io = mkdir_ok" "cap_open io = read_ok" "cap_mem io" "cap_read io" "cap_atomic io = atomic_of ac trimmed"
    by (simp_all add: io_def spill_of_def)
  have t: "tmp_of path \<noteq> path" using assms(3) tmp_neq by simp
  define skip where "skip \<longleftrightarrow> offline_path ctx = [] \<or> body = [] \<or> \<not> mkdir_ok \<or> PH_OFFLINE_MAX_BYTES \<le> length body"
  have o: "view d path = Some old" if "view d path \<noteq> None" using that assms(4) by (auto simp: old_bytes_def)
  consider (skip) "skip" | (fits) "\<not> skip" "view d path = None \<or> length old + length body + 1 \<le> PH_OFFLINE_MAX_BYTES"
    | (unread) "\<not> skip" "view d path \<noteq> None" "\<not> length old + length body + 1 \<le> PH_OFFLINE_MAX_BYTES" "\<not> read_ok"
    | (full) "\<not> skip" "view d path \<noteq> None" "\<not> length old + length body + 1 \<le> PH_OFFLINE_MAX_BYTES" "read_ok" by blast
  then have "snd (offline_spill D io body ctx (view d)) = (view (List.last ds), ok)"
  proof cases
    case skip
    then have "ds = [d]" "\<not> ok" using assms(6) by (auto simp: offline_spill_steps_def skip_def Let_def)
    then show ?thesis using skip by (auto simp: offline_spill_def offline_enforce_cap_def skip_def io Let_def)
  next
    case fits
    then have "append_steps ap path body d = (ds, ok)" using assms(3,6) o
      by (cases "view d path") (auto simp: offline_spill_steps_def skip_def Let_def)
    moreover have "offline_enforce_cap D io path (length body) ctx (view d) = (ctx, view d, True)" using fits o
      by (cases "view d path") (auto simp: offline_enforce_cap_def skip_def)
    ultimately show ?thesis using fits(1) assms(2,3,9) unfolding io_def skip_def by (intro spill_after_cap) auto
  next
    case unread
    then have "ds = [d]" "\<not> ok" using assms(3,6) o [OF unread(2)] by (auto simp: offline_spill_steps_def skip_def Let_def)
    then show ?thesis using unread o [OF unread(2)] assms(3) by (auto simp: offline_spill_def offline_enforce_cap_def skip_def io Let_def)
  next
    case full
    obtain as r where w: "write_atomic_steps ac path trimmed d = (as, r)" by fastforce
    note c = write_atomic_view [OF assms(2) t assms(7,8) w]
    show ?thesis
    proof (cases r)
      case True
      obtain es q where a: "append_steps ap path body (List.last as) = (es, q)" by fastforce
      have l: "disk_wf (List.last as)" using atomic_crash(2) [OF assms(1,2) w t True] by simp
      have e: "ds = as @ es" "ok = q" using assms(3,5,6) o [OF full(2)] full w a True by (auto simp: offline_spill_steps_def skip_def Let_def)
      obtain c' where "offline_enforce_cap D io path (length body) ctx (view d) = (c', view (List.last as), True)"
        using o [OF full(2)] full assms(5) c True by (auto simp: offline_enforce_cap_def skip_def io Let_def)
      with l a full(1) assms(3,9) have "snd (offline_spill D io body ctx (view d)) = (view (List.last es), q)"
        unfolding io_def skip_def by (intro spill_after_cap) auto
      then show ?thesis using e append_nonempty [OF a] by simp
    next
      case False
      have e: "ds = as" "\<not> ok" using assms(3,5,6) o [OF full(2)] full w False by (auto simp: offline_spill_steps_def skip_def Let_def)
      have "offline_enforce_cap D io path (length body) ctx (view d) = (ctx, view (List.last as), False)"
        using o [OF full(2)] full assms(5) c False by (auto simp: offline_enforce_cap_def skip_def io Let_def)
      then show ?thesis using e full(1) assms(3) by (simp add: offline_spill_def skip_def io Let_def)
    qed
  qed
  then show ?thesis by (simp only: io_def)
qed

section \<open>Properties\<close>

definition sample_disk :: disk where
  "sample_disk = \<lparr>dk_names = \<lambda>n. None, dk_data = \<lambda>i. [], dk_next = 0, dk_entry = \<lambda>n e. e = None, dk_store = \<lambda>i b. b = []\<rparr>"

definition sample_atomic :: atomic_calls where
  "sample_atomic = \<lparr>ac_fd = True, ac_file = True, ac_written = 9, ac_flush = True, ac_sync = True, ac_close = True, ac_rename = True,
     ac_dir_open = True, ac_dir_sync = True, ac_dir_close = True, ac_remove = True\<rparr>"

definition sample_append :: append_calls where
  "sample_append = \<lparr>ap_fd = True, ap_file = True, ap_written = 3, ap_flush = True, ap_sync = True, ap_trunc = True, ap_flush2 = True,
     ap_sync2 = True, ap_close = True, ap_dir_open = True, ap_dir_sync = True, ap_dir_close = True\<rparr>"

lemma sample_disk_ok: "settled sample_disk" "disk_wf sample_disk"
  by (simp_all add: settled_def disk_wf_def sample_disk_def)

lemma sample_spill: "offline_path ctx = ''/d'' \<Longrightarrow>
    \<exists>ds. offline_spill_steps True True sample_atomic sample_append ''{}'' ctx sample_disk = (ds, True)"
proof -
  assume p: "offline_path ctx = ''/d''"
  obtain ds ok where a: "append_steps sample_append (offline_spill_path ctx) ''{}'' sample_disk = (ds, ok)" by fastforce
  have ok using append_view(2) [OF sample_disk_ok(2) _ a] by (simp add: sample_append_def)
  moreover have "view sample_disk (offline_spill_path ctx) = None" by (simp add: view_def sample_disk_def)
  ultimately show ?thesis using p a by (auto simp: offline_spill_steps_def caps Let_def)
qed



end
