(* ===== verification/Ph_Crash_Windows.thy ===== *)
theory Ph_Crash_Windows
  imports Ph_Crash
begin

text \<open>
  The Windows section of \<^verbatim>\<open>src/ph_crash.c\<close>: the unhandled-exception filter, arming and disarming, with
  what the system answers as an argument. What the next run relies on is stated once for a crash
  handler, as a locale, and holds of the POSIX handler and of this filter.
\<close>

section \<open>The filter\<close>

text \<open>
  \<open>wos_ip\<close> is the instruction pointer of the context record, when there is one, \<open>wos_params\<close> the
  exception's information words, \<open>wos_wrote\<close> the count that \<open>WriteFile\<close> reports, if it succeeds.
\<close>

record win_os =
  wos_backtrace :: "u64 list"
  wos_ip :: "u64 option"
  wos_code :: u32
  wos_params :: "u64 list"
  wos_module :: "u64 \<Rightarrow> (u64 \<times> string option) option"
  wos_create :: bool
  wos_wrote :: "nat option"
  wos_flush :: bool
  wos_move :: bool

datatype filter_fn = Win_Filter | Host_Filter nat

text \<open>The file-scope variables, and the process's top-level filter.\<close>

record win_state =
  g_win_path :: string
  g_win_tmp_path :: string
  g_win_installed :: bool
  g_prev_filter :: "filter_fn option"
  g_in_filter :: bool
  os_filter :: "filter_fn option"

definition filter_pcs :: "win_os \<Rightarrow> u64 list" where
  "filter_pcs os =
     take PH_CRASH_MAX_FRAMES ((case wos_ip os of Some a \<Rightarrow> [a] | None \<Rightarrow> []) @ take PH_CRASH_MAX_FRAMES (wos_backtrace os))"

definition filter_snapshot :: "win_os \<Rightarrow> ph_crash_info" where
  "filter_snapshot os =
     fill_frames (wos_module os) (filter_pcs os)
       \<lparr>ci_sig = wos_code os, ci_fault_addr = (if 2 \<le> length (wos_params os) then wos_params os ! 1 else 0), ci_module_count = 0,
        ci_modules = [], ci_frame_count = 0, ci_frame_module = [], ci_frame_off = []\<rparr>"

text \<open>Without \<open>MOVEFILE_REPLACE_EXISTING\<close> the move fails on an existing target.\<close>

definition win_publish :: "win_os \<Rightarrow> string \<Rightarrow> string \<Rightarrow> bytes \<Rightarrow> files \<Rightarrow> files" where
  "win_publish os path tmp rec fs =
     (if rec = [] \<or> \<not> wos_create os then fs
      else let fs1 = fs(tmp \<mapsto> (case wos_wrote os of Some n \<Rightarrow> take n rec | None \<Rightarrow> []));
               ok = (wos_wrote os = Some (length rec) \<and> wos_flush os)
           in if ok \<and> wos_move os \<and> fs1 path = None then fs1(path := fs1 tmp, tmp := None) else fs1)"

text \<open>The state and files after it, and the filter it chains to; a second fault chains at once.\<close>

definition win_filter :: "win_os \<Rightarrow> win_state \<Rightarrow> files \<Rightarrow> win_state \<times> files \<times> filter_fn option" where
  "win_filter os s fs =
     (if g_in_filter s then (s, fs, g_prev_filter s)
      else let s = s\<lparr>g_in_filter := True\<rparr>;
               rec = ph_crash_encode (filter_snapshot os) PH_CRASH_RECORD_MAX
           in (s, win_publish os (g_win_path s) (g_win_tmp_path s) rec fs, g_prev_filter s))"

section \<open>Arming\<close>

definition win_crash_install :: "string option \<Rightarrow> win_state \<Rightarrow> win_state \<times> int" where
  "win_crash_install dir s =
     (if \<not> dir_given dir then (s, 0)
      else if g_win_installed s then (s, 1)
      else let path = crash_path (the dir)
           in (s\<lparr>g_win_path := path, g_win_tmp_path := snprintf_trunc (PH_PATH_CAP + 40) (path @ ''.tmp''),
                 g_prev_filter := os_filter s, os_filter := Some Win_Filter, g_win_installed := True\<rparr>, 1))"

definition win_crash_uninstall :: "win_state \<Rightarrow> win_state" where
  "win_crash_uninstall s =
     (if \<not> g_win_installed s then s
      else let current = os_filter s; s = s\<lparr>os_filter := g_prev_filter s\<rparr>;
               s = (if current \<noteq> Some Win_Filter then s\<lparr>os_filter := current\<rparr> else s)
           in s\<lparr>g_prev_filter := None, g_in_filter := False, g_win_installed := False\<rparr>)"

section \<open>What the next run relies on\<close>

text \<open>
  A crash handler writes under a temporary name and publishes its record under the path of the
  record file, whole and only when there is none; \<open>publishes\<close> says that its system calls succeed for
  a record of that length.
\<close>

locale crash_handler =
  fixes record_path :: "'s \<Rightarrow> string" and tmp_path :: "'s \<Rightarrow> string" and snapshot :: "'o \<Rightarrow> ph_crash_info"
    and loader :: "'o \<Rightarrow> u64 \<Rightarrow> (u64 \<times> string option) option" and publishes :: "'o \<Rightarrow> nat \<Rightarrow> bool"
    and handled :: "'o \<Rightarrow> 's \<Rightarrow> files \<Rightarrow> files \<Rightarrow> bool"
  assumes in_tables: "loader_ok (loader os) \<Longrightarrow> crash_info_ok (snapshot os)"
    and whole: "handled os s fs fs' \<Longrightarrow> record_path s \<noteq> tmp_path s \<Longrightarrow> fs' (record_path s) = fs (record_path s) \<or>
      fs (record_path s) = None \<and> fs' (record_path s) = Some (ph_crash_encode (snapshot os) PH_CRASH_RECORD_MAX)"
    and elsewhere: "handled os s fs fs' \<Longrightarrow> f \<noteq> record_path s \<Longrightarrow> f \<noteq> tmp_path s \<Longrightarrow> fs' f = fs f"
    and published: "handled os s fs fs' \<Longrightarrow> record_path s \<noteq> tmp_path s \<Longrightarrow> fs (record_path s) = None \<Longrightarrow>
      ph_crash_encode (snapshot os) PH_CRASH_RECORD_MAX \<noteq> [] \<Longrightarrow>
      publishes os (length (ph_crash_encode (snapshot os) PH_CRASH_RECORD_MAX)) \<Longrightarrow>
      fs' (record_path s) = Some (ph_crash_encode (snapshot os) PH_CRASH_RECORD_MAX)"
begin

lemma next_run:
  assumes "handled os s fs fs'" "loader_ok (loader os)" "record_path s = crash_path dir" "record_path s \<noteq> tmp_path s" "dir \<noteq> []"
    "fs (crash_path dir) = None" "publishes os (length (ph_crash_encode (snapshot os) PH_CRASH_RECORD_MAX))"
  shows "ph_signal_crash_replay rnd t (Some dir) fs' ctx =
    (let (ctx', r) = ph__capture_exception_flags rnd t (Some (crash_exception (snapshot os))) PH_EVF_CRASH_REPLAY ctx
     in if r = PH_OK then (ctx', fs', 1) else (ctx', fs'(crash_path dir := None), 0))"
proof -
  note ok = in_tables [OF assms(2)]
  have "ph_crash_decode (take PH_CRASH_RECORD_MAX (ph_crash_encode (snapshot os) PH_CRASH_RECORD_MAX)) = Some (snapshot os)"
    using decode_encode [OF ok order_refl] encode_length by simp
  moreover have "fs' (crash_path dir) = Some (ph_crash_encode (snapshot os) PH_CRASH_RECORD_MAX)"
    using published [OF assms(1,4)] encode_nonempty [OF ok] assms(3,6,7) by simp
  ultimately show ?thesis using assms(5)
    by (simp add: ph_signal_crash_replay_def dir_given_def discard_crash_record_def Let_def split: prod.split)
qed

lemma older_record_kept: "handled os s fs fs' \<Longrightarrow> record_path s \<noteq> tmp_path s \<Longrightarrow> fs (record_path s) = Some old \<Longrightarrow> fs' (record_path s) = Some old"
  using whole [of os s fs fs'] by auto

end

definition posix_handled :: "u32 \<Rightarrow> crash_os \<Rightarrow> posix_state \<Rightarrow> files \<Rightarrow> files \<Rightarrow> bool" where
  "posix_handled sig os s fs fs' \<longleftrightarrow> (\<exists>s'. posix_handler os sig s fs = Some (s', fs'))"

definition posix_publishes :: "crash_os \<Rightarrow> nat \<Rightarrow> bool" where
  "posix_publishes os n \<longleftrightarrow> os_open os \<and> os_fsync os \<and> os_link os \<and> writes_progress os n"

lemma posix_handled_files: "posix_handled sig os s fs fs' \<Longrightarrow>
    fs' = publish_record os (g_posix_path s) (g_posix_tmp_path s) (ph_crash_encode (handler_snapshot os sig) PH_CRASH_RECORD_MAX) fs"
  by (auto simp: posix_handled_def posix_handler_def Let_def split: if_splits)

interpretation posix_crash: crash_handler g_posix_path g_posix_tmp_path "\<lambda>os. handler_snapshot os sig" os_dladdr posix_publishes "posix_handled sig"
proof unfold_locales
  fix os :: crash_os and s :: posix_state and fs fs' :: files and f
  show "loader_ok (os_dladdr os) \<Longrightarrow> crash_info_ok (handler_snapshot os sig)" by (rule snapshot_ok)
  assume "posix_handled sig os s fs fs'"
  note h = posix_handled_files [OF this]
  show "f \<noteq> g_posix_path s \<Longrightarrow> f \<noteq> g_posix_tmp_path s \<Longrightarrow> fs' f = fs f" unfolding h by (rule publish_other)
  assume ne: "g_posix_path s \<noteq> g_posix_tmp_path s"
  show "fs' (g_posix_path s) = fs (g_posix_path s) \<or>
      fs (g_posix_path s) = None \<and> fs' (g_posix_path s) = Some (ph_crash_encode (handler_snapshot os sig) PH_CRASH_RECORD_MAX)"
    unfolding h by (rule publish_path [OF ne])
  show "fs (g_posix_path s) = None \<Longrightarrow> ph_crash_encode (handler_snapshot os sig) PH_CRASH_RECORD_MAX \<noteq> [] \<Longrightarrow>
      posix_publishes os (length (ph_crash_encode (handler_snapshot os sig) PH_CRASH_RECORD_MAX)) \<Longrightarrow>
      fs' (g_posix_path s) = Some (ph_crash_encode (handler_snapshot os sig) PH_CRASH_RECORD_MAX)"
    unfolding h by (rule publish_done [OF ne]) (auto simp: posix_publishes_def writes_progress_def)
qed

definition win_handled :: "win_os \<Rightarrow> win_state \<Rightarrow> files \<Rightarrow> files \<Rightarrow> bool" where
  "win_handled os s fs fs' \<longleftrightarrow> \<not> g_in_filter s \<and> fst (snd (win_filter os s fs)) = fs'"

definition win_publishes :: "win_os \<Rightarrow> nat \<Rightarrow> bool" where
  "win_publishes os n \<longleftrightarrow> wos_create os \<and> wos_wrote os = Some n \<and> wos_flush os \<and> wos_move os"

lemma filter_snapshot_ok:
  assumes "loader_ok (wos_module os)"
  shows "crash_info_ok (filter_snapshot os)"
proof -
  obtain ms fs where l: "fill_frames_loop (wos_module os) (filter_pcs os) [] [] = (ms, fs)" by fastforce
  have "table_ok ms fs" using fill_frames_loop_ok [OF assms, of "[]" "[]" "filter_pcs os"] l by (simp add: table_ok_def)
  then show ?thesis by (auto simp: filter_snapshot_def fill_frames_def l crash_info_ok_def table_ok_def)
qed

interpretation win_crash: crash_handler g_win_path g_win_tmp_path filter_snapshot wos_module win_publishes win_handled
  by unfold_locales (auto simp: filter_snapshot_ok win_handled_def win_filter_def win_publish_def win_publishes_def Let_def split: if_splits)

text \<open>A fault inside the filter changes no file, and every fault is passed on to the filter found at arming.\<close>

lemma filter_chains: "snd (snd (win_filter os s fs)) = g_prev_filter s" "g_in_filter s \<Longrightarrow> fst (snd (win_filter os s fs)) = fs"
  by (simp_all add: win_filter_def Let_def)

text \<open>
  Disarming puts back the host's filter: the one found at arming, or the one the host set since.
\<close>

lemma host_filter_restored:
  assumes "dir_given dir" "\<not> g_win_installed s" "win_crash_install dir s = (s1, r)" "s2 = s1\<lparr>os_filter := f\<rparr>"
  shows "os_filter (win_crash_uninstall s2) = (if f = Some Win_Filter then os_filter s else f) \<and> \<not> g_win_installed (win_crash_uninstall s2)"
  using assms by (auto simp: win_crash_install_def win_crash_uninstall_def Let_def)

text \<open>
  What the locale gives for the Windows filter: a crash whose system calls succeed reaches the next
  run, as on POSIX systems.
\<close>

lemma win_crash_reaches_next_run:
  assumes "\<not> g_in_filter s" "loader_ok (wos_module os)" "g_win_path s = crash_path dir" "g_win_path s \<noteq> g_win_tmp_path s" "dir \<noteq> []"
    "fs (crash_path dir) = None" "win_publishes os (length (ph_crash_encode (filter_snapshot os) PH_CRASH_RECORD_MAX))"
    "fs' = fst (snd (win_filter os s fs))"
  shows "ph_signal_crash_replay rnd t (Some dir) fs' ctx =
    (let (ctx', r) = ph__capture_exception_flags rnd t (Some (crash_exception (filter_snapshot os))) PH_EVF_CRASH_REPLAY ctx
     in if r = PH_OK then (ctx', fs', 1) else (ctx', fs'(crash_path dir := None), 0))"
proof -
  have "win_handled os s fs fs'" using assms(1,8) by (simp add: win_handled_def)
  from win_crash.next_run [OF this assms(2-7)] show ?thesis .
qed

end
