(* ===== verification/Ph_Platform.thy ===== *)
theory Ph_Platform
  imports Ph_Time
begin

text \<open>
  The platform layer: the clocks and the random seed of \<^verbatim>\<open>src/ph_time.c\<close>, and the timed wait, the sleep
  and the start and join of a thread of \<^verbatim>\<open>src/ph_thread.c\<close>, in the variants of each system. What the
  system answers is an argument. Locks and condition variables are those of the system: in the rest
  of the development a section under a lock is one step.
\<close>

section \<open>Clocks\<close>

record timespec =
  tv_sec :: int
  tv_nsec :: int

datatype mono_reading = Win_Ticks u64 | Mach_Ticks u64 u64 u64 | Posix_Clock timespec

definition timespec_ns :: "timespec \<Rightarrow> u64" where
  "timespec_ns ts = of_int (tv_sec ts) * 1000000000 + of_int (tv_nsec ts)"

fun ph_now_mono_ns :: "mono_reading \<Rightarrow> u64" where
  "ph_now_mono_ns (Win_Ticks t) = t * 1000000"
| "ph_now_mono_ns (Mach_Ticks ticks numer denom) =
     (let whole = ticks div denom; rest = ticks mod denom in whole * numer + (rest * numer) div denom)"
| "ph_now_mono_ns (Posix_Clock ts) = timespec_ns ts"

datatype wall_reading = Win_Filetime u32 u32 | Posix_Realtime timespec

definition EPOCH_DIFF_100NS :: u64 where "EPOCH_DIFF_100NS = 116444736000000000"

fun ph_now_wall_ns :: "wall_reading \<Rightarrow> u64" where
  "ph_now_wall_ns (Win_Filetime low high) = ((push_bit 32 (ucast high) OR ucast low) - EPOCH_DIFF_100NS) * 100"
| "ph_now_wall_ns (Posix_Realtime ts) = timespec_ns ts"

section \<open>The random seed\<close>

text \<open>
  The answers to successive reads of a random source: some bytes, an interruption, or a refusal.
  The loop runs until the eight bytes are there or the source gives up; \<open>[]\<close> is a source that has
  given up.
\<close>

datatype random_answer = Got bytes | Interrupted | Refused

fun random_fill :: "bytes \<Rightarrow> random_answer list \<Rightarrow> bytes" where
  "random_fill acc [] = acc"
| "random_fill acc (a # as) =
     (if 8 \<le> length acc then acc
      else case a of Got bs \<Rightarrow> if bs = [] then acc else random_fill (acc @ take (8 - length acc) bs) as
      | Interrupted \<Rightarrow> random_fill acc as
      | Refused \<Rightarrow> acc)"

text \<open>Linux: \<open>getrandom\<close>, then the random device when it can be opened.\<close>

definition os_random_linux :: "random_answer list \<Rightarrow> random_answer list option \<Rightarrow> u64 option" where
  "os_random_linux getrandom urandom =
     (let x = random_fill [] getrandom
      in if length x = 8 then Some (of_nat (le_val x))
      else case urandom of None \<Rightarrow> None
      | Some as \<Rightarrow> let y = random_fill [] as in if length y = 8 then Some (of_nat (le_val y)) else None)"

section \<open>Waiting\<close>

text \<open>The absolute deadline handed to \<open>pthread_cond_timedwait\<close>.\<close>

definition wait_deadline :: "timespec \<Rightarrow> int \<Rightarrow> timespec" where
  "wait_deadline now timeout_ms =
     (let add_ns = timeout_ms mod 1000 * 1000000;
          ts = now\<lparr>tv_sec := tv_sec now + timeout_ms div 1000, tv_nsec := tv_nsec now + add_ns\<rparr>
      in if 1000000000 \<le> tv_nsec ts then ts\<lparr>tv_nsec := tv_nsec ts - 1000000000, tv_sec := tv_sec ts + 1\<rparr> else ts)"

datatype wait_rc = Woken | ETIMEDOUT | Wait_Error

text \<open>\<open>wait\<close> answers for a deadline; a negative timeout waits without one and never times out.\<close>

definition cond_timedwait_posix :: "timespec \<Rightarrow> (timespec \<Rightarrow> wait_rc) \<Rightarrow> int \<Rightarrow> bool" where
  "cond_timedwait_posix now wait timeout_ms = (if timeout_ms < 0 then False else wait (wait_deadline now timeout_ms) = ETIMEDOUT)"

definition INFINITE :: u32 where "INFINITE = 0xFFFFFFFF"

definition cond_timedwait_windows :: "(u32 \<Rightarrow> bool) \<Rightarrow> int \<Rightarrow> bool" where
  "cond_timedwait_windows sleep timeout_ms = (\<not> sleep (if timeout_ms < 0 then INFINITE else of_int timeout_ms))"

text \<open>What is slept, if anything.\<close>

definition sleep_posix :: "int \<Rightarrow> timespec option" where
  "sleep_posix ms = (if ms \<le> 0 then None else Some \<lparr>tv_sec = ms div 1000, tv_nsec = ms mod 1000 * 1000000\<rparr>)"

section \<open>Threads\<close>

text \<open>
  Threads and the heap boxes that carry a function and its argument to the trampoline. A state has
  the boxes allocated and not yet freed, the created threads that have not entered the trampoline
  (with their box), the calls made by trampolines that have returned from it, and the handles.
\<close>

type_synonym callback = "string \<times> nat"

record threads =
  boxes :: "nat \<Rightarrow> callback option"
  fresh :: nat
  waiting :: "nat list"
  ran :: "callback list"

record ph_thread =
  t_started :: bool
  t_id :: nat

text \<open>\<open>mem\<close> and \<open>created\<close>: whether the allocation and \<open>pthread_create\<close> succeed.\<close>

definition ph_thread_start :: "bool \<Rightarrow> nat option \<Rightarrow> callback \<Rightarrow> ph_thread \<Rightarrow> threads \<Rightarrow> ph_thread \<times> threads \<times> int" where
  "ph_thread_start mem created fn_arg t s =
     (if \<not> mem then (t, s, -1)
      else let box = fresh s; s = s\<lparr>boxes := (boxes s)(box \<mapsto> fn_arg), fresh := Suc box\<rparr>
           in case created of
               None \<Rightarrow> (t\<lparr>t_started := False\<rparr>, s\<lparr>boxes := (boxes s)(box := None)\<rparr>, -1)
             | Some ident \<Rightarrow> (t\<lparr>t_started := True, t_id := ident\<rparr>, s\<lparr>waiting := waiting s @ [box]\<rparr>, 0))"

text \<open>The new thread copies the two fields out, frees the box and calls the function.\<close>

definition ph_thread_trampoline :: "nat \<Rightarrow> threads \<Rightarrow> threads option" where
  "ph_thread_trampoline box s =
     (case boxes s box of None \<Rightarrow> None
      | Some fn_arg \<Rightarrow> Some (s\<lparr>boxes := (boxes s)(box := None), waiting := removeAll box (waiting s), ran := ran s @ [fn_arg]\<rparr>))"

definition ph_thread_join :: "ph_thread \<Rightarrow> ph_thread" where
  "ph_thread_join t = (if \<not> t_started t then t else t\<lparr>t_started := False\<rparr>)"

definition ph_thread_is_current :: "nat \<Rightarrow> ph_thread \<Rightarrow> bool" where
  "ph_thread_is_current self t \<longleftrightarrow> t_started t \<and> t_id t = self"

section \<open>Facts\<close>

text \<open>
  On a Mac the conversion of ticks is the exact quotient as long as the result fits, although the
  product of the ticks with the numerator may not.
\<close>

lemma split_quotient:
  assumes "0 < d"
  shows "t div d * n + t mod d * n div d = t * n div (d :: nat)"
proof -
  have "t * n = (t div d * d + t mod d) * n" by simp
  also have "\<dots> = t mod d * n + t div d * n * d" by (simp only: distrib_right mult.assoc mult.commute [of d] add.commute)
  finally show ?thesis using div_mult_self1 [of d "t mod d * n" "t div d * n"] assms by simp
qed

lemma mach_ticks_exact:
  assumes "0 < unat denom" "unat numer < 2 ^ 32" "unat denom < 2 ^ 32" "unat ticks * unat numer div unat denom < 2 ^ 64"
  shows "unat (ph_now_mono_ns (Mach_Ticks ticks numer denom)) = unat ticks * unat numer div unat denom"
proof -
  have "unat (ticks mod denom) < unat denom" using assms(1) by (simp add: unat_mod)
  from less_trans [OF this assms(3)] have r: "unat (ticks mod denom) < 2 ^ 32" .
  have "unat (ticks mod denom) * unat numer < 2 ^ 32 * 2 ^ 32" using mult_strict_mono [OF r assms(2)] by simp
  then have m: "unat ((ticks mod denom) * numer) = unat (ticks mod denom) * unat numer" by (intro unat_mult_lt) simp
  define a b where "a = ticks div denom * numer" and "b = (ticks mod denom * numer) div denom"
  have q: "unat (ticks div denom) * unat numer + unat b = unat ticks * unat numer div unat denom"
    unfolding b_def unat_div m unat_mod by (rule split_quotient [OF assms(1)])
  with assms(4) have "unat (ticks div denom) * unat numer < 2 ^ 64" by linarith
  then have "unat a = unat (ticks div denom) * unat numer" unfolding a_def by (intro unat_mult_lt) simp
  with q have s: "unat a + unat b = unat ticks * unat numer div unat denom" by simp
  with assms(4) have "unat (a + b) = unat a + unat b" by (intro unat_add_lt) simp
  then show ?thesis using s by (simp only: ph_now_mono_ns.simps Let_def a_def b_def)
qed

text \<open>The deadline is normalised and exactly the timeout after now.\<close>

lemma wait_deadline_exact:
  assumes "0 \<le> timeout_ms" "0 \<le> tv_nsec now" "tv_nsec now < 1000000000" "ts = wait_deadline now timeout_ms"
  shows "0 \<le> tv_nsec ts" "tv_nsec ts < 1000000000"
    "tv_sec ts * 1000000000 + tv_nsec ts = tv_sec now * 1000000000 + tv_nsec now + timeout_ms * 1000000"
proof -
  have t: "timeout_ms = timeout_ms div 1000 * 1000 + timeout_ms mod 1000" "0 \<le> timeout_ms mod 1000" "timeout_ms mod 1000 < 1000" by simp_all
  define a where "a = timeout_ms mod 1000 * 1000000"
  have a: "0 \<le> a" "a < 1000000000" using t(2,3) unfolding a_def by linarith+
  have e: "timeout_ms * 1000000 = timeout_ms div 1000 * 1000000000 + a" unfolding a_def using t(1) by linarith
  show "0 \<le> tv_nsec ts" "tv_nsec ts < 1000000000" using assms(2,3) a unfolding assms(4) wait_deadline_def Let_def a_def [symmetric] by simp_all
  show "tv_sec ts * 1000000000 + tv_nsec ts = tv_sec now * 1000000000 + tv_nsec now + timeout_ms * 1000000"
    using e unfolding assms(4) wait_deadline_def Let_def a_def [symmetric] by simp
qed

lemma sleep_exact: "sleep_posix ms = Some ts \<Longrightarrow> 0 \<le> tv_nsec ts \<and> tv_nsec ts < 1000000000 \<and> tv_sec ts * 1000 + tv_nsec ts div 1000000 = ms"
  by (auto simp: sleep_posix_def split: if_splits)

text \<open>The seed takes exactly eight bytes of a source, in order, however they come.\<close>

lemma fill_length: "length acc \<le> 8 \<Longrightarrow> length (random_fill acc as) \<le> 8"
  by (induction as arbitrary: acc) (auto split: random_answer.split)

lemma fill_whole: "length acc + sum_list (map length bss) = 8 \<Longrightarrow> [] \<notin> set bss \<Longrightarrow>
    random_fill acc (map Got bss) = acc @ concat bss"
proof (induction bss arbitrary: acc)
  case (Cons bs bss)
  show ?case
  proof (cases "8 \<le> length acc")
    case True
    with Cons.prems show ?thesis by (cases bs) auto
  next
    case False
    with Cons.IH [of "acc @ bs"] Cons.prems show ?thesis by auto
  qed
qed simp

text \<open>
  Every box is either waiting for its thread or free: starting and running threads in any order, a
  box is freed exactly once and each started function is called once with its argument.
\<close>

definition threads_ok :: "threads \<Rightarrow> bool" where
  "threads_ok s \<longleftrightarrow> distinct (waiting s) \<and> (\<forall>b. boxes s b \<noteq> None \<longleftrightarrow> b \<in> set (waiting s)) \<and> (\<forall>b \<in> set (waiting s). b < fresh s)"

lemma start_ok:
  assumes "threads_ok s" "ph_thread_start mem created fa t s = (t', s', r)"
  shows "threads_ok s' \<and> ran s' = ran s \<and>
    (if r = 0 then waiting s' = waiting s @ [fresh s] \<and> boxes s' (fresh s) = Some fa \<and> t_started t' else waiting s' = waiting s \<and> boxes s' = boxes s)"
proof -
  have f: "fresh s \<notin> set (waiting s)" using assms(1) by (auto simp: threads_ok_def)
  then have n: "boxes s (fresh s) = None" using assms(1) unfolding threads_ok_def by blast
  then have u: "(boxes s)(fresh s := None) = boxes s" by (simp add: fun_upd_idem)
  have lt: "\<forall>b \<in> set (waiting s). b < Suc (fresh s)" using assms(1) by (auto simp: threads_ok_def less_SucI)
  show ?thesis using assms f u lt by (auto simp: ph_thread_start_def threads_ok_def Let_def split: if_splits option.splits)
qed

lemma trampoline_ok:
  assumes "threads_ok s" "b \<in> set (waiting s)"
  shows "\<exists>fa s'. boxes s b = Some fa \<and> ph_thread_trampoline b s = Some s' \<and> threads_ok s' \<and> ran s' = ran s @ [fa] \<and> boxes s' b = None"
proof -
  obtain fa where b: "boxes s b = Some fa" using assms unfolding threads_ok_def by blast
  let ?s = "s\<lparr>boxes := (boxes s)(b := None), waiting := removeAll b (waiting s), ran := ran s @ [fa]\<rparr>"
  have "threads_ok ?s" using assms(1) by (simp add: threads_ok_def distinct_removeAll)
  moreover have "ph_thread_trampoline b s = Some ?s" by (simp add: ph_thread_trampoline_def b)
  ultimately show ?thesis using b by auto
qed

end
