(* ===== verification/Ph_Gzip.thy ===== *)
theory Ph_Gzip
  imports Libc
begin

text \<open>
  The gzip framing of \<^verbatim>\<open>src/ph_gzip.c\<close>. The raw DEFLATE encoder is the vendored
  \<^verbatim>\<open>third_party/sdefl\<close>; it is a parameter (\<open>deflate_lib\<close>). \<open>unsigned long\<close> is 64 bits.
  A result of \<open>None\<close> is the return value -1.
\<close>

section \<open>Model\<close>

record deflate_lib =
  sdefl_bound :: "nat \<Rightarrow> int"
  sdeflate :: "bytes \<Rightarrow> bytes option"

definition crc_step :: "u64 \<Rightarrow> u64" where
  "crc_step c = (if c AND 1 \<noteq> 0 then 0xEDB88320 XOR drop_bit 1 c else drop_bit 1 c)"

definition crc_table :: "u64 list" where
  "crc_table = map (\<lambda>i. (crc_step ^^ 8) (of_nat i)) [0..<256]"

definition crc_byte :: "u64 \<Rightarrow> char \<Rightarrow> u64" where
  "crc_byte crc b = crc_table ! unat ((crc XOR of_nat (byte_val b)) AND 0xFF) XOR drop_bit 8 crc"

definition crc32_ieee :: "bytes \<Rightarrow> u64" where
  "crc32_ieee data = (foldl crc_byte 0xFFFFFFFF data XOR 0xFFFFFFFF) AND 0xFFFFFFFF"

definition gzip_header :: bytes where
  "gzip_header = [byte_of 0x1F, byte_of 0x8B, byte_of 8, byte_of 0, byte_of 0, byte_of 0, byte_of 0,
     byte_of 0, byte_of 0, byte_of 0xFF]"

text \<open>Four bytes of a value, least significant first.\<close>

definition le32 :: "u64 \<Rightarrow> bytes" where
  "le32 v = [byte_of (unat (v AND 0xFF)), byte_of (unat (drop_bit 8 v AND 0xFF)),
     byte_of (unat (drop_bit 16 v AND 0xFF)), byte_of (unat (drop_bit 24 v AND 0xFF))]"

text \<open>\<open>mem_buf\<close> and \<open>mem_state\<close> say whether the two allocations succeed.\<close>

definition ph_gzip :: "deflate_lib \<Rightarrow> bool \<Rightarrow> bool \<Rightarrow> bytes option \<Rightarrow> bytes option" where
  "ph_gzip Z mem_buf mem_state inp =
     (case inp of None \<Rightarrow> None
      | Some data \<Rightarrow>
          if 0x7FFFFFFF < length data then None
          else if sdefl_bound Z (length data) < 0 then None
          else if \<not> mem_buf then None
          else if \<not> mem_state then None
          else case sdeflate Z data of
              None \<Rightarrow> None
            | Some d \<Rightarrow> Some (gzip_header @ d @ le32 (crc32_ieee data) @
                              le32 (of_nat (length data) AND 0xFFFFFFFF)))"

section \<open>Reference definitions\<close>

text \<open>CRC-32 bit by bit: eight shifts for each byte, no table.\<close>

definition crc_byte_ref :: "u64 \<Rightarrow> char \<Rightarrow> u64" where
  "crc_byte_ref crc b = (crc_step ^^ 8) (crc XOR of_nat (byte_val b))"

definition crc32_ref :: "bytes \<Rightarrow> u64" where
  "crc32_ref data = foldl crc_byte_ref 0xFFFFFFFF data XOR 0xFFFFFFFF"

text \<open>A reader of RFC 1952 members without optional fields: the payload between header and
  trailer, inflated, with both trailer fields checked.\<close>

definition gunzip :: "(bytes \<Rightarrow> bytes option) \<Rightarrow> bytes \<Rightarrow> bytes option" where
  "gunzip inflate z =
     (if length z < 18 \<or> take 4 z \<noteq> take 4 gzip_header then None
      else case inflate (take (length z - 18) (drop 10 z)) of
          None \<Rightarrow> None
        | Some out \<Rightarrow>
            if le_val (take 4 (drop (length z - 8) z)) = unat (crc32_ref out) \<and>
               le_val (drop (length z - 4) z) = length out mod 2 ^ 32
            then Some out else None)"

section \<open>Facts: the table\<close>

lemma and_one_odd: "(c :: u64) AND 1 \<noteq> 0 \<longleftrightarrow> odd c"
  by (simp add: and_one_eq even_iff_mod_2_eq_zero)

lemma crc_step_odd: "crc_step c = (if odd c then 0xEDB88320 XOR drop_bit 1 c else drop_bit 1 c)"
  unfolding crc_step_def and_one_odd ..

lemma crc_step_xor: "crc_step (a XOR b) = crc_step a XOR crc_step b"
  by (auto simp: crc_step_odd even_xor_iff drop_bit_xor xor.assoc xor.left_commute)

lemma crc_steps_xor: "(crc_step ^^ n) (a XOR b) = (crc_step ^^ n) a XOR (crc_step ^^ n) b"
  by (induction n arbitrary: a b) (simp_all add: crc_step_xor funpow_swap1)

lemma crc_steps_high:
  "(\<And>k. k < n \<Longrightarrow> \<not> bit w k) \<Longrightarrow> (crc_step ^^ n) w = drop_bit n w"
proof (induction n arbitrary: w)
  case (Suc n)
  then have "\<not> bit w 0" by blast
  then have "crc_step w = drop_bit 1 w" by (simp add: crc_step_odd bit_0)
  moreover have "\<not> bit (drop_bit 1 w) k" if "k < n" for k
    using Suc.prems [of "Suc k"] that by (simp add: bit_drop_bit_eq)
  ultimately show ?case
    using Suc.IH [of "drop_bit 1 w"] by (simp add: funpow_swap1 del: funpow.simps) (simp add: funpow_swap1)
qed simp

lemma and_FF: "(x :: u64) AND 0xFF = take_bit 8 x"
  by (simp add: take_bit_eq_mask mask_eq_exp_minus_1)

lemma take_drop_xor: "(x :: u64) = take_bit n x XOR push_bit n (drop_bit n x)"
  by (rule bit_word_eqI) (auto simp: bit_xor_iff bit_take_bit_iff bit_push_bit_iff bit_drop_bit_eq)

lemma drop_bit_byte: "drop_bit 8 (of_nat (byte_val b) :: u64) = 0"
proof -
  have "unat (drop_bit 8 (of_nat (byte_val b) :: u64)) = byte_val b mod 2 ^ 64 div 2 ^ 8"
    unfolding unat_drop_bit_eq by (simp add: drop_bit_eq_div unat_of_nat)
  also have "byte_val b mod 2 ^ 64 = byte_val b" by simp
  finally have "unat (drop_bit 8 (of_nat (byte_val b) :: u64)) = 0" by simp
  then show ?thesis by (simp only: unat_eq_zero)
qed

lemma unat_take_8: "unat (take_bit 8 (x :: u64)) < 256"
proof -
  have "unat (take_bit 8 x) = unat x mod 2 ^ 8"
    unfolding unsigned_take_bit_eq by (simp add: take_bit_eq_mod)
  then show ?thesis by simp
qed

lemma crc_byte_table: "crc_byte crc b = crc_byte_ref crc b"
proof -
  define x :: u64 where "x = crc XOR of_nat (byte_val b)"
  have hi: "drop_bit 8 x = drop_bit 8 crc" unfolding x_def drop_bit_xor drop_bit_byte by simp
  have "(crc_step ^^ 8) (push_bit 8 (drop_bit 8 x)) = drop_bit 8 (push_bit 8 (drop_bit 8 x))"
    by (rule crc_steps_high) (simp add: bit_push_bit_iff)
  also have "\<dots> = drop_bit 8 x"
    by (rule bit_word_eqI) (auto simp: bit_push_bit_iff bit_drop_bit_eq dest: bit_imp_le_length)
  finally have hi8: "(crc_step ^^ 8) (push_bit 8 (drop_bit 8 x)) = drop_bit 8 crc" unfolding hi .
  have "(crc_step ^^ 8) x = (crc_step ^^ 8) (take_bit 8 x) XOR (crc_step ^^ 8) (push_bit 8 (drop_bit 8 x))"
    by (subst (1) take_drop_xor [of x 8]) (rule crc_steps_xor)
  moreover have "crc_table ! unat (take_bit 8 x) = (crc_step ^^ 8) (take_bit 8 x)"
    using unat_take_8 [of x] by (simp add: crc_table_def del: funpow.simps)
  ultimately show ?thesis
    unfolding crc_byte_def crc_byte_ref_def and_FF x_def [symmetric] hi8 by simp
qed

lemma crc_fold_table: "foldl crc_byte c data = foldl crc_byte_ref c data"
  by (induction data arbitrary: c) (simp_all add: crc_byte_table)

text \<open>The running value never leaves 32 bits, so the final mask is redundant.\<close>

definition is32 :: "u64 \<Rightarrow> bool" where
  "is32 w \<longleftrightarrow> take_bit 32 w = w"

lemma is32_xor: "is32 a \<Longrightarrow> is32 b \<Longrightarrow> is32 (a XOR b)"
  by (simp add: is32_def take_bit_xor)

lemma is32_less: "is32 w \<Longrightarrow> unat w < 2 ^ 32"
proof -
  assume "is32 w"
  then have "unat w = take_bit 32 (unat w)" by (metis is32_def unsigned_take_bit_eq)
  also have "\<dots> = unat w mod 2 ^ 32" by (simp add: take_bit_eq_mod)
  also have "\<dots> < 2 ^ 32" by simp
  finally show ?thesis .
qed

lemma less_is32: "unat w < 2 ^ 32 \<Longrightarrow> is32 w"
  unfolding is32_def
  by (rule word_unat_eq_iff [THEN iffD2])
    (metis take_bit_nat_eq_self unsigned_take_bit_eq)

lemma is32_step: "is32 w \<Longrightarrow> is32 (crc_step w)"
proof -
  assume w: "is32 w"
  have "unat (drop_bit 1 w) = unat w div 2" unfolding unat_drop_bit_eq by (simp add: drop_bit_eq_div)
  with is32_less [OF w] have "is32 (drop_bit 1 w)" by (intro less_is32) simp
  moreover have "is32 0xEDB88320" by (rule less_is32) simp
  ultimately show ?thesis by (simp add: crc_step_odd is32_xor)
qed

lemma is32_steps: "is32 w \<Longrightarrow> is32 ((crc_step ^^ n) w)"
  by (induction n arbitrary: w) (simp_all add: is32_step)

lemma is32_byte: "is32 (of_nat (byte_val b))"
  by (rule less_is32) (simp add: unat_of_nat)

lemma is32_fold: "is32 c \<Longrightarrow> is32 (foldl crc_byte_ref c data)"
  by (induction data arbitrary: c)
    (simp_all add: crc_byte_ref_def is32_steps is32_xor is32_byte del: funpow.simps)

lemma is32_crc_ref: "is32 (crc32_ref data)"
proof -
  have "is32 0xFFFFFFFF" by (rule less_is32) simp
  then show ?thesis by (simp add: crc32_ref_def is32_xor is32_fold)
qed

lemma crc32_ieee_ref: "crc32_ieee data = crc32_ref data"
proof -
  have "w AND 0xFFFFFFFF = take_bit 32 w" for w :: u64 by (simp add: take_bit_eq_mask mask_eq_exp_minus_1)
  then show ?thesis
    using is32_crc_ref [of data] by (simp add: crc32_ieee_def crc_fold_table crc32_ref_def is32_def)
qed

section \<open>Facts: the frame\<close>

lemma le32_bytes: "le32 v = le_bytes 4 (unat v)"
proof -
  have "byte_of (unat (drop_bit k v AND 0xFF)) = byte_of (unat v div 2 ^ k)" for k
  proof -
    have "unat (drop_bit k v AND 0xFF) = unat (drop_bit k v) mod 256"
      using unat_and_mask [of "drop_bit k v" 8] by (simp add: mask_eq_exp_minus_1)
    also have "unat (drop_bit k v) = unat v div 2 ^ k"
      unfolding unat_drop_bit_eq by (simp add: drop_bit_eq_div)
    finally show ?thesis by simp
  qed
  from this [of 0] this [of 8] this [of 16] this [of 24] show ?thesis
    by (simp add: le32_def le_bytes_def upt_rec)
qed

lemma le32_val: "unat v < 2 ^ 32 \<Longrightarrow> le_val (le32 v) = unat v" "length (le32 v) = 4"
  by (simp_all add: le32_bytes le_val_le_bytes)

lemma gunzip_ph_gzip:
  assumes "\<And>d. sdeflate Z data = Some d \<Longrightarrow> inflate d = Some data" "ph_gzip Z mem1 mem2 (Some data) = Some z"
  shows "gunzip inflate z = Some data" "mem1" "mem2" "length data \<le> 0x7FFFFFFF"
proof -
  obtain d where d: "sdeflate Z data = Some d" and len: "length data \<le> 0x7FFFFFFF" "mem1" "mem2"
    and z: "z = gzip_header @ d @ le32 (crc32_ieee data) @ le32 (of_nat (length data) AND 0xFFFFFFFF)"
    using assms(2) by (auto simp: ph_gzip_def split: if_splits option.splits)
  have isize: "le_val (le32 (of_nat (length data) AND 0xFFFFFFFF)) = length data"
  proof -
    have "unat (of_nat (length data) AND 0xFFFFFFFF :: u64) = length data"
      using unat_and_mask [of "of_nat (length data)" 32] len(1) by (simp add: mask_eq_exp_minus_1 unat_of_nat)
    then show ?thesis using len(1) by (simp add: le32_val)
  qed
  have crc: "le_val (le32 (crc32_ieee data)) = unat (crc32_ref data)"
    using is32_less [OF is32_crc_ref [of data]] by (simp add: crc32_ieee_ref le32_val)
  have "length gzip_header = 10" by (simp add: gzip_header_def)
  then show "gunzip inflate z = Some data"
    using assms(1) [OF d] isize crc len(1) by (simp add: gunzip_def z le32_val(2))
  show "mem1" "mem2" "length data \<le> 0x7FFFFFFF" by (fact len)+
qed

section \<open>Properties\<close>


text \<open>
  What \<open>ph_gzip\<close> produces is a gzip member that a conforming reader unpacks to the input, with
  both trailer fields matching, whenever the DEFLATE encoder's output inflates back. Nothing is
  produced for an absent input, one over 2 GiB, or when the encoder or an allocation fails.
\<close>

theorem gzip_roundtrip:
  assumes "\<And>d. sdeflate Z data = Some d \<Longrightarrow> inflate d = Some data"
  shows "(case ph_gzip Z mem1 mem2 (Some data) of
            Some z \<Rightarrow> gunzip inflate z = Some data \<and> mem1 \<and> mem2 \<and> length data \<le> 0x7FFFFFFF
          | None \<Rightarrow> 0x7FFFFFFF < length data \<or> sdefl_bound Z (length data) < 0 \<or> \<not> mem1 \<or> \<not> mem2 \<or>
                    sdeflate Z data = None)"
proof (cases "ph_gzip Z mem1 mem2 (Some data)")
  case None
  then show ?thesis by (auto simp: ph_gzip_def split: if_splits option.splits)
next
  case (Some z)
  then show ?thesis using gunzip_ph_gzip [OF assms Some] by simp
qed

theorem gzip_roundtrip_witness:
  "\<exists>z. ph_gzip \<lparr>sdefl_bound = \<lambda>n. int n + 5, sdeflate = \<lambda>d. Some (byte_of 1 # d)\<rparr> True True (Some ''{}'') = Some z \<and>
       gunzip (\<lambda>d. Some (tl d)) z = Some ''{}''"
proof -
  let ?Z = "\<lparr>sdefl_bound = \<lambda>n. int n + 5, sdeflate = \<lambda>d. Some (byte_of 1 # d)\<rparr>"
  have "sdeflate ?Z ''{}'' = Some d \<Longrightarrow> Some (tl d) = Some ''{}''" for d by auto
  from gzip_roundtrip [of ?Z "''{}''" "\<lambda>d. Some (tl d)" True True, OF this] show ?thesis
    by (simp split: option.splits)
qed

end
