(* ===== verification/Ph_Http.thy ===== *)
theory Ph_Http
  imports Ph_Gzip Ph_Native
begin

text \<open>
  The HTTP transport, from \<^verbatim>\<open>src/ph_http.c\<close>: URLs, the request text, deadlines, the scanners of
  response heads, the two chunk decoders and the reads of a response (theory \<open>Ph_Transport\<close> has the
  rest of the file). A buffer with a read position is the list of the bytes from that position on.
  \<open>size_t\<close> values are natural numbers with the source's overflow tests written out; deadlines are
  words. The socket reads are arguments: what each \<open>recv\<close> gives.
\<close>

section \<open>URLs and requests\<close>

abbreviation CR :: char where "CR \<equiv> CHR 0x0D"
abbreviation LF :: char where "LF \<equiv> CHR 0x0A"

definition CRLF :: string where "CRLF = [CR, LF]"

text \<open>Strings of \<open>ph_url\<close> are what its NUL-terminated arrays hold.\<close>

record ph_url =
  url_host :: string
  url_port :: string
  url_path :: string
  is_https :: bool

definition parse_authority :: "bool \<Rightarrow> string \<Rightarrow> ph_url option" where
  "parse_authority https p =
     (let host = takeWhile (\<lambda>c. c \<noteq> CHR ''/'' \<and> c \<noteq> CHR '':'') p;
          p = drop (length host) p
      in if host = [] \<or> PH_HOST_CAP \<le> length host then None
      else let colon = (p \<noteq> [] \<and> hd p = CHR '':'');
               port = takeWhile (\<lambda>c. c \<noteq> CHR ''/'') (tl p);
               p = (if colon then drop (length port) (tl p) else p)
           in if colon \<and> 8 \<le> length port then None
              else if p \<noteq> [] \<and> hd p = CHR ''/'' \<and> PH_HOST_CAP \<le> length p then None
              else Some \<lparr>url_host = host,
                     url_port = (if colon then port else if https then ''443'' else ''80''),
                     url_path = (if p \<noteq> [] \<and> hd p = CHR ''/'' then p else ''/''),
                     is_https = https\<rparr>)"

definition parse_url :: "string \<Rightarrow> ph_url option" where
  "parse_url url =
     (if take 7 url = ''http://'' then parse_authority False (drop 7 url)
      else if take 8 url = ''https://'' then parse_authority True (drop 8 url)
      else None)"

definition request_line :: "string \<Rightarrow> string" where
  "request_line s = snprintf_trunc (PH_HOST_CAP + 64) s"

text \<open>
  The text appended to the request buffer; \<open>None\<close> is \<open>PH_ERR\<close>. An allocation failure of the buffer
  is its \<open>oom\<close> latch (theory \<open>Ph_Str\<close>), which the caller tests.
\<close>

definition ph_http_build_request :: "string \<Rightarrow> bytes \<Rightarrow> string option \<Rightarrow> bytes option" where
  "ph_http_build_request url body content_encoding =
     (case parse_url url of None \<Rightarrow> None
      | Some u \<Rightarrow>
          if is_https u then None
          else Some (request_line (''POST '' @ url_path u @ '' HTTP/1.1'' @ CRLF) @
            request_line (''Host: '' @ url_host u @ (if url_port u = ''80'' then [] else '':'' @ url_port u) @ CRLF) @
            ''Content-Type: application/json'' @ CRLF @
            ''User-Agent: posthog-c/'' @ PH_VERSION_STRING @ CRLF @
            (case content_encoding of None \<Rightarrow> []
             | Some e \<Rightarrow> if e = [] then [] else request_line (''Content-Encoding: '' @ e @ CRLF)) @
            request_line (''Content-Length: '' @ nat_dec (length body) @ CRLF) @
            ''Connection: close'' @ CRLF @ CRLF @ body))"

section \<open>Deadlines\<close>

definition request_deadline :: "int \<Rightarrow> u64 \<Rightarrow> u64" where
  "request_deadline timeout_ms now =
     (if timeout_ms \<le> 0 then 0
      else let add = of_int timeout_ms * 1000000
           in if - 1 - now < add then - 1 else now + add)"

definition remaining_ms :: "u64 \<Rightarrow> u64 \<Rightarrow> int" where
  "remaining_ms deadline now =
     (if deadline = 0 then -1
      else if deadline \<le> now then 0
      else let ms = (deadline - now + 999999) div 1000000
           in if 2147483647 < ms then 2147483647 else uint ms)"

section \<open>Response heads\<close>

definition parse_status :: "bytes \<Rightarrow> int" where
  "parse_status resp =
     (let r = dropWhile (\<lambda>c. c = CHR '' '') (dropWhile (\<lambda>c. c \<noteq> CHR '' '') resp)
      in case r of
           a # b # c # _ \<Rightarrow>
             if \<not> is_digit a \<or> \<not> is_digit b \<or> \<not> is_digit c then -1
             else int (digit_val a * 100 + digit_val b * 10 + digit_val c)
         | _ \<Rightarrow> -1)"

text \<open>The offset of the blank line that ends the head.\<close>

fun find_header_end :: "bytes \<Rightarrow> nat option" where
  "find_header_end (a # b # c # d # r) =
     (if a = CR \<and> b = LF \<and> c = CR \<and> d = LF then Some 0 else map_option Suc (find_header_end (b # c # d # r)))"
| "find_header_end _ = None"

definition is_blank :: "char \<Rightarrow> bool" where
  "is_blank c \<longleftrightarrow> c = CHR '' '' \<or> c = CHR 0x09"

definition is_eol :: "char \<Rightarrow> bool" where
  "is_eol c \<longleftrightarrow> c = CR \<or> c = LF"

text \<open>What follows the first header of that name; \<open>bol\<close> tells that \<open>buf\<close> starts a line.\<close>

fun header_value :: "string \<Rightarrow> bool \<Rightarrow> bytes \<Rightarrow> bytes option" where
  "header_value key bol [] = None"
| "header_value key bol (c # cs) =
     (if length (c # cs) < length key then None
      else if bol \<and> map tolower_c (take (length key) (c # cs)) = key then Some (drop (length key) (c # cs))
      else header_value key (c = LF) cs)"

definition scan_retry_after :: "bytes \<Rightarrow> nat \<Rightarrow> string" where
  "scan_retry_after head n =
     (case header_value ''retry-after:'' True head of None \<Rightarrow> []
      | Some v \<Rightarrow> take (n - 1) (takeWhile (\<lambda>c. \<not> is_eol c) (dropWhile is_blank v)))"

definition PH_HTTP_MAX_CONTENT_LEN :: int where "PH_HTTP_MAX_CONTENT_LEN = 100000000"

fun content_digits :: "bytes \<Rightarrow> int \<Rightarrow> int" where
  "content_digits [] len = len"
| "content_digits (c # cs) len =
     (if \<not> is_digit c then len
      else if PH_HTTP_MAX_CONTENT_LEN < len then PH_HTTP_MAX_CONTENT_LEN
      else content_digits cs (len * 10 + int (digit_val c)))"

definition scan_content_length :: "bytes \<Rightarrow> int" where
  "scan_content_length head =
     (case header_value ''content-length:'' True head of None \<Rightarrow> -1
      | Some v \<Rightarrow>
          let v = dropWhile is_blank v
          in if v = [] \<or> \<not> is_digit (hd v) then -1 else content_digits v 0)"

definition token_char :: "char \<Rightarrow> bool" where
  "token_char c \<longleftrightarrow> c \<noteq> CHR '','' \<and> \<not> is_eol c \<and> \<not> is_blank c"

function chunked_listed :: "bytes \<Rightarrow> bool" where
  "chunked_listed v =
     (if v = [] \<or> is_eol (hd v) then False
      else let v1 = dropWhile (\<lambda>c. is_blank c \<or> c = CHR '','') v; tok = takeWhile token_char v1
           in if map tolower_c tok = ''chunked'' then True
              else chunked_listed (dropWhile (\<lambda>c. c \<noteq> CHR '','' \<and> \<not> is_eol c) (drop (length tok) v1)))"
  by pat_completeness auto

lemma chunked_listed_shrinks:
  assumes "v \<noteq> []" "\<not> is_eol (hd v)"
  defines "v1 \<equiv> dropWhile (\<lambda>c. is_blank c \<or> c = CHR '','') v"
  shows "length (dropWhile (\<lambda>c. c \<noteq> CHR '','' \<and> \<not> is_eol c) (drop (length (takeWhile token_char v1)) v1)) < length v"
proof (cases "is_blank (hd v) \<or> hd v = CHR '',''")
  case True
  with assms(1) have "length v1 < length v" unfolding v1_def by (cases v) (auto simp: le_imp_less_Suc length_dropWhile_le)
  moreover have "length (dropWhile P (drop k v1)) \<le> length v1" for P k
    by (rule order_trans [OF length_dropWhile_le]) simp
  ultimately show ?thesis by (rule le_less_trans [rotated])
next
  case False
  with assms have v: "v1 = v" "token_char (hd v)" unfolding v1_def by (cases v; simp add: token_char_def)+
  then have "0 < length (takeWhile token_char v1)" using assms(1) by (cases v) auto
  then show ?thesis using v assms(1) by (simp add: le_less_trans [OF length_dropWhile_le])
qed

termination chunked_listed
  by (relation "measure length") (use chunked_listed_shrinks in \<open>auto simp: Let_def\<close>)

declare chunked_listed.simps [simp del]

definition scan_transfer_chunked :: "bytes \<Rightarrow> bool" where
  "scan_transfer_chunked head =
     (case header_value ''transfer-encoding:'' True head of None \<Rightarrow> False | Some v \<Rightarrow> chunked_listed v)"

section \<open>Response bodies\<close>

text \<open>A buffer and a position in it are the rest of the buffer from that position.\<close>

definition SIZE_MAX :: nat where "SIZE_MAX = 2 ^ 64 - 1"

definition hex_value :: "char \<Rightarrow> nat option" where
  "hex_value c =
     (if 48 \<le> byte_val c \<and> byte_val c \<le> 57 then Some (byte_val c - 48)
      else if 97 \<le> byte_val c \<and> byte_val c \<le> 102 then Some (byte_val c - 97 + 10)
      else if 65 \<le> byte_val c \<and> byte_val c \<le> 70 then Some (byte_val c - 65 + 10)
      else None)"

fun sat_size :: "bytes \<Rightarrow> nat \<Rightarrow> nat" where
  "sat_size [] n = n"
| "sat_size (c # cs) n =
     (case hex_value c of None \<Rightarrow> n
      | Some hv \<Rightarrow> sat_size cs (if n \<le> (SIZE_MAX - hv) div 16 then n * 16 + hv else SIZE_MAX))"

definition hex_char :: "char \<Rightarrow> bool" where
  "hex_char c \<longleftrightarrow> hex_value c \<noteq> None"

text \<open>
  The bounded, forgiving decoder: the bytes copied so far, and whether the terminating chunk was
  reached.
\<close>

definition end_of_data :: "bytes \<Rightarrow> bytes option" where
  "end_of_data r =
     (case r of [] \<Rightarrow> None
      | c # r \<Rightarrow> if c = CR then (if r = [] \<or> hd r \<noteq> LF then None else Some (tl r))
                 else if c = LF then Some r else None)"

lemma end_of_data_shrinks: "end_of_data r = Some r' \<Longrightarrow> length r' < length r"
  by (auto simp: end_of_data_def split: list.splits if_splits)

text \<open>The size line: the chunk's length and what follows the line; \<open>None\<close> where the loop breaks.\<close>

definition chunk_head :: "bytes \<Rightarrow> (nat \<times> bytes) option" where
  "chunk_head body =
     (let b = dropWhile is_blank body; rest = dropWhile (\<lambda>c. c \<noteq> LF) (dropWhile hex_char b)
      in if b = [] \<or> \<not> hex_char (hd b) \<or> rest = [] then None else Some (sat_size b 0, tl rest))"

definition copy_room :: "nat \<Rightarrow> bytes \<Rightarrow> bytes \<Rightarrow> bytes" where
  "copy_room out_cap copied d =
     (if 0 < out_cap \<and> length copied + 1 < out_cap then copied @ take (out_cap - 1 - length copied) d else copied)"

function chunked_prefix :: "nat \<Rightarrow> bytes \<Rightarrow> bytes \<Rightarrow> bytes \<times> bool" where
  "chunked_prefix out_cap body copied =
     (case chunk_head body of None \<Rightarrow> (copied, False)
      | Some (chunk_len, rest) \<Rightarrow>
          if chunk_len = 0 then (copied, True)
          else let copied = copy_room out_cap copied (take chunk_len rest)
          in if 0 < out_cap \<and> out_cap \<le> length copied + 1 then (copied, False)
          else if length rest < chunk_len then (copied, False)
          else case end_of_data (drop chunk_len rest) of None \<Rightarrow> (copied, False)
               | Some rest \<Rightarrow> chunked_prefix out_cap rest copied)"
  by pat_completeness auto

lemma chunk_head_shrinks: "chunk_head body = Some (n, rest) \<Longrightarrow> length rest < length body"
proof -
  assume a: "chunk_head body = Some (n, rest)"
  define r where "r = dropWhile (\<lambda>c. c \<noteq> LF) (dropWhile hex_char (dropWhile is_blank body))"
  have "rest = tl r" "r \<noteq> []" using a by (auto simp: chunk_head_def r_def Let_def split: if_splits)
  then have "length rest < length r" by (cases r) simp_all
  also have "\<dots> \<le> length body" unfolding r_def by (intro order_trans [OF length_dropWhile_le] length_dropWhile_le)
  finally show ?thesis .
qed

termination chunked_prefix
proof (relation "measure (\<lambda>(n, body, c). length body)", goal_cases)
  case (2 out_cap body copied x chunk_len rest0 copied1 rest)
  then show ?case using chunk_head_shrinks [of body chunk_len rest0] end_of_data_shrinks [of "drop chunk_len rest0" rest] by simp
qed simp

declare chunked_prefix.simps [simp del]

definition copy_chunked_prefix :: "nat \<Rightarrow> bytes \<Rightarrow> bytes \<times> bool" where
  "copy_chunked_prefix out_cap body = chunked_prefix out_cap body []"

definition copy_body_prefix :: "bytes \<Rightarrow> bool \<Rightarrow> nat \<Rightarrow> bytes \<times> bool" where
  "copy_body_prefix body chunked out_cap =
     (if out_cap = 0 then ([], False)
      else if chunked then copy_chunked_prefix out_cap body
      else (take (out_cap - 1) body, True))"

text \<open>
  The strict decoder. \<open>chunk_size\<close> is the run of hexadecimal digits: its value, whether there was
  one, and the rest (\<open>None\<close> on overflow); \<open>expect_crlf\<close> steps over a line end or gives the return
  code. The result is the return code with the bytes written; \<open>None\<close> as capacity is \<open>out == NULL\<close>.
\<close>

fun chunk_size :: "bytes \<Rightarrow> nat \<Rightarrow> bool \<Rightarrow> (nat \<times> bool \<times> bytes) option" where
  "chunk_size [] n digits = Some (n, digits, [])"
| "chunk_size (c # cs) n digits =
     (case hex_value c of None \<Rightarrow> Some (n, digits, c # cs)
      | Some hv \<Rightarrow> if (SIZE_MAX - hv) div 16 < n then None else chunk_size cs (n * 16 + hv) True)"

definition skip_line :: "bytes \<Rightarrow> bytes" where
  "skip_line r = dropWhile (\<lambda>c. \<not> is_eol c) r"

definition expect_crlf :: "bytes \<Rightarrow> int + bytes" where
  "expect_crlf r = (case r of a # b # r \<Rightarrow> if a \<noteq> CR \<or> b \<noteq> LF then Inl (-1) else Inr r | _ \<Rightarrow> Inl 0)"

lemma expect_crlf_shrinks: "expect_crlf r = Inr r' \<Longrightarrow> length r' + 2 = length r"
  by (auto simp: expect_crlf_def split: list.splits if_splits)

lemma length_skip_line: "length (skip_line r) \<le> length r"
  by (simp add: skip_line_def length_dropWhile_le)

function skip_trailers :: "bytes \<Rightarrow> int" where
  "skip_trailers line =
     (case expect_crlf (skip_line line) of Inl rc \<Rightarrow> rc
      | Inr r \<Rightarrow> if skip_line line = line then 1 else skip_trailers r)"
  by pat_completeness auto

termination skip_trailers
proof (relation "measure length", goal_cases)
  case (2 line r)
  then show ?case using expect_crlf_shrinks [of "skip_line line" r] length_skip_line [of line] by simp
qed simp

declare skip_trailers.simps [simp del]

definition does_not_fit :: "nat option \<Rightarrow> nat \<Rightarrow> nat \<Rightarrow> bool" where
  "does_not_fit out copied chunk_len =
     (case out of None \<Rightarrow> False
      | Some out_cap \<Rightarrow> out_cap = 0 \<or> out_cap \<le> copied \<or> out_cap - copied \<le> chunk_len)"

lemma chunk_size_shrinks: "chunk_size b n d = Some (n', d', r) \<Longrightarrow> length r \<le> length b"
  by (induction b n d rule: chunk_size.induct) (fastforce split: option.splits if_splits)+

function decode_chunks :: "nat option \<Rightarrow> bytes \<Rightarrow> bytes \<Rightarrow> int \<times> bytes" where
  "decode_chunks out body copied =
     (case chunk_size body 0 False of None \<Rightarrow> (-1, copied)
      | Some (chunk_len, digits, rest) \<Rightarrow>
          if \<not> digits then (if rest = [] then 0 else -1, copied)
          else case expect_crlf (skip_line rest) of Inl rc \<Rightarrow> (rc, copied)
          | Inr rest \<Rightarrow>
              if chunk_len = 0 then (skip_trailers rest, copied)
              else if length rest < chunk_len then (0, copied)
              else if SIZE_MAX - length copied < chunk_len then (-1, copied)
              else if does_not_fit out (length copied) chunk_len then (-2, copied)
              else let copied = copied @ take chunk_len rest
                   in case expect_crlf (drop chunk_len rest) of Inl rc \<Rightarrow> (rc, copied)
                      | Inr rest \<Rightarrow> decode_chunks out rest copied)"
  by pat_completeness auto

termination decode_chunks
proof (relation "measure (\<lambda>(out, body, c). length body)", goal_cases)
  case (2 out body copied a chunk_len b digits rest0 rest1 copied1 rest)
  then show ?case
    using chunk_size_shrinks [of body 0 False chunk_len digits rest0] length_skip_line [of rest0]
      expect_crlf_shrinks [of "skip_line rest0" rest1] expect_crlf_shrinks [of "drop chunk_len rest1" rest] by simp
qed simp

declare decode_chunks.simps [simp del]

definition decode_chunked_full :: "nat option \<Rightarrow> bytes \<Rightarrow> int \<times> bytes" where
  "decode_chunked_full out body = decode_chunks out body []"

definition PH_HTTP_RESPONSE_TRUNCATED :: int where "PH_HTTP_RESPONSE_TRUNCATED = -1"
definition PH_HTTP_RESPONSE_TOO_LARGE :: int where "PH_HTTP_RESPONSE_TOO_LARGE = -2"

text \<open>The status and the string left in \<open>out\<close>, which a failed chunk decoding leaves unterminated.\<close>

definition ph__http_decode_response_body :: "bytes \<Rightarrow> nat \<Rightarrow> int \<times> bytes" where
  "ph__http_decode_response_body resp out_cap =
     (case find_header_end resp of None \<Rightarrow> (PH_HTTP_RESPONSE_TRUNCATED, [])
      | Some head_len \<Rightarrow>
          let head = take head_len resp; body = drop (head_len + 4) resp; status = parse_status head
          in if status < 0 then (PH_HTTP_RESPONSE_TRUNCATED, [])
          else if scan_transfer_chunked head then
            (let (rc, out) = decode_chunked_full (Some out_cap) body
             in (if rc = -2 then PH_HTTP_RESPONSE_TOO_LARGE else if rc = 1 then status else PH_HTTP_RESPONSE_TRUNCATED, out))
          else let content_len = scan_content_length head
          in if 0 \<le> content_len \<and> length body < nat content_len then (PH_HTTP_RESPONSE_TRUNCATED, [])
          else let body = (if 0 \<le> content_len then take (nat content_len) body else body)
          in if body \<noteq> [] \<and> (out_cap = 0 \<or> out_cap \<le> length body) then (PH_HTTP_RESPONSE_TOO_LARGE, [])
          else (status, body))"

text \<open>Arrays of \<open>ph_send_meta\<close> are read back as C strings.\<close>

definition ph__http_parse_response_meta :: "bytes \<Rightarrow> int \<times> ph_send_meta" where
  "ph__http_parse_response_meta resp =
     (let sep = find_header_end resp;
          head = (case sep of None \<Rightarrow> resp | Some n \<Rightarrow> take n resp)
      in (parse_status resp,
          \<lparr>sm_retry_after = cstr_view (scan_retry_after head 64),
           sm_body = (case sep of None \<Rightarrow> []
             | Some n \<Rightarrow> cstr_view (fst (copy_body_prefix (drop (n + 4) resp) (scan_transfer_chunked head) PH_RESP_BODY_CAP)))\<rparr>))"

definition ph__http_send_response_complete :: "bytes \<Rightarrow> bool" where
  "ph__http_send_response_complete resp =
     (case find_header_end resp of None \<Rightarrow> False
      | Some head_len \<Rightarrow>
          let head = take head_len resp; body = drop (head_len + 4) resp; body_have = length body
          in if scan_transfer_chunked head then
               (let (prefix, complete) = copy_chunked_prefix PH_RESP_BODY_CAP body
                in complete \<or> PH_RESP_BODY_CAP - 1 \<le> length prefix)
             else let content_len = scan_content_length head
             in if 0 \<le> content_len then nat content_len \<le> body_have \<or> PH_RESP_BODY_CAP - 1 \<le> body_have
                else PH_RESP_BODY_CAP - 1 \<le> body_have \<or> 0 < body_have)"

definition ph__http_body_response_complete :: "bytes \<Rightarrow> bool" where
  "ph__http_body_response_complete resp =
     (case find_header_end resp of None \<Rightarrow> False
      | Some head_len \<Rightarrow>
          let head = take head_len resp; body = drop (head_len + 4) resp
          in if scan_transfer_chunked head then fst (decode_chunked_full None body) \<noteq> 0
             else let content_len = scan_content_length head
             in 0 \<le> content_len \<and> nat content_len \<le> length body)"

section \<open>Sockets\<close>

text \<open>
  A connection delivers its bytes in arbitrary segments; a read returns at most the room given, what
  is left of a segment stays for the next read. The end of the list is the peer's orderly close.
\<close>

datatype net_event = Segment bytes | Net_Failed

fun sock_recv :: "nat \<Rightarrow> net_event list \<Rightarrow> bytes option \<times> net_event list" where
  "sock_recv room [] = (Some [], [])"
| "sock_recv room (Net_Failed # s) = (None, s)"
| "sock_recv room (Segment d # s) =
     (if d = [] then sock_recv room s
      else (Some (take room d), if drop room d = [] then s else Segment (drop room d) # s))"

fun stream_bytes :: "net_event list \<Rightarrow> bytes" where
  "stream_bytes [] = []"
| "stream_bytes (Net_Failed # s) = stream_bytes s"
| "stream_bytes (Segment d # s) = d @ stream_bytes s"

lemma recv_shrinks: "sock_recv room s = (Some d, s') \<Longrightarrow> d \<noteq> [] \<Longrightarrow> length (stream_bytes s') < length (stream_bytes s)"
  by (induction room s rule: sock_recv.induct) (auto split: if_splits)

definition PH_HTTP_STATUS_BUF :: nat where "PH_HTTP_STATUS_BUF = 4096"
definition PH_HTTP_FETCH_CHUNK :: nat where "PH_HTTP_FETCH_CHUNK = 2048"
definition PH_HTTP_HEADER_CAP :: nat where "PH_HTTP_HEADER_CAP = 16384"
definition PH_HTTP_CHUNK_OVERHEAD_CAP :: nat where "PH_HTTP_CHUNK_OVERHEAD_CAP = 16384"

definition timed_out :: "u64 \<Rightarrow> u64 \<Rightarrow> bool" where
  "timed_out deadline now \<longleftrightarrow> deadline \<noteq> 0 \<and> remaining_ms deadline now \<le> 0"

text \<open>The bytes the status read ends with; \<open>None\<close> when the deadline ends it.\<close>

function read_status_loop :: "u64 \<Rightarrow> (nat \<Rightarrow> u64) \<Rightarrow> nat \<Rightarrow> net_event list \<Rightarrow> bytes \<Rightarrow> bytes option" where
  "read_status_loop deadline now k s resp =
     (if timed_out deadline (now k) then None
      else case sock_recv (PH_HTTP_STATUS_BUF - 1 - length resp) s of
          (None, s') \<Rightarrow> Some resp
        | (Some d, s') \<Rightarrow>
            if d = [] then Some resp
            else if ph__http_send_response_complete (resp @ d) then Some (resp @ d)
            else if PH_HTTP_STATUS_BUF - 1 \<le> length (resp @ d) then Some (resp @ d)
            else read_status_loop deadline now (Suc k) s' (resp @ d))"
  by pat_completeness auto

termination read_status_loop
proof (relation "measure (\<lambda>(dl, now, k, s, resp). length (stream_bytes s))", goal_cases)
  case (2 deadline now k s resp a s' d)
  then show ?case using recv_shrinks [of "PH_HTTP_STATUS_BUF - 1 - length resp" s d s'] by simp
qed simp

declare read_status_loop.simps [simp del]

definition read_status_response :: "u64 \<Rightarrow> (nat \<Rightarrow> u64) \<Rightarrow> net_event list \<Rightarrow> int \<times> ph_send_meta" where
  "read_status_response deadline now s =
     (case read_status_loop deadline now 0 s [] of None \<Rightarrow> (-1, no_meta)
      | Some resp \<Rightarrow> if resp \<noteq> [] then ph__http_parse_response_meta resp else (-1, no_meta))"

text \<open>
  What the loop of \<open>read_body_response\<close> does with the bytes so far: leave with a result, leave to
  decode, or read on; with the new value of \<open>framed\<close>.
\<close>

datatype read_next = Read_done int | Read_break bool | Read_more bool

definition body_verdict :: "nat \<Rightarrow> bool \<Rightarrow> bytes \<Rightarrow> read_next" where
  "body_verdict out_cap framed resp =
     (case find_header_end resp of
        None \<Rightarrow> if PH_HTTP_HEADER_CAP \<le> length resp then Read_break framed else Read_more framed
      | Some head_len \<Rightarrow>
          let head = take head_len resp; body = drop (head_len + 4) resp
          in if PH_HTTP_HEADER_CAP < head_len then Read_break framed
          else if scan_transfer_chunked head then
            (let chunk_rc = fst (decode_chunked_full None body)
             in if chunk_rc = 1 then Read_break True
                else if chunk_rc < 0 then Read_done PH_HTTP_RESPONSE_TRUNCATED
                else Read_more True)
          else let content_len = scan_content_length head
          in if 0 \<le> content_len then
               (if out_cap \<le> nat content_len then Read_done PH_HTTP_RESPONSE_TOO_LARGE
                else if nat content_len \<le> length body then Read_break True
                else Read_more True)
             else Read_more framed)"

text \<open>The result when the loop leaves early, else the bytes read, whether the peer closed, and \<open>framed\<close>.\<close>

function read_body_loop :: "u64 \<Rightarrow> (nat \<Rightarrow> u64) \<Rightarrow> nat \<Rightarrow> nat \<Rightarrow> net_event list \<Rightarrow> bytes \<Rightarrow> bool \<Rightarrow> int + bytes \<times> bool \<times> bool" where
  "read_body_loop deadline now out_cap k s resp framed =
     (let room = out_cap + PH_HTTP_HEADER_CAP + PH_HTTP_CHUNK_OVERHEAD_CAP - length resp
      in if timed_out deadline (now k) then Inr (resp, False, framed)
      else if room = 0 then Inl PH_HTTP_RESPONSE_TOO_LARGE
      else case sock_recv (min room PH_HTTP_FETCH_CHUNK) s of
          (None, s') \<Rightarrow> Inr (resp, False, framed)
        | (Some d, s') \<Rightarrow>
            if d = [] then Inr (resp, True, framed)
            else case body_verdict out_cap framed (resp @ d) of
                Read_done r \<Rightarrow> Inl r
              | Read_break f \<Rightarrow> Inr (resp @ d, False, f)
              | Read_more f \<Rightarrow> read_body_loop deadline now out_cap (Suc k) s' (resp @ d) f)"
  by pat_completeness auto

termination read_body_loop
proof (relation "measure (\<lambda>(dl, now, n, k, s, resp, f). length (stream_bytes s))", goal_cases)
  case (2 deadline now out_cap k s resp framed room a s' d f)
  then show ?case using recv_shrinks [of "min room PH_HTTP_FETCH_CHUNK" s d s'] by simp
qed simp

declare read_body_loop.simps [simp del]

definition read_body_response :: "bool \<Rightarrow> nat \<Rightarrow> u64 \<Rightarrow> (nat \<Rightarrow> u64) \<Rightarrow> net_event list \<Rightarrow> int \<times> bytes" where
  "read_body_response mem out_cap deadline now s =
     (if SIZE_MAX - PH_HTTP_HEADER_CAP - PH_HTTP_CHUNK_OVERHEAD_CAP - 1 < out_cap then (PH_HTTP_RESPONSE_TOO_LARGE, [])
      else if \<not> mem then (-1, [])
      else case read_body_loop deadline now out_cap 0 s [] False of
          Inl r \<Rightarrow> (r, [])
        | Inr (resp, eof, framed) \<Rightarrow>
            if eof \<or> framed then ph__http_decode_response_body resp out_cap
            else (PH_HTTP_RESPONSE_TRUNCATED, []))"

end
