(* ===== verification/Ph_Http_Response.thy ===== *)
theory Ph_Http_Response
  imports Ph_Http
begin

text \<open>
  Responses of the HTTP transport: a server's response as text, for the three ways of marking its
  end, and the facts about the decoders and the read loops of theory \<open>Ph_Http\<close>. The properties say
  that a response is read back whatever segments it comes in, and that a cut one is never taken
  for a whole one.
\<close>

section \<open>Responses as a server writes them\<close>

text \<open>The three ways a response's end is marked, and the text of each.\<close>

datatype framing = Chunked "bytes list" | Sized bytes | Until_close bytes

fun encode_chunks :: "bytes list \<Rightarrow> bytes" where
  "encode_chunks [] = ''0'' @ CRLF @ CRLF"
| "encode_chunks (c # cs) = nat_hex (length c) @ CRLF @ c @ CRLF @ encode_chunks cs"

fun payload :: "framing \<Rightarrow> bytes" where
  "payload (Chunked cs) = concat cs"
| "payload (Sized b) = b"
| "payload (Until_close b) = b"

fun body_text :: "framing \<Rightarrow> bytes" where
  "body_text (Chunked cs) = encode_chunks cs"
| "body_text (Sized b) = b"
| "body_text (Until_close b) = b"

fun announces :: "bytes \<Rightarrow> framing \<Rightarrow> bool" where
  "announces head (Chunked cs) \<longleftrightarrow> scan_transfer_chunked head \<and> list_all (\<lambda>c. c \<noteq> []) cs"
| "announces head (Sized b) \<longleftrightarrow> \<not> scan_transfer_chunked head \<and> scan_content_length head = int (length b)"
| "announces head (Until_close b) \<longleftrightarrow> \<not> scan_transfer_chunked head \<and> scan_content_length head < 0"

definition BLANK_LINE :: bytes where "BLANK_LINE = CRLF @ CRLF"

definition response :: "bytes \<Rightarrow> framing \<Rightarrow> bytes" where
  "response head fr = head @ BLANK_LINE @ body_text fr"

text \<open>A head without a blank line of its own, with a status, within the reader's limit.\<close>

definition head_ok :: "bytes \<Rightarrow> bool" where
  "head_ok head \<longleftrightarrow> find_header_end (head @ BLANK_LINE) = Some (length head) \<and> 0 \<le> parse_status head \<and> length head \<le> 16380"

section \<open>Facts: the strict chunk decoder\<close>

lemma crlf_chars: "hex_value CR = None" "hex_value (CHR ''0'') = Some 0" "is_eol CR" "CRLF = CR # LF # []" "expect_crlf (CR # LF # r) = Inr r"
  "expect_crlf [] = Inl 0" "expect_crlf [a] = Inl 0"
  by (simp_all add: hex_value_def byte_val_def is_eol_def CRLF_def expect_crlf_def)

lemma hex_value_digit: "n < 16 \<Longrightarrow> hex_value (hex_digit n) = Some n"
  by (simp add: hex_value_def hex_digit_def)

lemma chunk_size_hex: "n \<le> SIZE_MAX \<Longrightarrow> chunk_size (nat_hex n @ r) 0 d = chunk_size r n True"
proof (induction n arbitrary: r d rule: nat_hex.induct)
  case (1 n)
  show ?case
  proof (cases "n < 16")
    case True
    then show ?thesis by (simp add: nat_hex.simps [of n] hex_value_digit SIZE_MAX_def)
  next
    case False
    have "n div 16 * 16 = n - n mod 16" by (simp add: minus_mod_eq_div_mult)
    then have "n div 16 \<le> (SIZE_MAX - n mod 16) div 16" using 1(2) by (simp add: less_eq_div_iff_mult_less_eq diff_le_mono)
    moreover have "n div 16 \<le> SIZE_MAX" using 1(2) by (meson div_le_dividend order_trans)
    ultimately show ?thesis
      using False 1(1) [OF False, of "hex_digit (n mod 16) # r" d] by (simp add: nat_hex.simps [of n] hex_value_digit not_less)
  qed
qed

lemma chunk_size_line: "n \<le> SIZE_MAX \<Longrightarrow> chunk_size (nat_hex n @ CR # r) 0 d = Some (n, True, CR # r)"
  by (simp add: chunk_size_hex crlf_chars)

lemma chunk_size_cut: "chunk_size (p @ q) n d \<noteq> None \<Longrightarrow> list_all hex_char p \<Longrightarrow> \<exists>m d'. chunk_size p n d = Some (m, d', [])"
  by (induction p arbitrary: n d) (auto simp: hex_char_def split: option.splits if_splits)

lemma hex_char_digit: "n < 16 \<Longrightarrow> hex_char (hex_digit n)"
  by (simp add: hex_char_def hex_value_digit)

lemma nat_hex_chars: "list_all hex_char (nat_hex n)"
proof (induction n rule: nat_hex.induct)
  case (1 n)
  then show ?case by (cases "n < 16") (simp_all add: nat_hex.simps [of n] hex_char_digit)
qed

lemma skip_line_CR: "skip_line (CR # r) = CR # r" "skip_line [] = []"
  by (simp_all add: skip_line_def is_eol_def)

lemma decode_step:
  assumes "c \<noteq> []" "length c + length acc \<le> SIZE_MAX" "\<not> does_not_fit out (length acc) (length c)"
  shows "decode_chunks out (nat_hex (length c) @ CRLF @ c @ CRLF @ r) acc = decode_chunks out r (acc @ c)"
proof -
  have l: "length c \<le> SIZE_MAX" "\<not> SIZE_MAX - length acc < length c" using assms(2) by simp_all
  show ?thesis
    using assms(1,3) l(2)
    by (subst decode_chunks.simps) (simp add: crlf_chars chunk_size_line [OF l(1)] skip_line_CR)
qed

lemma decode_end: "decode_chunks out (encode_chunks []) acc = (1, acc)"
proof -
  have "skip_trailers [CR, LF] = 1" by (simp add: skip_trailers.simps crlf_chars skip_line_CR)
  then show ?thesis by (subst decode_chunks.simps) (simp add: crlf_chars skip_line_CR)
qed

lemma decode_encoded:
  "list_all (\<lambda>c. c \<noteq> []) cs \<Longrightarrow> length acc + length (concat cs) \<le> SIZE_MAX \<Longrightarrow>
   pred_option (\<lambda>n. length acc + length (concat cs) < n) out \<Longrightarrow>
   decode_chunks out (encode_chunks cs) acc = (1, acc @ concat cs)"
proof (induction cs arbitrary: acc)
  case (Cons c cs)
  have "\<not> does_not_fit out (length acc) (length c)" using Cons.prems(3) by (auto simp: does_not_fit_def split: option.split)
  then have "decode_chunks out (encode_chunks (c # cs)) acc = decode_chunks out (encode_chunks cs) (acc @ c)"
    unfolding encode_chunks.simps by (intro decode_step) (use Cons.prems in auto)
  also have "\<dots> = (1, (acc @ c) @ concat cs)" by (rule Cons.IH) (use Cons.prems in \<open>auto simp: pred_option_def add.assoc\<close>)
  finally show ?case by simp
qed (simp add: decode_end [simplified])

text \<open>A cut is before the end of the size line, in the data, or in what follows.\<close>

lemma cut_chunk:
  assumes "strict_prefix p (h @ CRLF @ c @ CRLF @ r)"
  obtains "prefix p h" | "p = h @ [CR]" | c' where "p = h @ CRLF @ c'" "length c' < length c"
    | "p = h @ CRLF @ c" | "p = h @ CRLF @ c @ [CR]" | p' where "p = h @ CRLF @ c @ CRLF @ p'" "strict_prefix p' r"
proof -
  have two: "q = [] \<or> q = [CR] \<or> (\<exists>q'. q = CRLF @ q' \<and> strict_prefix q' s)" if "strict_prefix q (CRLF @ s)" for q s
    using that by (cases q; cases "tl q") (auto simp: crlf_chars strict_prefix_def)
  show thesis
  proof (cases "prefix p h")
    case False
    then obtain q where q: "p = h @ q" "strict_prefix q (CRLF @ c @ CRLF @ r)"
      using assms by (auto simp: strict_prefix_def prefix_append)
    consider "q = []" | "q = [CR]" | q' where "q = CRLF @ q'" "strict_prefix q' (c @ CRLF @ r)" using two [OF q(2)] by blast
    then show thesis
    proof cases
      case 3
      show thesis
      proof (cases "length q' < length c")
        case True
        then show thesis using that(3) q(1) 3(1) by blast
      next
        case False
        have "prefix q' c \<Longrightarrow> q' = c @ []" using False by (auto simp: prefix_def)
        then obtain t where t: "q' = c @ t" "strict_prefix t (CRLF @ r)"
          using 3(2) by (auto simp: strict_prefix_def prefix_append)
        then show thesis using two [OF t(2)] that(4,5,6) q(1) 3(1) by auto
      qed
    qed (use that q(1) False in auto)
  qed (rule that(1))
qed

lemma decode_cut_size:
  assumes "prefix p (nat_hex n)" "n \<le> SIZE_MAX"
  shows "fst (decode_chunks out p acc) = 0"
proof -
  obtain q where q: "nat_hex n = p @ q" using assms(1) by (auto simp: prefix_def)
  have "list_all hex_char p" using nat_hex_chars [of n] by (simp add: q)
  moreover have "chunk_size (p @ q) 0 False \<noteq> None" using chunk_size_hex [OF assms(2), of "[]" False] by (simp add: q)
  ultimately obtain m d where "chunk_size p 0 False = Some (m, d, [])" using chunk_size_cut by blast
  then show ?thesis by (subst decode_chunks.simps) (simp add: skip_line_CR crlf_chars)
qed

lemma decode_cut_step:
  assumes "n \<le> SIZE_MAX" "0 < n"
  shows "fst (decode_chunks out (nat_hex n @ [CR]) acc) = 0"
    "length c' < n \<Longrightarrow> fst (decode_chunks out (nat_hex n @ CRLF @ c') acc) = 0"
    "length c = n \<Longrightarrow> n + length acc \<le> SIZE_MAX \<Longrightarrow> e = [] \<or> e = [CR] \<Longrightarrow>
      fst (decode_chunks out (nat_hex n @ CRLF @ c @ e) acc) = (if does_not_fit out (length acc) n then -2 else 0)"
proof -
  show "fst (decode_chunks out (nat_hex n @ [CR]) acc) = 0" "length c' < n \<Longrightarrow> fst (decode_chunks out (nat_hex n @ CRLF @ c') acc) = 0"
    using assms(2) by (subst decode_chunks.simps; simp add: chunk_size_line [OF assms(1)] skip_line_CR crlf_chars)+
  assume "length c = n" "n + length acc \<le> SIZE_MAX" "e = [] \<or> e = [CR]"
  then show "fst (decode_chunks out (nat_hex n @ CRLF @ c @ e) acc) = (if does_not_fit out (length acc) n then -2 else 0)"
    using assms(2)
    by (subst decode_chunks.simps) (auto simp: chunk_size_line [OF assms(1)] skip_line_CR crlf_chars)
qed

lemma decode_no_fit:
  assumes "c \<noteq> []" "length c + length acc \<le> SIZE_MAX" "does_not_fit out (length acc) (length c)"
  shows "fst (decode_chunks out (nat_hex (length c) @ CRLF @ c @ CRLF @ r) acc) = -2"
proof -
  have l: "length c \<le> SIZE_MAX" "\<not> SIZE_MAX - length acc < length c" using assms(2) by simp_all
  show ?thesis
    using assms(1,3) l(2)
    by (subst decode_chunks.simps) (simp add: crlf_chars chunk_size_line [OF l(1)] skip_line_CR)
qed

text \<open>The decoder never takes a cut chunk sequence for a complete one, nor for a malformed one.\<close>

lemma decode_cut:
  "strict_prefix p (encode_chunks cs) \<Longrightarrow> list_all (\<lambda>c. c \<noteq> []) cs \<Longrightarrow> length acc + length (concat cs) \<le> SIZE_MAX \<Longrightarrow>
   fst (decode_chunks out p acc) = 0 \<or> out \<noteq> None \<and> fst (decode_chunks out p acc) = -2"
proof (induction cs arbitrary: p acc)
  case Nil
  then have "p = [] \<or> p = ''0'' \<or> p = ''0'' @ [CR] \<or> p = ''0'' @ CRLF \<or> p = ''0'' @ CRLF @ [CR]"
    by (auto simp: crlf_chars strict_prefix_def prefix_Cons)
  moreover have "skip_trailers [] = 0" "skip_trailers [CR] = 0" by (simp_all add: skip_trailers.simps skip_line_CR crlf_chars)
  ultimately have "fst (decode_chunks out p acc) = 0"
    by (elim disjE; hypsubst; subst decode_chunks.simps; simp add: crlf_chars skip_line_CR)
  then show ?case ..
next
  case (Cons c cs)
  have s: "length c \<le> SIZE_MAX" "0 < length c" "length c + length acc \<le> SIZE_MAX" "c \<noteq> []" using Cons.prems by auto
  note cut = decode_cut_step [OF s(1,2)]
  have f: "does_not_fit out (length acc) (length c) \<Longrightarrow> out \<noteq> None" by (cases out) (simp_all add: does_not_fit_def)
  have "strict_prefix p (nat_hex (length c) @ CRLF @ c @ CRLF @ encode_chunks cs)" using Cons.prems(1) by simp
  then show ?case
  proof (cases rule: cut_chunk)
    case 1
    then show ?thesis using decode_cut_size [OF _ s(1)] by blast
  next
    case 4
    then show ?thesis using cut(3) [where c = c and e = "[]" and acc = acc and out = out] s f by auto
  next
    case 5
    then show ?thesis using cut(3) [where c = c and e = "[CR]" and acc = acc and out = out] s f by auto
  next
    case (6 p')
    show ?thesis
    proof (cases "does_not_fit out (length acc) (length c)")
      case True
      then show ?thesis using decode_no_fit [OF s(4,3) True] f 6(1) by simp
    next
      case False
      have "decode_chunks out p acc = decode_chunks out p' (acc @ c)" unfolding 6(1) by (rule decode_step [OF s(4,3) False])
      then show ?thesis using Cons.IH [OF 6(2), of "acc @ c"] Cons.prems by (simp add: add.assoc)
    qed
  qed (use cut in simp_all)
qed

lemma decode_fits: "length acc \<le> n - 1 \<Longrightarrow> length (snd (decode_chunks (Some n) body acc)) \<le> n - 1"
proof (induction "Some n" body acc rule: decode_chunks.induct)
  case (1 body acc)
  then show ?case
    by (subst decode_chunks.simps)
      (auto simp: does_not_fit_def Let_def split: option.split sum.split if_split prod.split)
qed

section \<open>Facts: heads\<close>

lemma header_end_bound: "find_header_end r = Some n \<Longrightarrow> n + 4 \<le> length r"
  by (induction r arbitrary: n rule: find_header_end.induct) (auto split: if_splits)

lemma header_end_append: "find_header_end r = Some n \<Longrightarrow> find_header_end (r @ x) = Some n"
  by (induction r arbitrary: n rule: find_header_end.induct) (auto split: if_splits)

lemma header_end_whole: "head_ok head \<Longrightarrow> find_header_end (head @ BLANK_LINE @ b) = Some (length head)"
  using header_end_append [of "head @ BLANK_LINE" "length head" b] by (simp add: head_ok_def)

lemma header_end_cut:
  assumes "head_ok head" "prefix p (head @ BLANK_LINE @ b)" "length p < length head + 4"
  shows "find_header_end p = None"
proof (rule ccontr)
  assume "find_header_end p \<noteq> None"
  then obtain n where n: "find_header_end p = Some n" by blast
  obtain q where "head @ BLANK_LINE @ b = p @ q" using assms(2) by (auto simp: prefix_def)
  then have "n = length head" using header_end_append [OF n, of q] header_end_whole [OF assms(1), of b] by simp
  then show False using header_end_bound [OF n] assms(3) by simp
qed

lemma prefix_of_response:
  assumes "prefix p (head @ BLANK_LINE @ b)"
  obtains "length p < length head + 4" | b' where "p = head @ BLANK_LINE @ b'" "prefix b' b"
proof -
  have "length p < length head + 4 \<or> (\<exists>b'. p = head @ BLANK_LINE @ b' \<and> prefix b' b)"
    using assms by (auto simp: prefix_append BLANK_LINE_def CRLF_def prefix_Cons dest: prefix_length_le)
  then show thesis using that by blast
qed

lemma whole_parts:
  assumes "head_ok head"
  shows "take (length head) (head @ BLANK_LINE @ b) = head" "drop (length head + 4) (head @ BLANK_LINE @ b) = b"
  by (simp_all add: BLANK_LINE_def CRLF_def)

section \<open>Facts: reading a body\<close>

lemma recv_bytes:
  "sock_recv room s = (Some d, s') \<Longrightarrow> Net_Failed \<notin> set s \<Longrightarrow> d @ stream_bytes s' = stream_bytes s \<and> Net_Failed \<notin> set s'"
  by (induction room s rule: sock_recv.induct) (auto split: if_splits)

lemma recv_room: "sock_recv room s = (Some d, s') \<Longrightarrow> length d \<le> room"
  by (induction room s rule: sock_recv.induct) (auto split: if_splits)

lemma recv_some: "Net_Failed \<notin> set s \<Longrightarrow> \<exists>d s'. sock_recv room s = (Some d, s')"
  by (induction room s rule: sock_recv.induct) auto

lemma recv_closed: "sock_recv room s = (Some [], s') \<Longrightarrow> 0 < room \<Longrightarrow> stream_bytes s = []"
  by (induction room s rule: sock_recv.induct) (auto split: if_splits)

lemma recv_prefix: "sock_recv room s = (Some d, s') \<Longrightarrow> \<exists>t. stream_bytes s = d @ t \<and> stream_bytes s' = t"
  by (induction room s rule: sock_recv.induct) (auto split: if_splits)


lemma recv_induct [case_names step]:
  assumes "\<And>k s resp. (\<And>room d s'. sock_recv room s = (Some d, s') \<Longrightarrow> d \<noteq> [] \<Longrightarrow> P (Suc k) s' (resp @ d)) \<Longrightarrow> P k s resp"
  shows "P k s resp"
  by (induction "length (stream_bytes s)" arbitrary: k s resp rule: less_induct) (use assms recv_shrinks in blast)

lemma loop_negative: "read_body_loop deadline now n k s resp f = Inl r \<Longrightarrow> r < 0"
proof (induction k s resp arbitrary: f rule: recv_induct)
  case (step k s resp)
  have v: "body_verdict n f x = Read_done r' \<Longrightarrow> r' < 0" for x r'
    by (auto simp: body_verdict_def Let_def PH_HTTP_RESPONSE_TRUNCATED_def PH_HTTP_RESPONSE_TOO_LARGE_def split: option.splits if_splits)
  from step(2) show ?case
    by (subst (asm) read_body_loop.simps)
      (auto simp: Let_def PH_HTTP_RESPONSE_TOO_LARGE_def split: if_splits prod.splits option.splits read_next.splits dest: v step(1))
qed

lemma loop_prefix:
  "read_body_loop deadline now n k s resp f = Inr (resp', b, f') \<Longrightarrow> prefix resp' (resp @ stream_bytes s)"
proof (induction k s resp arbitrary: f rule: recv_induct)
  case (step k s resp)
  have p: "(resp @ d) @ stream_bytes s' = resp @ stream_bytes s" if "sock_recv room s = (Some d, s')" for room d s'
    using recv_prefix [OF that] by auto
  have q: "prefix (resp @ d) (resp @ stream_bytes s)" if "sock_recv room s = (Some d, s')" for room d s'
    using p [OF that] by (metis prefixI)
  have r: "prefix resp' (resp @ stream_bytes s)"
    if "sock_recv room s = (Some d, s')" "d \<noteq> []" "read_body_loop deadline now n (Suc k) s' (resp @ d) x = Inr (resp', b, f')" for room d s' x
    using step(1) [OF that] p [OF that(1)] by simp
  from step(2) show ?case
    by (subst (asm) read_body_loop.simps)
      (auto simp: Let_def split: if_splits prod.splits option.splits read_next.splits dest: q r)
qed

text \<open>
  When every proper part of what the peer sends makes the reader read on, it reads all of it.
\<close>

lemma loop_reads_all:
  assumes "resp @ stream_bytes s = R" "Net_Failed \<notin> set s" "\<And>k. \<not> timed_out deadline (now k)"
    "length R < n + PH_HTTP_HEADER_CAP + PH_HTTP_CHUNK_OVERHEAD_CAP"
    "\<And>p f. strict_prefix p R \<Longrightarrow> \<exists>f'. body_verdict n f p = Read_more f'"
    "\<And>f. body_verdict n f R = Read_break True \<or> (\<exists>f'. body_verdict n f R = Read_more f')"
  shows "\<exists>b f'. read_body_loop deadline now n k s resp f = Inr (R, b, f') \<and> (b \<or> f')"
  using assms(1,2)
proof (induction k s resp arbitrary: f rule: recv_induct)
  case (step k s resp)
  define room where "room = n + PH_HTTP_HEADER_CAP + PH_HTTP_CHUNK_OVERHEAD_CAP - length resp"
  have l: "length resp \<le> length R" using step(2) by (metis length_append le_add1)
  then have room: "0 < room" "0 < min room PH_HTTP_FETCH_CHUNK" using assms(4) by (simp_all add: room_def PH_HTTP_FETCH_CHUNK_def)
  obtain d s' where r: "sock_recv (min room PH_HTTP_FETCH_CHUNK) s = (Some d, s')" using recv_some [OF step(3)] by blast
  have s': "d @ stream_bytes s' = stream_bytes s" "Net_Failed \<notin> set s'" using recv_bytes [OF r step(3)] by simp_all
  have u: "read_body_loop deadline now n k s resp f =
      (if d = [] then Inr (resp, True, f)
       else case body_verdict n f (resp @ d) of Read_done r \<Rightarrow> Inl r | Read_break f \<Rightarrow> Inr (resp @ d, False, f)
         | Read_more f \<Rightarrow> read_body_loop deadline now n (Suc k) s' (resp @ d) f)"
    using assms(3) [of k] room(1) by (subst read_body_loop.simps) (simp add: Let_def room_def [symmetric] r)
  show ?case
  proof (cases "d = []")
    case True
    then have "resp = R" using recv_closed [of _ s s'] r room(2) step(2) by auto
    with True u show ?thesis by auto
  next
    case False
    have R: "(resp @ d) @ stream_bytes s' = R" using step(2) s'(1) by simp
    have "resp @ d = R \<or> strict_prefix (resp @ d) R" using R by (metis prefixI prefix_order.le_imp_less_or_eq)
    then consider "resp @ d = R" "body_verdict n f R = Read_break True" | f' where "body_verdict n f (resp @ d) = Read_more f'"
      using assms(5) [of "resp @ d" f] assms(6) [of f] by metis
    then show ?thesis
    proof cases
      case (2 f')
      then show ?thesis using step(1) [OF r False R s'(2), of f'] u False by simp
    qed (use u False in auto)
  qed
qed

lemma split_response:
  assumes "head_ok head"
  shows "find_header_end (head @ BLANK_LINE @ b) = Some (length head)" "take (length head) (head @ BLANK_LINE @ b) = head"
    "drop (length head + 4) (head @ BLANK_LINE @ b) = b" "length head \<le> PH_HTTP_HEADER_CAP"
  using assms header_end_whole [OF assms] by (simp_all add: BLANK_LINE_def CRLF_def head_ok_def PH_HTTP_HEADER_CAP_def)

lemma strict_prefix_response:
  assumes "strict_prefix p (response head fr)"
  obtains "length p < length head + 4" "prefix p (response head fr)" | b where "p = head @ BLANK_LINE @ b" "strict_prefix b (body_text fr)"
proof -
  have p: "prefix p (head @ BLANK_LINE @ body_text fr)" "p \<noteq> head @ BLANK_LINE @ body_text fr"
    using assms by (auto simp: strict_prefix_def response_def)
  from p(1) show thesis
    by (cases rule: prefix_of_response) (use that p in \<open>auto simp: response_def strict_prefix_def\<close>)
qed

lemma verdict_split:
  assumes "head_ok head"
  shows "body_verdict n f (head @ BLANK_LINE @ b) =
    (if scan_transfer_chunked head then
       (if fst (decode_chunked_full None b) = 1 then Read_break True
        else if fst (decode_chunked_full None b) < 0 then Read_done PH_HTTP_RESPONSE_TRUNCATED else Read_more True)
     else if scan_content_length head < 0 then Read_more f
     else if n \<le> nat (scan_content_length head) then Read_done PH_HTTP_RESPONSE_TOO_LARGE
     else if nat (scan_content_length head) \<le> length b then Read_break True else Read_more True)"
  using split_response(1-3) [OF assms, of b] split_response(4) [OF assms] by (simp add: body_verdict_def Let_def)

lemma verdict_cut:
  assumes "head_ok head" "announces head fr" "length (payload fr) < n" "n \<le> SIZE_MAX" "strict_prefix p (response head fr)"
  shows "\<exists>f'. body_verdict n f p = Read_more f'"
  using assms(5)
proof (cases rule: strict_prefix_response)
  case 1
  have "find_header_end p = None" using header_end_cut [OF assms(1)] 1 by (simp add: response_def)
  moreover have "length p < PH_HTTP_HEADER_CAP" using 1(1) assms(1) by (simp add: head_ok_def PH_HTTP_HEADER_CAP_def)
  ultimately show ?thesis by (simp add: body_verdict_def)
next
  case (2 b)
  show ?thesis
  proof (cases fr)
    case (Chunked cs)
    then have "fst (decode_chunks None b []) = 0" using decode_cut [of b cs "[]" None] 2(2) assms(2-4) by simp
    then show ?thesis using Chunked assms(2) by (auto simp: 2(1) verdict_split [OF assms(1)] decode_chunked_full_def)
  next
    case (Sized x)
    then have "length b < length x" using 2(2) prefix_length_less by simp
    then show ?thesis using Sized assms(2,3) by (auto simp: 2(1) verdict_split [OF assms(1)])
  next
    case (Until_close x)
    then show ?thesis using assms(2) by (simp add: 2(1) verdict_split [OF assms(1)])
  qed
qed

lemma verdict_whole:
  assumes "head_ok head" "announces head fr" "length (payload fr) < n" "n \<le> SIZE_MAX"
  shows "body_verdict n f (response head fr) = Read_break True \<or> (\<exists>f'. body_verdict n f (response head fr) = Read_more f')"
proof (cases fr)
  case (Chunked cs)
  then have "fst (decode_chunks None (encode_chunks cs) []) = 1" using decode_encoded [of cs "[]" None] assms(2-4) by simp
  then show ?thesis using Chunked assms(2) by (simp add: response_def verdict_split [OF assms(1)] decode_chunked_full_def)
qed (use assms(2,3) in \<open>simp_all add: response_def verdict_split [OF assms(1)]\<close>)

lemma decode_split:
  assumes "head_ok head"
  shows "ph__http_decode_response_body (head @ BLANK_LINE @ b) n =
    (if scan_transfer_chunked head then
       (if fst (decode_chunked_full (Some n) b) = -2 then PH_HTTP_RESPONSE_TOO_LARGE
        else if fst (decode_chunked_full (Some n) b) = 1 then parse_status head else PH_HTTP_RESPONSE_TRUNCATED,
        snd (decode_chunked_full (Some n) b))
     else let b' = (if 0 \<le> scan_content_length head then take (nat (scan_content_length head)) b else b)
     in if 0 \<le> scan_content_length head \<and> length b < nat (scan_content_length head) then (PH_HTTP_RESPONSE_TRUNCATED, [])
     else if b' \<noteq> [] \<and> (n = 0 \<or> n \<le> length b') then (PH_HTTP_RESPONSE_TOO_LARGE, []) else (parse_status head, b'))"
  using split_response(1-3) [OF assms, of b] assms
  by (simp add: ph__http_decode_response_body_def Let_def case_prod_beta head_ok_def)

lemma decode_whole:
  assumes "head_ok head" "announces head fr" "length (payload fr) < n" "n \<le> SIZE_MAX"
  shows "ph__http_decode_response_body (response head fr) n = (parse_status head, payload fr)"
proof (cases fr)
  case (Chunked cs)
  then have "decode_chunks (Some n) (encode_chunks cs) [] = (1, concat cs)" using decode_encoded [of cs "[]" "Some n"] assms(2-4) by simp
  then show ?thesis using Chunked assms(2) by (simp add: response_def decode_split [OF assms(1)] decode_chunked_full_def)
qed (use assms(2,3) in \<open>auto simp: response_def decode_split [OF assms(1)]\<close>)

lemma decode_cut_response:
  assumes "head_ok head" "announces head fr" "length (payload fr) \<le> SIZE_MAX" "strict_prefix p (response head fr)" "\<forall>b. fr \<noteq> Until_close b"
  shows "fst (ph__http_decode_response_body p n) < 0"
  using assms(4)
proof (cases rule: strict_prefix_response)
  case 1
  have "find_header_end p = None" using header_end_cut [OF assms(1)] 1 by (simp add: response_def)
  then show ?thesis by (simp add: ph__http_decode_response_body_def PH_HTTP_RESPONSE_TRUNCATED_def)
next
  case (2 b)
  note neg = PH_HTTP_RESPONSE_TRUNCATED_def PH_HTTP_RESPONSE_TOO_LARGE_def
  show ?thesis
  proof (cases fr)
    case (Chunked cs)
    then have "fst (decode_chunks (Some n) b []) \<noteq> 1" using decode_cut [of b cs "[]" "Some n"] 2(2) assms(2,3) by auto
    then show ?thesis using Chunked assms(2) by (simp add: 2(1) decode_split [OF assms(1)] decode_chunked_full_def neg)
  next
    case (Sized x)
    then have "length b < length x" using 2(2) prefix_length_less by simp
    then show ?thesis using Sized assms(2) by (simp add: 2(1) decode_split [OF assms(1)] neg)
  qed (use assms(5) in blast)
qed

lemma decode_response_fits: "length (snd (ph__http_decode_response_body resp n)) \<le> n - 1"
proof -
  have "length (snd (decode_chunks (Some n) b [])) \<le> n - Suc 0" for b using decode_fits [of "[]" n] by simp
  then show ?thesis
    by (cases "find_header_end resp")
      (auto simp: ph__http_decode_response_body_def decode_chunked_full_def Let_def case_prod_beta)
qed

section \<open>Facts: the status path\<close>

lemma copy_room_fits: "length copied \<le> n - 1 \<Longrightarrow> length (copy_room n copied d) \<le> n - 1"
  by (auto simp: copy_room_def)

lemma chunked_prefix_fits: "length copied \<le> n - 1 \<Longrightarrow> length (fst (chunked_prefix n body copied)) \<le> n - 1"
proof (induction n body copied rule: chunked_prefix.induct)
  case (1 n body copied)
  show ?case
    by (subst chunked_prefix.simps)
      (use 1(1) [OF _ refl _ refl] 1(2) copy_room_fits [OF 1(2)] in \<open>auto simp: Let_def split: option.split\<close>)
qed

lemma body_prefix_fits: "0 < n \<Longrightarrow> length (fst (copy_body_prefix body ch n)) \<le> n - 1"
  using chunked_prefix_fits [of "[]" n body] by (simp add: copy_body_prefix_def copy_chunked_prefix_def)

lemma sat_size_hex: "n \<le> SIZE_MAX \<Longrightarrow> sat_size (nat_hex n @ r) 0 = sat_size r n"
proof (induction n arbitrary: r rule: nat_hex.induct)
  case (1 n)
  show ?case
  proof (cases "n < 16")
    case True
    then show ?thesis by (simp add: nat_hex.simps [of n] hex_value_digit SIZE_MAX_def)
  next
    case False
    have "n div 16 * 16 = n - n mod 16" by (simp add: minus_mod_eq_div_mult)
    then have "n div 16 \<le> (SIZE_MAX - n mod 16) div 16" using 1(2) by (simp add: less_eq_div_iff_mult_less_eq diff_le_mono)
    moreover have "n div 16 \<le> SIZE_MAX" using 1(2) by (meson div_le_dividend order_trans)
    ultimately show ?thesis
      using False 1(1) [OF False, of "hex_digit (n mod 16) # r"] by (simp add: nat_hex.simps [of n] hex_value_digit)
  qed
qed

lemma hex_char_plain: "hex_char c \<Longrightarrow> \<not> is_blank c" "\<not> hex_char CR" "\<not> hex_char LF" "hex_char c \<Longrightarrow> c \<noteq> LF"
  by (auto simp: hex_char_def hex_value_def is_blank_def byte_val_def split: if_splits)

lemma drop_hex: "dropWhile is_blank (nat_hex n @ r) = nat_hex n @ r" "nat_hex n @ r \<noteq> []" "hex_char (hd (nat_hex n @ r))"
  "dropWhile hex_char (nat_hex n @ CR # r) = CR # r"
proof -
  obtain c cs where c: "nat_hex n = c # cs" "hex_char c" using nat_hex_chars [of n] nat_hex_nonempty [of n] by (cases "nat_hex n") auto
  then show "dropWhile is_blank (nat_hex n @ r) = nat_hex n @ r" "nat_hex n @ r \<noteq> []" "hex_char (hd (nat_hex n @ r))"
    by (simp_all add: hex_char_plain)
  show "dropWhile hex_char (nat_hex n @ CR # r) = CR # r"
    using nat_hex_chars [of n] by (subst dropWhile_append2) (auto simp: list_all_iff hex_char_plain)
qed

lemma chunk_head_line: "n \<le> SIZE_MAX \<Longrightarrow> chunk_head (nat_hex n @ CRLF @ r) = Some (n, r)"
  by (simp add: chunk_head_def Let_def crlf_chars drop_hex drop_hex(3) [of n "[]", simplified] sat_size_hex)

lemma chunk_head_no_line: "LF \<notin> set p \<Longrightarrow> chunk_head p = None"
proof -
  assume "LF \<notin> set p"
  then have "dropWhile (\<lambda>c. c \<noteq> LF) (dropWhile hex_char (dropWhile is_blank p)) = []"
    by (auto simp: dropWhile_eq_Nil_conv dest!: set_dropWhileD)
  then show ?thesis by (simp add: chunk_head_def)
qed

lemma copy_room_prefix: "prefix (copy_room n copied d) (copied @ d)"
  by (simp add: copy_room_def take_is_prefix)

lemma copy_room_all: "0 < n \<Longrightarrow> \<not> n \<le> length (copy_room n copied d) + 1 \<Longrightarrow> copy_room n copied d = copied @ d"
  by (auto simp: copy_room_def split: if_splits)

lemma chunked_prefix_data:
  assumes "chunk_head body = Some (k, rest)" "k \<noteq> 0"
  shows "fst (chunked_prefix n body copied) =
    (let cp = copy_room n copied (take k rest)
     in if 0 < n \<and> n \<le> length cp + 1 \<or> length rest < k \<or> end_of_data (drop k rest) = None then cp
        else fst (chunked_prefix n (the (end_of_data (drop k rest))) cp))"
  by (subst chunked_prefix.simps) (simp add: assms Let_def split: option.split)

lemma end_of_data_simps: "end_of_data [] = None" "end_of_data [CR] = None" "end_of_data (CRLF @ r) = Some r"
  by (simp_all add: end_of_data_def CRLF_def)

lemma prefix_step:
  assumes "0 < n" "c \<noteq> []" "length c \<le> SIZE_MAX"
  shows "length d < length c \<Longrightarrow> fst (chunked_prefix n (nat_hex (length c) @ CRLF @ d) copied) = copy_room n copied d"
    "end_of_data e = None \<Longrightarrow> fst (chunked_prefix n (nat_hex (length c) @ CRLF @ c @ e) copied) = copy_room n copied c"
    "fst (chunked_prefix n (nat_hex (length c) @ CRLF @ c @ CRLF @ r) copied) =
      (if n \<le> length (copy_room n copied c) + 1 then copy_room n copied c else fst (chunked_prefix n r (copied @ c)))"
proof -
  have k: "length c \<noteq> 0" using assms(2) by simp
  note u = chunked_prefix_data [OF chunk_head_line [OF assms(3)] k, of n]
  show "length d < length c \<Longrightarrow> fst (chunked_prefix n (nat_hex (length c) @ CRLF @ d) copied) = copy_room n copied d"
    "end_of_data e = None \<Longrightarrow> fst (chunked_prefix n (nat_hex (length c) @ CRLF @ c @ e) copied) = copy_room n copied c"
    by (simp_all add: u Let_def)
  show "fst (chunked_prefix n (nat_hex (length c) @ CRLF @ c @ CRLF @ r) copied) =
      (if n \<le> length (copy_room n copied c) + 1 then copy_room n copied c else fst (chunked_prefix n r (copied @ c)))"
    using copy_room_all [OF assms(1), of copied c] assms(1) by (simp add: u Let_def end_of_data_simps)
qed

lemma nat_hex_0: "nat_hex 0 = ''0''"
  by (simp add: nat_hex.simps) code_simp

text \<open>On a cut body the forgiving decoder yields an initial part of the payload.\<close>

lemma chunked_prefix_cut:
  "prefix p (encode_chunks cs) \<Longrightarrow> list_all (\<lambda>c. c \<noteq> []) cs \<Longrightarrow> length (concat cs) \<le> SIZE_MAX \<Longrightarrow> 0 < n \<Longrightarrow>
   prefix (fst (chunked_prefix n p copied)) (copied @ concat cs)"
proof (induction cs arbitrary: p copied)
  case Nil
  have "LF \<notin> set p \<or> (\<exists>x. p = nat_hex 0 @ CRLF @ x)"
    using Nil(1) by (auto simp: crlf_chars prefix_Cons nat_hex_0)
  then have "chunk_head p = None \<or> (\<exists>x. chunk_head p = Some (0, x))" using chunk_head_no_line chunk_head_line [of 0] by auto
  then show ?case by (subst chunked_prefix.simps) auto
next
  case (Cons c cs)
  have s: "length c \<le> SIZE_MAX" "c \<noteq> []" using Cons.prems by auto
  note step = prefix_step [OF Cons.prems(4) s(2,1)]
  have room: "prefix (copy_room n copied d) (copied @ concat (c # cs))" if "prefix d c" for d
    by (rule prefix_order.trans [OF copy_room_prefix]) (use that in \<open>auto simp: prefix_def\<close>)
  consider "p = nat_hex (length c) @ CRLF @ c @ CRLF @ encode_chunks cs" | "strict_prefix p (nat_hex (length c) @ CRLF @ c @ CRLF @ encode_chunks cs)"
    using Cons.prems(1) by (auto simp: strict_prefix_def)
  then consider "LF \<notin> set p" | d where "p = nat_hex (length c) @ CRLF @ d" "prefix d c" "length d < length c"
    | e where "p = nat_hex (length c) @ CRLF @ c @ e" "end_of_data e = None"
    | r where "p = nat_hex (length c) @ CRLF @ c @ CRLF @ r" "prefix r (encode_chunks cs)"
  proof cases
    case 2
    have lf: "LF \<notin> set (nat_hex (length c))" using nat_hex_chars [of "length c"] hex_char_plain by (auto simp: list_all_iff)
    have "LF \<notin> set p" if "prefix p (nat_hex (length c))" using lf set_mono_prefix [OF that] by blast
    with 2 Cons.prems(1) lf that show thesis
      by (cases rule: cut_chunk) (auto simp: end_of_data_simps strict_prefix_def prefix_append dest: prefix_length_le)
  qed (use that in blast)
  then show ?case
  proof cases
    case 1
    then show ?thesis by (subst chunked_prefix.simps) (simp add: chunk_head_no_line)
  next
    case (4 r)
    have "prefix (fst (chunked_prefix n r (copied @ c))) ((copied @ c) @ concat cs)"
      by (rule Cons.IH [OF 4(2)]) (use Cons.prems in auto)
    then show ?thesis using room [of c] by (simp add: 4(1) step)
  qed (use room in \<open>simp_all add: step\<close>)
qed

lemma dropWhile_stop: "dropWhile P h \<noteq> [] \<Longrightarrow> dropWhile P (h @ x) = dropWhile P h @ x"
  by (induction h) auto

lemma parse_status_append:
  assumes "0 \<le> parse_status h"
  shows "parse_status (h @ x) = parse_status h"
proof -
  define w where "w = dropWhile (\<lambda>c. c \<noteq> CHR '' '') h"
  define r where "r = dropWhile (\<lambda>c. c = CHR '' '') w"
  have p: "parse_status h = (case r of a # b # c # _ \<Rightarrow>
      if \<not> is_digit a \<or> \<not> is_digit b \<or> \<not> is_digit c then -1 else int (digit_val a * 100 + digit_val b * 10 + digit_val c) | _ \<Rightarrow> -1)"
    unfolding parse_status_def w_def [symmetric] r_def [symmetric] Let_def ..
  obtain a b c t where r: "r = a # b # c # t" using assms unfolding p by (auto split: list.splits)
  have "w \<noteq> []" using r by (auto simp: r_def)
  then have 1: "dropWhile (\<lambda>c. c \<noteq> CHR '' '') (h @ x) = w @ x" unfolding w_def by (rule dropWhile_stop)
  have 2: "dropWhile (\<lambda>c. c = CHR '' '') (w @ x) = r @ x" unfolding r_def by (rule dropWhile_stop) (simp add: r_def [symmetric] r)
  show ?thesis unfolding p unfolding parse_status_def 1 2 Let_def by (simp add: r)
qed

lemma status_loop_all:
  assumes "resp @ stream_bytes s = R" "Net_Failed \<notin> set s" "\<And>k. \<not> timed_out deadline (now k)" "length resp < PH_HTTP_STATUS_BUF - 1"
  shows "\<exists>resp'. read_status_loop deadline now k s resp = Some resp' \<and> prefix resp' R \<and> length resp' \<le> PH_HTTP_STATUS_BUF - 1 \<and>
    (resp' = R \<or> ph__http_send_response_complete resp' \<or> length resp' = PH_HTTP_STATUS_BUF - 1)"
  using assms(1,2,4)
proof (induction k s resp rule: recv_induct)
  case (step k s resp)
  obtain d s' where r: "sock_recv (PH_HTTP_STATUS_BUF - 1 - length resp) s = (Some d, s')" using recv_some [OF step(3)] by blast
  have s': "d @ stream_bytes s' = stream_bytes s" "Net_Failed \<notin> set s'" using recv_bytes [OF r step(3)] by simp_all
  have R: "(resp @ d) @ stream_bytes s' = R" using step(2) s'(1) by simp
  then have p: "prefix (resp @ d) R" by (metis prefixI)
  have l: "length (resp @ d) \<le> PH_HTTP_STATUS_BUF - 1" using recv_room [OF r] step(4) by simp
  have u: "read_status_loop deadline now k s resp =
      (if d = [] then Some resp else if ph__http_send_response_complete (resp @ d) then Some (resp @ d)
       else if PH_HTTP_STATUS_BUF - 1 \<le> length (resp @ d) then Some (resp @ d)
       else read_status_loop deadline now (Suc k) s' (resp @ d))"
    unfolding read_status_loop.simps [of deadline now k s resp] r using assms(3) [of k] by simp
  show ?case
  proof (cases "d = []")
    case True
    then have "resp = R" using recv_closed [of _ s s'] r step(2,4) by auto
    then show ?thesis using True u step(4) by simp
  next
    case False
    show ?thesis using step(1) [OF r False R s'(2)] u False p l by auto
  qed
qed

lemma cstr_view_prefix: "prefix (cstr_view s) s"
  by (simp add: cstr_view_def takeWhile_is_prefix)

lemma meta_bounds:
  "length (sm_retry_after (snd (ph__http_parse_response_meta resp))) < 64"
  "length (sm_body (snd (ph__http_parse_response_meta resp))) < PH_RESP_BODY_CAP"
proof -
  have "length (scan_retry_after h 64) < 64" for h by (auto simp: scan_retry_after_def split: option.split)
  then show "length (sm_retry_after (snd (ph__http_parse_response_meta resp))) < 64"
    by (auto simp: ph__http_parse_response_meta_def Let_def intro: le_less_trans [OF length_cstr_view_le])
  have "length (fst (copy_body_prefix b ch PH_RESP_BODY_CAP)) < PH_RESP_BODY_CAP" for b ch
    using body_prefix_fits [of PH_RESP_BODY_CAP b ch] by (simp add: caps)
  then show "length (sm_body (snd (ph__http_parse_response_meta resp))) < PH_RESP_BODY_CAP"
    by (auto simp: ph__http_parse_response_meta_def Let_def caps intro: le_less_trans [OF length_cstr_view_le] split: option.split)
qed

lemma meta_split:
  assumes "head_ok head"
  shows "ph__http_parse_response_meta (head @ BLANK_LINE @ b) = (parse_status head,
    \<lparr>sm_retry_after = cstr_view (scan_retry_after head 64),
     sm_body = cstr_view (fst (copy_body_prefix b (scan_transfer_chunked head) PH_RESP_BODY_CAP))\<rparr>)"
  using split_response(1-3) [OF assms, of b] parse_status_append [of head "BLANK_LINE @ b"] assms
  by (simp add: ph__http_parse_response_meta_def Let_def head_ok_def)

lemma body_prefix_of_payload:
  assumes "announces head fr" "length (payload fr) \<le> SIZE_MAX" "prefix b (body_text fr)"
  shows "prefix (fst (copy_body_prefix b (scan_transfer_chunked head) PH_RESP_BODY_CAP)) (payload fr)"
proof (cases fr)
  case (Chunked cs)
  then show ?thesis
    using chunked_prefix_cut [of b cs PH_RESP_BODY_CAP "[]"] assms by (simp add: copy_body_prefix_def copy_chunked_prefix_def caps)
qed (use assms in \<open>auto simp: copy_body_prefix_def intro: prefix_order.trans [OF take_is_prefix]\<close>)

text \<open>What the status path ends with covers the head, and of a sized body as much as is kept.\<close>

lemma complete_covers_head:
  assumes "head_ok head" "length head \<le> 4091" "prefix r (response head fr)"
    "r = response head fr \<or> ph__http_send_response_complete r \<or> length r = PH_HTTP_STATUS_BUF - 1"
  obtains b where "r = head @ BLANK_LINE @ b" "prefix b (body_text fr)"
proof -
  have "length head + 4 \<le> length r"
  proof (rule ccontr)
    assume "\<not> length head + 4 \<le> length r"
    then have s: "length r < length head + 4" by simp
    have "find_header_end r = None" by (rule header_end_cut [OF assms(1) _ s]) (use assms(3) in \<open>simp add: response_def\<close>)
    then have "\<not> ph__http_send_response_complete r" by (simp add: ph__http_send_response_complete_def)
    then show False using assms(2,4) s by (auto simp: response_def BLANK_LINE_def CRLF_def PH_HTTP_STATUS_BUF_def)
  qed
  with assms(3) that show thesis by (auto simp: response_def elim: prefix_of_response)
qed

lemma sized_prefix_kept:
  assumes "head_ok head" "length head \<le> 3000" "\<not> scan_transfer_chunked head" "scan_content_length head = int (length x)" "prefix b x"
    "b = x \<or> ph__http_send_response_complete (head @ BLANK_LINE @ b) \<or> length (head @ BLANK_LINE @ b) = PH_HTTP_STATUS_BUF - 1"
  shows "take (PH_RESP_BODY_CAP - 1) b = take (PH_RESP_BODY_CAP - 1) x"
proof -
  have "b = x \<or> PH_RESP_BODY_CAP - 1 \<le> length b"
    using assms(2-6) split_response(1-3) [OF assms(1), of b]
    by (auto simp: ph__http_send_response_complete_def Let_def BLANK_LINE_def CRLF_def PH_HTTP_STATUS_BUF_def caps prefix_def)
  then show ?thesis using assms(5) by (auto simp: prefix_def)
qed

lemma status_response_parts:
  assumes "head_ok head" "length head \<le> 4091" "stream_bytes s = response head fr" "Net_Failed \<notin> set s" "\<forall>k. \<not> timed_out deadline (now k)"
  obtains b where "prefix b (body_text fr)"
    "b = body_text fr \<or> ph__http_send_response_complete (head @ BLANK_LINE @ b) \<or> length (head @ BLANK_LINE @ b) = PH_HTTP_STATUS_BUF - 1"
    "read_status_response deadline now s = ph__http_parse_response_meta (head @ BLANK_LINE @ b)"
proof -
  have "[] @ stream_bytes s = response head fr" using assms(3) by simp
  then obtain r where r: "read_status_loop deadline now 0 s [] = Some r" "prefix r (response head fr)"
      "r = response head fr \<or> ph__http_send_response_complete r \<or> length r = PH_HTTP_STATUS_BUF - 1"
    using status_loop_all [of "[]" s "response head fr" deadline now 0] assms(4,5) by (auto simp: PH_HTTP_STATUS_BUF_def)
  obtain b where b: "r = head @ BLANK_LINE @ b" "prefix b (body_text fr)"
    by (rule complete_covers_head [OF assms(1,2) r(2,3)])
  have "r \<noteq> []" by (simp add: b(1) BLANK_LINE_def CRLF_def)
  then have "read_status_response deadline now s = ph__http_parse_response_meta r" by (simp add: read_status_response_def r(1))
  with that [OF b(2)] r(3) show thesis by (simp add: b(1) response_def)
qed

section \<open>Sample exchanges\<close>

definition sample_head :: bytes where
  "sample_head = ''HTTP/1.1 200 OK'' @ CRLF @ ''Transfer-Encoding: chunked''"

definition sample_busy_head :: bytes where
  "sample_busy_head = ''HTTP/1.1 429 Slow'' @ CRLF @ ''Retry-After: 7'' @ CRLF @ ''Content-Length: 2''"

definition sample_chunks :: framing where
  "sample_chunks = Chunked [''{'', ''}'']"

lemma sample_head_ok: "head_ok sample_head" "announces sample_head sample_chunks" "parse_status sample_head = 200"
  unfolding head_ok_def by code_simp+

lemma sample_busy_head_ok: "head_ok sample_busy_head" "announces sample_busy_head (Sized ''ok'')" "parse_status sample_busy_head = 429"
  "scan_retry_after sample_busy_head 64 = ''7''"
  unfolding head_ok_def by code_simp+

section \<open>Properties\<close>

text \<open>
  C6. A response is read whole however the network cuts it. For every status line and headers the
  reader accepts and every body framed by chunks, by a length or by the close of the connection,
  delivered in any segments before the deadline: if the decoded body fits the caller's buffer and
  the framing fits the reader's, the fetch returns the response's status and exactly its body.
\<close>

theorem fetch_reads_response:
  assumes "head_ok head" "announces head fr" "stream_bytes s = response head fr" "Net_Failed \<notin> set s" "\<forall>k. \<not> timed_out deadline (now k)"
    "length (payload fr) < out_cap" "length (response head fr) < out_cap + 32768" "out_cap < 2 ^ 63"
  shows "read_body_response True out_cap deadline now s = (parse_status head, payload fr)"
proof -
  have cap: "out_cap \<le> SIZE_MAX" "\<not> SIZE_MAX - PH_HTTP_HEADER_CAP - PH_HTTP_CHUNK_OVERHEAD_CAP - 1 < out_cap"
    using assms(8) by (simp_all add: SIZE_MAX_def PH_HTTP_HEADER_CAP_def PH_HTTP_CHUNK_OVERHEAD_CAP_def)
  have len: "length (response head fr) < out_cap + PH_HTTP_HEADER_CAP + PH_HTTP_CHUNK_OVERHEAD_CAP"
    using assms(7) by (simp add: PH_HTTP_HEADER_CAP_def PH_HTTP_CHUNK_OVERHEAD_CAP_def)
  have "[] @ stream_bytes s = response head fr" using assms(3) by simp
  then have "\<exists>b f. read_body_loop deadline now out_cap 0 s [] False = Inr (response head fr, b, f) \<and> (b \<or> f)"
    by (rule loop_reads_all [OF _ assms(4) _ len])
      (use assms(5) verdict_cut [OF assms(1,2,6) cap(1)] verdict_whole [OF assms(1,2,6) cap(1)] in blast)+
  then show ?thesis using cap(2) decode_whole [OF assms(1,2,6) cap(1)] by (auto simp: read_body_response_def)
qed

text \<open>
  C7. A cut response is never taken for a complete one, and no response overruns the buffer. When
  the peer sends a proper initial part of a response with chunked or length framing, then closes,
  fails or stalls past the deadline, the fetch reports a failure, never the status. And whatever
  bytes arrive in whatever segments, what is written leaves room for the terminating NUL.
\<close>

theorem fetch_rejects_cut_response:
  assumes "head_ok head" "announces head fr" "\<forall>b. fr \<noteq> Until_close b" "length (payload fr) \<le> SIZE_MAX"
    "strict_prefix (stream_bytes s) (response head fr)"
  shows "fst (read_body_response mem out_cap deadline now s) < 0 \<and>
    (\<forall>s'. length (snd (read_body_response mem out_cap deadline now s')) \<le> out_cap - 1)"
proof
  note neg = PH_HTTP_RESPONSE_TRUNCATED_def PH_HTTP_RESPONSE_TOO_LARGE_def
  have "fst (ph__http_decode_response_body resp out_cap) < 0"
    if "read_body_loop deadline now out_cap 0 s [] False = Inr (resp, b, f)" for resp b f
  proof -
    have "prefix resp (stream_bytes s)" using loop_prefix [OF that] by simp
    then have "strict_prefix resp (response head fr)" using assms(5) by (rule prefix_order.le_less_trans)
    then show ?thesis by (rule decode_cut_response [OF assms(1,2,4) _ assms(3)])
  qed
  then show "fst (read_body_response mem out_cap deadline now s) < 0"
    using loop_negative [of deadline now out_cap 0 s "[]" False]
    by (auto simp: read_body_response_def neg split: sum.split)
  show "\<forall>s'. length (snd (read_body_response mem out_cap deadline now s')) \<le> out_cap - 1"
    using decode_response_fits [of _ out_cap] by (auto simp: read_body_response_def split: sum.split)
qed

text \<open>
  C10. The sender learns what the server said, however the network cuts the answer. If the head fits
  the status buffer, the status and the \<open>Retry-After\<close> value the send path reports are those of the
  response, and the body prefix in which the quota notice is looked for is an initial part of the
  decoded body; with length framing and a head of up to 3000 bytes it is the whole prefix that the
  buffer can hold. No response overruns the two buffers.
\<close>

theorem status_reads_back:
  assumes "head_ok head" "length head \<le> 4091" "announces head fr" "length (payload fr) \<le> SIZE_MAX"
    "stream_bytes s = response head fr" "Net_Failed \<notin> set s" "\<forall>k. \<not> timed_out deadline (now k)"
  shows "let (status, meta) = read_status_response deadline now s in
    status = parse_status head \<and> sm_retry_after meta = cstr_view (scan_retry_after head 64) \<and> prefix (sm_body meta) (payload fr) \<and>
    (\<forall>b. fr = Sized b \<and> length head \<le> 3000 \<longrightarrow> sm_body meta = cstr_view (take (PH_RESP_BODY_CAP - 1) b)) \<and>
    length (sm_retry_after meta) < 64 \<and> length (sm_body meta) < PH_RESP_BODY_CAP"
proof -
  obtain b where b: "prefix b (body_text fr)"
      "b = body_text fr \<or> ph__http_send_response_complete (head @ BLANK_LINE @ b) \<or> length (head @ BLANK_LINE @ b) = PH_HTTP_STATUS_BUF - 1"
      "read_status_response deadline now s = ph__http_parse_response_meta (head @ BLANK_LINE @ b)"
    by (rule status_response_parts [OF assms(1,2,5-7)])
  have p: "prefix (cstr_view (fst (copy_body_prefix b (scan_transfer_chunked head) PH_RESP_BODY_CAP))) (payload fr)"
    by (rule prefix_order.trans [OF cstr_view_prefix body_prefix_of_payload [OF assms(3,4) b(1)]])
  have z: "cstr_view (fst (copy_body_prefix b (scan_transfer_chunked head) PH_RESP_BODY_CAP)) = cstr_view (take (PH_RESP_BODY_CAP - 1) x)"
    if "fr = Sized x" "length head \<le> 3000" for x
    using sized_prefix_kept [OF assms(1) that(2), of x b] assms(3) b(1,2) that(1)
    by (auto simp: copy_body_prefix_def caps)
  show ?thesis
    using meta_bounds [of "head @ BLANK_LINE @ b"] p z unfolding b(3) meta_split [OF assms(1)] by simp
qed

theorem fetch_reads_response_witness:
  "read_body_response True 64 0 (\<lambda>k. 0) [Segment (take 50 (response sample_head sample_chunks)), Segment [],
     Segment (drop 50 (response sample_head sample_chunks))] = (200, ''{}'')"
proof -
  let ?s = "[Segment (take 50 (response sample_head sample_chunks)), Segment [], Segment (drop 50 (response sample_head sample_chunks))]"
  have b: "stream_bytes ?s = response sample_head sample_chunks" "Net_Failed \<notin> set ?s" "\<forall>k::nat. \<not> timed_out 0 0" by (simp_all add: timed_out_def)
  have l: "length (payload sample_chunks) < 64" "length (response sample_head sample_chunks) < 64 + 32768" "(64 :: nat) < 2 ^ 63"
    by (simp_all add: sample_chunks_def sample_head_def response_def BLANK_LINE_def CRLF_def nat_hex.simps)
  have p: "payload sample_chunks = ''{}''" by (simp add: sample_chunks_def)
  from fetch_reads_response [OF sample_head_ok(1,2) b l] sample_head_ok(3) p show ?thesis by simp
qed

theorem fetch_rejects_cut_response_witness:
  "fst (read_body_response True 64 0 (\<lambda>k. 0) [Segment (take 50 (response sample_head sample_chunks))]) < 0"
proof -
  have c: "strict_prefix (stream_bytes [Segment (take 50 (response sample_head sample_chunks))]) (response sample_head sample_chunks)"
    by code_simp
  have l: "\<forall>b. sample_chunks \<noteq> Until_close b" "length (payload sample_chunks) \<le> SIZE_MAX" by (simp_all add: sample_chunks_def SIZE_MAX_def)
  from fetch_rejects_cut_response [OF sample_head_ok(1,2) l c, of True 64 0 "\<lambda>k. 0"] show ?thesis by (rule conjunct1)
qed

theorem status_reads_back_witness:
  "\<exists>meta. read_status_response 0 (\<lambda>k. 0) [Segment (take 20 (response sample_busy_head (Sized ''ok''))),
     Segment (drop 20 (response sample_busy_head (Sized ''ok'')))] = (429, meta) \<and> sm_retry_after meta = ''7'' \<and> sm_body meta = ''ok''"
proof -
  let ?r = "response sample_busy_head (Sized ''ok'')"
  let ?s = "[Segment (take 20 ?r), Segment (drop 20 ?r)]"
  have b: "stream_bytes ?s = ?r" "Net_Failed \<notin> set ?s" "\<forall>k::nat. \<not> timed_out 0 0" by (simp_all add: timed_out_def)
  have l: "length sample_busy_head \<le> 4091" "length (payload (Sized ''ok'')) \<le> SIZE_MAX" "length sample_busy_head \<le> 3000"
    by (simp_all add: sample_busy_head_def CRLF_def SIZE_MAX_def)
  have v: "cstr_view ''7'' = ''7''" "cstr_view (take (PH_RESP_BODY_CAP - 1) ''ok'') = ''ok''" by code_simp+
  from status_reads_back [OF sample_busy_head_ok(1) l(1) sample_busy_head_ok(2) l(2) b] sample_busy_head_ok(3,4) l(3) v
  show ?thesis by (auto simp: case_prod_beta Let_def prod_eq_iff)
qed

end
