(* ===== verification/Ph_Tls.thy ===== *)
theory Ph_Tls
  imports Ph_Http
begin

text \<open>
  HTTPS, from \<^verbatim>\<open>src/ph_tls.c\<close>: deadlines, connecting, the request text, the result of a response,
  and one request through each of the three backends (OpenSSL on Linux, Secure Transport on macOS,
  WinHTTP on Windows), of which a build has one. The calls of the TLS libraries and of the system
  are arguments, as lists of what successive calls give: a call that is interrupted or would block is
  one element, and a list that ends is a call that fails. Byte lists written to a session are its
  plaintext; the handshake of an environment depends on the host name that was set for it.
\<close>

section \<open>Deadlines\<close>

definition tls_deadline :: "int \<Rightarrow> u64 \<Rightarrow> u64" where
  "tls_deadline timeout_ms now =
     (if timeout_ms \<le> 0 then 0
      else let add = of_int timeout_ms * 1000000
           in if - 1 - now < add then - 1 else now + add)"

definition tls_remaining_ms :: "u64 \<Rightarrow> u64 \<Rightarrow> int" where
  "tls_remaining_ms deadline now =
     (if deadline = 0 then -1
      else if deadline \<le> now then 0
      else let ms = (deadline - now + 999999) div 1000000
           in if 2147483647 < ms then 2147483647 else uint ms)"

definition tls_expired :: "u64 \<Rightarrow> u64 \<Rightarrow> bool" where
  "tls_expired deadline now \<longleftrightarrow> deadline \<noteq> 0 \<and> tls_remaining_ms deadline now \<le> 0"

section \<open>The POSIX backends\<close>

text \<open>Seconds and microseconds given to the socket; \<open>None\<close> leaves it without a timeout.\<close>

type_synonym timeval = "(int \<times> int) option"

definition tls_sock_timeout :: "u64 \<Rightarrow> u64 \<Rightarrow> timeval" where
  "tls_sock_timeout deadline now =
     (let ms = tls_remaining_ms deadline now
      in if ms < 0 then None
         else let ms = (if ms = 0 then 1 else ms) in Some (ms div 1000, ms mod 1000 * 1000))"

text \<open>An address of the host: whether a socket is made, the clock, and how \<open>connect\<close> goes within a timeout.\<close>

record tls_address =
  ta_socket :: bool
  ta_now :: u64
  ta_connect :: "timeval \<Rightarrow> bool"

fun tls_connect_any :: "u64 \<Rightarrow> tls_address list \<Rightarrow> bool" where
  "tls_connect_any deadline [] = False"
| "tls_connect_any deadline (a # as) =
     (if \<not> ta_socket a then tls_connect_any deadline as
      else if ta_connect a (tls_sock_timeout deadline (ta_now a)) then True
      else tls_connect_any deadline as)"

definition tls_connect :: "(string \<Rightarrow> string \<Rightarrow> tls_address list option) \<Rightarrow> string \<Rightarrow> int \<Rightarrow> u64 \<Rightarrow> bool" where
  "tls_connect lookup_host host port deadline =
     (case lookup_host host (snprintf_trunc 16 (int_dec port)) of None \<Rightarrow> False
      | Some addrs \<Rightarrow> tls_connect_any deadline addrs)"

definition tls_build_request :: "string \<Rightarrow> int \<Rightarrow> string \<Rightarrow> bytes \<Rightarrow> string option \<Rightarrow> bytes" where
  "tls_build_request host port path body content_encoding =
     request_line (''POST '' @ (if path \<noteq> [] then path else ''/'') @ '' HTTP/1.1'' @ CRLF) @
     request_line (''Host: '' @ host @ (if port = 443 then [] else '':'' @ int_dec port) @ CRLF) @
     ''Content-Type: application/json'' @ CRLF @
     ''User-Agent: posthog-c/'' @ PH_VERSION_STRING @ CRLF @
     (case content_encoding of None \<Rightarrow> []
      | Some e \<Rightarrow> if e = [] then [] else request_line (''Content-Encoding: '' @ e @ CRLF)) @
     request_line (''Content-Length: '' @ nat_dec (length body) @ CRLF) @
     ''Connection: close'' @ CRLF @ CRLF @ body"

text \<open>Status, body or body prefix, and Retry-After; a capacity of 0 stands for an absent buffer.\<close>

definition tls_finish :: "bytes \<Rightarrow> bool \<Rightarrow> nat \<Rightarrow> nat \<Rightarrow> int \<times> bytes \<times> string" where
  "tls_finish resp require_full_body out_cap retry_after_cap =
     (if require_full_body then (let (status, body) = ph__http_decode_response_body resp out_cap in (status, body, []))
      else let (status, meta) = ph__http_parse_response_meta resp
           in (status, take (out_cap - 1) (sm_body meta), take (retry_after_cap - 1) (sm_retry_after meta)))"

definition tls_response_complete :: "bytes \<Rightarrow> bool \<Rightarrow> bool" where
  "tls_response_complete resp require_full_body =
     (if require_full_body then ph__http_body_response_complete resp else ph__http_send_response_complete resp)"

definition tls_resp_cap :: "bool \<Rightarrow> nat \<Rightarrow> nat" where
  "tls_resp_cap require_full_body out_cap = (if require_full_body then (out_cap + 32768) mod (SIZE_MAX + 1) else 8192)"

text \<open>The outcome of a request: what the caller gets, and the plaintext written on the session.\<close>

record tls_result =
  tr_status :: int
  tr_out :: bytes
  tr_retry_after :: string
  tr_wire :: bytes

definition tls_failed :: "bytes \<Rightarrow> tls_result" where
  "tls_failed w = \<lparr>tr_status = -1, tr_out = [], tr_retry_after = [], tr_wire = w\<rparr>"

definition tls_done :: "bytes \<Rightarrow> int \<times> bytes \<times> string \<Rightarrow> tls_result" where
  "tls_done w r = (case r of (status, body, retry_after) \<Rightarrow> \<lparr>tr_status = status, tr_out = body, tr_retry_after = retry_after, tr_wire = w\<rparr>)"

section \<open>Linux: OpenSSL\<close>

datatype ssl_outcome = Ssl_ok nat | Ssl_interrupted | Ssl_error

text \<open>One call of the library: the clock of the deadline test, the clock the socket timeout is
  computed from, and what the call gives with that timeout.\<close>

record ssl_call =
  sc_check :: u64
  sc_now :: u64
  sc_call :: "timeval \<Rightarrow> ssl_outcome"

text \<open>The handshake verifies the certificate chain and the host name set before it.\<close>

fun ssl_handshake :: "u64 \<Rightarrow> ssl_call list \<Rightarrow> bool" where
  "ssl_handshake deadline [] = False"
| "ssl_handshake deadline (c # cs) =
     (case sc_call c (tls_sock_timeout deadline (sc_now c)) of
        Ssl_ok n \<Rightarrow> True
      | Ssl_interrupted \<Rightarrow>
          if deadline = 0 \<or> 0 < tls_remaining_ms deadline (sc_check c) then ssl_handshake deadline cs else False
      | Ssl_error \<Rightarrow> False)"

text \<open>Whether all bytes were written, and those that were; a write takes at most \<open>INT_MAX\<close> bytes.\<close>

fun ssl_write_all :: "u64 \<Rightarrow> timeval \<Rightarrow> ssl_call list \<Rightarrow> bytes \<Rightarrow> bool \<times> bytes" where
  "ssl_write_all deadline tv cs [] = (True, [])"
| "ssl_write_all deadline tv [] (b # r) = (False, [])"
| "ssl_write_all deadline tv (c # cs) (b # r) =
     (case sc_call c tv of
        Ssl_ok n \<Rightarrow>
          if n = 0 then (False, [])
          else let n = min n (min (length (b # r)) 2147483647);
                   (ok, w) = ssl_write_all deadline tv cs (drop n (b # r))
               in (ok, take n (b # r) @ w)
      | Ssl_interrupted \<Rightarrow>
          if deadline = 0 \<or> 0 < tls_remaining_ms deadline (sc_check c)
          then ssl_write_all deadline (tls_sock_timeout deadline (sc_now c)) cs (b # r) else (False, [])
      | Ssl_error \<Rightarrow> (False, []))"

text \<open>What a session delivers to successive reads: data, an interrupted call, or the end, by a close,
  a timeout or an error; what a read has no room for stays.\<close>

datatype tls_event = Tls_data bytes | Tls_interrupted | Tls_stop

fun ssl_read :: "nat \<Rightarrow> tls_event list \<Rightarrow> tls_event \<times> tls_event list" where
  "ssl_read room [] = (Tls_stop, [])"
| "ssl_read room (Tls_data d # s) =
     (if d = [] then ssl_read room s
      else (Tls_data (take room d), if drop room d = [] then s else Tls_data (drop room d) # s))"
| "ssl_read room (e # s) = (e, s)"

fun tls_size :: "tls_event list \<Rightarrow> nat" where
  "tls_size [] = 0"
| "tls_size (Tls_data d # s) = Suc (length d) + tls_size s"
| "tls_size (e # s) = Suc (tls_size s)"

lemma ssl_read_shrinks:
  "ssl_read room s = (e, s') \<Longrightarrow> e \<noteq> Tls_stop \<Longrightarrow> 0 < room \<Longrightarrow> tls_size s' < tls_size s"
  by (induction room s rule: ssl_read.induct) (auto split: if_splits)

text \<open>The bytes the read loop ends with. \<open>now\<close> gives the clock, read twice per turn for the deadline
  test and the socket timeout, and \<open>ends\<close> whether that timeout ends the read of the k-th turn.\<close>

function ssl_read_loop ::
  "(bytes \<Rightarrow> bool) \<Rightarrow> nat \<Rightarrow> u64 \<Rightarrow> (nat \<Rightarrow> u64) \<Rightarrow> (nat \<Rightarrow> timeval \<Rightarrow> bool) \<Rightarrow> nat \<Rightarrow> tls_event list \<Rightarrow> bytes \<Rightarrow> bytes" where
  "ssl_read_loop whole resp_cap deadline now ends k s resp =
     (let room = resp_cap - length resp
      in if room = 0 then resp
      else if tls_expired deadline (now (2 * k)) then resp
      else if ends k (tls_sock_timeout deadline (now (2 * k + 1))) then resp
      else case ssl_read (min room 2147483647) s of
          (Tls_data d, s') \<Rightarrow>
            if whole (resp @ d) then resp @ d
            else ssl_read_loop whole resp_cap deadline now ends (Suc k) s' (resp @ d)
        | (Tls_interrupted, s') \<Rightarrow> ssl_read_loop whole resp_cap deadline now ends (Suc k) s' resp
        | (Tls_stop, s') \<Rightarrow> resp)"
  by pat_completeness auto

termination ssl_read_loop
proof (relation "measure (\<lambda>(c, n, dl, now, ends, k, s, resp). tls_size s)", goal_cases)
  case (2 whole resp_cap deadline now ends k s resp room a s' d)
  then show ?case using ssl_read_shrinks [of "min room 2147483647" s "Tls_data d" s'] by simp
next
  case (3 whole resp_cap deadline now ends k s resp room a s')
  then show ?case using ssl_read_shrinks [of "min room 2147483647" s Tls_interrupted s'] by simp
qed simp

declare ssl_read_loop.simps [simp del]

text \<open>The system and the library around one request: \<open>os_host\<close> and \<open>os_sni\<close> are the calls that set the
  host name to verify and the one sent to the server.\<close>

record openssl_env =
  os_start :: u64
  os_resolve :: "string \<Rightarrow> string \<Rightarrow> tls_address list option"
  os_ctx_new :: bool
  os_verify_paths :: bool
  os_ssl_new :: bool
  os_host :: "string \<Rightarrow> bool"
  os_sni :: "string \<Rightarrow> bool"
  os_set_fd :: bool
  os_handshake :: "string \<Rightarrow> ssl_call list"
  os_req_mem :: bool
  os_write_now :: u64
  os_writes :: "ssl_call list"
  os_resp_mem :: bool
  os_peer :: "bytes \<Rightarrow> tls_event list"
  os_read_now :: "nat \<Rightarrow> u64"
  os_read_cut :: "nat \<Rightarrow> timeval \<Rightarrow> bool"

definition do_tls_openssl ::
  "openssl_env \<Rightarrow> string \<Rightarrow> int \<Rightarrow> string \<Rightarrow> bytes \<Rightarrow> int \<Rightarrow> nat \<Rightarrow> string option \<Rightarrow> nat \<Rightarrow> bool \<Rightarrow> tls_result" where
  "do_tls_openssl E host port path body timeout_ms out_cap content_encoding retry_after_cap require_full_body =
     (let deadline = tls_deadline timeout_ms (os_start E)
      in if \<not> tls_connect (os_resolve E) host port deadline then tls_failed []
      else if \<not> os_ctx_new E \<or> \<not> os_verify_paths E \<or> \<not> os_ssl_new E then tls_failed []
      else if \<not> os_host E host \<or> \<not> os_sni E host \<or> \<not> os_set_fd E then tls_failed []
      else if \<not> ssl_handshake deadline (os_handshake E host) then tls_failed []
      else if \<not> os_req_mem E then tls_failed []
      else let (ok, w) = ssl_write_all deadline (tls_sock_timeout deadline (os_write_now E)) (os_writes E)
                           (tls_build_request host port path body content_encoding)
      in if \<not> ok then tls_failed w
      else if \<not> os_resp_mem E then tls_failed w
      else let resp = ssl_read_loop (\<lambda>r. tls_response_complete r require_full_body) (tls_resp_cap require_full_body out_cap)
                        deadline (os_read_now E) (os_read_cut E) 0 (os_peer E w) []
      in tls_done w (tls_finish resp require_full_body out_cap retry_after_cap))"

section \<open>macOS: Secure Transport\<close>

datatype os_status = noErr | errSSLWouldBlock | errSSLClosedGraceful | errSSLClosedNoNotify | errSSLClosedAbort | errSSLOther

text \<open>The callbacks Secure Transport reads and writes the socket with: what successive system calls
  give, and the bytes moved with the status returned.\<close>

datatype io_event = Io_bytes bytes | Io_closed | Io_interrupted | Io_error

fun tls_read_cb :: "nat \<Rightarrow> io_event list \<Rightarrow> bytes \<times> os_status" where
  "tls_read_cb want [] = (if want = 0 then ([], noErr) else ([], errSSLWouldBlock))"
| "tls_read_cb want (e # es) =
     (if want = 0 then ([], noErr)
      else case e of
          Io_bytes d \<Rightarrow>
            if d = [] then ([], errSSLClosedGraceful)
            else let d = take want d; (got, st) = tls_read_cb (want - length d) es in (d @ got, st)
        | Io_closed \<Rightarrow> ([], errSSLClosedGraceful)
        | Io_interrupted \<Rightarrow> tls_read_cb want es
        | Io_error \<Rightarrow> ([], errSSLWouldBlock))"

datatype out_event = Out_count nat | Out_interrupted | Out_error

fun tls_write_cb :: "bytes \<Rightarrow> out_event list \<Rightarrow> bytes \<times> os_status" where
  "tls_write_cb [] es = ([], noErr)"
| "tls_write_cb (b # r) [] = ([], errSSLWouldBlock)"
| "tls_write_cb (b # r) (e # es) =
     (case e of
        Out_count n \<Rightarrow>
          if n = 0 then ([], errSSLWouldBlock)
          else let (w, st) = tls_write_cb (drop n (b # r)) es in (take n (b # r) @ w, st)
      | Out_interrupted \<Rightarrow> tls_write_cb (b # r) es
      | Out_error \<Rightarrow> ([], errSSLWouldBlock))"

fun st_handshake :: "u64 \<Rightarrow> (os_status \<times> u64) list \<Rightarrow> bool" where
  "st_handshake deadline [] = False"
| "st_handshake deadline ((st, now) # cs) =
     (if st = errSSLWouldBlock \<and> (deadline = 0 \<or> 0 < tls_remaining_ms deadline now) then st_handshake deadline cs
      else st = noErr)"

text \<open>A write says how many bytes it processed, its status, and the clock of the deadline test.\<close>

fun st_write_all :: "u64 \<Rightarrow> (nat \<times> os_status \<times> u64) list \<Rightarrow> bytes \<Rightarrow> bool \<times> bytes" where
  "st_write_all deadline cs [] = (True, [])"
| "st_write_all deadline [] (b # r) = (False, [])"
| "st_write_all deadline ((n, st, now) # cs) (b # r) =
     (if st = errSSLWouldBlock \<and> tls_expired deadline now then (False, take n (b # r))
      else if st \<noteq> errSSLWouldBlock \<and> st \<noteq> noErr then (False, take n (b # r))
      else let (ok, w) = st_write_all deadline cs (drop n (b # r)) in (ok, take n (b # r) @ w))"

definition st_closed :: "os_status \<Rightarrow> bool" where
  "st_closed st \<longleftrightarrow> st = errSSLClosedGraceful \<or> st = errSSLClosedNoNotify \<or> st = errSSLClosedAbort"

text \<open>A read gives data and a status; what it has no room for stays, with the status.\<close>

fun st_read :: "nat \<Rightarrow> (bytes \<times> os_status) list \<Rightarrow> (bytes \<times> os_status) \<times> (bytes \<times> os_status) list" where
  "st_read room [] = (([], errSSLOther), [])"
| "st_read room ((d, st) # s) = (if drop room d = [] then ((d, st), s) else ((take room d, noErr), (drop room d, st) # s))"

fun st_size :: "(bytes \<times> os_status) list \<Rightarrow> nat" where
  "st_size [] = 0"
| "st_size ((d, st) # s) = Suc (length d) + st_size s"

lemma st_read_shrinks: "st_read room s = ((d, st), s') \<Longrightarrow> s \<noteq> [] \<Longrightarrow> 0 < room \<Longrightarrow> st_size s' < st_size s"
  by (induction room s rule: st_read.induct) (auto split: if_splits)

function st_read_loop :: "(bytes \<Rightarrow> bool) \<Rightarrow> nat \<Rightarrow> u64 \<Rightarrow> (nat \<Rightarrow> u64) \<Rightarrow> nat \<Rightarrow> (bytes \<times> os_status) list \<Rightarrow> bytes \<Rightarrow> bytes" where
  "st_read_loop whole resp_cap deadline now k s resp =
     (let room = resp_cap - length resp
      in if room = 0 then resp
      else if tls_expired deadline (now k) then resp
      else case st_read room s of
          ((d, st), s') \<Rightarrow>
            if whole (resp @ d) then resp @ d
            else if st_closed st then resp @ d
            else if st = errSSLWouldBlock then st_read_loop whole resp_cap deadline now (Suc k) s' (resp @ d)
            else if st \<noteq> noErr then resp @ d
            else st_read_loop whole resp_cap deadline now (Suc k) s' (resp @ d))"
  by pat_completeness auto

termination st_read_loop
proof (relation "measure (\<lambda>(c, n, dl, now, k, s, resp). st_size s)", goal_cases)
  case (2 whole resp_cap deadline now k s resp room a s' d st)
  then show ?case using st_read_shrinks [of room s d st s'] by (cases s) auto
next
  case (3 whole resp_cap deadline now k s resp room a s' d st)
  then show ?case using st_read_shrinks [of room s d st s'] by (cases s) auto
qed simp

declare st_read_loop.simps [simp del]

record secure_transport_env =
  st_start :: u64
  st_resolve :: "string \<Rightarrow> string \<Rightarrow> tls_address list option"
  st_ctx_new :: bool
  st_io_funcs :: bool
  st_connection :: bool
  st_peer_domain :: "string \<Rightarrow> bool"
  st_handshakes :: "string \<Rightarrow> (os_status \<times> u64) list"
  st_req_mem :: bool
  st_writes :: "(nat \<times> os_status \<times> u64) list"
  st_resp_mem :: bool
  st_peer :: "bytes \<Rightarrow> (bytes \<times> os_status) list"
  st_read_now :: "nat \<Rightarrow> u64"

definition do_tls_secure_transport ::
  "secure_transport_env \<Rightarrow> string \<Rightarrow> int \<Rightarrow> string \<Rightarrow> bytes \<Rightarrow> int \<Rightarrow> nat \<Rightarrow> string option \<Rightarrow> nat \<Rightarrow> bool \<Rightarrow> tls_result" where
  "do_tls_secure_transport E host port path body timeout_ms out_cap content_encoding retry_after_cap require_full_body =
     (let deadline = tls_deadline timeout_ms (st_start E)
      in if \<not> tls_connect (st_resolve E) host port deadline then tls_failed []
      else if \<not> st_ctx_new E \<or> \<not> st_io_funcs E \<or> \<not> st_connection E \<or> \<not> st_peer_domain E host then tls_failed []
      else if \<not> st_handshake deadline (st_handshakes E host) then tls_failed []
      else if \<not> st_req_mem E then tls_failed []
      else let (ok, w) = st_write_all deadline (st_writes E) (tls_build_request host port path body content_encoding)
      in if \<not> ok then tls_failed w
      else if \<not> st_resp_mem E then tls_failed w
      else let resp = st_read_loop (\<lambda>r. tls_response_complete r require_full_body) (tls_resp_cap require_full_body out_cap)
                        deadline (st_read_now E) 0 (st_peer E w) []
      in tls_done w (tls_finish resp require_full_body out_cap retry_after_cap))"

section \<open>Windows: WinHTTP\<close>

text \<open>
  WinHTTP forms the request and decodes the response. \<open>wh_reads\<close> lists, for the successive turns of
  the body loop, the clock of the two deadline tests, how many bytes are available (\<open>None\<close> when the
  query fails) and the bytes a read of that size gives (\<open>None\<close> when it fails).
\<close>

record wh_read =
  wr_now :: u64
  wr_avail :: "nat option"
  wr_then :: u64
  wr_data :: "nat \<Rightarrow> bytes option"

record winhttp_env =
  wh_start :: u64
  wh_wide :: "string \<Rightarrow> nat \<Rightarrow> bool"
  wh_open :: bool
  wh_connect :: "string \<Rightarrow> int \<Rightarrow> bool"
  wh_request :: "string \<Rightarrow> bool"
  wh_send :: "string option \<Rightarrow> bytes \<Rightarrow> bool"
  wh_sent_now :: u64
  wh_receive :: bool
  wh_received_now :: u64
  wh_status :: "nat option"
  wh_retry_after :: "nat \<Rightarrow> string option"
  wh_reads :: "wh_read list"

text \<open>One turn of the body loop: the status and the bytes it leaves with, or the bytes to go on with;
  \<open>rc\<close> is the status so far.\<close>

definition wh_turn :: "u64 \<Rightarrow> bool \<Rightarrow> nat \<Rightarrow> wh_read \<Rightarrow> int \<Rightarrow> bytes \<Rightarrow> (int \<times> bytes) + bytes" where
  "wh_turn deadline require_full_body out_cap r rc out =
     (if tls_expired deadline (wr_now r) then Inl (-1, out)
      else case wr_avail r of None \<Rightarrow> Inl (-1, out)
      | Some avail \<Rightarrow>
          if avail = 0 then Inl (rc, out)
          else let room = out_cap - 1 - length out
          in if room < avail \<and> require_full_body then Inl (-2, out)
          else let toread = min avail room
          in if toread = 0 then Inl (rc, out)
          else if tls_expired deadline (wr_then r) then Inl (-1, out)
          else case wr_data r toread of None \<Rightarrow> Inl (-1, out)
          | Some got \<Rightarrow>
              if got = [] then Inl (-1, out)
              else let out = out @ take toread got
              in if \<not> require_full_body \<and> length out = out_cap - 1 then Inl (rc, out) else Inr out)"

fun wh_read_loop :: "u64 \<Rightarrow> bool \<Rightarrow> nat \<Rightarrow> wh_read list \<Rightarrow> int \<Rightarrow> bytes \<Rightarrow> int \<times> bytes" where
  "wh_read_loop deadline require_full_body out_cap [] rc out = (-1, out)"
| "wh_read_loop deadline require_full_body out_cap (r # rs) rc out =
     (case wh_turn deadline require_full_body out_cap r rc out of
        Inl res \<Rightarrow> res
      | Inr out \<Rightarrow> wh_read_loop deadline require_full_body out_cap rs rc out)"

definition do_tls_winhttp ::
  "winhttp_env \<Rightarrow> string \<Rightarrow> int \<Rightarrow> string \<Rightarrow> bytes \<Rightarrow> int \<Rightarrow> nat \<Rightarrow> string option \<Rightarrow> nat \<Rightarrow> bool \<Rightarrow> tls_result" where
  "do_tls_winhttp E host port path body timeout_ms out_cap content_encoding retry_after_cap require_full_body =
     (let deadline = tls_deadline timeout_ms (wh_start E); path = (if path \<noteq> [] then path else ''/'')
      in if \<not> wh_wide E host 256 \<or> \<not> wh_wide E path 1024 \<or> \<not> wh_wide E (''posthog-c/'' @ PH_VERSION_STRING) 64 then tls_failed []
      else if \<not> wh_open E \<or> \<not> wh_connect E host port \<or> \<not> wh_request E path then tls_failed []
      else if \<not> wh_send E (if content_encoding \<noteq> None \<and> content_encoding \<noteq> Some [] then Some ''gzip'' else None)
                (take (length body mod 2 ^ 32) body) then tls_failed []
      else if tls_expired deadline (wh_sent_now E) then tls_failed []
      else if \<not> wh_receive E then tls_failed []
      else if tls_expired deadline (wh_received_now E) then tls_failed []
      else let rc = (case wh_status E of None \<Rightarrow> -1 | Some status \<Rightarrow> int status);
               retry_after = (if 0 < retry_after_cap then case wh_retry_after E retry_after_cap of None \<Rightarrow> [] | Some v \<Rightarrow> v else []);
               (rc, out) = (if 1 < out_cap then wh_read_loop deadline require_full_body out_cap (wh_reads E) rc [] else (rc, []))
      in tls_done [] (rc, out, retry_after))"

section \<open>The backend of the build\<close>

datatype tls_build = Openssl openssl_env | Secure_transport secure_transport_env | Winhttp winhttp_env | No_tls

fun ph_tls_available :: "tls_build \<Rightarrow> bool" where
  "ph_tls_available No_tls = False"
| "ph_tls_available _ = True"

fun do_tls :: "tls_build \<Rightarrow> string \<Rightarrow> int \<Rightarrow> string \<Rightarrow> bytes \<Rightarrow> int \<Rightarrow> nat \<Rightarrow> string option \<Rightarrow> nat \<Rightarrow> bool \<Rightarrow> tls_result" where
  "do_tls (Openssl E) host port path body t n enc m full = do_tls_openssl E host port path body t n enc m full"
| "do_tls (Secure_transport E) host port path body t n enc m full = do_tls_secure_transport E host port path body t n enc m full"
| "do_tls (Winhttp E) host port path body t n enc m full = do_tls_winhttp E host port path body t n enc m full"
| "do_tls No_tls host port path body t n enc m full = tls_failed []"

definition ph_tls_send :: "tls_build \<Rightarrow> string \<Rightarrow> int \<Rightarrow> string \<Rightarrow> bytes \<Rightarrow> int \<Rightarrow> string option \<Rightarrow> nat \<Rightarrow> nat \<Rightarrow> tls_result" where
  "ph_tls_send B host port path body timeout_ms content_encoding retry_after_cap body_out_cap =
     do_tls B host port path body timeout_ms body_out_cap content_encoding retry_after_cap False"

definition ph_tls_fetch :: "tls_build \<Rightarrow> string \<Rightarrow> int \<Rightarrow> string \<Rightarrow> bytes \<Rightarrow> int \<Rightarrow> nat \<Rightarrow> tls_result" where
  "ph_tls_fetch B host port path body timeout_ms out_cap = do_tls B host port path body timeout_ms out_cap None 0 True"

end
