(* ===== verification/Ph_Tls_Session.thy ===== *)
theory Ph_Tls_Session
  imports Ph_Http_Response Ph_Tls
begin

text \<open>
  What the two POSIX TLS backends promise, as one contract (\<open>tls_session\<close>) interpreted on both: no
  byte of a request is written before the handshake verified the host, a reported status implies the
  whole request was written, and the result is what the shared reader makes of bytes the peer sent.
\<close>

section \<open>Facts: deadlines and socket timeouts\<close>

lemma tls_deadlines: "tls_deadline = request_deadline" "tls_remaining_ms = remaining_ms" "tls_expired = timed_out"
  by (simp_all add: fun_eq_iff tls_deadline_def request_deadline_def tls_remaining_ms_def remaining_ms_def tls_expired_def timed_out_def)

text \<open>A socket timeout is a proper time interval, never zero, which would mean to wait for ever.\<close>

lemma sock_timeout_bounds:
  assumes "tls_sock_timeout deadline now = Some (s, u)"
  shows "0 \<le> s" "0 \<le> u" "u < 1000000" "0 < s \<or> 0 < u" "1000 * s + u div 1000 = max 1 (tls_remaining_ms deadline now)"
proof -
  define ms where "ms = max 1 (tls_remaining_ms deadline now)"
  have "0 \<le> tls_remaining_ms deadline now" and e: "s = ms div 1000" "u = ms mod 1000 * 1000"
    using assms by (auto simp: tls_sock_timeout_def Let_def ms_def split: if_splits)
  have "0 < ms" by (simp add: ms_def)
  then show "0 \<le> s" "0 \<le> u" "u < 1000000" using e by (simp_all add: pos_imp_zdiv_nonneg_iff)
  show "1000 * s + u div 1000 = max 1 (tls_remaining_ms deadline now)" using e ms_def by simp
  then show "0 < s \<or> 0 < u" using \<open>0 < ms\<close> \<open>0 \<le> s\<close> \<open>0 \<le> u\<close> unfolding ms_def [symmetric] by (cases "s = 0"; cases "u = 0") auto
qed

section \<open>Facts: writing\<close>

lemma ssl_write_prefix: "ssl_write_all deadline tv cs r = (ok, w) \<Longrightarrow> prefix w r \<and> (ok \<longrightarrow> w = r)"
proof (induction deadline tv cs r arbitrary: ok w rule: ssl_write_all.induct)
  case (3 deadline tv c cs b r)
  show ?case
  proof (cases "sc_call c tv")
    case (Ssl_ok n)
    define m where "m = min n (min (length (b # r)) 2147483647)"
    obtain ok' w' where r: "ssl_write_all deadline tv cs (drop m (b # r)) = (ok', w')" by (cases "ssl_write_all deadline tv cs (drop m (b # r))")
    show ?thesis
    proof (cases "n = 0")
      case False
      have "prefix w' (drop m (b # r)) \<and> (ok' \<longrightarrow> w' = drop m (b # r))" using "3.IH"(1) [OF Ssl_ok False m_def r] .
      moreover have "ok = ok'" "w = take m (b # r) @ w'" using "3.prems" Ssl_ok False r by (simp_all add: m_def Let_def)
      ultimately show ?thesis by (metis append_take_drop_id same_prefix_prefix)
    qed (use "3.prems" Ssl_ok in simp)
  next
    case Ssl_interrupted
    then show ?thesis using "3.prems" "3.IH"(2) by (auto split: if_splits)
  qed (use "3.prems" in simp)
qed simp_all

lemma st_write_prefix: "st_write_all deadline cs r = (ok, w) \<Longrightarrow> prefix w r \<and> (ok \<longrightarrow> w = r)"
proof (induction deadline cs r arbitrary: ok w rule: st_write_all.induct)
  case (3 deadline n st now cs b r)
  obtain ok' w' where r: "st_write_all deadline cs (drop n (b # r)) = (ok', w')" by (cases "st_write_all deadline cs (drop n (b # r))")
  show ?case
  proof (cases "(st = errSSLWouldBlock \<and> tls_expired deadline now) \<or> (st \<noteq> errSSLWouldBlock \<and> st \<noteq> noErr)")
    case True
    then have "ok = False" "w = take n (b # r)" using "3.prems" by (auto split: if_splits)
    then show ?thesis by (simp add: take_is_prefix)
  next
    case False
    then have "prefix w' (drop n (b # r)) \<and> (ok' \<longrightarrow> w' = drop n (b # r))" using "3.IH" r by blast
    moreover have "ok = ok'" "w = take n (b # r) @ w'" using "3.prems" False r by (auto split: if_splits)
    ultimately show ?thesis by (metis append_take_drop_id same_prefix_prefix)
  qed
qed simp_all

text \<open>The socket callbacks report success exactly when they moved all that was asked for.\<close>

lemma read_cb_exact: "tls_read_cb want es = (got, st) \<Longrightarrow> length got \<le> want \<and> (st = noErr \<longleftrightarrow> length got = want)"
proof (induction want es arbitrary: got st rule: tls_read_cb.induct)
  case (2 want e es)
  show ?case
  proof (cases "want \<noteq> 0 \<and> (\<exists>d. e = Io_bytes d \<and> d \<noteq> [])")
    case True
    then obtain d where d: "e = Io_bytes d" "d \<noteq> []" "want \<noteq> 0" by blast
    obtain got' st' where r: "tls_read_cb (want - length (take want d)) es = (got', st')" by (cases "tls_read_cb (want - length (take want d)) es")
    then have "length got' \<le> want - length (take want d) \<and> (st' = noErr \<longleftrightarrow> length got' = want - length (take want d))"
      using "2.IH"(1) [OF d(3,1,2) refl r] by simp
    moreover have "got = take want d @ got'" "st = st'" using "2.prems" d r by (simp_all add: Let_def)
    ultimately show ?thesis by auto
  next
    case False
    then show ?thesis using 2 by (auto split: io_event.splits if_splits)
  qed
qed (auto split: if_splits)

lemma write_cb_exact: "tls_write_cb r es = (w, st) \<Longrightarrow> prefix w r \<and> (st = noErr \<longleftrightarrow> w = r)"
proof (induction r es arbitrary: w st rule: tls_write_cb.induct)
  case (3 b r e es)
  show ?case
  proof (cases "\<exists>n. e = Out_count n \<and> n \<noteq> 0")
    case True
    then obtain n where n: "e = Out_count n" "n \<noteq> 0" by blast
    obtain w' st' where r: "tls_write_cb (drop n (b # r)) es = (w', st')" by (cases "tls_write_cb (drop n (b # r)) es")
    have "prefix w' (drop n (b # r)) \<and> (st' = noErr \<longleftrightarrow> w' = drop n (b # r))" by (rule "3.IH"(1) [OF n r])
    moreover have "w = take n (b # r) @ w'" "st = st'" using "3.prems" n r by simp_all
    ultimately show ?thesis by (metis append_take_drop_id same_append_eq same_prefix_prefix)
  next
    case False
    then show ?thesis using 3 by (auto split: out_event.splits)
  qed
qed auto

section \<open>Facts: reading\<close>

fun tls_bytes :: "tls_event list \<Rightarrow> bytes" where
  "tls_bytes [] = []"
| "tls_bytes (Tls_data d # s) = d @ tls_bytes s"
| "tls_bytes (e # s) = tls_bytes s"

definition st_bytes :: "(bytes \<times> os_status) list \<Rightarrow> bytes" where
  "st_bytes s = concat (map fst s)"

lemma ssl_read_bytes:
  "ssl_read room s = (Tls_data d, s') \<Longrightarrow> tls_bytes s = d @ tls_bytes s'" "ssl_read room s = (Tls_interrupted, s') \<Longrightarrow> tls_bytes s = tls_bytes s'"
  by (induction room s rule: ssl_read.induct) (auto split: if_splits)

lemma st_read_bytes: "st_read room s = ((d, st), s') \<Longrightarrow> st_bytes s = d @ st_bytes s'"
  by (induction room s rule: st_read.induct) (auto simp: st_bytes_def split: if_splits)

lemma ssl_loop_prefix: "prefix (ssl_read_loop whole cap deadline now ends k s resp) (resp @ tls_bytes s)"
proof (induction whole cap deadline now ends k s resp rule: ssl_read_loop.induct)
  case (1 whole cap deadline now ends k s resp)
  define n where "n = cap - length resp"
  obtain e s' where r: "ssl_read (min n 2147483647) s = (e, s')" by (cases "ssl_read (min n 2147483647) s")
  show ?case
  proof (cases "n = 0 \<or> tls_expired deadline (now (2 * k)) \<or> ends k (tls_sock_timeout deadline (now (2 * k + 1)))")
    case True
    then show ?thesis by (subst ssl_read_loop.simps) (auto simp: Let_def n_def)
  next
    case False
    then show ?thesis
      using r ssl_read_bytes(1) [of "min n 2147483647" s _ s'] ssl_read_bytes(2) [of "min n 2147483647" s s'] 1
      by (subst ssl_read_loop.simps) (cases e; simp add: Let_def n_def [symmetric])
  qed
qed

lemma st_loop_prefix: "prefix (st_read_loop whole cap deadline now k s resp) (resp @ st_bytes s)"
proof (induction whole cap deadline now k s resp rule: st_read_loop.induct)
  case (1 whole cap deadline now k s resp)
  define n where "n = cap - length resp"
  obtain d st s' where r: "st_read n s = ((d, st), s')" by (cases "st_read n s") auto
  have b: "st_bytes s = d @ st_bytes s'" by (rule st_read_bytes [OF r])
  have m: "prefix (st_read_loop whole cap deadline now (Suc k) s' (resp @ d)) (resp @ st_bytes s)"
    if "n \<noteq> 0" "\<not> tls_expired deadline (now k)" "\<not> whole (resp @ d)" "\<not> st_closed st" "st = errSSLWouldBlock \<or> st = noErr"
    using 1 that r by (auto simp: n_def b)
  show ?case
    using r b m by (subst st_read_loop.simps) (auto simp: Let_def n_def [symmetric])
qed

lemma finish_fits: "fst (snd (tls_finish resp full n m)) = out \<Longrightarrow> length out \<le> n - 1"
  using decode_response_fits [of resp n] by (auto simp: tls_finish_def case_prod_beta Let_def)

lemma tls_results [simp]:
  "tr_status (tls_failed w) = -1" "tr_out (tls_failed w) = []" "tr_wire (tls_failed w) = w"
  "tr_status (tls_done w r) = fst r" "tr_out (tls_done w r) = fst (snd r)" "tr_wire (tls_done w r) = w"
  by (simp_all add: tls_failed_def tls_done_def case_prod_beta)

section \<open>The contract of a TLS session\<close>

locale tls_session =
  fixes run :: "'e \<Rightarrow> string \<Rightarrow> int \<Rightarrow> string \<Rightarrow> bytes \<Rightarrow> int \<Rightarrow> nat \<Rightarrow> string option \<Rightarrow> nat \<Rightarrow> bool \<Rightarrow> tls_result"
    and verified :: "'e \<Rightarrow> string \<Rightarrow> int \<Rightarrow> bool"
    and peer :: "'e \<Rightarrow> bytes \<Rightarrow> bytes"
  assumes secured: "tr_wire (run E host port path body t n enc m full) \<noteq> [] \<Longrightarrow> verified E host t"
    and in_order: "prefix (tr_wire (run E host port path body t n enc m full)) (tls_build_request host port path body enc)"
    and outcome: "run E host port path body t n enc m full = tls_failed (tr_wire (run E host port path body t n enc m full)) \<or>
      (\<exists>resp. prefix resp (peer E (tls_build_request host port path body enc)) \<and>
         run E host port path body t n enc m full = tls_done (tls_build_request host port path body enc) (tls_finish resp full n m))"
begin

lemma written:
  assumes "0 \<le> tr_status (run E host port path body t n enc m full)"
  shows "tr_wire (run E host port path body t n enc m full) = tls_build_request host port path body enc"
proof -
  from outcome [of E host port path body t n enc m full] show ?thesis
  proof
    assume "run E host port path body t n enc m full = tls_failed (tr_wire (run E host port path body t n enc m full))"
    then have "tr_status (run E host port path body t n enc m full) = -1" by (metis tls_results(1))
    then show ?thesis using assms by simp
  qed auto
qed

lemma verified_status:
  assumes "0 \<le> tr_status (run E host port path body t n enc m full)"
  shows "verified E host t"
proof (rule secured)
  have "tls_build_request host port path body enc \<noteq> []" by (simp add: tls_build_request_def)
  then show "tr_wire (run E host port path body t n enc m full) \<noteq> []" using written [OF assms] by simp
qed

lemma fits: "length (tr_out (run E host port path body t n enc m full)) \<le> n - 1"
  using outcome [of E host port path body t n enc m full]
proof
  assume "run E host port path body t n enc m full = tls_failed (tr_wire (run E host port path body t n enc m full))"
  then have "tr_out (run E host port path body t n enc m full) = []" by (metis tls_results(2))
  then show ?thesis by simp
qed (auto simp: finish_fits [OF refl, unfolded One_nat_def])

text \<open>A framed response cut anywhere before its announced end is never reported as a success.\<close>

lemma cut_fetch:
  assumes "head_ok head" "announces head fr" "\<forall>b. fr \<noteq> Until_close b" "length (payload fr) \<le> SIZE_MAX"
    "strict_prefix (peer E (tls_build_request host port path body enc)) (response head fr)"
  shows "tr_status (run E host port path body t n enc m True) < 0"
  using outcome [of E host port path body t n enc m True]
proof
  assume "run E host port path body t n enc m True = tls_failed (tr_wire (run E host port path body t n enc m True))"
  then have "tr_status (run E host port path body t n enc m True) = -1" by (metis tls_results(1))
  then show ?thesis by simp
next
  assume "\<exists>resp. prefix resp (peer E (tls_build_request host port path body enc)) \<and>
    run E host port path body t n enc m True = tls_done (tls_build_request host port path body enc) (tls_finish resp True n m)"
  then obtain resp where r: "prefix resp (peer E (tls_build_request host port path body enc))"
    "run E host port path body t n enc m True = tls_done (tls_build_request host port path body enc) (tls_finish resp True n m)" by blast
  have "strict_prefix resp (response head fr)" using r(1) assms(5) by (rule prefix_order.le_less_trans)
  then have "fst (ph__http_decode_response_body resp n) < 0" by (rule decode_cut_response [OF assms(1,2,4) _ assms(3)])
  then show ?thesis by (simp add: r(2) tls_finish_def case_prod_beta)
qed

end

definition openssl_verified :: "openssl_env \<Rightarrow> string \<Rightarrow> int \<Rightarrow> bool" where
  "openssl_verified E host t \<longleftrightarrow> os_verify_paths E \<and> os_host E host \<and> ssl_handshake (tls_deadline t (os_start E)) (os_handshake E host)"

interpretation openssl: tls_session do_tls_openssl openssl_verified "\<lambda>E w. tls_bytes (os_peer E w)"
proof unfold_locales
  fix E :: openssl_env and host port path body t n enc m full
  let ?q = "tls_build_request host port path body enc" and ?d = "tls_deadline t (os_start E)"
  obtain ok w where w: "ssl_write_all ?d (tls_sock_timeout ?d (os_write_now E)) (os_writes E) ?q = (ok, w)"
    by (cases "ssl_write_all ?d (tls_sock_timeout ?d (os_write_now E)) (os_writes E) ?q")
  note p = ssl_write_prefix [OF w]
  define resp where "resp = ssl_read_loop (\<lambda>r. tls_response_complete r full) (tls_resp_cap full n) ?d (os_read_now E) (os_read_cut E) 0 (os_peer E ?q) []"
  have b: "prefix resp (tls_bytes (os_peer E ?q))" unfolding resp_def using ssl_loop_prefix [where resp = "[]"] by simp
  have c: "do_tls_openssl E host port path body t n enc m full = tls_failed [] \<or>
    openssl_verified E host t \<and> (do_tls_openssl E host port path body t n enc m full = tls_failed w \<or>
      w = ?q \<and> do_tls_openssl E host port path body t n enc m full = tls_done w (tls_finish resp full n m))"
    using w p by (auto simp: do_tls_openssl_def Let_def openssl_verified_def resp_def)
  show "openssl_verified E host t" if "tr_wire (do_tls_openssl E host port path body t n enc m full) \<noteq> []" using that c by auto
  show "prefix (tr_wire (do_tls_openssl E host port path body t n enc m full)) ?q" using c p by auto
  show "do_tls_openssl E host port path body t n enc m full = tls_failed (tr_wire (do_tls_openssl E host port path body t n enc m full)) \<or>
      (\<exists>resp. prefix resp (tls_bytes (os_peer E ?q)) \<and> do_tls_openssl E host port path body t n enc m full = tls_done ?q (tls_finish resp full n m))"
    using c b by auto
qed

definition secure_transport_verified :: "secure_transport_env \<Rightarrow> string \<Rightarrow> int \<Rightarrow> bool" where
  "secure_transport_verified E host t \<longleftrightarrow> st_peer_domain E host \<and> st_handshake (tls_deadline t (st_start E)) (st_handshakes E host)"

interpretation secure_transport: tls_session do_tls_secure_transport secure_transport_verified "\<lambda>E w. st_bytes (st_peer E w)"
proof unfold_locales
  fix E :: secure_transport_env and host port path body t n enc m full
  let ?q = "tls_build_request host port path body enc" and ?d = "tls_deadline t (st_start E)"
  obtain ok w where w: "st_write_all ?d (st_writes E) ?q = (ok, w)" by (cases "st_write_all ?d (st_writes E) ?q")
  note p = st_write_prefix [OF w]
  define resp where "resp = st_read_loop (\<lambda>r. tls_response_complete r full) (tls_resp_cap full n) ?d (st_read_now E) 0 (st_peer E ?q) []"
  have b: "prefix resp (st_bytes (st_peer E ?q))" unfolding resp_def using st_loop_prefix [where resp = "[]"] by simp
  have c: "do_tls_secure_transport E host port path body t n enc m full = tls_failed [] \<or>
    secure_transport_verified E host t \<and> (do_tls_secure_transport E host port path body t n enc m full = tls_failed w \<or>
      w = ?q \<and> do_tls_secure_transport E host port path body t n enc m full = tls_done w (tls_finish resp full n m))"
    using w p by (auto simp: do_tls_secure_transport_def Let_def secure_transport_verified_def resp_def)
  show "secure_transport_verified E host t" if "tr_wire (do_tls_secure_transport E host port path body t n enc m full) \<noteq> []" using that c by auto
  show "prefix (tr_wire (do_tls_secure_transport E host port path body t n enc m full)) ?q" using c p by auto
  show "do_tls_secure_transport E host port path body t n enc m full = tls_failed (tr_wire (do_tls_secure_transport E host port path body t n enc m full)) \<or>
      (\<exists>resp. prefix resp (st_bytes (st_peer E ?q)) \<and> do_tls_secure_transport E host port path body t n enc m full = tls_done ?q (tls_finish resp full n m))"
    using c b by auto
qed

section \<open>Facts: WinHTTP\<close>

lemma wh_turn_fits:
  assumes "length out \<le> n - 1"
  shows "wh_turn deadline full n r rc out = Inl (st, x) \<Longrightarrow> length x \<le> n - 1" "wh_turn deadline full n r rc out = Inr x \<Longrightarrow> length x \<le> n - 1"
  using assms by (auto simp: wh_turn_def Let_def split: if_splits option.splits)

lemma wh_loop_fits: "length out \<le> n - 1 \<Longrightarrow> length (snd (wh_read_loop deadline full n rs rc out)) \<le> n - 1"
proof (induction deadline full n rs rc out rule: wh_read_loop.induct)
  case (2 deadline full n r rs rc out)
  show ?case
  proof (cases "wh_turn deadline full n r rc out")
    case (Inl x)
    then show ?thesis using wh_turn_fits(1) [OF "2.prems", of deadline full r rc "fst x" "snd x"] by simp
  next
    case (Inr x)
    then show ?thesis using "2.IH" [OF Inr wh_turn_fits(2) [OF "2.prems" Inr]] by simp
  qed
qed simp

text \<open>A whole body is reported only once the library says that nothing is left.\<close>

lemma wh_loop_ended:
  "0 \<le> fst (wh_read_loop deadline True n rs rc out) \<Longrightarrow> \<exists>r \<in> set rs. wr_avail r = Some 0"
proof (induction rs arbitrary: out)
  case (Cons r rs)
  show ?case
  proof (cases "wh_turn deadline True n r rc out")
    case (Inl x)
    with Cons.prems have "wr_avail r = Some 0" by (auto simp: wh_turn_def Let_def split: if_splits option.splits)
    then show ?thesis by simp
  qed (use Cons in auto)
qed simp

section \<open>Properties\<close>

text \<open>The bytes the peer sends for a request, where this library decodes them, and that its end was seen.\<close>

fun tls_peer :: "tls_build \<Rightarrow> bytes \<Rightarrow> bytes" where
  "tls_peer (Openssl E) w = tls_bytes (os_peer E w)"
| "tls_peer (Secure_transport E) w = st_bytes (st_peer E w)"
| "tls_peer _ w = []"

fun winhttp_ended :: "tls_build \<Rightarrow> bool" where
  "winhttp_ended (Winhttp E) = (\<exists>r \<in> set (wh_reads E). wr_avail r = Some 0)"
| "winhttp_ended _ = False"


definition sample_openssl :: "tls_event list \<Rightarrow> openssl_env" where
  "sample_openssl s = \<lparr>os_start = 0,
     os_resolve = \<lambda>h p. Some [\<lparr>ta_socket = True, ta_now = 0, ta_connect = \<lambda>t. True\<rparr>],
     os_ctx_new = True, os_verify_paths = True, os_ssl_new = True, os_host = \<lambda>h. True, os_sni = \<lambda>h. True, os_set_fd = True,
     os_handshake = \<lambda>h. [\<lparr>sc_check = 0, sc_now = 0, sc_call = \<lambda>t. if h = ''h'' then Ssl_ok 1 else Ssl_error\<rparr>],
     os_req_mem = True, os_write_now = 0, os_writes = [\<lparr>sc_check = 0, sc_now = 0, sc_call = \<lambda>t. Ssl_ok 100000\<rparr>],
     os_resp_mem = True, os_peer = \<lambda>w. s, os_read_now = \<lambda>k. 0, os_read_cut = \<lambda>k t. False\<rparr>"


text \<open>
  A body that only the close delimits has no announced end. The plain reader takes it for complete
  only when the peer closed; the TLS readers stop alike on a close, a timeout and an error and take
  what there is for the body.
\<close>

lemma ssl_write_once:
  assumes "sc_call c tv = Ssl_ok n" "length r \<le> n" "length r \<le> 2147483647"
  shows "ssl_write_all deadline tv (c # cs) r = (True, r)"
  using assms by (cases r) (auto simp: Let_def min_def)

lemma tls_fetch_takes_cut_unframed_body:
  defines "resp \<equiv> ''HTTP/1.1 200 OK'' @ BLANK_LINE @ ''{1''"
  shows "tr_status (ph_tls_fetch (Openssl (sample_openssl [Tls_data resp, Tls_stop])) ''h'' 443 ''/flags'' ''{}'' 0 4096) = 200"
    "tr_out (ph_tls_fetch (Openssl (sample_openssl [Tls_data resp, Tls_stop])) ''h'' 443 ''/flags'' ''{}'' 0 4096) = ''{1''"
    "fst (read_body_response True 4096 0 (\<lambda>k. 0) [Segment resp, Net_Failed]) < 0"
proof -
  define s where "s = [Tls_data resp, Tls_stop]"
  let ?q = "tls_build_request ''h'' 443 ''/flags'' ''{}'' None"
  have u: "find_header_end resp = Some 15" "take 15 resp = ''HTTP/1.1 200 OK''" "drop 19 resp = ''{1''" "length resp = 21" "resp \<noteq> []"
    unfolding resp_def BLANK_LINE_def CRLF_def by code_simp+
  have h: "\<not> scan_transfer_chunked ''HTTP/1.1 200 OK''" "scan_content_length ''HTTP/1.1 200 OK'' = -1" "parse_status ''HTTP/1.1 200 OK'' = 200"
    by code_simp+
  have c: "\<not> tls_response_complete resp True"
    by (simp add: tls_response_complete_def ph__http_body_response_complete_def u h Let_def)
  have cap: "tls_resp_cap True 4096 = 36864" by (simp add: tls_resp_cap_def SIZE_MAX_def)
  have loop: "ssl_read_loop (\<lambda>r. tls_response_complete r True) 36864 0 (\<lambda>k. 0) (\<lambda>k t. False) 0 s [] = resp"
    using c u(4,5) by (simp add: s_def ssl_read_loop.simps [of _ _ _ _ _ _ "_ # _"] tls_expired_def Let_def)
  have q: "length ?q \<le> 100000"
    by (simp add: tls_build_request_def request_line_def snprintf_trunc_def PH_VERSION_STRING_def CRLF_def nat_dec.simps caps)
  have w: "ssl_write_all 0 tv (os_writes (sample_openssl s)) ?q = (True, ?q)" for tv
    unfolding sample_openssl_def openssl_env.select_convs by (rule ssl_write_once) (use q in simp_all)
  have d: "ph__http_decode_response_body resp 4096 = (200, ''{1'')"
    by (simp add: ph__http_decode_response_body_def u h Let_def)
  have "ph_tls_fetch (Openssl (sample_openssl s)) ''h'' 443 ''/flags'' ''{}'' 0 4096 = tls_done ?q (200, ''{1'', [])"
    using w loop d by (simp add: ph_tls_fetch_def do_tls_openssl_def tls_deadline_def Let_def tls_connect_def tls_finish_def cap)
      (simp add: sample_openssl_def)
  then show "tr_status (ph_tls_fetch (Openssl (sample_openssl [Tls_data resp, Tls_stop])) ''h'' 443 ''/flags'' ''{}'' 0 4096) = 200"
    "tr_out (ph_tls_fetch (Openssl (sample_openssl [Tls_data resp, Tls_stop])) ''h'' 443 ''/flags'' ''{}'' 0 4096) = ''{1''"
    by (simp_all add: s_def)
  have v: "body_verdict 4096 False resp = Read_more False"
    by (simp add: body_verdict_def u h Let_def PH_HTTP_HEADER_CAP_def)
  have "read_body_loop 0 (\<lambda>k. 0) 4096 0 [Segment resp, Net_Failed] [] False = Inr (resp, False, False)"
    using u(4,5) v
    by (simp add: read_body_loop.simps [of _ _ _ _ "_ # _"] timed_out_def Let_def PH_HTTP_HEADER_CAP_def PH_HTTP_CHUNK_OVERHEAD_CAP_def PH_HTTP_FETCH_CHUNK_def)
  then show "fst (read_body_response True 4096 0 (\<lambda>k. 0) [Segment resp, Net_Failed]) < 0"
    by (simp add: read_body_response_def SIZE_MAX_def PH_HTTP_HEADER_CAP_def PH_HTTP_CHUNK_OVERHEAD_CAP_def PH_HTTP_RESPONSE_TRUNCATED_def)
qed

end
