(* ===== verification/Ph_Transport.thy ===== *)
theory Ph_Transport
  imports Ph_Tls
begin

text \<open>
  The transport of \<^verbatim>\<open>src/ph_http.c\<close>: connecting, sending a request, and the send and fetch the
  sender is given, over a plain socket or through the TLS backend. What each connection attempt and
  each \<open>send\<close> gives are arguments.
\<close>

section \<open>The transport\<close>

text \<open>
  What the system answers to the calls of \<open>connect_until\<close>: switching to non-blocking mode, the
  connect call, whether it is pending, the clock, whether \<open>select\<close> reports the socket writable, and
  the pending error (\<open>None\<close> when it cannot be read).
\<close>

record connect_env =
  ce_nonblocking :: bool
  ce_connect :: bool
  ce_pending :: bool
  ce_now :: u64
  ce_writable :: bool
  ce_error :: "int option"

definition connect_until :: "connect_env \<Rightarrow> u64 \<Rightarrow> bool" where
  "connect_until c deadline =
     (if deadline = 0 then ce_connect c
      else if \<not> ce_nonblocking c then False
      else if ce_connect c then True
      else if \<not> ce_pending c then False
      else if remaining_ms deadline (ce_now c) \<le> 0 then False
      else ce_writable c \<and> ce_error c = Some 0)"

text \<open>The addresses a name resolves to: the clock before each is tried, whether a socket is made,
  and how the connection goes.\<close>

record address =
  ad_now :: u64
  ad_socket :: bool
  ad_connect :: connect_env

fun connect_any :: "u64 \<Rightarrow> address list \<Rightarrow> bool" where
  "connect_any deadline [] = False"
| "connect_any deadline (a # as) =
     (if timed_out deadline (ad_now a) then False
      else if \<not> ad_socket a then connect_any deadline as
      else if connect_until (ad_connect a) deadline then True
      else connect_any deadline as)"

text \<open>
  The system around one request. \<open>ht_send\<close> is the count the k-th \<open>send\<close> returns for the bytes
  offered; \<open>ht_peer\<close> is what the peer sends back; \<open>ht_tls\<close> is the TLS backend of the build.
\<close>

record http_env =
  ht_start :: u64
  ht_req_mem :: bool
  ht_resolve :: "string \<Rightarrow> string \<Rightarrow> address list option"
  ht_resolved :: u64
  ht_send_now :: "nat \<Rightarrow> u64"
  ht_send :: "nat \<Rightarrow> bytes \<Rightarrow> int"
  ht_peer :: "bytes \<Rightarrow> net_event list"
  ht_recv_now :: "nat \<Rightarrow> u64"
  ht_resp_mem :: bool
  ht_tls :: tls_build

text \<open>Whether all bytes were accepted, and those put on the wire.\<close>

function send_loop :: "http_env \<Rightarrow> u64 \<Rightarrow> nat \<Rightarrow> bytes \<Rightarrow> bool \<times> bytes" where
  "send_loop E deadline k r =
     (if r = [] then (True, [])
      else if timed_out deadline (ht_send_now E k) then (False, [])
      else let n = ht_send E k r
           in if n \<le> 0 then (False, [])
              else let (ok, w) = send_loop E deadline (Suc k) (drop (nat n) r) in (ok, take (nat n) r @ w))"
  by pat_completeness auto

termination send_loop
  by (relation "measure (\<lambda>(E, d, k, r). length r)") auto

declare send_loop.simps [simp del]

record http_result =
  hr_status :: int
  hr_out :: bytes
  hr_meta :: ph_send_meta
  hr_wire :: bytes

definition http_failed :: "bytes \<Rightarrow> http_result" where
  "http_failed w = \<lparr>hr_status = -1, hr_out = [], hr_meta = no_meta, hr_wire = w\<rparr>"

text \<open>\<open>out\<close> is the capacity of the caller's buffer, \<open>None\<close> on the status-only path.\<close>

definition do_http :: "http_env \<Rightarrow> string \<Rightarrow> bytes \<Rightarrow> int \<Rightarrow> nat option \<Rightarrow> string option \<Rightarrow> http_result" where
  "do_http E url body timeout_ms out content_encoding =
     (let deadline = request_deadline timeout_ms (ht_start E)
      in case parse_url url of None \<Rightarrow> http_failed []
      | Some u \<Rightarrow>
          if is_https u then
            (case out of
               Some out_cap \<Rightarrow>
                 (let r = ph_tls_fetch (ht_tls E) (url_host u) (atoi_c (url_port u)) (url_path u) body timeout_ms out_cap
                  in (http_failed (tr_wire r))\<lparr>hr_status := tr_status r, hr_out := tr_out r\<rparr>)
             | None \<Rightarrow>
                 (let r = ph_tls_send (ht_tls E) (url_host u) (atoi_c (url_port u)) (url_path u) body timeout_ms content_encoding
                            64 PH_RESP_BODY_CAP
                  in (http_failed (tr_wire r))\<lparr>hr_status := tr_status r,
                       hr_meta := \<lparr>sm_retry_after = tr_retry_after r, sm_body = tr_out r\<rparr>\<rparr>))
          else case ph_http_build_request url body content_encoding of None \<Rightarrow> http_failed []
          | Some req \<Rightarrow>
              if \<not> ht_req_mem E then http_failed []
              else case ht_resolve E (url_host u) (url_port u) of None \<Rightarrow> http_failed []
              | Some addrs \<Rightarrow>
                  if timed_out deadline (ht_resolved E) then http_failed []
                  else if \<not> connect_any deadline addrs then http_failed []
                  else let (ok, wire) = send_loop E deadline 0 req
                  in if \<not> ok then http_failed wire
                  else case out of
                      Some out_cap \<Rightarrow>
                        (let (st, b) = read_body_response (ht_resp_mem E) out_cap deadline (ht_recv_now E) (ht_peer E wire)
                         in (http_failed wire)\<lparr>hr_status := st, hr_out := b\<rparr>)
                    | None \<Rightarrow>
                        (let (st, m) = read_status_response deadline (ht_recv_now E) (ht_peer E wire)
                         in (http_failed wire)\<lparr>hr_status := st, hr_meta := m\<rparr>))"

definition http_send :: "http_env \<Rightarrow> deflate_lib \<Rightarrow> bool \<Rightarrow> bool \<Rightarrow> bool \<Rightarrow> string \<Rightarrow> bytes \<Rightarrow> int \<Rightarrow> http_result" where
  "http_send E Z mem1 mem2 gzip url body timeout_ms =
     (case (if gzip \<and> body \<noteq> [] then ph_gzip Z mem1 mem2 (Some body) else None) of
        Some gz \<Rightarrow> do_http E url gz timeout_ms None (Some ''gzip'')
      | None \<Rightarrow> do_http E url body timeout_ms None None)"

definition http_fetch :: "http_env \<Rightarrow> string \<Rightarrow> bytes \<Rightarrow> int \<Rightarrow> nat \<Rightarrow> http_result" where
  "http_fetch E url body timeout_ms out_cap = do_http E url body timeout_ms (Some out_cap) None"

text \<open>
  The transport the sender is given. The \<open>k\<close>-th request meets the network \<open>H k\<close>, and \<open>mem k\<close> says which
  of the two allocations of the compressor succeed; \<open>gzip\<close> is the setting \<open>g_ph.gzip\<close>.
\<close>

record ph_transport =
  tr_send :: "nat \<Rightarrow> string \<Rightarrow> bytes \<Rightarrow> int \<Rightarrow> int \<times> ph_send_meta"
  tr_fetch :: "nat \<Rightarrow> string \<Rightarrow> bytes \<Rightarrow> int \<Rightarrow> nat \<Rightarrow> int \<times> bytes"

definition ph_http_transport_create :: "(nat \<Rightarrow> http_env) \<Rightarrow> deflate_lib \<Rightarrow> (nat \<Rightarrow> bool \<times> bool) \<Rightarrow> bool \<Rightarrow> ph_transport" where
  "ph_http_transport_create H Z mem gzip =
     \<lparr>tr_send = \<lambda>k url body timeout_ms.
        let r = http_send (H k) Z (fst (mem k)) (snd (mem k)) gzip url body timeout_ms in (hr_status r, hr_meta r),
      tr_fetch = \<lambda>k url body timeout_ms out_cap.
        let r = http_fetch (H k) url body timeout_ms out_cap in (hr_status r, hr_out r)\<rparr>"

end
