(* ===== verification/Ph_Http_Request.thy ===== *)
theory Ph_Http_Request
  imports Ph_Tls_Session Ph_Transport
begin

text \<open>
  Requests of the transport, plain or over TLS: the lines of the request text, what the head
  announces, and that a reported status implies the whole request was written. The head is read with
  the scanners that theory \<open>Ph_Http\<close> has for responses.
\<close>

section \<open>Facts: requests\<close>

definition plain :: "string \<Rightarrow> bool" where
  "plain l \<longleftrightarrow> list_all (\<lambda>c. \<not> is_eol c) l"

text \<open>Header lines, each with its line end.\<close>

fun header_lines :: "string list \<Rightarrow> string" where
  "header_lines [] = []"
| "header_lines (l # ls) = l @ CRLF @ header_lines ls"

lemma header_value_short: "length r < length key \<Longrightarrow> header_value key bol r = None"
  by (cases r) simp_all

lemma header_value_inside:
  "plain l \<Longrightarrow> plain key \<Longrightarrow> key \<noteq> [] \<Longrightarrow> header_value key False (l @ CRLF @ r) = header_value key True r"
proof (induction l)
  case Nil
  have "map tolower_c (take (length key) (LF # r)) \<noteq> key"
    using Nil by (cases key) (auto simp: plain_def is_eol_def tolower_c_def byte_val_def)
  then show ?case using header_value_short [of r key True] by (simp add: crlf_chars)
next
  case (Cons c l)
  then show ?case using header_value_short [of r key True] by (simp add: plain_def is_eol_def)
qed

lemma header_value_line:
  assumes "plain l" "l \<noteq> []" "plain key" "key \<noteq> []"
  shows "header_value key True (l @ CRLF @ r) =
    (if length (l @ CRLF @ r) \<ge> length key \<and> map tolower_c (take (length key) (l @ CRLF @ r)) = key
     then Some (drop (length key) (l @ CRLF @ r)) else header_value key True r)"
proof -
  obtain c cs where l: "l = c # cs" using assms(2) by (cases l) auto
  have "c \<noteq> LF" "plain cs" using assms(1) by (simp_all add: l plain_def is_eol_def)
  then show ?thesis
    using header_value_inside [of cs key r] header_value_short [of r key True] assms(3,4) by (simp add: l)
qed

lemma three_chars: "3 \<le> length xs \<Longrightarrow> \<exists>a b c t. xs = a # b # c # t"
  by (cases xs; cases "tl xs"; cases "tl (tl xs)") auto

lemma header_end_line:
  assumes "plain l" "r \<noteq> []" "hd r \<noteq> CR"
  shows "find_header_end (l @ CRLF @ r) = map_option (\<lambda>n. length l + 2 + n) (find_header_end r)"
  using assms(1)
proof (induction l)
  case Nil
  show ?case
  proof (cases "3 \<le> length r")
    case True
    then obtain a b c t where "r = a # b # c # t" using three_chars by blast
    then show ?thesis using assms(3) by (cases "find_header_end r") (simp_all add: crlf_chars)
  next
    case False
    then have "find_header_end r = None" "find_header_end (CR # LF # r) = None"
      using assms(2,3) by (auto simp: numeral_3_eq_3 neq_Nil_conv not_le less_Suc_eq length_Suc_conv)
    then show ?thesis by (simp add: crlf_chars)
  qed
next
  case (Cons c l)
  have "3 \<le> length (l @ CRLF @ r)" using assms(2) by (cases r) (simp_all add: crlf_chars)
  then obtain x y z t where e: "l @ CRLF @ r = x # y # z # t" using three_chars by blast
  then have "find_header_end ((c # l) @ CRLF @ r) = map_option Suc (find_header_end (l @ CRLF @ r))"
    using Cons.prems by (simp add: plain_def is_eol_def)
  then show ?case using Cons by (cases "find_header_end r") (simp_all add: plain_def)
qed

lemma header_end_last: "plain l \<Longrightarrow> find_header_end (l @ BLANK_LINE @ b) = Some (length l)"
proof (induction l)
  case Nil
  show ?case by (simp add: BLANK_LINE_def crlf_chars)
next
  case (Cons c l)
  have "3 \<le> length (l @ BLANK_LINE @ b)" by (simp add: BLANK_LINE_def crlf_chars)
  then obtain x y z t where e: "l @ BLANK_LINE @ b = x # y # z # t" using three_chars by blast
  then have "find_header_end ((c # l) @ BLANK_LINE @ b) = map_option Suc (find_header_end (l @ BLANK_LINE @ b))"
    using Cons.prems by (simp add: plain_def is_eol_def)
  then show ?case using Cons by (simp add: plain_def)
qed

lemma header_end_lines:
  assumes "list_all (\<lambda>l. plain l \<and> l \<noteq> []) ls" "plain l" "l \<noteq> []"
  shows "find_header_end (header_lines ls @ l @ BLANK_LINE @ b) = Some (length (header_lines ls @ l))"
  using assms(1)
proof (induction ls)
  case Nil
  show ?case using header_end_last [OF assms(2)] by simp
next
  case (Cons x xs)
  have nz: "header_lines xs @ l @ BLANK_LINE @ b \<noteq> []" using assms(3) by simp
  have "hd (header_lines xs @ l @ BLANK_LINE @ b) \<noteq> CR"
    using Cons.prems assms(2,3) by (cases xs; cases l) (auto simp: plain_def is_eol_def neq_Nil_conv)
  then show ?case using header_end_line [OF _ nz, of x] Cons by (simp add: crlf_chars)
qed

lemma content_digits_dec: "n div 10 \<le> 100000000 \<Longrightarrow> content_digits (nat_dec n @ r) 0 = content_digits r (int n)"
proof (induction n arbitrary: r rule: nat_dec.induct)
  case (1 n)
  show ?case
  proof (cases "n < 10")
    case True
    then show ?thesis by (simp add: nat_dec.simps [of n] PH_HTTP_MAX_CONTENT_LEN_def)
  next
    case False
    have "n div 10 div 10 \<le> 100000000" "int (n div 10) \<le> 100000000" using 1(2) by simp_all
    moreover have "int (n div 10) * 10 + int (n mod 10) = int n" by (metis div_mult_mod_eq of_nat_add of_nat_mult of_nat_numeral)
    ultimately show ?thesis
      using False 1(1) [OF False, of "dec_digit (n mod 10) # r"] by (simp add: nat_dec.simps [of n] PH_HTTP_MAX_CONTENT_LEN_def)
  qed
qed

lemma request_line_whole: "length s \<le> PH_HOST_CAP + 63 \<Longrightarrow> request_line s = s"
  by (simp add: request_line_def snprintf_trunc_def)

lemma plain_sub: "plain x \<Longrightarrow> plain (takeWhile P x)" "plain x \<Longrightarrow> plain (drop k x)" "plain x \<Longrightarrow> plain (tl x)"
proof -
  show "plain x \<Longrightarrow> plain (takeWhile P x)" by (auto simp: plain_def list_all_iff dest: set_takeWhileD)
  show "plain x \<Longrightarrow> plain (drop k x)" by (auto simp: plain_def list_all_iff dest: in_set_dropD)
  show "plain x \<Longrightarrow> plain (tl x)" by (cases x) (auto simp: plain_def)
qed

lemma authority_parts:
  fixes p :: string
  defines "h \<equiv> takeWhile (\<lambda>c. c \<noteq> CHR ''/'' \<and> c \<noteq> CHR '':'') p"
  defines "q \<equiv> drop (length h) p"
  defines "port \<equiv> takeWhile (\<lambda>c. c \<noteq> CHR ''/'') (tl q)"
  assumes "parse_authority https p = Some u"
  shows "h \<noteq> []" "length h < PH_HOST_CAP" "url_host u = h"
    "url_port u = port \<and> length port < 8 \<or> url_port u = ''80'' \<or> url_port u = ''443''"
    "url_path u = ''/'' \<or> url_path u = q \<and> length q < PH_HOST_CAP \<or>
      url_path u = drop (length port) (tl q) \<and> length (drop (length port) (tl q)) < PH_HOST_CAP" "is_https u = https"
proof -
  note a = assms(4) [unfolded parse_authority_def Let_def, folded h_def, folded q_def, folded port_def]
  have h: "h \<noteq> []" "length h < PH_HOST_CAP" using a by (simp_all split: if_splits)
  show "h \<noteq> []" "length h < PH_HOST_CAP" by (fact h)+
  define colon where "colon \<longleftrightarrow> q \<noteq> [] \<and> hd q = CHR '':''"
  define t where "t = (if colon then drop (length port) (tl q) else q)"
  have u: "\<not> (colon \<and> 8 \<le> length port)" "\<not> (t \<noteq> [] \<and> hd t = CHR ''/'' \<and> PH_HOST_CAP \<le> length t)"
    "u = \<lparr>url_host = h, url_port = (if colon then port else if https then ''443'' else ''80''),
       url_path = (if t \<noteq> [] \<and> hd t = CHR ''/'' then t else ''/''), is_https = https\<rparr>"
    using a h unfolding colon_def [symmetric] t_def [symmetric] by (auto split: if_splits)
  show "url_host u = h" "is_https u = https" by (simp_all add: u(3))
  show "url_port u = port \<and> length port < 8 \<or> url_port u = ''80'' \<or> url_port u = ''443''" using u(1) by (auto simp: u(3))
  show "url_path u = ''/'' \<or> url_path u = q \<and> length q < PH_HOST_CAP \<or>
      url_path u = drop (length port) (tl q) \<and> length (drop (length port) (tl q)) < PH_HOST_CAP"
    using u(2) by (auto simp: u(3) t_def)
qed

lemma parse_url_parts:
  assumes "parse_url url = Some u" "plain url"
  shows "plain (url_host u)" "plain (url_port u)" "plain (url_path u)" "url_host u \<noteq> []"
    "length (url_host u) < PH_HOST_CAP" "length (url_port u) < 8" "length (url_path u) < PH_HOST_CAP"
proof -
  obtain p https where p: "parse_authority https p = Some u" "plain p"
    using assms plain_sub(2) [OF assms(2)] by (auto simp: parse_url_def split: if_splits)
  define h where "h = takeWhile (\<lambda>c. c \<noteq> CHR ''/'' \<and> c \<noteq> CHR '':'') p"
  define q where "q = drop (length h) p"
  define port where "port = takeWhile (\<lambda>c. c \<noteq> CHR ''/'') (tl q)"
  have plain: "plain h" "plain q" "plain port" "plain (drop k (tl q))" for k
    using p(2) by (simp_all add: h_def q_def port_def plain_sub)
  note u = authority_parts [OF p(1), folded h_def, folded q_def, folded port_def]
  show "plain (url_host u)" "url_host u \<noteq> []" "length (url_host u) < PH_HOST_CAP" using plain u by simp_all
  show "plain (url_port u)" "length (url_port u) < 8" using plain u(4) by (auto simp: plain_def is_eol_def)
  show "plain (url_path u)" "length (url_path u) < PH_HOST_CAP" using plain u(5) by (auto simp: plain_def is_eol_def caps)
qed

text \<open>
  The request as header lines; the last line stands before the blank line. Both builders write this
  text, for the host as it stands in the \<open>Host\<close> header and the path.
\<close>

definition request_lines :: "string \<Rightarrow> string \<Rightarrow> nat \<Rightarrow> string option \<Rightarrow> string list" where
  "request_lines host path n enc =
     [''POST '' @ path @ '' HTTP/1.1'', ''Host: '' @ host,
      ''Content-Type: application/json'', ''User-Agent: posthog-c/'' @ PH_VERSION_STRING] @
     (case enc of None \<Rightarrow> [] | Some e \<Rightarrow> [''Content-Encoding: '' @ e]) @ [''Content-Length: '' @ nat_dec n]"

definition request_text :: "string \<Rightarrow> string \<Rightarrow> bytes \<Rightarrow> string option \<Rightarrow> bytes" where
  "request_text host path body enc =
     request_line (''POST '' @ path @ '' HTTP/1.1'' @ CRLF) @ request_line (''Host: '' @ host @ CRLF) @
     ''Content-Type: application/json'' @ CRLF @ ''User-Agent: posthog-c/'' @ PH_VERSION_STRING @ CRLF @
     (case enc of None \<Rightarrow> [] | Some e \<Rightarrow> if e = [] then [] else request_line (''Content-Encoding: '' @ e @ CRLF)) @
     request_line (''Content-Length: '' @ nat_dec (length body) @ CRLF) @ ''Connection: close'' @ CRLF @ CRLF @ body"

definition target_ok :: "string \<Rightarrow> string \<Rightarrow> bool" where
  "target_ok host path \<longleftrightarrow> plain host \<and> plain path \<and> length host \<le> PH_HOST_CAP + 50 \<and> length path < PH_HOST_CAP"

definition sent_encoding :: "string option \<Rightarrow> bool" where
  "sent_encoding enc \<longleftrightarrow> enc = None \<or> enc = Some ''gzip''"

lemma request_text_lines:
  assumes "target_ok host path" "sent_encoding enc" "length body \<le> 100000000"
  shows "request_text host path body enc =
    header_lines (request_lines host path (length body) enc) @ ''Connection: close'' @ BLANK_LINE @ body"
proof -
  have d: "length (nat_dec (length body)) \<le> 9" using assms(3) length_nat_dec [of "length body" 9] by simp
  have "request_line (''POST '' @ path @ '' HTTP/1.1'' @ CRLF) = ''POST '' @ path @ '' HTTP/1.1'' @ CRLF"
    "request_line (''Host: '' @ host @ CRLF) = ''Host: '' @ host @ CRLF"
    by (rule request_line_whole; use assms(1) in \<open>simp add: crlf_chars target_ok_def\<close>)+
  moreover have "request_line (''Content-Encoding: '' @ ''gzip'' @ CRLF) = ''Content-Encoding: '' @ ''gzip'' @ CRLF"
    by (rule request_line_whole) (simp add: crlf_chars)
  moreover have "request_line (''Content-Length: '' @ nat_dec (length body) @ CRLF) = ''Content-Length: '' @ nat_dec (length body) @ CRLF"
    by (rule request_line_whole) (use d in \<open>simp add: crlf_chars\<close>)
  ultimately show ?thesis
    using assms(2) unfolding sent_encoding_def
    by (elim disjE) (simp_all add: request_text_def request_lines_def BLANK_LINE_def)
qed

lemma nat_dec_plain: "plain (nat_dec n)"
proof -
  have "\<not> is_eol c" if "is_digit c" for c using that by (auto simp: is_digit_def is_eol_def byte_val_def)
  then show ?thesis using nat_dec_digits [of _ n] by (auto simp: plain_def list_all_iff)
qed

lemma request_lines_plain:
  assumes "target_ok host path" "sent_encoding enc"
  shows "list_all (\<lambda>l. plain l \<and> l \<noteq> []) (request_lines host path n enc)"
  using assms nat_dec_plain [of n]
  by (auto simp: request_lines_def target_ok_def sent_encoding_def plain_def is_eol_def PH_VERSION_STRING_def)

text \<open>A line that does not carry that header: it differs within the header's name.\<close>

definition other_header :: "string \<Rightarrow> string \<Rightarrow> bool" where
  "other_header key l \<longleftrightarrow> (\<exists>n \<le> length key. n \<le> length l \<and> map tolower_c (take n l) \<noteq> take n key)"

lemma header_value_skip:
  assumes "plain l" "l \<noteq> []" "plain key" "key \<noteq> []" "other_header key l"
  shows "header_value key True (l @ CRLF @ r) = header_value key True r"
proof -
  obtain n where n: "n \<le> length key" "n \<le> length l" "map tolower_c (take n l) \<noteq> take n key" using assms(5) by (auto simp: other_header_def)
  have "map tolower_c (take (length key) (l @ CRLF @ r)) \<noteq> key"
  proof
    assume "map tolower_c (take (length key) (l @ CRLF @ r)) = key"
    then have "take n (map tolower_c (take (length key) (l @ CRLF @ r))) = take n key" by simp
    then show False using n by (simp add: take_map min_absorb1)
  qed
  then show ?thesis using header_value_line [OF assms(1-4), of r] by auto
qed

lemma header_value_others:
  "list_all (\<lambda>l. plain l \<and> l \<noteq> []) ls \<Longrightarrow> list_all (other_header key) ls \<Longrightarrow> plain key \<Longrightarrow> key \<noteq> [] \<Longrightarrow>
   header_value key True (header_lines ls @ r) = header_value key True r"
  by (induction ls) (simp_all add: header_value_skip)

lemma header_value_found:
  assumes "plain a" "a \<noteq> []" "map tolower_c a = key"
  shows "header_value key True (a @ r) = Some r"
proof -
  have "length a = length key" using assms(3) by auto
  then show ?thesis using assms(2,3) by (cases a) auto
qed

lemma header_lines_append: "header_lines (xs @ ys) = header_lines xs @ header_lines ys"
  by (induction xs) simp_all

lemma tolower_letters:
  "tolower_c (CHR ''P'') = CHR ''p''" "tolower_c (CHR ''H'') = CHR ''h''" "tolower_c (CHR ''U'') = CHR ''u''"
  "tolower_c (CHR ''C'') = CHR ''c''" "tolower_c (CHR ''T'') = CHR ''t''" "tolower_c (CHR ''E'') = CHR ''e''" "tolower_c (CHR ''L'') = CHR ''l''"
  "tolower_c (CHR ''o'') = CHR ''o''" "tolower_c (CHR ''n'') = CHR ''n''" "tolower_c (CHR ''t'') = CHR ''t''"
  "tolower_c (CHR ''e'') = CHR ''e''" "tolower_c (CHR ''-'') = CHR ''-''"
  by code_simp+

definition framing_keys :: "string list" where
  "framing_keys = [''content-length:'', ''transfer-encoding:'', ''content-encoding:'']"

lemma framing_keys_plain: "key \<in> set framing_keys \<Longrightarrow> plain key \<and> key \<noteq> []"
  by (auto simp: framing_keys_def plain_def is_eol_def)

lemma other_header_Cons [simp]: "other_header (k # ks) (c # cs) \<longleftrightarrow> tolower_c c \<noteq> k \<or> other_header ks cs"
proof
  assume "other_header (k # ks) (c # cs)"
  then obtain n where "n \<le> length (k # ks)" "n \<le> length (c # cs)" "map tolower_c (take n (c # cs)) \<noteq> take n (k # ks)"
    by (auto simp: other_header_def)
  then show "tolower_c c \<noteq> k \<or> other_header ks cs" by (cases n) (auto simp: other_header_def)
next
  assume "tolower_c c \<noteq> k \<or> other_header ks cs"
  then show "other_header (k # ks) (c # cs)"
  proof
    assume "tolower_c c \<noteq> k"
    then show ?thesis by (auto simp: other_header_def intro: exI [of _ "Suc 0"])
  next
    assume "other_header ks cs"
    then obtain n where "n \<le> length ks" "n \<le> length cs" "map tolower_c (take n cs) \<noteq> take n ks" by (auto simp: other_header_def)
    then show ?thesis unfolding other_header_def by (intro exI [of _ "Suc n"]) simp
  qed
qed

lemma first_lines_other:
  assumes "key \<in> set framing_keys"
  shows "list_all (other_header key) (take 4 (request_lines host path n enc))"
  using assms by (auto simp: request_lines_def framing_keys_def tolower_letters)

text \<open>The request's head says how the body is framed and encoded, whatever the URL.\<close>

definition request_head :: "string \<Rightarrow> string \<Rightarrow> nat \<Rightarrow> string option \<Rightarrow> bytes" where
  "request_head host path n enc = header_lines (request_lines host path n enc) @ ''Connection: close''"

lemma tail_values:
  assumes "plain (nat_dec n)" "key \<in> set framing_keys"
  defines "cl \<equiv> [''Content-Length: '' @ nat_dec n]" and "ce \<equiv> [''Content-Encoding: gzip'']" and "c \<equiv> ''Connection: close''"
  shows "header_value key True (header_lines cl @ c) =
      (if key = ''content-length:'' then Some ('' '' @ nat_dec n @ CRLF @ c) else None)"
    "header_value key True (header_lines (ce @ cl) @ c) =
      (if key = ''content-encoding:'' then Some ('' gzip'' @ CRLF @ ''Content-Length: '' @ nat_dec n @ CRLF @ c)
       else header_value key True (header_lines cl @ c))"
proof -
  have lines: "list_all (\<lambda>l. plain l \<and> l \<noteq> []) cl" "list_all (\<lambda>l. plain l \<and> l \<noteq> []) ce"
    using assms(1) by (simp_all add: cl_def ce_def plain_def is_eol_def)
  note k = framing_keys_plain [OF assms(2), THEN conjunct1] framing_keys_plain [OF assms(2), THEN conjunct2]
  have last: "header_value key True c = None" unfolding c_def using assms(2) by (auto simp: framing_keys_def tolower_letters)
  have lit: "plain ''Content-Length:''" "plain ''Content-Encoding:''" by (simp_all add: plain_def is_eol_def)
  have low: "map tolower_c ''Content-Length:'' = ''content-length:''" "map tolower_c ''Content-Encoding:'' = ''content-encoding:''" by code_simp+
  show "header_value key True (header_lines cl @ c) =
      (if key = ''content-length:'' then Some ('' '' @ nat_dec n @ CRLF @ c) else None)"
  proof (cases "key = ''content-length:''")
    case True
    then show ?thesis using header_value_found [OF lit(1) _ low(1), of "'' '' @ nat_dec n @ CRLF @ c"] by (simp add: cl_def)
  next
    case False
    then have "list_all (other_header key) cl" using assms(2) by (auto simp: cl_def framing_keys_def tolower_letters)
    then show ?thesis using header_value_others [OF lines(1) _ k, of c] False last by simp
  qed
  show "header_value key True (header_lines (ce @ cl) @ c) =
      (if key = ''content-encoding:'' then Some ('' gzip'' @ CRLF @ ''Content-Length: '' @ nat_dec n @ CRLF @ c)
       else header_value key True (header_lines cl @ c))"
  proof (cases "key = ''content-encoding:''")
    case True
    then show ?thesis
      using header_value_found [OF lit(2) _ low(2), of "'' gzip'' @ CRLF @ ''Content-Length: '' @ nat_dec n @ CRLF @ c"]
      by (simp add: cl_def ce_def)
  next
    case False
    then have "list_all (other_header key) ce" using assms(2) by (auto simp: ce_def framing_keys_def tolower_letters)
    then show ?thesis using header_value_others [OF lines(2) _ k, of "header_lines cl @ c"] False by (simp add: header_lines_append)
  qed
qed

lemma request_head_value:
  assumes "target_ok host path" "sent_encoding enc" "key \<in> set framing_keys"
  shows "header_value key True (request_head host path n enc) =
    (if key = ''content-length:'' then Some ('' '' @ nat_dec n @ CRLF @ ''Connection: close'')
     else if key = ''content-encoding:'' \<and> enc \<noteq> None
     then Some ('' gzip'' @ CRLF @ ''Content-Length: '' @ nat_dec n @ CRLF @ ''Connection: close'') else None)"
proof -
  define xs where "xs = take 4 (request_lines host path n enc)"
  define rest where "rest = drop 4 (request_lines host path n enc)"
  have s: "request_lines host path n enc = xs @ rest" by (simp add: xs_def rest_def)
  have ok: "list_all (\<lambda>l. plain l \<and> l \<noteq> []) xs" using request_lines_plain [OF assms(1,2), of n] by (simp add: s)
  have h: "header_value key True (request_head host path n enc) = header_value key True (header_lines rest @ ''Connection: close'')"
    using header_value_others [OF ok first_lines_other [OF assms(3), of host path n enc, folded xs_def]] framing_keys_plain [OF assms(3)]
    by (simp add: request_head_def s header_lines_append)
  have r: "rest = (case enc of None \<Rightarrow> [] | Some e \<Rightarrow> [''Content-Encoding: '' @ e]) @ [''Content-Length: '' @ nat_dec n]"
    by (simp add: rest_def request_lines_def)
  show ?thesis
    unfolding h r using assms(2) tail_values [OF nat_dec_plain assms(3), of n] by (auto simp: sent_encoding_def)
qed

lemma request_frames_body:
  assumes "target_ok host path" "sent_encoding enc" "length body \<le> 100000000"
  defines "head \<equiv> request_head host path (length body) enc"
  shows "request_text host path body enc = head @ BLANK_LINE @ body"
    "find_header_end (head @ BLANK_LINE @ body) = Some (length head)" "announces head (Sized body)"
    "header_value ''content-encoding:'' True head \<noteq> None \<longleftrightarrow> enc \<noteq> None"
proof -
  show "request_text host path body enc = head @ BLANK_LINE @ body"
    using request_text_lines [OF assms(1-3)] by (simp add: head_def request_head_def)
  have "plain ''Connection: close''" by (simp add: plain_def is_eol_def)
  then show "find_header_end (head @ BLANK_LINE @ body) = Some (length head)"
    using header_end_lines [OF request_lines_plain [OF assms(1,2)], of "''Connection: close''" "length body" body]
    by (simp add: head_def request_head_def)
  note v = request_head_value [OF assms(1,2), of _ "length body", folded head_def]
  have te: "header_value ''transfer-encoding:'' True head = None" using v [of "''transfer-encoding:''"] by (simp add: framing_keys_def)
  have cl: "header_value ''content-length:'' True head = Some ('' '' @ nat_dec (length body) @ CRLF @ ''Connection: close'')"
    using v [of "''content-length:''"] by (simp add: framing_keys_def)
  show "header_value ''content-encoding:'' True head \<noteq> None \<longleftrightarrow> enc \<noteq> None"
    using v [of "''content-encoding:''"] by (simp add: framing_keys_def)
  obtain c cs where c: "nat_dec (length body) = c # cs" "is_digit c"
    using nat_dec_nonempty [of "length body"] nat_dec_digits [of _ "length body"] by (cases "nat_dec (length body)") auto
  have "\<not> is_digit CR" "\<not> is_blank c" using c(2) by (auto simp: is_digit_def is_blank_def byte_val_def)
  then have "scan_content_length head = content_digits (nat_dec (length body) @ CRLF @ ''Connection: close'') 0"
    using c by (simp add: scan_content_length_def cl Let_def) (simp add: is_blank_def)
  also have "\<dots> = int (length body)"
    using content_digits_dec [of "length body"] assms(3) \<open>\<not> is_digit CR\<close> by (simp add: crlf_chars)
  finally show "announces head (Sized body)" by (simp add: scan_transfer_chunked_def te)
qed

text \<open>The two builders write that text.\<close>

definition http_host :: "ph_url \<Rightarrow> string" where
  "http_host u = url_host u @ (if url_port u = ''80'' then [] else '':'' @ url_port u)"

definition tls_host :: "ph_url \<Rightarrow> string" where
  "tls_host u = url_host u @ (if atoi_c (url_port u) = 443 then [] else '':'' @ int_dec (atoi_c (url_port u)))"

lemma http_request_text:
  assumes "parse_url url = Some u" "\<not> is_https u"
  shows "ph_http_build_request url body enc = Some (request_text (http_host u) (url_path u) body enc)"
  using assms by (simp add: ph_http_build_request_def request_text_def http_host_def)

lemma tls_request_text:
  "tls_build_request (url_host u) (atoi_c (url_port u)) (url_path u) body enc =
   request_text (tls_host u) (if url_path u \<noteq> [] then url_path u else ''/'') body enc"
  by (simp add: tls_build_request_def request_text_def tls_host_def)

lemma dec_value_bound: "list_all is_digit s \<Longrightarrow> dec_value acc s < (acc + 1) * 10 ^ length s"
proof (induction s arbitrary: acc)
  case (Cons c s)
  have "dec_value (10 * acc + digit_val c) s < (10 * acc + digit_val c + 1) * 10 ^ length s" using Cons by simp
  also have "\<dots> \<le> (10 * acc + 10) * 10 ^ length s" using digit_val_less [of c] Cons.prems by (intro mult_le_mono1) simp
  finally show ?case by (simp add: algebra_simps)
qed simp

lemma atoi_text: "length s < 8 \<Longrightarrow> plain (int_dec (atoi_c s)) \<and> length (int_dec (atoi_c s)) \<le> 8"
proof -
  assume "length s < 8"
  define t where "t = dropWhile isspace_c s"
  define d where "d = takeWhile is_digit (if t \<noteq> [] \<and> (hd t = CHR ''-'' \<or> hd t = CHR ''+'') then tl t else t)"
  have "length t \<le> length s" by (simp add: t_def length_dropWhile_le)
  moreover have "length d \<le> length t" unfolding d_def using length_takeWhile_le [of is_digit "tl t"] length_takeWhile_le [of is_digit t] by auto
  ultimately have l: "length d \<le> 7" using \<open>length s < 8\<close> by simp
  have "list_all is_digit d" by (auto simp: d_def list_all_iff dest: set_takeWhileD)
  then have "dec_value 0 d < 10 ^ length d" using dec_value_bound [of d 0] by simp
  also have "\<dots> \<le> 10 ^ 7" using l by (intro power_increasing) simp_all
  finally have n: "length (nat_dec (dec_value 0 d)) \<le> 7" by (intro length_nat_dec) simp_all
  have "plain (CHR ''-'' # nat_dec k)" "plain (nat_dec k)" for k using nat_dec_plain [of k] by (simp_all add: plain_def is_eol_def)
  moreover have "atoi_c s = int (dec_value 0 d) \<or> atoi_c s = - int (dec_value 0 d)"
    by (simp add: atoi_c_def Let_def t_def [symmetric] d_def)
  moreover have "int_dec (- int k) = (if k = 0 then nat_dec k else CHR ''-'' # nat_dec k)" "int_dec (int k) = nat_dec k" for k
    by (simp_all add: int_dec_def)
  ultimately show ?thesis using n by auto
qed

lemma targets_ok:
  assumes "parse_url url = Some u" "plain url"
  shows "target_ok (http_host u) (url_path u)" "target_ok (tls_host u) (if url_path u \<noteq> [] then url_path u else ''/'')"
proof -
  note u = parse_url_parts [OF assms]
  show "target_ok (http_host u) (url_path u)"
    using u by (auto simp: target_ok_def http_host_def plain_def is_eol_def)
  have "plain ''/''" by (simp add: plain_def is_eol_def)
  with u atoi_text [OF u(6)] show "target_ok (tls_host u) (if url_path u \<noteq> [] then url_path u else ''/'')"
    by (auto simp: target_ok_def tls_host_def plain_def is_eol_def caps)
qed

lemma send_loop_whole: "send_loop E deadline k r = (True, w) \<Longrightarrow> w = r"
proof (induction E deadline k r arbitrary: w rule: send_loop.induct)
  case (1 E deadline k r)
  from 1(2) show ?case
    by (subst (asm) send_loop.simps) (auto simp: Let_def split: if_splits prod.splits dest!: 1(1) [OF _ _ refl])
qed

lemma url_path_nonempty: "parse_url url = Some u \<Longrightarrow> url_path u \<noteq> []"
  by (auto simp: parse_url_def parse_authority_def Let_def split: if_splits)

text \<open>The builds whose request text this library writes itself.\<close>

fun posix_tls :: "tls_build \<Rightarrow> bool" where
  "posix_tls (Winhttp E) = False"
| "posix_tls _ = True"

fun tls_verified :: "tls_build \<Rightarrow> string \<Rightarrow> int \<Rightarrow> bool" where
  "tls_verified (Openssl E) host t = openssl_verified E host t"
| "tls_verified (Secure_transport E) host t = secure_transport_verified E host t"
| "tls_verified _ host t = False"

lemma do_tls_session:
  assumes "posix_tls B"
  shows "0 \<le> tr_status (do_tls B host port path body t n enc m full) \<Longrightarrow>
      tr_wire (do_tls B host port path body t n enc m full) = tls_build_request host port path body enc"
    "tr_wire (do_tls B host port path body t n enc m full) \<noteq> [] \<or> 0 \<le> tr_status (do_tls B host port path body t n enc m full) \<Longrightarrow>
      tls_verified B host t"
  using assms openssl.written secure_transport.written openssl.secured secure_transport.secured openssl.verified_status secure_transport.verified_status
  by (cases B; fastforce)+

lemma do_http_https:
  assumes "parse_url url = Some u" "is_https u"
  obtains n m full where
    "hr_status (do_http E url body t out enc) = tr_status (do_tls (ht_tls E) (url_host u) (atoi_c (url_port u)) (url_path u) body t n (if full then None else enc) m full)"
    "hr_wire (do_http E url body t out enc) = tr_wire (do_tls (ht_tls E) (url_host u) (atoi_c (url_port u)) (url_path u) body t n (if full then None else enc) m full)"
    "full = (out \<noteq> None)"
proof (cases out)
  case None
  then show ?thesis using assms that [of PH_RESP_BODY_CAP False 64]
    by (simp add: do_http_def Let_def ph_tls_send_def http_failed_def)
next
  case (Some n)
  then show ?thesis using assms that [of n True 0] by (simp add: do_http_def Let_def ph_tls_fetch_def http_failed_def)
qed

lemma do_http_plain_wire:
  assumes "parse_url url = Some u" "\<not> is_https u" "0 \<le> hr_status (do_http E url body t out enc)"
  shows "hr_wire (do_http E url body t out enc) = request_text (http_host u) (url_path u) body enc"
proof -
  have n: "hr_status (http_failed w) = -1" for w by (simp add: http_failed_def)
  let ?q = "request_text (http_host u) (url_path u) body enc"
  note req = http_request_text [OF assms(1,2), of body enc]
  let ?d = "request_deadline t (ht_start E)"
  obtain ok w where w: "send_loop E ?d 0 ?q = (ok, w)" by (cases "send_loop E ?d 0 ?q")
  have ok: "ok"
  proof (rule ccontr)
    assume "\<not> ok"
    then show False using assms w by (auto simp: do_http_def Let_def req n split: option.splits if_splits)
  qed
  have "w = ?q" using send_loop_whole w ok by simp
  then show ?thesis
    using assms w ok
    by (auto simp: do_http_def Let_def req case_prod_beta http_failed_def split: option.splits if_splits)
qed

definition request_host :: "ph_url \<Rightarrow> string" where
  "request_host u = (if is_https u then tls_host u else http_host u)"

lemma do_http_wire:
  assumes "parse_url url = Some u" "is_https u \<Longrightarrow> posix_tls (ht_tls E)" "0 \<le> hr_status (do_http E url body t None enc)"
  shows "hr_wire (do_http E url body t None enc) = request_text (request_host u) (url_path u) body enc"
    "is_https u \<Longrightarrow> tls_verified (ht_tls E) (url_host u) t"
proof -
  have r: "\<exists>n m. hr_status (do_http E url body t None enc) =
        tr_status (do_tls (ht_tls E) (url_host u) (atoi_c (url_port u)) (url_path u) body t n enc m False) \<and>
      hr_wire (do_http E url body t None enc) =
        tr_wire (do_tls (ht_tls E) (url_host u) (atoi_c (url_port u)) (url_path u) body t n enc m False)" if "is_https u"
    by (rule do_http_https [OF assms(1) that, of E body t None enc]) auto
  show "tls_verified (ht_tls E) (url_host u) t" if "is_https u"
    using r [OF that] do_tls_session(2) [OF assms(2) [OF that]] assms(3) by metis
  show "hr_wire (do_http E url body t None enc) = request_text (request_host u) (url_path u) body enc"
  proof (cases "is_https u")
    case True
    from r [OF this] have "hr_wire (do_http E url body t None enc) = tls_build_request (url_host u) (atoi_c (url_port u)) (url_path u) body enc"
      using do_tls_session(1) [OF assms(2) [OF True]] assms(3) by metis
    then show ?thesis using True url_path_nonempty [OF assms(1)] by (simp add: request_host_def tls_request_text)
  next
    case False
    then show ?thesis using do_http_plain_wire [OF assms(1) _ assms(3)] by (simp add: request_host_def)
  qed
qed

lemma request_target_ok: "parse_url url = Some u \<Longrightarrow> plain url \<Longrightarrow> target_ok (request_host u) (url_path u)"
  using targets_ok [of url u] url_path_nonempty [of url u] by (simp add: request_host_def)

text \<open>The bytes on the wire are one request that announces exactly its content, which is the body or its gzip form.\<close>

definition carries :: "(bytes \<Rightarrow> bytes option) \<Rightarrow> bytes \<Rightarrow> bytes \<Rightarrow> bool" where
  "carries inflate wire body \<longleftrightarrow> (\<exists>head sent. wire = head @ BLANK_LINE @ sent \<and>
     find_header_end (head @ BLANK_LINE @ sent) = Some (length head) \<and> announces head (Sized sent) \<and>
     (if header_value ''content-encoding:'' True head = None then sent = body else gunzip inflate sent = Some body))"

lemma http_send_carries:
  assumes "\<And>d. sdeflate Z body = Some d \<Longrightarrow> inflate d = Some body" "parse_url url = Some u" "is_https u \<Longrightarrow> posix_tls (ht_tls E)"
    "plain url" "0 \<le> hr_status (http_send E Z mem1 mem2 gzip url body t)"
    "length (hr_wire (http_send E Z mem1 mem2 gzip url body t)) \<le> 100000000"
  shows "carries inflate (hr_wire (http_send E Z mem1 mem2 gzip url body t)) body"
    "is_https u \<Longrightarrow> tls_verified (ht_tls E) (url_host u) t"
proof -
  let ?z = "if gzip \<and> body \<noteq> [] then ph_gzip Z mem1 mem2 (Some body) else None"
  define sent where "sent = (case ?z of None \<Rightarrow> body | Some gz \<Rightarrow> gz)"
  define enc where "enc = map_option (\<lambda>_. ''gzip'') ?z"
  have g: "gunzip inflate z = Some body" if "?z = Some z" for z
    by (rule gunzip_ph_gzip(1) [of Z body inflate, OF assms(1)]) (use that in \<open>auto split: if_splits\<close>)
  have s: "http_send E Z mem1 mem2 gzip url body t = do_http E url sent t None enc" "sent_encoding enc"
    "if enc = None then sent = body else gunzip inflate sent = Some body"
    unfolding http_send_def sent_def enc_def sent_encoding_def using g by (cases ?z; simp)+
  note w = do_http_wire [OF assms(2,3,5) [unfolded s(1)]]
  show "is_https u \<Longrightarrow> tls_verified (ht_tls E) (url_host u) t" by (rule w(2))
  have "length sent \<le> length (request_text (request_host u) (url_path u) sent enc)" by (simp add: request_text_def)
  then have "length sent \<le> 100000000" using assms(6) w(1) by (simp add: s(1))
  note f = request_frames_body [OF request_target_ok [OF assms(2,4)] s(2) this]
  show "carries inflate (hr_wire (http_send E Z mem1 mem2 gzip url body t)) body" unfolding carries_def
    using f w(1) s(1,3) by (intro exI [of _ "request_head (request_host u) (url_path u) (length sent) enc"] exI [of _ sent]) auto
qed

section \<open>The HTTP transport delivers what it acknowledges\<close>

definition http_delivered ::
  "(nat \<Rightarrow> http_env) \<Rightarrow> deflate_lib \<Rightarrow> (nat \<Rightarrow> bool \<times> bool) \<Rightarrow> bool \<Rightarrow> (bytes \<Rightarrow> bytes option) \<Rightarrow> string \<Rightarrow> bytes \<Rightarrow> bool" where
  "http_delivered H Z mem gzip inflate url body \<longleftrightarrow>
     (\<exists>k t. let r = http_send (H k) Z (fst (mem k)) (snd (mem k)) gzip url body t in is_2xx (hr_status r) \<and>
        (\<forall>u. parse_url url = Some u \<and> (is_https u \<longrightarrow> posix_tls (ht_tls (H k))) \<and> plain url \<and>
         (\<forall>d. sdeflate Z body = Some d \<longrightarrow> inflate d = Some body) \<and> length (hr_wire r) \<le> 100000000 \<longrightarrow>
         carries inflate (hr_wire r) body \<and> (is_https u \<longrightarrow> tls_verified (ht_tls (H k)) (url_host u) t)))"

interpretation http: transport "tr_send (ph_http_transport_create H Z mem gzip)" "http_delivered H Z mem gzip inflate"
  for H Z mem gzip inflate
proof unfold_locales
  fix k url body t
  let ?r = "http_send (H k) Z (fst (mem k)) (snd (mem k)) gzip url body t"
  assume "is_2xx (fst (tr_send (ph_http_transport_create H Z mem gzip) k url body t))"
  then have ok: "is_2xx (hr_status ?r)" "0 \<le> hr_status ?r" by (simp_all add: ph_http_transport_create_def Let_def is_2xx_def)
  show "http_delivered H Z mem gzip inflate url body"
    unfolding http_delivered_def Let_def using ok http_send_carries [where E = "H k" and Z = Z and body = body] by (intro exI [of _ k] exI [of _ t]) blast
qed

definition sample_http :: http_env where
  "sample_http = \<lparr>ht_start = 0, ht_req_mem = True,
     ht_resolve = \<lambda>h p. Some [\<lparr>ad_now = 0, ad_socket = True,
       ad_connect = \<lparr>ce_nonblocking = True, ce_connect = True, ce_pending = False, ce_now = 0, ce_writable = False, ce_error = None\<rparr>\<rparr>],
     ht_resolved = 0, ht_send_now = \<lambda>k. 0, ht_send = \<lambda>k r. 40,
     ht_peer = \<lambda>w. [Segment (sample_busy_head @ BLANK_LINE @ ''ok'')], ht_recv_now = \<lambda>k. 0, ht_resp_mem = True,
     ht_tls = No_tls\<rparr>"

lemma send_loop_done:
  assumes "\<And>k r. 0 < ht_send E k r"
  shows "send_loop E 0 k r = (True, r)"
proof (induction "length r" arbitrary: k r rule: less_induct)
  case less
  have "\<not> ht_send E k r \<le> 0" using assms [of k r] by simp
  then show ?case by (subst send_loop.simps) (simp add: timed_out_def Let_def less)
qed

lemma sample_send:
  defines "r \<equiv> http_send sample_http \<lparr>sdefl_bound = \<lambda>n. 0, sdeflate = Some\<rparr> True True False ''http://h/batch/'' ''{}'' 0"
  shows "parse_url ''http://h/batch/'' = Some \<lparr>url_host = ''h'', url_port = ''80'', url_path = ''/batch/'', is_https = False\<rparr>"
    "plain ''http://h/batch/''" "hr_status r = 429" "length (hr_wire r) \<le> 1000"
proof -
  let ?u = "\<lparr>url_host = ''h'', url_port = ''80'', url_path = ''/batch/'', is_https = False\<rparr>"
  show u: "parse_url ''http://h/batch/'' = Some ?u" "plain ''http://h/batch/''" by code_simp+
  define w where "w = request_head (http_host ?u) (url_path ?u) (length ''{}'') None @ BLANK_LINE @ ''{}''"
  have req: "ph_http_build_request ''http://h/batch/'' ''{}'' None = Some w"
    using http_request_text [OF u(1), of "''{}''" None] request_frames_body(1) [OF targets_ok(1) [OF u], of None "''{}''"]
    by (simp add: w_def sent_encoding_def)
  have send: "send_loop sample_http 0 0 w = (True, w)" by (rule send_loop_done) (simp add: sample_http_def)
  let ?s = "ht_peer sample_http w"
  have s: "stream_bytes ?s = response sample_busy_head (Sized ''ok'')" "Net_Failed \<notin> set ?s" "\<forall>k::nat. \<not> timed_out 0 (ht_recv_now sample_http k)"
    by (simp_all add: sample_http_def response_def timed_out_def)
  have h: "length sample_busy_head \<le> 4091" by (simp add: sample_busy_head_def CRLF_def)
  obtain b where "read_status_response 0 (ht_recv_now sample_http) ?s = ph__http_parse_response_meta (sample_busy_head @ BLANK_LINE @ b)"
    using status_response_parts [OF sample_busy_head_ok(1) h s] by blast
  then have st: "fst (read_status_response 0 (ht_recv_now sample_http) ?s) = 429"
    using meta_split [OF sample_busy_head_ok(1), of b] sample_busy_head_ok(3) by simp
  have env: "ht_req_mem sample_http" "\<exists>a. ht_resolve sample_http h p = Some a \<and> connect_any 0 a" for h p
    by (simp_all add: sample_http_def timed_out_def connect_until_def)
  have d: "request_deadline 0 x = 0" "\<not> timed_out 0 y" for x y by (simp_all add: request_deadline_def timed_out_def)
  have r: "hr_status r = fst (read_status_response 0 (ht_recv_now sample_http) ?s)" "hr_wire r = w"
    using env(1) env(2) [of "''h''" "''80''"]
    by (auto simp: r_def http_send_def do_http_def u(1) req send d Let_def http_failed_def case_prod_beta)
  show "hr_status r = 429" by (simp add: r st)
  show "length (hr_wire r) \<le> 1000"
    by (simp add: r w_def request_head_def request_lines_def http_host_def PH_VERSION_STRING_def BLANK_LINE_def CRLF_def nat_dec.simps)
qed

section \<open>Properties\<close>

text \<open>
  The server gets exactly the batch. Whenever the send path reports an HTTP status for a URL
  without line breaks, on a plain connection or in a TLS session of a POSIX build, every byte of one
  request was written; its head ends where the reader of responses in this library finds the end,
  announces exactly the bytes that follow, and they are the body, or, when the head says gzip, a gzip
  member that unpacks to the body.
\<close>

theorem send_delivers_body:
  assumes "\<And>d. sdeflate Z body = Some d \<Longrightarrow> inflate d = Some body" "parse_url url = Some u" "is_https u \<longrightarrow> posix_tls (ht_tls E)"
    "plain url" "0 \<le> hr_status (http_send E Z mem1 mem2 gzip url body t)"
    "length (hr_wire (http_send E Z mem1 mem2 gzip url body t)) \<le> 100000000"
  shows "\<exists>head sent. hr_wire (http_send E Z mem1 mem2 gzip url body t) = head @ BLANK_LINE @ sent \<and>
    find_header_end (head @ BLANK_LINE @ sent) = Some (length head) \<and> announces head (Sized sent) \<and>
    (if header_value ''content-encoding:'' True head = None then sent = body else gunzip inflate sent = Some body)"
  using http_send_carries(1) [OF assms(1,2) _ assms(4-6)] assms(3) by (simp add: carries_def)

theorem send_delivers_body_witness:
  "\<exists>head sent. hr_wire (http_send sample_http \<lparr>sdefl_bound = \<lambda>n. 0, sdeflate = Some\<rparr> True True False ''http://h/batch/'' ''{}'' 0) =
     head @ BLANK_LINE @ sent \<and> announces head (Sized sent) \<and> (sent = ''{}'' \<or> gunzip Some sent = Some ''{}'')"
proof -
  note s = sample_send
  have n: "0 \<le> hr_status (http_send sample_http \<lparr>sdefl_bound = \<lambda>n. 0, sdeflate = Some\<rparr> True True False ''http://h/batch/'' ''{}'' 0)"
    using s(3) by simp
  have w: "length (hr_wire (http_send sample_http \<lparr>sdefl_bound = \<lambda>n. 0, sdeflate = Some\<rparr> True True False ''http://h/batch/'' ''{}'' 0)) \<le> 100000000"
    by (rule order_trans [OF s(4)]) simp
  have z: "sdeflate \<lparr>sdefl_bound = \<lambda>n. 0, sdeflate = Some\<rparr> ''{}'' = Some d \<Longrightarrow> Some d = Some ''{}''" for d by simp
  obtain head sent where h: "hr_wire (http_send sample_http \<lparr>sdefl_bound = \<lambda>n. 0, sdeflate = Some\<rparr> True True False ''http://h/batch/'' ''{}'' 0) = head @ BLANK_LINE @ sent"
      "announces head (Sized sent)" "if header_value ''content-encoding:'' True head = None then sent = ''{}'' else gunzip Some sent = Some ''{}''"
    using send_delivers_body [of "\<lparr>sdefl_bound = \<lambda>n. 0, sdeflate = Some\<rparr>" "''{}''" Some, OF z s(1) _ s(2) n w]
    by (auto simp del: announces.simps)
  from h(3) have "sent = ''{}'' \<or> gunzip Some sent = Some ''{}''" by (simp split: if_splits)
  with h(1,2) show ?thesis by blast
qed


definition sample_https :: http_env where
  "sample_https = sample_http\<lparr>ht_tls := Openssl (sample_openssl [Tls_data (''HTTP/1.1 200 OK'' @ BLANK_LINE @ ''{1''), Tls_stop])\<rparr>"


end
