(* ===== verification/Ph_Wasm.thy ===== *)
theory Ph_Wasm
  imports Ph_Core
begin

text \<open>
  The browser backend, from \<^verbatim>\<open>src/ph_wasm.c\<close>: the public interface on top of a posthog-js client that
  the page initialised. The functions written in JavaScript inside the file (\<open>EM_JS\<close>) are modelled
  too; the page's descriptor, the client, the JSON parser and the string conversions of the
  JavaScript engine are the host, an argument of every call. JavaScript strings stand for themselves;
  \<open>h_string\<close> is the conversion from C. The calls made to the bound client are kept in order, with
  what they were given. Log messages are not part of the state.
\<close>

section \<open>The host\<close>

text \<open>The descriptor the page installs, with the names of the client's function members.\<close>

record descriptor =
  d_abi :: int
  d_frozen :: bool
  d_checked_client :: bool
  d_with_alias :: bool
  d_methods :: "string list"
  d_api_key :: string
  d_api_host :: string
  d_distinct_id :: string
  d_person_profiles :: string
  d_preload_flags :: bool
  d_send_feature_flag_events :: bool
  d_rate_policy :: string
  d_release :: string
  d_finalizer_version :: int
  d_final_scrubber :: string
  d_geoip_events :: string
  d_geoip_flags :: string
  d_flags_api_host :: "string option"

text \<open>What a capture is given: a parsed object, a parsed object with one more member, or an object
  written out in the source.\<close>

datatype 'j js_value = Js_str string | Js_bool bool | Js_val 'j

datatype 'j js_object = Parsed 'j | Extended 'j string 'j | Literal "(string \<times> 'j js_value) list"

datatype 'j host_call =
    Js_capture string "'j js_object"
  | Js_identify string 'j
  | Js_alias string string
  | Js_get_distinct_id
  | Js_reset
  | Js_group string string 'j
  | Js_register "(string \<times> 'j js_value) list"
  | Js_set_flag_props 'j
  | Js_get_flag string bool
  | Js_get_payload string
  | Js_reload_flags

datatype js_flag = Js_true | Js_false | Js_variant string

text \<open>
  The host of one call. \<open>h_checked\<close>: \<open>checked_client\<close> returns the descriptor's client; \<open>h_ok\<close>: a call to
  the client returns without an exception; \<open>h_with_alias\<close>: the descriptor runs the function it is
  given; \<open>h_write\<close> is \<open>stringToUTF8\<close> into a buffer of that size. A read of the client is \<open>None\<close> when it
  throws, and \<open>Some None\<close> when the value is undefined or null.
\<close>

record 'j host =
  h_descriptor :: "descriptor option"
  h_checked :: bool
  h_string :: "string \<Rightarrow> string"
  h_parse :: "string \<Rightarrow> 'j option"
  h_ok :: "'j host_call \<Rightarrow> bool"
  h_with_alias :: bool
  h_distinct_id :: "string option"
  h_utf8_length :: "string \<Rightarrow> nat"
  h_write :: "string \<Rightarrow> nat \<Rightarrow> bytes"
  h_flag :: "string \<Rightarrow> js_flag option option"
  h_payload :: "string \<Rightarrow> 'j option option"
  h_stringify :: "'j \<Rightarrow> string"

text \<open>The state of the module: its static variables, the bound descriptor and the calls made.\<close>

record 'j wasm =
  w_initialized :: bool
  w_enabled :: bool
  w_identity_ok :: bool
  w_person_profiles :: int
  w_send_feature_flag_events :: bool
  w_before_send :: "before_send_fn option"
  w_denylist :: "string list"
  w_super :: ph_props
  w_in_callback :: nat
  w_fail_next_props_serialize :: bool
  w_bound :: "descriptor option"
  w_calls :: "'j host_call list"

section \<open>The bridge\<close>

definition client_methods :: "string list" where
  "client_methods = [''capture'', ''identify'', ''alias'', ''get_distinct_id'', ''reset'', ''group'', ''getFeatureFlag'',
     ''getFeatureFlagPayload'', ''reloadFeatureFlags'', ''register'', ''setPersonPropertiesForFlags'']"

definition profile_name :: "int \<Rightarrow> string option" where
  "profile_name p = (if p = 0 then Some ''identified_only'' else if p = 1 then Some ''always'' else if p = 2 then Some ''never'' else None)"

text \<open>The descriptor that is bound when the host is accepted.\<close>

definition ph__wasm_js_validate_host ::
  "'j host \<Rightarrow> descriptor option \<Rightarrow> string \<Rightarrow> string \<Rightarrow> string \<Rightarrow> int \<Rightarrow> bool \<Rightarrow> bool \<Rightarrow> string \<Rightarrow> bool \<Rightarrow> descriptor option" where
  "ph__wasm_js_validate_host H bound key_c host_c id_c profiles preload send_events release_c no_geoip =
     (case h_descriptor H of None \<Rightarrow> None
      | Some d \<Rightarrow>
          if d_abi d \<noteq> 1 \<or> \<not> d_frozen d \<or> \<not> d_checked_client d \<or> \<not> d_with_alias d then None
          else if \<not> h_checked H \<or> \<not> list_all (\<lambda>m. m \<in> set (d_methods d)) client_methods then None
          else if d_api_key d \<noteq> h_string H key_c \<or> d_api_host d \<noteq> h_string H host_c \<or> d_distinct_id d \<noteq> h_string H id_c \<or>
                  h_distinct_id H \<noteq> Some (h_string H id_c) \<or> Some (d_person_profiles d) \<noteq> profile_name profiles \<or>
                  d_preload_flags d \<noteq> preload \<or> d_send_feature_flag_events d \<noteq> send_events \<or>
                  d_rate_policy d \<noteq> ''posthog-js'' \<or> d_release d \<noteq> h_string H release_c \<or> d_finalizer_version d \<noteq> 1 \<or>
                  d_final_scrubber d \<noteq> ''posthog-js-before-send-v1'' then None
          else if (if no_geoip
                   then d_geoip_events d \<noteq> ''force-disable-v1'' \<or> d_geoip_flags d \<noteq> ''proxy-inject-v1'' \<or>
                        d_flags_api_host d = None \<or> d_flags_api_host d = Some []
                   else d_geoip_events d \<noteq> ''default'' \<or> d_geoip_flags d \<noteq> ''default'') then None
          else if bound \<noteq> None then None
          else Some d)"

text \<open>Reading the bound descriptor and asking it for the client; either may throw.\<close>

definition js_client :: "'j host \<Rightarrow> descriptor option \<Rightarrow> bool" where
  "js_client H bound \<longleftrightarrow> bound \<noteq> None \<and> h_checked H"

text \<open>Calls in order until one throws, and whether all returned.\<close>

fun js_calls :: "'j host \<Rightarrow> 'j host_call list \<Rightarrow> 'j host_call list \<times> bool" where
  "js_calls H [] = ([], True)"
| "js_calls H (c # cs) = (if h_ok H c then (let (ds, ok) = js_calls H cs in (c # ds, ok)) else ([c], False))"

definition ph__wasm_js_capture :: "'j host \<Rightarrow> descriptor option \<Rightarrow> string \<Rightarrow> bytes \<Rightarrow> 'j host_call list \<times> bool" where
  "ph__wasm_js_capture H bound event props =
     (if \<not> js_client H bound then ([], False)
      else case h_parse H (h_string H props) of None \<Rightarrow> ([], False)
      | Some j \<Rightarrow> js_calls H [Js_capture (h_string H event) (Parsed j)])"

definition ph__wasm_js_identify :: "'j host \<Rightarrow> descriptor option \<Rightarrow> string \<Rightarrow> bytes \<Rightarrow> bool \<Rightarrow> 'j host_call list \<times> bool" where
  "ph__wasm_js_identify H bound id_c props never_profile =
     (if \<not> js_client H bound then ([], False)
      else case h_parse H (h_string H props) of None \<Rightarrow> ([], False)
      | Some j \<Rightarrow>
          let ident = h_string H id_c
          in if \<not> never_profile then js_calls H [Js_identify ident j]
          else case h_distinct_id H of None \<Rightarrow> ([Js_get_distinct_id], False)
          | Some previous \<Rightarrow>
              let (ds, ok) = js_calls H
                    [Js_register [(''$user_id'', Js_str ident), (''distinct_id'', Js_str ident)],
                     Js_set_flag_props j,
                     Js_capture ''$identify'' (Literal [(''distinct_id'', Js_str ident), (''$anon_distinct_id'', Js_str previous),
                       (''$set'', Js_val j), (''$process_person_profile'', Js_bool False)]),
                     Js_reload_flags]
              in (Js_get_distinct_id # ds, ok))"

definition ph__wasm_js_alias :: "'j host \<Rightarrow> descriptor option \<Rightarrow> string \<Rightarrow> string \<Rightarrow> bool \<Rightarrow> 'j host_call list \<times> bool" where
  "ph__wasm_js_alias H bound new_id old_id never_profile =
     (if \<not> js_client H bound \<or> \<not> h_with_alias H then ([], False)
      else let alias = h_string H new_id; original = h_string H old_id
           in js_calls H [if never_profile
                then Js_capture ''$create_alias'' (Literal [(''alias'', Js_str alias), (''distinct_id'', Js_str original),
                       (''$process_person_profile'', Js_bool False)])
                else Js_alias alias original])"

text \<open>The length of the identifier and the bytes written; \<open>None\<close> is -1.\<close>

definition ph__wasm_js_get_distinct_id :: "'j host \<Rightarrow> descriptor option \<Rightarrow> nat \<Rightarrow> 'j host_call list \<times> (nat \<times> bytes) option" where
  "ph__wasm_js_get_distinct_id H bound n =
     (if \<not> js_client H bound then ([], None)
      else ([Js_get_distinct_id], map_option (\<lambda>i. (h_utf8_length H i, h_write H i n)) (h_distinct_id H)))"

definition ph__wasm_js_reset :: "'j host \<Rightarrow> descriptor option \<Rightarrow> 'j host_call list \<times> bool" where
  "ph__wasm_js_reset H bound = (if \<not> js_client H bound then ([], False) else js_calls H [Js_reset])"

definition ph__wasm_js_group :: "'j host \<Rightarrow> descriptor option \<Rightarrow> string \<Rightarrow> string \<Rightarrow> bytes \<Rightarrow> 'j host_call list \<times> bool" where
  "ph__wasm_js_group H bound ty key props =
     (if \<not> js_client H bound then ([], False)
      else case h_parse H (h_string H props) of None \<Rightarrow> ([], False)
      | Some j \<Rightarrow> js_calls H [Js_group (h_string H ty) (h_string H key) j])"

definition ph__wasm_js_capture_exception :: "'j host \<Rightarrow> descriptor option \<Rightarrow> bytes \<Rightarrow> bytes \<Rightarrow> 'j host_call list \<times> bool" where
  "ph__wasm_js_capture_exception H bound props list =
     (if \<not> js_client H bound then ([], False)
      else case h_parse H (h_string H props) of None \<Rightarrow> ([], False)
      | Some j \<Rightarrow>
          case h_parse H (h_string H list) of None \<Rightarrow> ([], False)
          | Some l \<Rightarrow> js_calls H [Js_capture ''$exception'' (Extended j ''$exception_list'' l)])"

definition ph__wasm_js_is_feature_enabled :: "'j host \<Rightarrow> descriptor option \<Rightarrow> string \<Rightarrow> int \<Rightarrow> bool \<Rightarrow> 'j host_call list \<times> int" where
  "ph__wasm_js_is_feature_enabled H bound key fallback send_event =
     (if \<not> js_client H bound then ([], -1)
      else ([Js_get_flag (h_string H key) send_event],
            case h_flag H (h_string H key) of None \<Rightarrow> -1
            | Some None \<Rightarrow> fallback
            | Some (Some Js_true) \<Rightarrow> 1
            | Some (Some Js_false) \<Rightarrow> 0
            | Some (Some (Js_variant v)) \<Rightarrow> if v = [] then 0 else 1))"

text \<open>\<open>None\<close> is -1, else the bytes written when the value is there; nothing is written without a buffer.\<close>

definition write_out :: "'j host \<Rightarrow> int option \<Rightarrow> string \<Rightarrow> bytes" where
  "write_out H out result = (case out of None \<Rightarrow> [] | Some n \<Rightarrow> if 0 < n then h_write H result (nat n) else [])"

definition ph__wasm_js_get_feature_flag ::
  "'j host \<Rightarrow> descriptor option \<Rightarrow> string \<Rightarrow> int option \<Rightarrow> bool \<Rightarrow> 'j host_call list \<times> bytes option option" where
  "ph__wasm_js_get_feature_flag H bound key out send_event =
     (if \<not> js_client H bound then ([], None)
      else ([Js_get_flag (h_string H key) send_event],
            map_option (map_option (\<lambda>v. write_out H out (case v of Js_true \<Rightarrow> ''true'' | Js_false \<Rightarrow> ''false'' | Js_variant s \<Rightarrow> s)))
              (h_flag H (h_string H key))))"

definition ph__wasm_js_get_feature_flag_payload ::
  "'j host \<Rightarrow> descriptor option \<Rightarrow> string \<Rightarrow> int option \<Rightarrow> 'j host_call list \<times> bytes option option" where
  "ph__wasm_js_get_feature_flag_payload H bound key out =
     (if \<not> js_client H bound then ([], None)
      else ([Js_get_payload (h_string H key)],
            map_option (map_option (\<lambda>v. write_out H out (h_stringify H v))) (h_payload H (h_string H key))))"

definition ph__wasm_js_reload_feature_flags :: "'j host \<Rightarrow> descriptor option \<Rightarrow> 'j host_call list \<times> bool" where
  "ph__wasm_js_reload_feature_flags H bound = (if \<not> js_client H bound then ([], False) else js_calls H [Js_reload_flags])"

section \<open>Properties of a call\<close>

definition wasm_apply_denylist :: "'j wasm \<Rightarrow> ph_props \<Rightarrow> ph_props" where
  "wasm_apply_denylist w p = ph_apply_denylist p (w_denylist w)"

definition wasm_denylist_has :: "'j wasm \<Rightarrow> string \<Rightarrow> bool" where
  "wasm_denylist_has w key = ph_denylist_has (w_denylist w) key"

text \<open>The scrubbed properties and whether the hook keeps the event.\<close>

definition run_hook :: "'j wasm \<Rightarrow> string \<Rightarrow> ph_props \<Rightarrow> ph_props \<times> bool" where
  "run_hook w event p = (case w_before_send w of None \<Rightarrow> (p, True) | Some hook \<Rightarrow> hook event p)"

definition scrub_props :: "'j wasm \<Rightarrow> string \<Rightarrow> ph_props option \<Rightarrow> bool \<Rightarrow> ph_props \<times> bool" where
  "scrub_props w event props include_super =
     run_hook w event (wasm_apply_denylist w (ph_props_merge props (if include_super then Some (w_super w) else None)))"

text \<open>The JSON text of the properties; \<open>mem\<close> tells whether its buffer could grow.\<close>

definition props_to_json :: "double_libc \<Rightarrow> bool \<Rightarrow> ph_props option \<Rightarrow> 'j wasm \<Rightarrow> bytes option \<times> 'j wasm" where
  "props_to_json L mem p w =
     (let b = (case p of Some p \<Rightarrow> ph_serialize_props_object L (Some p) | None \<Rightarrow> ''{}'')
      in (if w_fail_next_props_serialize w \<or> \<not> mem then None else Some b, w\<lparr>w_fail_next_props_serialize := False\<rparr>))"

section \<open>Initialisation\<close>

definition wasm_config_defaults :: ph_config where
  "wasm_config_defaults = \<lparr>cfg_api_key = None, cfg_api_host = Some ''https://us.i.posthog.com'', cfg_distinct_id = None,
     cfg_flush_at = 20, cfg_flush_interval_ms = 30000, cfg_max_batch = 50, cfg_max_queue = 1000,
     cfg_request_timeout_ms = 10000, cfg_max_retries = 3, cfg_gzip = True, cfg_offline_path = None, cfg_release = None,
     cfg_enabled = True, cfg_person_profiles = PH_IDENTIFIED_ONLY, cfg_send_feature_flag_events = True,
     cfg_preload_flags = True, cfg_disable_geoip = False, cfg_before_send = None, cfg_rate_limit_per_sec = 0,
     cfg_property_denylist = None, cfg_property_denylist_count = 0, cfg_crash_handler = False,
     cfg_max_batch_bytes = 1024 * 1024, cfg_on_stats = False, cfg_stats_interval_ms = 0\<rparr>"

definition PH_WASM_API_KEY_CAP :: nat where "PH_WASM_API_KEY_CAP = 96"
definition PH_WASM_HOST_CAP :: nat where "PH_WASM_HOST_CAP = 256"
definition PH_WASM_RELEASE_CAP :: nat where "PH_WASM_RELEASE_CAP = 96"

definition normalize_api_host :: "string option \<Rightarrow> nat \<Rightarrow> string option" where
  "normalize_api_host v n =
     (let host = (case v of None \<Rightarrow> ''https://us.i.posthog.com'' | Some h \<Rightarrow> if h \<noteq> [] then h else ''https://us.i.posthog.com'')
      in if host = [] \<or> n \<le> length host \<or> isspace_c (hd host) \<or> isspace_c (List.last host) then None
      else if take 7 host \<noteq> ''http://'' \<and> take 8 host \<noteq> ''https://'' then None
      else let kept = rev (dropWhile (\<lambda>c. c = CHR ''/'') (rev host))
      in if length kept \<le> (if take 8 host = ''https://'' then 8 else 7) then None else Some kept)"

definition wasm_validate_config :: "ph_config option \<Rightarrow> ph_result" where
  "wasm_validate_config c =
     (case c of None \<Rightarrow> PH_ERR_BADARG
      | Some cfg \<Rightarrow>
          if \<not> cfg_enabled cfg then PH_OK
          else if \<not> given (cfg_api_key cfg) then PH_ERR_BADARG
          else if \<not> given (cfg_distinct_id cfg) then PH_ERR_BADARG
          else if string_over_cap (cfg_api_key cfg) PH_WASM_API_KEY_CAP \<or> string_over_cap (cfg_distinct_id cfg) PH_DISTINCT_ID_CAP \<or>
                  string_over_cap (cfg_release cfg) PH_WASM_RELEASE_CAP \<or> normalize_api_host (cfg_api_host cfg) PH_WASM_HOST_CAP = None
          then PH_ERR_BADARG
          else if cfg_person_profiles cfg < PH_IDENTIFIED_ONLY \<or> PH_NEVER < cfg_person_profiles cfg then PH_ERR_BADARG
          else if cfg_property_denylist_count cfg < 0 \<or> int PH_MAX_DENYLIST < cfg_property_denylist_count cfg then PH_ERR_BADARG
          else if 0 < cfg_property_denylist_count cfg \<and> cfg_property_denylist cfg = None then PH_ERR_BADARG
          else if list_ex (\<lambda>s. string_over_cap s PH_KEY_CAP) (config_denylist cfg) then PH_ERR_BADARG
          else PH_OK)"

definition wasm_denylist_of :: "ph_config \<Rightarrow> string list" where
  "wasm_denylist_of cfg =
     (if cfg_enabled cfg then map (\<lambda>s. ph_copy_capped [] PH_KEY_CAP s) (filter given (config_denylist cfg)) else [])"

text \<open>The state committed once every check has passed.\<close>

definition wasm_commit :: "ph_config \<Rightarrow> bool \<Rightarrow> descriptor option \<Rightarrow> 'j wasm \<Rightarrow> 'j wasm" where
  "wasm_commit cfg identity_ok bound w =
     w\<lparr>w_initialized := True, w_enabled := cfg_enabled cfg, w_identity_ok := identity_ok,
       w_person_profiles := cfg_person_profiles cfg, w_send_feature_flag_events := cfg_send_feature_flag_events cfg,
       w_before_send := cfg_before_send cfg, w_denylist := wasm_denylist_of cfg, w_super := ph_props_init, w_bound := bound\<rparr>"

definition wasm_init :: "'j host \<Rightarrow> ph_config option \<Rightarrow> 'j wasm \<Rightarrow> 'j wasm \<times> ph_result" where
  "wasm_init H c w =
     (if w_initialized w then (w, PH_ERR)
      else if wasm_validate_config c \<noteq> PH_OK then (w, wasm_validate_config c)
      else case c of None \<Rightarrow> (w, PH_ERR_BADARG)
      | Some cfg \<Rightarrow>
          if \<not> cfg_enabled cfg then (wasm_commit cfg False (w_bound w) w, PH_OK)
          else case normalize_api_host (cfg_api_host cfg) PH_WASM_HOST_CAP of None \<Rightarrow> (w, PH_ERR_BADARG)
          | Some normalized_host \<Rightarrow>
              case ph__wasm_js_validate_host H (w_bound w) (the (cfg_api_key cfg)) normalized_host (the (cfg_distinct_id cfg))
                     (cfg_person_profiles cfg) (cfg_preload_flags cfg) (cfg_send_feature_flag_events cfg)
                     (case cfg_release cfg of None \<Rightarrow> [] | Some r \<Rightarrow> r) (cfg_disable_geoip cfg) of
                None \<Rightarrow> (w, PH_ERR)
              | Some d \<Rightarrow> (wasm_commit cfg True (Some d) w, PH_OK))"

section \<open>The public interface\<close>

text \<open>A call's client calls are added to those made before.\<close>

definition made :: "'j host_call list \<Rightarrow> 'j wasm \<Rightarrow> 'j wasm" where
  "made cs w = w\<lparr>w_calls := w_calls w @ cs\<rparr>"

definition wasm_ready :: "'j wasm \<Rightarrow> bool" where
  "wasm_ready w \<longleftrightarrow> w_enabled w \<and> w_identity_ok w"

definition wasm_capture :: "double_libc \<Rightarrow> bool \<Rightarrow> 'j host \<Rightarrow> string option \<Rightarrow> ph_props option \<Rightarrow> 'j wasm \<Rightarrow> 'j wasm \<times> ph_result" where
  "wasm_capture L mem H event props w =
     (if \<not> wasm_ready w then (w, PH_ERR_DISABLED)
      else if \<not> given event then (w, PH_ERR_BADARG)
      else let truncated = (PH_EVENT_NAME_CAP \<le> length (the event));
               event_capped = ph_copy_capped [] PH_EVENT_NAME_CAP event;
               (out, keep) = scrub_props w event_capped props True
      in if \<not> keep then (w, PH_OK)
      else case props_to_json L mem (Some (ph__props_strip_sdk_owned_top_level out)) w of
          (None, w) \<Rightarrow> (w, PH_ERR)
        | (Some json, w) \<Rightarrow>
            (let (cs, ok) = ph__wasm_js_capture H (w_bound w) event_capped json
             in (made cs w, if \<not> ok then PH_ERR else if truncated then PH_ERR_TRUNCATED else PH_OK)))"

definition wasm_identify :: "double_libc \<Rightarrow> bool \<Rightarrow> 'j host \<Rightarrow> string option \<Rightarrow> ph_props option \<Rightarrow> 'j wasm \<Rightarrow> 'j wasm" where
  "wasm_identify L mem H ident set_props w =
     (if \<not> wasm_ready w \<or> \<not> given ident then w
      else let id_capped = ph_copy_capped [] PH_DISTINCT_ID_CAP ident;
               (out, keep) = scrub_props w ''$identify'' set_props False
      in if \<not> keep then w
      else case props_to_json L mem (Some out) w of
          (None, w) \<Rightarrow> w
        | (Some json, w) \<Rightarrow> made (fst (ph__wasm_js_identify H (w_bound w) id_capped json (w_person_profiles w = PH_NEVER))) w)"

definition wasm_alias :: "'j host \<Rightarrow> string option \<Rightarrow> string option \<Rightarrow> 'j wasm \<Rightarrow> 'j wasm" where
  "wasm_alias H new_id old_id w =
     (if \<not> wasm_ready w \<or> \<not> given new_id \<or> \<not> given old_id then w
      else let new_capped = ph_copy_capped [] PH_DISTINCT_ID_CAP new_id; old_capped = ph_copy_capped [] PH_DISTINCT_ID_CAP old_id;
               alias_props = props_put_str ph_props_init ''alias'' new_capped;
               (out, keep) = scrub_props w ''$create_alias'' (Some alias_props) False
      in if \<not> keep then w
      else let clean_alias = ph_props_find_last_str out ''alias''
      in if \<not> given clean_alias then w
      else made (fst (ph__wasm_js_alias H (w_bound w) (ph_copy_capped [] PH_DISTINCT_ID_CAP clean_alias) old_capped
                   (w_person_profiles w = PH_NEVER))) w)"

text \<open>\<open>out\<close> is the capacity of the caller's buffer, \<open>None\<close> when it is null; the result has the bytes left in it.\<close>

definition wasm_get_distinct_id :: "'j host \<Rightarrow> int option \<Rightarrow> 'j wasm \<Rightarrow> 'j wasm \<times> ph_result \<times> bytes" where
  "wasm_get_distinct_id H out w =
     (case out of None \<Rightarrow> (w, PH_ERR_BADARG, [])
      | Some n \<Rightarrow>
          if n \<le> 0 then (w, PH_ERR_BADARG, [])
          else if \<not> wasm_ready w then (w, PH_ERR_DISABLED, [])
          else case ph__wasm_js_get_distinct_id H (w_bound w) (nat n) of
              (cs, None) \<Rightarrow> (made cs w, PH_ERR, [])
            | (cs, Some (len, b)) \<Rightarrow> (made cs w, if n \<le> int len then PH_ERR_TRUNCATED else PH_OK, b))"

definition wasm_reset :: "'j host \<Rightarrow> 'j wasm \<Rightarrow> 'j wasm" where
  "wasm_reset H w =
     (if \<not> w_enabled w then w
      else let w = w\<lparr>w_super := ph_props_init\<rparr> in made (fst (ph__wasm_js_reset H (w_bound w))) w)"

definition wasm_group :: "double_libc \<Rightarrow> bool \<Rightarrow> 'j host \<Rightarrow> string option \<Rightarrow> string option \<Rightarrow> ph_props option \<Rightarrow> 'j wasm \<Rightarrow> 'j wasm" where
  "wasm_group L mem H ty key set_props w =
     (if \<not> wasm_ready w \<or> \<not> given ty \<or> \<not> given key then w
      else let type_capped = ph_copy_capped [] PH_KEY_CAP ty; key_capped = ph_copy_capped [] PH_KEY_CAP key;
               (out, keep) = scrub_props w ''$groupidentify'' set_props False
      in if \<not> keep then w
      else case props_to_json L mem (Some out) w of
          (None, w) \<Rightarrow> w
        | (Some json, w) \<Rightarrow> made (fst (ph__wasm_js_group H (w_bound w) type_capped key_capped json)) w)"

definition wasm_register :: "ph_props option \<Rightarrow> 'j wasm \<Rightarrow> 'j wasm" where
  "wasm_register super_p w =
     (if \<not> wasm_ready w then w
      else case super_p of None \<Rightarrow> w
      | Some p \<Rightarrow> w\<lparr>w_super := foldl register_one (w_super w) (p_items p)\<rparr>)"

definition wasm_unregister :: "string option \<Rightarrow> 'j wasm \<Rightarrow> 'j wasm" where
  "wasm_unregister key w =
     (if \<not> wasm_ready w then w
      else case key of None \<Rightarrow> w | Some k \<Rightarrow> w\<lparr>w_super := ph_props_remove_key (w_super w) k\<rparr>)"

definition wasm_prepare_exception_props :: "'j wasm \<Rightarrow> ph_exception \<Rightarrow> (ph_props \<times> string \<times> string \<times> omits) option" where
  "wasm_prepare_exception_props w ex =
     (let has = wasm_denylist_has w;
          p = wasm_apply_denylist w (ph_props_merge (Some (ph__exception_prepare_base ex)) (Some (w_super w)));
          p = (if has ''type'' then ph_props_remove_key p ''$exception_type'' else p);
          p = (if has ''message'' then ph_props_remove_key p ''$exception_message'' else p);
          (p, keep) = run_hook w ''$exception'' p
      in if \<not> keep then None
         else let (p, ty, message) = ph__exception_take_type_message p
              in Some (p, ty, message,
                   \<lparr>omit_function = has ''function'' \<or> has ''$exception_frame_function'',
                    omit_filename = has ''filename'' \<or> has ''$exception_frame_filename'',
                    omit_module = has ''module'' \<or> has ''$exception_frame_module'',
                    omit_frames = has ''frames'' \<or> has ''stacktrace'' \<or> has ''$exception_frames''\<rparr>))"

text \<open>\<open>list_mem\<close> tells whether the buffer of the exception list could grow.\<close>

definition wasm_capture_exception :: "double_libc \<Rightarrow> bool \<Rightarrow> bool \<Rightarrow> 'j host \<Rightarrow> ph_exception option \<Rightarrow> 'j wasm \<Rightarrow> 'j wasm" where
  "wasm_capture_exception L mem list_mem H ex w =
     (if \<not> wasm_ready w then w
      else case ex of None \<Rightarrow> w
      | Some ex \<Rightarrow>
          case wasm_prepare_exception_props w ex of None \<Rightarrow> w
          | Some (out, ty, message, om) \<Rightarrow>
              case props_to_json L mem (Some (ph__props_strip_sdk_owned_top_level out)) w of
                (None, w) \<Rightarrow> w
              | (Some json, w) \<Rightarrow>
                  if \<not> list_mem then w
                  else made (fst (ph__wasm_js_capture_exception H (w_bound w) json
                         (ph__exception_build_list ex (Some ty) (Some message) om 0))) w)"

definition wasm_is_feature_enabled :: "'j host \<Rightarrow> string option \<Rightarrow> int \<Rightarrow> 'j wasm \<Rightarrow> 'j wasm \<times> int" where
  "wasm_is_feature_enabled H key fallback w =
     (if \<not> wasm_ready w then (w, fallback)
      else case key of None \<Rightarrow> (w, fallback)
      | Some key \<Rightarrow>
          (let (cs, v) = ph__wasm_js_is_feature_enabled H (w_bound w) key fallback (w_send_feature_flag_events w)
           in (made cs w, if v < 0 then fallback else v)))"

definition flag_result :: "'j host_call list \<times> bytes option option \<Rightarrow> 'j wasm \<Rightarrow> 'j wasm \<times> ph_result \<times> bytes" where
  "flag_result r w = (case r of (cs, Some (Some b)) \<Rightarrow> (made cs w, PH_OK, b) | (cs, _) \<Rightarrow> (made cs w, PH_ERR, []))"

definition wasm_get_feature_flag :: "'j host \<Rightarrow> string option \<Rightarrow> int option \<Rightarrow> 'j wasm \<Rightarrow> 'j wasm \<times> ph_result \<times> bytes" where
  "wasm_get_feature_flag H key out w =
     (if \<not> wasm_ready w then (w, PH_ERR, [])
      else case key of None \<Rightarrow> (w, PH_ERR, [])
      | Some key \<Rightarrow> flag_result (ph__wasm_js_get_feature_flag H (w_bound w) key out (w_send_feature_flag_events w)) w)"

definition wasm_get_feature_flag_payload :: "'j host \<Rightarrow> string option \<Rightarrow> int option \<Rightarrow> 'j wasm \<Rightarrow> 'j wasm \<times> ph_result \<times> bytes" where
  "wasm_get_feature_flag_payload H key out w =
     (if \<not> wasm_ready w then (w, PH_ERR, [])
      else case key of None \<Rightarrow> (w, PH_ERR, [])
      | Some key \<Rightarrow> flag_result (ph__wasm_js_get_feature_flag_payload H (w_bound w) key out) w)"

definition wasm_reload_feature_flags :: "'j host \<Rightarrow> 'j wasm \<Rightarrow> 'j wasm" where
  "wasm_reload_feature_flags H w =
     (if \<not> wasm_ready w then w else made (fst (ph__wasm_js_reload_feature_flags H (w_bound w))) w)"

definition wasm_shutdown :: "'j wasm \<Rightarrow> 'j wasm" where
  "wasm_shutdown w =
     (if 0 < w_in_callback w then w
      else w\<lparr>w_bound := None, w_initialized := False, w_enabled := False, w_identity_ok := False,
             w_person_profiles := PH_IDENTIFIED_ONLY, w_send_feature_flag_events := True, w_before_send := None,
             w_denylist := [], w_super := ph_props_init, w_fail_next_props_serialize := False\<rparr>)"

text \<open>The interface as operations; \<open>mem\<close> says which buffers could grow.\<close>

datatype wasm_op =
    W_init "ph_config option"
  | W_capture "string option" "ph_props option"
  | W_identify "string option" "ph_props option"
  | W_alias "string option" "string option"
  | W_get_distinct_id "int option"
  | W_reset
  | W_group "string option" "string option" "ph_props option"
  | W_register "ph_props option"
  | W_unregister "string option"
  | W_exception "ph_exception option"
  | W_is_feature_enabled "string option" int
  | W_get_feature_flag "string option" "int option"
  | W_get_feature_flag_payload "string option" "int option"
  | W_reload_feature_flags
  | W_fail_next_props_serialize
  | W_flush
  | W_shutdown

fun wasm_exec :: "double_libc \<Rightarrow> bool \<Rightarrow> bool \<Rightarrow> 'j host \<Rightarrow> wasm_op \<Rightarrow> 'j wasm \<Rightarrow> 'j wasm" where
  "wasm_exec L mem mem' H (W_init c) w = fst (wasm_init H c w)"
| "wasm_exec L mem mem' H (W_capture e p) w = fst (wasm_capture L mem H e p w)"
| "wasm_exec L mem mem' H (W_identify i p) w = wasm_identify L mem H i p w"
| "wasm_exec L mem mem' H (W_alias n i) w = wasm_alias H n i w"
| "wasm_exec L mem mem' H (W_get_distinct_id n) w = fst (wasm_get_distinct_id H n w)"
| "wasm_exec L mem mem' H W_reset w = wasm_reset H w"
| "wasm_exec L mem mem' H (W_group t k p) w = wasm_group L mem H t k p w"
| "wasm_exec L mem mem' H (W_register p) w = wasm_register p w"
| "wasm_exec L mem mem' H (W_unregister k) w = wasm_unregister k w"
| "wasm_exec L mem mem' H (W_exception e) w = wasm_capture_exception L mem mem' H e w"
| "wasm_exec L mem mem' H (W_is_feature_enabled k f) w = fst (wasm_is_feature_enabled H k f w)"
| "wasm_exec L mem mem' H (W_get_feature_flag k n) w = fst (wasm_get_feature_flag H k n w)"
| "wasm_exec L mem mem' H (W_get_feature_flag_payload k n) w = fst (wasm_get_feature_flag_payload H k n w)"
| "wasm_exec L mem mem' H W_reload_feature_flags w = wasm_reload_feature_flags H w"
| "wasm_exec L mem mem' H W_fail_next_props_serialize w = w\<lparr>w_fail_next_props_serialize := True\<rparr>"
| "wasm_exec L mem mem' H W_flush w = w"
| "wasm_exec L mem mem' H W_shutdown w = wasm_shutdown w"

end
