(* ===== verification/Ph_Wasm_Client.thy ===== *)
theory Ph_Wasm_Client
  imports Ph_Wasm
begin

text \<open>
  The browser backend shown correct: the states its calls lead to, what a page's client is given, and
  the super properties as an interface (locale \<open>super_store\<close>) that both backends provide.
\<close>

section \<open>Facts: the same behaviour in both backends\<close>

lemma config_defaults_agree: "wasm_config_defaults = ph_config_defaults"
  by (simp add: wasm_config_defaults_def ph_config_defaults_def DEFAULT_HOST_def)

text \<open>
  The super properties as an interface: a store in which registering sets or appends, unregistering
  removes and a reset empties. Both backends provide it, each on its own state; the lemmas about runs
  of calls are proved once.
\<close>

datatype super_call = S_register "ph_props option" | S_unregister "string option" | S_reset

definition keys_distinct :: "ph_props \<Rightarrow> bool" where
  "keys_distinct p \<longleftrightarrow> distinct (map prop_key (p_items p))"

fun super_spec :: "super_call \<Rightarrow> ph_props \<Rightarrow> ph_props" where
  "super_spec (S_register None) p = p"
| "super_spec (S_register (Some q)) p = foldl register_one p (p_items q)"
| "super_spec (S_unregister None) p = p"
| "super_spec (S_unregister (Some k)) p = p\<lparr>p_items := filter (\<lambda>it. prop_key it \<noteq> k) (p_items p)\<rparr>"
| "super_spec S_reset p = ph_props_init"

lemma put_item_keys: "put_item it xs = Some ys \<Longrightarrow> map prop_key ys = map prop_key xs"
  by (induction xs arbitrary: ys) (auto split: if_splits)

lemma put_item_member: "put_item it xs = Some ys \<Longrightarrow> it \<in> set ys"
  by (induction xs arbitrary: ys) (auto split: if_splits)

lemma put_item_absent: "put_item it xs = None \<Longrightarrow> prop_key it \<notin> prop_key ` set xs"
  by (induction xs) (auto split: if_splits)

lemma register_one_distinct: "keys_distinct p \<Longrightarrow> keys_distinct (register_one p it)"
  using put_item_absent [of it "p_items p"]
  by (auto simp: register_one_def keys_distinct_def put_item_keys split: option.split)

lemma super_spec_distinct: "keys_distinct p \<Longrightarrow> keys_distinct (super_spec c p)"
proof -
  have "keys_distinct p \<Longrightarrow> keys_distinct (foldl register_one p its)" for p its
    by (induction its arbitrary: p) (simp_all add: register_one_distinct)
  then show "keys_distinct p \<Longrightarrow> keys_distinct (super_spec c p)"
    by (cases "(c, p)" rule: super_spec.cases) (auto simp: keys_distinct_def ph_props_init_def distinct_map_filter)
qed

locale super_store =
  fixes live :: "'s \<Rightarrow> bool" and super_of :: "'s \<Rightarrow> ph_props" and step :: "super_call \<Rightarrow> 's \<Rightarrow> 's"
  assumes step_live: "live s \<Longrightarrow> live (step c s)"
    and step_super: "live s \<Longrightarrow> keys_distinct (super_of s) \<Longrightarrow> super_of (step c s) = super_spec c (super_of s)"
begin

lemma run_super: "live s \<Longrightarrow> keys_distinct (super_of s) \<Longrightarrow>
    live (fold step cs s) \<and> super_of (fold step cs s) = fold super_spec cs (super_of s)"
  by (induction cs arbitrary: s) (simp_all add: step_live step_super super_spec_distinct)

lemma run_distinct: "live s \<Longrightarrow> keys_distinct (super_of s) \<Longrightarrow> keys_distinct (super_of (fold step cs s))"
  by (induction cs arbitrary: s) (simp_all add: step_live step_super super_spec_distinct)

lemma registered_read_back:
  assumes "live s" "keys_distinct (super_of s)" "length (p_items (super_of s)) < PH_MAX_PROPS"
  shows "it \<in> set (p_items (super_of (step (S_register (Some \<lparr>p_items = [it], p_dropped = d\<rparr>)) s)))"
  using assms by (auto simp: step_super register_one_def put_item_member split: option.split)

end

fun wasm_super_step :: "'j host \<Rightarrow> super_call \<Rightarrow> 'j wasm \<Rightarrow> 'j wasm" where
  "wasm_super_step H (S_register p) w = wasm_register p w"
| "wasm_super_step H (S_unregister k) w = wasm_unregister k w"
| "wasm_super_step H S_reset w = wasm_reset H w"

fun native_super_step :: "u64 \<Rightarrow> u64 \<Rightarrow> super_call \<Rightarrow> ph_ctx \<Rightarrow> ph_ctx" where
  "native_super_step wall seed (S_register p) ctx = ph_register p ctx"
| "native_super_step wall seed (S_unregister k) ctx = ph_unregister k ctx"
| "native_super_step wall seed S_reset ctx = ph_reset wall seed ctx"

lemma drop_item_filter: "distinct (map prop_key xs) \<Longrightarrow> drop_item k xs = filter (\<lambda>it. prop_key it \<noteq> k) xs"
proof (induction xs)
  case (Cons x xs)
  show ?case
  proof (cases "prop_key x = k")
    case True
    then have "\<forall>it \<in> set xs. prop_key it \<noteq> k" using Cons.prems by (force simp: image_iff)
    then have "filter (\<lambda>it. prop_key it \<noteq> k) xs = xs" by (simp add: filter_True)
    with True show ?thesis by simp
  qed (use Cons in simp)
qed simp

lemma refresh_super: "super_props (ph__flags_request_auto_refresh c) = super_props c" "enabled (ph__flags_request_auto_refresh c) = enabled c"
  by (rule schedule_frame [of "flags_context_gen c" c], simp add: ph__flags_request_auto_refresh_def ph__sender_wake_def)+

lemma reset_super: "enabled ctx \<Longrightarrow> super_props (ph_reset wall seed ctx) = ph_props_init" "enabled (ph_reset wall seed ctx) = enabled ctx"
  by (simp_all add: ph_reset_def refresh_super ph__flags_context_changed_locked_def mark_context_superseded_locked_def Let_def)

interpretation browser_super: super_store wasm_ready w_super "wasm_super_step H"
proof unfold_locales
  fix w :: "'a wasm" and c
  assume r: "wasm_ready w"
  then show "wasm_ready (wasm_super_step H c w)"
    by (cases c) (auto simp: wasm_register_def wasm_unregister_def wasm_reset_def wasm_ready_def made_def Let_def split: option.split)
  from r show "w_super (wasm_super_step H c w) = super_spec c (w_super w)"
    by (cases "(c, w_super w)" rule: super_spec.cases)
       (auto simp: wasm_register_def wasm_unregister_def wasm_reset_def wasm_ready_def made_def ph_props_remove_key_def Let_def)
qed

interpretation native_super: super_store enabled super_props "native_super_step wall seed"
proof unfold_locales
  fix ctx :: ph_ctx and c
  assume r: "enabled ctx"
  then show "enabled (native_super_step wall seed c ctx)"
    by (cases c) (auto simp: ph_register_def ph_unregister_def reset_super split: option.split)
  assume "keys_distinct (super_props ctx)"
  with r show "super_props (native_super_step wall seed c ctx) = super_spec c (super_props ctx)"
    by (cases "(c, super_props ctx)" rule: super_spec.cases)
       (auto simp: ph_register_def ph_unregister_def reset_super keys_distinct_def drop_item_filter)
qed

section \<open>Facts: what the client is given\<close>

definition keys_of :: "ph_props \<Rightarrow> string set" where
  "keys_of p = prop_key ` set (p_items p)"

lemma keys_denylist: "k \<in> keys_of (wasm_apply_denylist w p) \<Longrightarrow> k \<notin> set (w_denylist w)"
  by (auto simp: keys_of_def wasm_apply_denylist_def apply_denylist_items)

lemma strip_items: "p_items (ph__props_strip_sdk_owned_top_level p) = filter (\<lambda>it. prop_key it \<notin> set k_sdk_owned_top_level) (p_items p)"
  using apply_denylist_items [of p k_sdk_owned_top_level] by (simp add: ph_apply_denylist_def ph__props_strip_sdk_owned_top_level_def)

text \<open>
  Parsed properties that left the privacy stage: the hook, if there is one, was given properties
  without a denylisted key, and what is parsed is the text of a part of what it left.
\<close>

definition from_scrub :: "double_libc \<Rightarrow> 'j host \<Rightarrow> 'j wasm \<Rightarrow> string \<Rightarrow> bool \<Rightarrow> 'j \<Rightarrow> bool" where
  "from_scrub L H w event owned j \<longleftrightarrow>
     (\<exists>given_p kept part. (\<forall>k \<in> keys_of given_p. k \<notin> set (w_denylist w)) \<and> run_hook w event given_p = (kept, True) \<and>
        set (p_items part) \<subseteq> set (p_items kept) \<and> (owned \<longrightarrow> keys_of part \<inter> set k_sdk_owned_top_level = {}) \<and>
        h_parse H (h_string H (ph_serialize_props_object L (Some part))) = Some j)"

definition alias_kept :: "'j wasm \<Rightarrow> bool" where
  "alias_kept w \<longleftrightarrow> (\<exists>given_p kept. (\<forall>k \<in> keys_of given_p. k \<notin> set (w_denylist w)) \<and>
     run_hook w ''$create_alias'' given_p = (kept, True) \<and> ''alias'' \<in> keys_of kept)"

fun call_scrubbed :: "double_libc \<Rightarrow> 'j host \<Rightarrow> 'j wasm \<Rightarrow> 'j host_call \<Rightarrow> bool" where
  "call_scrubbed L H w (Js_capture event (Parsed j)) = (\<exists>e. event = h_string H e \<and> from_scrub L H w e True j)"
| "call_scrubbed L H w (Js_capture event (Extended j k l)) = (event = ''$exception'' \<and> k = ''$exception_list'' \<and> from_scrub L H w event True j)"
| "call_scrubbed L H w (Js_capture event (Literal ms)) =
     (if event = ''$create_alias'' then alias_kept w else list_all (\<lambda>(k, v). case v of Js_val j \<Rightarrow> from_scrub L H w event False j | _ \<Rightarrow> True) ms)"
| "call_scrubbed L H w (Js_identify i j) = from_scrub L H w ''$identify'' False j"
| "call_scrubbed L H w (Js_set_flag_props j) = from_scrub L H w ''$identify'' False j"
| "call_scrubbed L H w (Js_group t k j) = from_scrub L H w ''$groupidentify'' False j"
| "call_scrubbed L H w (Js_alias n i) = alias_kept w"
| "call_scrubbed L H w _ = True"

lemma js_calls_subset: "list_all P cs \<Longrightarrow> list_all P (fst (js_calls H cs))"
  by (induction cs) (auto split: prod.splits)

lemma from_scrub_plain:
  assumes "scrub_props w event props inc = (out, True)" "h_parse H (h_string H (ph_serialize_props_object L (Some out))) = Some j"
  shows "from_scrub L H w event False j"
  using assms keys_denylist unfolding from_scrub_def scrub_props_def by blast

lemma from_scrub_owned:
  assumes "run_hook w event (wasm_apply_denylist w p) = (out, True)" "set (p_items part) \<subseteq> set (p_items out)"
    "h_parse H (h_string H (ph_serialize_props_object L (Some (ph__props_strip_sdk_owned_top_level part)))) = Some j"
  shows "from_scrub L H w event True j"
proof -
  have "keys_of (ph__props_strip_sdk_owned_top_level part) \<inter> set k_sdk_owned_top_level = {}" by (auto simp: keys_of_def strip_items)
  moreover have "set (p_items (ph__props_strip_sdk_owned_top_level part)) \<subseteq> set (p_items out)" using assms(2) by (auto simp: strip_items)
  ultimately show ?thesis using assms(1,3) keys_denylist unfolding from_scrub_def by blast
qed

lemma capture_call: "scrub_props w e props True = (out, True) \<Longrightarrow>
    list_all (call_scrubbed L H w) (fst (ph__wasm_js_capture H b e (ph_serialize_props_object L (Some (ph__props_strip_sdk_owned_top_level out)))))"
  by (auto simp: ph__wasm_js_capture_def scrub_props_def intro!: js_calls_subset exI [of _ e] from_scrub_owned split: option.split)

lemma identify_call: "scrub_props w ''$identify'' props False = (out, True) \<Longrightarrow>
    list_all (call_scrubbed L H w) (fst (ph__wasm_js_identify H b i (ph_serialize_props_object L (Some out)) never))"
  by (auto simp: ph__wasm_js_identify_def Let_def case_prod_beta intro!: js_calls_subset from_scrub_plain simp del: js_calls.simps split: option.split)

lemma group_call: "scrub_props w ''$groupidentify'' props False = (out, True) \<Longrightarrow>
    list_all (call_scrubbed L H w) (fst (ph__wasm_js_group H b t k (ph_serialize_props_object L (Some out))))"
  by (auto simp: ph__wasm_js_group_def intro!: js_calls_subset from_scrub_plain simp del: js_calls.simps split: option.split)

lemma find_last_str_key: "ph_props_find_last_str p k = Some v \<Longrightarrow> k \<in> keys_of p"
proof -
  have "find_str_from_end k its = Some v \<Longrightarrow> k \<in> prop_key ` set its" for its
    by (induction its) (auto split: if_splits ph_val.splits)
  then show "ph_props_find_last_str p k = Some v \<Longrightarrow> k \<in> keys_of p" by (fastforce simp: ph_props_find_last_str_def keys_of_def)
qed

lemma alias_call:
  assumes "scrub_props w ''$create_alias'' props False = (out, True)" "given (ph_props_find_last_str out ''alias'')"
  shows "list_all (call_scrubbed L H w) (fst (ph__wasm_js_alias H b n i never))"
proof -
  obtain v where "ph_props_find_last_str out ''alias'' = Some v" using assms(2) by (auto simp: given_def split: option.splits)
  then have "''alias'' \<in> keys_of out" by (rule find_last_str_key)
  then have "alias_kept w" using assms(1) keys_denylist unfolding alias_kept_def scrub_props_def by blast
  then show ?thesis by (auto simp: ph__wasm_js_alias_def Let_def intro!: js_calls_subset simp del: js_calls.simps)
qed

lemma exception_call:
  assumes "wasm_prepare_exception_props w ex = Some (out, ty, message, om)"
  shows "list_all (call_scrubbed L H w)
    (fst (ph__wasm_js_capture_exception H b (ph_serialize_props_object L (Some (ph__props_strip_sdk_owned_top_level out))) list))"
proof -
  define p0 where "p0 = wasm_apply_denylist w (ph_props_merge (Some (ph__exception_prepare_base ex)) (Some (w_super w)))"
  define p1 where "p1 = (if wasm_denylist_has w ''type'' then ph_props_remove_key p0 ''$exception_type'' else p0)"
  define p2 where "p2 = (if wasm_denylist_has w ''message'' then ph_props_remove_key p1 ''$exception_message'' else p1)"
  obtain kept where k: "run_hook w ''$exception'' p2 = (kept, True)" "fst (ph__exception_take_type_message kept) = out"
    using assms by (auto simp: wasm_prepare_exception_props_def Let_def p0_def p1_def p2_def split: if_splits prod.splits)
  have sub: "set (p_items out) \<subseteq> set (p_items kept)" using k(2) by (auto simp: ph__exception_take_type_message_def Let_def)
  have clean: "\<forall>k \<in> keys_of p2. k \<notin> set (w_denylist w)"
    using keys_denylist [of _ w] by (auto simp: p2_def p1_def p0_def keys_of_def)
  have "from_scrub L H w ''$exception'' True j"
    if "h_parse H (h_string H (ph_serialize_props_object L (Some (ph__props_strip_sdk_owned_top_level out)))) = Some j" for j
    unfolding from_scrub_def using clean k(1) sub that
    by (intro exI [of _ p2] exI [of _ kept] exI [of _ "ph__props_strip_sdk_owned_top_level out"]) (auto simp: keys_of_def strip_items)
  then show ?thesis by (auto simp: ph__wasm_js_capture_exception_def intro!: js_calls_subset simp del: js_calls.simps split: option.split)
qed

section \<open>Facts: states\<close>

text \<open>The module as it is loaded, and the states its calls lead to; the callback counter is zero between calls.\<close>

definition wasm_start :: "'j wasm" where
  "wasm_start = \<lparr>w_initialized = False, w_enabled = False, w_identity_ok = False, w_person_profiles = PH_IDENTIFIED_ONLY,
     w_send_feature_flag_events = True, w_before_send = None, w_denylist = [], w_super = ph_props_init, w_in_callback = 0,
     w_fail_next_props_serialize = False, w_bound = None, w_calls = []\<rparr>"

text \<open>The arguments are C values: property sets the setters can build, and a hook that keeps them so.\<close>

fun wasm_op_ok :: "wasm_op \<Rightarrow> bool" where
  "wasm_op_ok (W_init c) = pred_option config_ok c"
| "wasm_op_ok (W_register p) = pred_option props_wf p"
| "wasm_op_ok _ = True"

inductive wasm_reachable :: "'j wasm \<Rightarrow> bool" where
  loaded: "wasm_reachable wasm_start"
| called: "wasm_reachable w \<Longrightarrow> wasm_op_ok op \<Longrightarrow> wasm_reachable (wasm_exec L mem mem' H op w)"

definition wasm_inv :: "'j wasm \<Rightarrow> bool" where
  "wasm_inv w \<longleftrightarrow> (w_enabled w \<longrightarrow> w_initialized w) \<and> (w_identity_ok w \<longleftrightarrow> w_enabled w) \<and> (w_bound w \<noteq> None \<longleftrightarrow> w_enabled w) \<and>
     props_wf (w_super w) \<and> keys_distinct (w_super w) \<and> length (w_denylist w) \<le> PH_MAX_DENYLIST \<and>
     list_all (\<lambda>k. k \<noteq> [] \<and> length k < PH_KEY_CAP) (w_denylist w) \<and> w_in_callback w = 0 \<and>
     (\<forall>hook n p. w_before_send w = Some hook \<longrightarrow> props_wf p \<longrightarrow> props_wf (fst (hook n p)))"

lemmas wasm_op_defs = wasm_capture_def wasm_identify_def wasm_alias_def wasm_get_distinct_id_def wasm_reset_def wasm_group_def
  wasm_register_def wasm_unregister_def wasm_capture_exception_def wasm_is_feature_enabled_def wasm_get_feature_flag_def
  wasm_get_feature_flag_payload_def wasm_reload_feature_flags_def

text \<open>A call other than these five changes only the calls made and the test seam.\<close>

definition same_settings :: "'j wasm \<Rightarrow> 'j wasm \<Rightarrow> bool" where
  "same_settings w w' \<longleftrightarrow> (\<exists>cs b. w' = w\<lparr>w_calls := cs, w_fail_next_props_serialize := b\<rparr>)"

lemma settings_refl [simp]: "same_settings w w"
  unfolding same_settings_def by (rule exI [of _ "w_calls w"], rule exI [of _ "w_fail_next_props_serialize w"]) simp

lemma settings_json: "same_settings w w' \<Longrightarrow> same_settings w (made cs w')" "props_to_json L mem p w = (r, w') \<Longrightarrow> same_settings w w'"
proof -
  assume "same_settings w w'"
  then obtain ds b where "w' = w\<lparr>w_calls := ds, w_fail_next_props_serialize := b\<rparr>" unfolding same_settings_def by blast
  then have "made cs w' = w\<lparr>w_calls := ds @ cs, w_fail_next_props_serialize := b\<rparr>" by (simp add: made_def)
  then show "same_settings w (made cs w')" unfolding same_settings_def by blast
next
  assume "props_to_json L mem p w = (r, w')"
  then have "w' = w\<lparr>w_calls := w_calls w, w_fail_next_props_serialize := False\<rparr>" by (auto simp: props_to_json_def Let_def)
  then show "same_settings w w'" unfolding same_settings_def by blast
qed

lemma same_settings_ops:
  "same_settings w (fst (wasm_capture L mem H e p w))" "same_settings w (wasm_identify L mem H i p w)" "same_settings w (wasm_alias H i j w)"
  "same_settings w (fst (wasm_get_distinct_id H n w))" "same_settings w (wasm_group L mem H i j p w)"
  "same_settings w (wasm_capture_exception L mem mem' H ex w)" "same_settings w (fst (wasm_is_feature_enabled H k f w))"
  "same_settings w (fst (wasm_get_feature_flag H k n w))" "same_settings w (fst (wasm_get_feature_flag_payload H k n w))"
  "same_settings w (wasm_reload_feature_flags H w)"
  by (auto simp: wasm_op_defs flag_result_def Let_def intro!: settings_json(1) intro: settings_json(2) split: option.split prod.split)

lemma inv_settings: "same_settings w w' \<Longrightarrow> wasm_inv w \<Longrightarrow> wasm_inv w'"
  by (auto simp: same_settings_def wasm_inv_def)

lemma validated:
  assumes "wasm_validate_config (Some cfg) = PH_OK" "cfg_enabled cfg"
  shows "cfg_property_denylist_count cfg \<le> int PH_MAX_DENYLIST" "list_all (\<lambda>s. \<not> string_over_cap s PH_KEY_CAP) (config_denylist cfg)"
    "given (cfg_api_key cfg)" "given (cfg_distinct_id cfg)" "normalize_api_host (cfg_api_host cfg) PH_WASM_HOST_CAP \<noteq> None"
    "0 \<le> cfg_person_profiles cfg" "cfg_person_profiles cfg \<le> 2"
  using assms by (simp_all add: wasm_validate_config_def if_badarg not_less list_ex_iff list_all_iff PH_IDENTIFIED_ONLY_def PH_NEVER_def
      del: de_Morgan_disj split del: if_split) (simp_all add: not_less)

lemma denylist_bounds:
  assumes "wasm_validate_config (Some cfg) = PH_OK"
  shows "length (wasm_denylist_of cfg) \<le> PH_MAX_DENYLIST \<and> list_all (\<lambda>k. k \<noteq> [] \<and> length k < PH_KEY_CAP) (wasm_denylist_of cfg)"
proof (cases "cfg_enabled cfg")
  case True
  note v = validated [OF assms True]
  have "length (filter given (config_denylist cfg)) \<le> length (config_denylist cfg)" by (rule length_filter_le)
  also have "\<dots> \<le> PH_MAX_DENYLIST" using v(1) by (auto simp: config_denylist_def min_le_iff_disj nat_le_iff split: option.split)
  finally show ?thesis using v(2) True
    by (auto simp: wasm_denylist_of_def list_all_iff capped_whole caps string_over_cap_def given_def split: option.splits)
qed (simp add: wasm_denylist_of_def)

text \<open>What a successful initialisation found: the module was not initialised, and when telemetry is
  enabled the descriptor it bound is the one the page installed, for this configuration.\<close>

definition bound_for :: "'j host \<Rightarrow> ph_config \<Rightarrow> descriptor \<Rightarrow> bool" where
  "bound_for H cfg d \<longleftrightarrow> h_descriptor H = Some d \<and> d_abi d = 1 \<and> d_frozen d \<and> list_all (\<lambda>m. m \<in> set (d_methods d)) client_methods \<and>
     d_api_key d = h_string H (the (cfg_api_key cfg)) \<and>
     d_api_host d = h_string H (the (normalize_api_host (cfg_api_host cfg) PH_WASM_HOST_CAP)) \<and>
     d_distinct_id d = h_string H (the (cfg_distinct_id cfg)) \<and> h_distinct_id H = Some (d_distinct_id d) \<and>
     Some (d_person_profiles d) = profile_name (cfg_person_profiles cfg) \<and> d_preload_flags d = cfg_preload_flags cfg \<and>
     d_send_feature_flag_events d = cfg_send_feature_flag_events cfg \<and> d_final_scrubber d = ''posthog-js-before-send-v1'' \<and>
     d_release d = h_string H (case cfg_release cfg of None \<Rightarrow> [] | Some r \<Rightarrow> r) \<and>
     (cfg_disable_geoip cfg \<longrightarrow> d_geoip_events d = ''force-disable-v1'' \<and> d_geoip_flags d = ''proxy-inject-v1'')"

lemma host_accepted:
  assumes "ph__wasm_js_validate_host H b (the (cfg_api_key cfg)) (the (normalize_api_host (cfg_api_host cfg) PH_WASM_HOST_CAP))
      (the (cfg_distinct_id cfg)) (cfg_person_profiles cfg) (cfg_preload_flags cfg) (cfg_send_feature_flag_events cfg)
      (case cfg_release cfg of None \<Rightarrow> [] | Some r \<Rightarrow> r) (cfg_disable_geoip cfg) = Some d"
  shows "bound_for H cfg d" "b = None"
  using assms by (simp_all add: ph__wasm_js_validate_host_def bound_for_def split: option.splits if_splits)

lemma init_cases:
  obtains (failed) r where "wasm_init H c w = (w, r)" "r \<noteq> PH_OK"
  | (off) cfg where "c = Some cfg" "\<not> w_initialized w" "\<not> cfg_enabled cfg" "wasm_init H c w = (wasm_commit cfg False (w_bound w) w, PH_OK)"
  | (on) cfg d where "c = Some cfg" "\<not> w_initialized w" "cfg_enabled cfg" "wasm_validate_config c = PH_OK" "bound_for H cfg d"
      "w_bound w = None" "wasm_init H c w = (wasm_commit cfg True (Some d) w, PH_OK)"
proof (cases "w_initialized w \<or> wasm_validate_config c \<noteq> PH_OK")
  case True
  then show thesis by (intro failed [of "if w_initialized w then PH_ERR else wasm_validate_config c"]) (auto simp: wasm_init_def)
next
  case False
  then obtain cfg where c: "c = Some cfg" by (cases c) (auto simp: wasm_validate_config_def)
  show thesis
  proof (cases "cfg_enabled cfg")
    case True
    then obtain h where h: "normalize_api_host (cfg_api_host cfg) PH_WASM_HOST_CAP = Some h" using False c validated(5) by blast
    show thesis
    proof (cases "snd (wasm_init H c w) = PH_OK")
      case ok: True
      with False c True h obtain d where "ph__wasm_js_validate_host H (w_bound w) (the (cfg_api_key cfg))
          (the (normalize_api_host (cfg_api_host cfg) PH_WASM_HOST_CAP)) (the (cfg_distinct_id cfg)) (cfg_person_profiles cfg)
          (cfg_preload_flags cfg) (cfg_send_feature_flag_events cfg) (case cfg_release cfg of None \<Rightarrow> [] | Some r \<Rightarrow> r)
          (cfg_disable_geoip cfg) = Some d" by (auto simp: wasm_init_def split: option.splits)
      with False c True h host_accepted [OF this] show thesis by (intro on [of cfg d]) (simp_all add: wasm_init_def)
    next
      case False
      with \<open>\<not> (w_initialized w \<or> wasm_validate_config c \<noteq> PH_OK)\<close> c True h show thesis
        by (intro failed [of PH_ERR]) (auto simp: wasm_init_def split: option.splits)
    qed
  qed (use False c off in \<open>auto simp: wasm_init_def\<close>)
qed

lemma init_distinct: "keys_distinct ph_props_init"
  by (simp add: keys_distinct_def ph_props_init_def)

lemma inv_start: "wasm_inv wasm_start"
  by (simp add: wasm_inv_def wasm_start_def props_init_wf init_distinct)

lemma inv_commit:
  assumes "config_ok cfg" "wasm_validate_config (Some cfg) = PH_OK \<or> \<not> cfg_enabled cfg" "w_in_callback w = 0" "b \<noteq> None \<longleftrightarrow> cfg_enabled cfg"
  shows "wasm_inv (wasm_commit cfg (cfg_enabled cfg) b w)"
proof -
  have "length (wasm_denylist_of cfg) \<le> PH_MAX_DENYLIST \<and> list_all (\<lambda>k. k \<noteq> [] \<and> length k < PH_KEY_CAP) (wasm_denylist_of cfg)"
    using assms(2) denylist_bounds [of cfg] by (auto simp: wasm_denylist_of_def)
  then show ?thesis using assms(1,3,4)
    by (simp add: wasm_inv_def wasm_commit_def config_ok_def props_init_wf init_distinct)
qed

lemma inv_init:
  assumes "wasm_inv w" "pred_option config_ok c"
  shows "wasm_inv (fst (wasm_init H c w))"
proof -
  have w: "w_in_callback w = 0" "\<not> w_initialized w \<Longrightarrow> w_bound w = None" using assms(1) by (auto simp: wasm_inv_def)
  show ?thesis
  proof (cases rule: init_cases [of H c w])
    case (off cfg)
    with inv_commit [of cfg w "w_bound w"] w assms(2) show ?thesis by simp
  next
    case (on cfg d)
    with inv_commit [of cfg w "Some d"] w assms(2) show ?thesis by simp
  qed (use assms in simp)
qed

lemma inv_exec: "wasm_inv w \<Longrightarrow> wasm_op_ok op \<Longrightarrow> wasm_inv (wasm_exec L mem mem' H op w)"
proof (cases op)
  case (W_register p)
  assume a: "wasm_inv w" "wasm_op_ok op"
  have "list_all prop_wf (p_items q)" if "p = Some q" for q using a(2) W_register that by (simp add: props_wf_def)
  then have "props_wf (w_super (wasm_register p w))"
    using a(1) register_all_wf [of "w_super w"] by (auto simp: wasm_inv_def wasm_register_def split: option.split)
  moreover have "keys_distinct (w_super (wasm_register p w))" if "wasm_ready w"
    using a that browser_super.run_distinct [of w _ "[S_register p]"] by (simp add: wasm_inv_def)
  ultimately show ?thesis using a W_register
    by (auto simp: wasm_inv_def wasm_register_def wasm_ready_def split: option.split)
next
  case (W_unregister k)
  assume a: "wasm_inv w"
  then show ?thesis using W_unregister remove_key_wf [of "w_super w"]
    by (auto simp: wasm_inv_def wasm_unregister_def keys_distinct_def ph_props_remove_key_def distinct_map_filter split: option.split)
next
  case W_reset
  assume "wasm_inv w"
  then show ?thesis using W_reset
    by (simp add: wasm_inv_def wasm_reset_def made_def props_init_wf init_distinct Let_def)
next
  case W_shutdown
  assume "wasm_inv w"
  then show ?thesis using W_shutdown by (simp add: wasm_inv_def wasm_shutdown_def props_init_wf init_distinct)
next
  case (W_init c)
  assume "wasm_inv w" "wasm_op_ok op"
  with W_init inv_init show ?thesis by simp
next
  case W_fail_next_props_serialize
  assume "wasm_inv w"
  with W_fail_next_props_serialize show ?thesis by (simp add: wasm_inv_def)
qed (auto intro: inv_settings [OF same_settings_ops(1)] inv_settings [OF same_settings_ops(2)] inv_settings [OF same_settings_ops(3)]
    inv_settings [OF same_settings_ops(4)] inv_settings [OF same_settings_ops(5)] inv_settings [OF same_settings_ops(6)]
    inv_settings [OF same_settings_ops(7)] inv_settings [OF same_settings_ops(8)] inv_settings [OF same_settings_ops(9)]
    inv_settings [OF same_settings_ops(10)])

lemma reachable_inv: "wasm_reachable w \<Longrightarrow> wasm_inv w"
  by (induction rule: wasm_reachable.induct) (simp_all add: inv_start inv_exec)

lemma json_result: "props_to_json L mem (Some p) w = (r, w') \<Longrightarrow>
    w_calls w' = w_calls w \<and> w_bound w' = w_bound w \<and> w_person_profiles w' = w_person_profiles w \<and>
    (\<forall>b. r = Some b \<longrightarrow> b = ph_serialize_props_object L (Some p))"
  by (auto simp: props_to_json_def Let_def split: if_splits)

text \<open>The calls an operation adds: none without a bound client, and each scrubbed.\<close>

definition adds_calls :: "double_libc \<Rightarrow> 'j host \<Rightarrow> 'j wasm \<Rightarrow> 'j wasm \<Rightarrow> bool" where
  "adds_calls L H w w' \<longleftrightarrow>
     (\<exists>cs. w_calls w' = w_calls w @ cs \<and> (cs = [] \<or> w_enabled w \<and> w_bound w \<noteq> None) \<and> list_all (call_scrubbed L H w) cs)"

lemma adds_none: "w_calls w' = w_calls w \<Longrightarrow> adds_calls L H w w'"
  by (simp add: adds_calls_def)

lemma adds_made: "w_calls w' = w_calls w \<Longrightarrow> w_enabled w \<Longrightarrow> (w_bound w = None \<Longrightarrow> cs = []) \<Longrightarrow> list_all (call_scrubbed L H w) cs \<Longrightarrow>
    adds_calls L H w (made cs w')"
  by (auto simp: adds_calls_def made_def)

lemma bridge_unbound:
  "fst (ph__wasm_js_capture H None e b) = []" "fst (ph__wasm_js_identify H None i b n) = []" "fst (ph__wasm_js_alias H None i j n) = []"
  "fst (ph__wasm_js_get_distinct_id H None m) = []" "fst (ph__wasm_js_reset H None) = []" "fst (ph__wasm_js_group H None i j b) = []"
  "fst (ph__wasm_js_capture_exception H None b b') = []" "fst (ph__wasm_js_is_feature_enabled H None k f s) = []"
  "fst (ph__wasm_js_get_feature_flag H None k out s) = []" "fst (ph__wasm_js_get_feature_flag_payload H None k out) = []"
  "fst (ph__wasm_js_reload_feature_flags H None) = []"
  by (simp_all add: js_client_def ph__wasm_js_capture_def ph__wasm_js_identify_def ph__wasm_js_alias_def ph__wasm_js_get_distinct_id_def
      ph__wasm_js_reset_def ph__wasm_js_group_def ph__wasm_js_capture_exception_def ph__wasm_js_is_feature_enabled_def
      ph__wasm_js_get_feature_flag_def ph__wasm_js_get_feature_flag_payload_def ph__wasm_js_reload_feature_flags_def)

lemma bridge_reads:
  "list_all (call_scrubbed L H w) (fst (ph__wasm_js_get_distinct_id H b m))" "list_all (call_scrubbed L H w) (fst (ph__wasm_js_reset H b))"
  "list_all (call_scrubbed L H w) (fst (ph__wasm_js_is_feature_enabled H b k f s))"
  "list_all (call_scrubbed L H w) (fst (ph__wasm_js_get_feature_flag H b k out s))"
  "list_all (call_scrubbed L H w) (fst (ph__wasm_js_get_feature_flag_payload H b k out))"
  "list_all (call_scrubbed L H w) (fst (ph__wasm_js_reload_feature_flags H b))"
  by (simp_all add: ph__wasm_js_get_distinct_id_def ph__wasm_js_reset_def ph__wasm_js_is_feature_enabled_def
      ph__wasm_js_get_feature_flag_def ph__wasm_js_get_feature_flag_payload_def ph__wasm_js_reload_feature_flags_def)

lemma capture_adds: "adds_calls L H w (fst (wasm_capture L mem H e p w))"
proof (cases "wasm_ready w \<and> given e \<and> snd (scrub_props w (ph_copy_capped [] PH_EVENT_NAME_CAP e) p True)")
  case True
  then obtain out where o: "scrub_props w (ph_copy_capped [] PH_EVENT_NAME_CAP e) p True = (out, True)" by (metis prod.collapse)
  obtain r w' where j: "props_to_json L mem (Some (ph__props_strip_sdk_owned_top_level out)) w = (r, w')" by fastforce
  from json_result [OF j] True o j capture_call [OF o] show ?thesis
    by (cases r) (auto simp: wasm_capture_def Let_def case_prod_beta bridge_unbound wasm_ready_def intro: adds_none intro!: adds_made)
qed (auto simp: wasm_capture_def Let_def case_prod_beta intro: adds_none)

lemma identify_adds: "adds_calls L H w (wasm_identify L mem H i p w)"
proof (cases "wasm_ready w \<and> given i \<and> snd (scrub_props w ''$identify'' p False)")
  case True
  then obtain out where o: "scrub_props w ''$identify'' p False = (out, True)" by (metis prod.collapse)
  obtain r w' where j: "props_to_json L mem (Some out) w = (r, w')" by fastforce
  from json_result [OF j] True o j identify_call [OF o] show ?thesis
    by (cases r) (auto simp: wasm_identify_def bridge_unbound wasm_ready_def intro: adds_none intro!: adds_made)
qed (auto simp: wasm_identify_def Let_def case_prod_beta intro: adds_none)

lemma group_adds: "adds_calls L H w (wasm_group L mem H t k p w)"
proof (cases "wasm_ready w \<and> given t \<and> given k \<and> snd (scrub_props w ''$groupidentify'' p False)")
  case True
  then obtain out where o: "scrub_props w ''$groupidentify'' p False = (out, True)" by (metis prod.collapse)
  obtain r w' where j: "props_to_json L mem (Some out) w = (r, w')" by fastforce
  from json_result [OF j] True o j group_call [OF o] show ?thesis
    by (cases r) (auto simp: wasm_group_def bridge_unbound wasm_ready_def intro: adds_none intro!: adds_made)
qed (auto simp: wasm_group_def Let_def case_prod_beta intro: adds_none)

lemma exception_adds: "adds_calls L H w (wasm_capture_exception L mem mem' H ex w)"
proof (cases "wasm_ready w \<and> ex \<noteq> None \<and> wasm_prepare_exception_props w (the ex) \<noteq> None")
  case True
  then obtain x out ty message om where x: "ex = Some x" "wasm_prepare_exception_props w x = Some (out, ty, message, om)" by auto
  obtain r w' where j: "props_to_json L mem (Some (ph__props_strip_sdk_owned_top_level out)) w = (r, w')" by fastforce
  from json_result [OF j] True x j exception_call [OF x(2)] show ?thesis
    by (cases r) (auto simp: wasm_capture_exception_def bridge_unbound wasm_ready_def intro: adds_none intro!: adds_made)
qed (auto simp: wasm_capture_exception_def intro: adds_none split: option.splits)

lemma alias_adds: "adds_calls L H w (wasm_alias H i j w)"
  by (auto simp: wasm_alias_def Let_def bridge_unbound wasm_ready_def intro: adds_none intro!: adds_made alias_call split: prod.split)

lemma flag_result_made: "fst (flag_result r w) = made (fst r) w"
  by (auto simp: flag_result_def split: prod.split option.split)

lemma reads_add:
  "adds_calls L H w (fst (wasm_get_distinct_id H n w))" "adds_calls L H w (fst (wasm_is_feature_enabled H k f w))"
  "adds_calls L H w (fst (wasm_get_feature_flag H k n w))" "adds_calls L H w (fst (wasm_get_feature_flag_payload H k n w))"
  "adds_calls L H w (wasm_reload_feature_flags H w)" "adds_calls L H w (wasm_reset H w)"
  subgoal
    using bridge_reads(1) [of L H w "w_bound w"] bridge_unbound(4) [of H]
    by (auto simp: wasm_get_distinct_id_def wasm_ready_def intro: adds_none intro!: adds_made split: option.split prod.split) (metis fst_conv)+
  subgoal
    using bridge_reads(3) [of L H w "w_bound w"] bridge_unbound(8) [of H]
    by (auto simp: wasm_is_feature_enabled_def wasm_ready_def case_prod_beta Let_def intro: adds_none intro!: adds_made split: option.split)
  subgoal
    using bridge_reads(4) [of L H w "w_bound w"] bridge_unbound(9) [of H]
    by (auto simp: wasm_get_feature_flag_def flag_result_made wasm_ready_def intro: adds_none intro!: adds_made split: option.split)
  subgoal
    using bridge_reads(5) [of L H w "w_bound w"] bridge_unbound(10) [of H]
    by (auto simp: wasm_get_feature_flag_payload_def flag_result_made wasm_ready_def intro: adds_none intro!: adds_made split: option.split)
  subgoal
    by (auto simp: wasm_reload_feature_flags_def wasm_ready_def bridge_reads bridge_unbound intro: adds_none intro!: adds_made)
  subgoal
    by (auto simp: wasm_reset_def bridge_reads bridge_unbound Let_def intro: adds_none intro!: adds_made)
  done

lemma init_calls: "w_calls (fst (wasm_init H c w)) = w_calls w"
  by (cases rule: init_cases [of H c w]) (simp_all add: wasm_commit_def)

lemma exec_adds: "adds_calls L H w (wasm_exec L mem mem' H op w)"
  by (cases op) (simp_all add: capture_adds identify_adds group_adds exception_adds alias_adds reads_add adds_none init_calls
      wasm_register_def wasm_unregister_def wasm_shutdown_def split: option.split)

lemma props_text_parsed:
  assumes "printf_ok L g" "props_wf p" "\<forall>t. jt_wf t \<longrightarrow> h_parse H (h_string H (jt_print t)) = Some (rd t)"
  shows "h_parse H (h_string H (ph_serialize_props_object L (Some p))) = Some (rd (TObj (props_members L p)))"
  using assms(3) tobj_ok [OF props_members_ok [OF assms(1,2)]] unfolding serialize_props_tree by blast

lemma strip_wf: "props_wf p \<Longrightarrow> props_wf (ph__props_strip_sdk_owned_top_level p)"
  by (auto simp: props_wf_def strip_items list_all_iff intro: order_trans [OF length_filter_le])

lemma scrub_wf:
  assumes "wasm_inv w" "pred_option props_wf props"
  shows "props_wf (fst (scrub_props w event props True))"
proof -
  have "props_wf (wasm_apply_denylist w (ph_props_merge props (Some (w_super w))))"
    unfolding wasm_apply_denylist_def using assms by (intro apply_denylist_wf merge_wf) (simp_all add: wasm_inv_def)
  then show ?thesis using assms(1) by (simp add: scrub_props_def run_hook_def wasm_inv_def split: option.split)
qed

lemma scrub_without_hook: "w_before_send w = None \<Longrightarrow> scrub_props w event props True =
    (wasm_apply_denylist w (ph_props_merge props (Some (w_super w))), True)"
  by (simp add: scrub_props_def run_hook_def)

section \<open>Properties\<close>

text \<open>A page with a client for the sample configuration; its JSON values are their texts.\<close>

definition sample_descriptor :: descriptor where
  "sample_descriptor = \<lparr>d_abi = 1, d_frozen = True, d_checked_client = True, d_with_alias = True, d_methods = client_methods,
     d_api_key = ''phc_key'', d_api_host = ''http://h'', d_distinct_id = ''anon-1'', d_person_profiles = ''identified_only'',
     d_preload_flags = False, d_send_feature_flag_events = True, d_rate_policy = ''posthog-js'', d_release = [],
     d_finalizer_version = 1, d_final_scrubber = ''posthog-js-before-send-v1'', d_geoip_events = ''default'', d_geoip_flags = ''default'',
     d_flags_api_host = None\<rparr>"

definition sample_host :: "string host" where
  "sample_host = \<lparr>h_descriptor = Some sample_descriptor, h_checked = True, h_string = id, h_parse = Some, h_ok = \<lambda>c. True,
     h_with_alias = True, h_distinct_id = Some ''anon-1'', h_utf8_length = length, h_write = \<lambda>s n. take (n - 1) s,
     h_flag = \<lambda>k. Some None, h_payload = \<lambda>k. Some None, h_stringify = id\<rparr>"

lemma sample_wasm_init: "wasm_init sample_host (Some sample_config) wasm_start =
    (wasm_commit sample_config True (Some sample_descriptor) wasm_start, PH_OK)"
proof -
  have "wasm_validate_config (Some sample_config) = PH_OK" by code_simp
  moreover have "normalize_api_host (cfg_api_host sample_config) PH_WASM_HOST_CAP = Some ''http://h''" by code_simp
  ultimately show ?thesis
    by (simp add: wasm_init_def wasm_start_def sample_config_def ph_config_defaults_def ph__wasm_js_validate_host_def sample_host_def
        sample_descriptor_def profile_name_def PH_IDENTIFIED_ONLY_def list_all_iff)
qed

definition sample_wasm :: "string wasm" where
  "sample_wasm = wasm_commit sample_config True (Some sample_descriptor) wasm_start"

lemma sample_wasm_ready: "wasm_reachable sample_wasm" "w_enabled sample_wasm" "wasm_ready sample_wasm" "\<not> w_fail_next_props_serialize sample_wasm"
    "w_super sample_wasm = ph_props_init" "w_before_send sample_wasm = None"
proof -
  have "wasm_op_ok (W_init (Some sample_config))" using sample_config_ok(1) by simp
  from called [OF loaded this, of sample_libc True True sample_host] show "wasm_reachable sample_wasm"
    by (simp add: sample_wasm_init sample_wasm_def)
qed (simp_all add: sample_wasm_def wasm_commit_def wasm_ready_def wasm_start_def sample_config_def ph_config_defaults_def)

text \<open>
  C18. Initialisation in the browser commits last. In every state the public calls lead to, telemetry is
  enabled exactly when a host descriptor is bound, the denylist fits its table and the super
  properties are well formed with one entry per key. From there a failed \<open>ph_init\<close> changes nothing,
  and a successful one found the module uninitialised and, when telemetry is enabled, bound the
  installed descriptor whose key, host, identity, profile, flag, scrubber, release and GeoIP policy
  are those of the configuration.
\<close>

theorem wasm_init_commits_last:
  assumes "wasm_reachable w" "wasm_init H c w = (w', r)"
  shows "wasm_inv w \<and> (if r \<noteq> PH_OK then w' = w else
     \<not> w_initialized w \<and> w_initialized w' \<and>
     (\<exists>cfg. c = Some cfg \<and> w_enabled w' = cfg_enabled cfg \<and> w_before_send w' = cfg_before_send cfg \<and> w_super w' = ph_props_init \<and>
        w_denylist w' = wasm_denylist_of cfg \<and>
        (if cfg_enabled cfg then \<exists>d. w_bound w' = Some d \<and> bound_for H cfg d else w_bound w' = None)))"
proof -
  have inv: "wasm_inv w" by (rule reachable_inv [OF assms(1)])
  then have b: "\<not> w_initialized w \<Longrightarrow> w_bound w = None" by (auto simp: wasm_inv_def)
  show ?thesis by (cases rule: init_cases [of H c w]) (use assms(2) b inv in \<open>auto simp: wasm_commit_def\<close>)
qed

theorem wasm_init_commits_last_witness:
  "wasm_reachable (wasm_start :: string wasm) \<and> wasm_init sample_host (Some sample_config) wasm_start = (sample_wasm, PH_OK) \<and>
     \<not> w_initialized (wasm_start :: string wasm) \<and> (\<exists>d. w_bound sample_wasm = Some d \<and> bound_for sample_host sample_config d)"
  using wasm_init_commits_last [OF loaded sample_wasm_init] sample_wasm_init sample_config_ok(2)
  by (auto simp: sample_wasm_def intro: loaded)


text \<open>
  C20. A capture in the browser reaches the client once, whole. In an enabled reachable state, with a
  JSON parser that reads the texts of the grammar, a checked client whose call returns, and memory
  for the text, \<open>ph_capture\<close> makes exactly one call with the event's name cut to its capacity and the
  object of the scrubbed properties, each member in order; nothing else changes. Without a hook those
  are the merged explicit and super properties less the denylisted and the SDK's own keys; an event
  the hook rejects makes no call. Only a name that was cut is reported.
\<close>

theorem wasm_capture_reaches_client:
  assumes "wasm_reachable w" "w_enabled w" "\<not> w_fail_next_props_serialize w" "printf_ok L g" "e \<noteq> []" "pred_option props_wf props"
    and "\<forall>t. jt_wf t \<longrightarrow> h_parse H (h_string H (jt_print t)) = Some (rd t)" "h_checked H" "\<forall>n j. h_ok H (Js_capture n j)"
    and "name = take (PH_EVENT_NAME_CAP - 1) e" "scrub_props w name props True = (kept, keep)"
  shows "wasm_capture L True H (Some e) props w =
      (if keep then (made [Js_capture (h_string H name) (Parsed (rd (TObj (props_members L (ph__props_strip_sdk_owned_top_level kept)))))] w,
                     if PH_EVENT_NAME_CAP \<le> length e then PH_ERR_TRUNCATED else PH_OK)
       else (w, PH_OK)) \<and>
    (w_before_send w = None \<longrightarrow> keep \<and> p_items kept =
       filter (\<lambda>it. prop_key it \<notin> set (w_denylist w)) (p_items (ph_props_merge props (Some (w_super w)))))"
proof (rule conjI)
  have inv: "wasm_inv w" by (rule reachable_inv [OF assms(1)])
  then obtain d where r: "wasm_ready w" "w_bound w = Some d" using assms(2) by (auto simp: wasm_inv_def wasm_ready_def)
  have name: "ph_copy_capped [] PH_EVENT_NAME_CAP (Some e) = name" using assms(10) by (simp add: ph_copy_capped_def caps)
  have wf: "props_wf (ph__props_strip_sdk_owned_top_level kept)" using scrub_wf [OF inv assms(6), of name] assms(11) by (simp add: strip_wf)
  have w: "w\<lparr>w_fail_next_props_serialize := False\<rparr> = w" using assms(3) by simp
  have j: "props_to_json L True (Some p) w = (Some (ph_serialize_props_object L (Some p)), w)" for p
    using assms(3) w by (simp add: props_to_json_def Let_def)
  show "wasm_capture L True H (Some e) props w =
      (if keep then (made [Js_capture (h_string H name) (Parsed (rd (TObj (props_members L (ph__props_strip_sdk_owned_top_level kept)))))] w,
                     if PH_EVENT_NAME_CAP \<le> length e then PH_ERR_TRUNCATED else PH_OK)
       else (w, PH_OK))"
    using r assms(5,8,9) name assms(11)
    by (simp add: wasm_capture_def given_def Let_def j ph__wasm_js_capture_def js_client_def props_text_parsed [OF assms(4) wf assms(7)])
  show "w_before_send w = None \<longrightarrow> keep \<and> p_items kept =
       filter (\<lambda>it. prop_key it \<notin> set (w_denylist w)) (p_items (ph_props_merge props (Some (w_super w))))"
    using assms(11) by (auto simp: scrub_without_hook wasm_apply_denylist_def apply_denylist_items)
qed

theorem wasm_capture_reaches_client_witness:
  "\<exists>kept. snd (wasm_capture sample_libc True sample_host (Some ''level_up'') None sample_wasm) = PH_OK \<and>
     w_calls (fst (wasm_capture sample_libc True sample_host (Some ''level_up'') None sample_wasm)) =
       [Js_capture ''level_up'' (Parsed (jt_print (TObj (props_members sample_libc (ph__props_strip_sdk_owned_top_level kept)))))]"
proof -
  have h: "h_checked sample_host" "\<forall>n j. h_ok sample_host (Js_capture n j)" "h_string sample_host = id"
    "\<forall>t. jt_wf t \<longrightarrow> h_parse sample_host (h_string sample_host (jt_print t)) = Some (jt_print t)" by (simp_all add: sample_host_def)
  have n: "take (PH_EVENT_NAME_CAP - 1) ''level_up'' = ''level_up''" "\<not> PH_EVENT_NAME_CAP \<le> length ''level_up''" by (simp_all add: caps)
  obtain kept keep where s: "scrub_props sample_wasm ''level_up'' None True = (kept, keep)" by fastforce
  have c: "w_calls sample_wasm = []" by (simp add: sample_wasm_def wasm_commit_def wasm_start_def)
  from wasm_capture_reaches_client [OF sample_wasm_ready(1,2,4) sample_libc_ok _ _ h(4,1,2) n(1) [symmetric] s] n(2) h(3) c
    sample_wasm_ready(6) show ?thesis by (auto simp: made_def)
qed

text \<open>
  C21. The super properties are the same in both backends: from states with the same super properties,
  one entry per key, any sequence of \<open>ph_register\<close>, \<open>ph_unregister\<close> and \<open>ph_reset\<close> leaves the browser
  module and the native instance with the same ones, whatever the client does on a reset, although
  one removes by searching and the other by filtering.
\<close>

theorem super_props_agree:
  assumes "wasm_ready w" "enabled ctx" "w_super w = super_props ctx" "keys_distinct (super_props ctx)"
  shows "w_super (fold (wasm_super_step H) cs w) = super_props (fold (native_super_step wall seed) cs ctx)"
  using browser_super.run_super [where s = w and cs = cs] native_super.run_super [where s = ctx and cs = cs] assms by simp

theorem super_props_agree_witness:
  "\<exists>ctx. enabled ctx \<and> w_super sample_wasm = super_props ctx \<and>
     (\<forall>cs. w_super (fold (wasm_super_step sample_host) cs sample_wasm) = super_props (fold (native_super_step 5 9) cs ctx))"
proof -
  let ?c = "zero_ctx\<lparr>enabled := True\<rparr>"
  have c: "enabled ?c" "w_super sample_wasm = super_props ?c" by (simp_all add: sample_wasm_ready(5) zero_ctx_def ph_props_init_def)
  moreover have "keys_distinct (super_props ?c)" using c(2) sample_wasm_ready(5) init_distinct by simp
  ultimately show ?thesis using super_props_agree [OF sample_wasm_ready(3)] by blast
qed

end
