(* ===== verification/Spec2Isabelle.thy ===== *)
theory Spec2Isabelle
  imports Ph_Queue Ph_Str Ph_Ratelimit Ph_Serialize Ph_Core Ph_Durable
    Ph_Crash_Windows Ph_Platform Ph_Http_Request Ph_Wasm_Client
begin

text \<open>
  Verification of posthog-c, a C client library for the PostHog analytics service.

  \<^bold>\<open>The program.\<close> An application initialises one global instance (\<^verbatim>\<open>ph_init\<close>), captures events,
  identifies users, joins groups, reads feature flags and reports exceptions. A call packs its
  event into a fixed-size record and pushes it on a bounded ring (\<^verbatim>\<open>ph_queue.c\<close>); a sender thread
  (\<^verbatim>\<open>ph_native.c\<close>) pops batches, runs the privacy stage, serializes a batch to JSON, posts it over
  HTTP, retries, respects the server's back-pressure, spills what it cannot deliver to a file and
  replays that file later. A signal handler (\<^verbatim>\<open>ph_crash.c\<close>) persists a crash record, which the next
  run sends as an exception. A browser build (\<^verbatim>\<open>ph_wasm.c\<close>) has the same interface on top of the
  JavaScript client of the page.

  \<^bold>\<open>Theories and sources.\<close> Each theory has the definitions of its source file in the order of the
  file, then the facts, then the properties, numbered C1, C2, and so on, each with a witness where
  it has hypotheses.

  \<^item> \<open>Prelude\<close>, \<open>Libc\<close>: capacities, byte and word facts, the parts of the C library used.
  \<^item> \<open>Ph_Queue\<close> (\<^verbatim>\<open>ph_queue.c\<close>): the drop-oldest ring, refined to a list.
  \<^item> \<open>Ph_Str\<close> (\<^verbatim>\<open>ph_str.c\<close>): the growing buffer and its out-of-memory latch.
  \<^item> \<open>Ph_Props\<close> (\<^verbatim>\<open>ph_props.c\<close>, \<^verbatim>\<open>ph_util.c\<close>): property sets and the packed form.
  \<^item> \<open>Ph_Json\<close>, \<open>Ph_Jsonval\<close>, \<open>Json_Text\<close> (\<^verbatim>\<open>ph_json.c\<close>, \<^verbatim>\<open>ph_jsonval.c\<close>): writer, reader, and the
    documents both are about.
  \<^item> \<open>Ph_Time\<close>, \<open>Ph_Ratelimit\<close> (\<^verbatim>\<open>ph_time.c\<close>, \<^verbatim>\<open>ph_ratelimit.c\<close>): calibration, ids, back-pressure.
  \<^item> \<open>Ph_Platform\<close> (\<^verbatim>\<open>ph_time.c\<close>, \<^verbatim>\<open>ph_thread.c\<close>): clock conversions, the random seed, timed waits, starting
    and joining threads.
  \<^item> \<open>Ph_Gzip\<close> (\<^verbatim>\<open>ph_gzip.c\<close>): the gzip framing around the DEFLATE encoder, which is a parameter.
  \<^item> \<open>Ph_Internal\<close> (\<^verbatim>\<open>ph_internal.h\<close>, \<^verbatim>\<open>ph_queue.h\<close>): events and the shared context \<open>g_ph\<close>.
  \<^item> \<open>Ph_Serialize\<close> (\<^verbatim>\<open>ph_serialize.c\<close>): events and batches as JSON.
  \<^item> \<open>Ph_Submit\<close> (\<^verbatim>\<open>ph_core.c\<close>): the enqueue path and the invariant of the context.
  \<^item> \<open>Ph_Reload\<close>, \<open>Ph_Flags\<close> (\<^verbatim>\<open>ph_flags.c\<close>): the reload scheduler as a step relation; the flag cache,
    its request, its response and the accessors.
  \<^item> \<open>Ph_Exception\<close> (\<^verbatim>\<open>ph_exception.c\<close>, \<^verbatim>\<open>ph_exception_shared.h\<close>): error tracking.
  \<^item> \<open>Ph_Crash\<close>, \<open>Ph_Crash_Windows\<close> (\<^verbatim>\<open>ph_crash.c\<close>): record codec, replay, the POSIX handler and the Windows
    filter with their arming.
  \<^item> \<open>Ph_Scrub\<close>, \<open>Ph_Spill\<close>, \<open>Ph_Sender\<close>, \<open>Ph_Native\<close> (\<^verbatim>\<open>ph_native.c\<close>): the privacy stage, the spill
    file, one batch from pop to settlement, and the sender thread with flush and stop.
  \<^item> \<open>Ph_Durable\<close> (\<^verbatim>\<open>ph_native.c\<close>): the file primitives and the spill as steps on a disk that may lose
    power; they refine the definitions of \<open>Ph_Spill\<close>.
  \<^item> \<open>Ph_Core\<close> (\<^verbatim>\<open>ph_core.c\<close>): configuration, init and shutdown, identity, groups, super properties.
  \<^item> \<open>Ph_Http\<close>, \<open>Ph_Transport\<close> (\<^verbatim>\<open>ph_http.c\<close>): URLs, request text, reading a response; connecting, sending and
    the transport's two operations. \<open>Ph_Http_Response\<close> and \<open>Ph_Http_Request\<close> show them correct.
  \<^item> \<open>Ph_Tls\<close>, \<open>Ph_Tls_Session\<close> (\<^verbatim>\<open>ph_tls.c\<close>): the OpenSSL, Secure Transport and WinHTTP backends over the
    answers of their libraries, and what their read loops share.
  \<^item> \<open>Ph_Wasm\<close>, \<open>Ph_Wasm_Client\<close> (\<^verbatim>\<open>ph_wasm.c\<close>): the browser backend with the JavaScript of its bridge, on a
    page's client as the host; its states and what it gives the client.

  \<^bold>\<open>State and environment.\<close> The global context is the record \<open>ph_ctx\<close>; a call is a function on it,
  and a section under a lock is one step. What the program asks of the system is an argument:
  clock readings, random seeds, results of allocations and file operations, the transport's answers
  and what other threads do while a lock is free. Strings are the bytes before the NUL. Counters
  and times are machine words and wrap; sizes are natural numbers with the source's overflow tests
  written out. Doubles are their bit patterns, with \<open>printf\<close>, \<open>strtod\<close> and the arithmetic as
  parameters.

  \<^bold>\<open>Loops.\<close> Loops over data are structural or have a termination proof. The sender's loop and the
  drain may wait for the outside world; they take fuel, and the theorems on them say that a stopped
  sender ends with the fuel of one turn and one more than the queue holds, so nothing rests on
  running out. The JSON reader has the length of its input as fuel, shown never to run out.

  \<^bold>\<open>What is shown.\<close> Accounting: every event is delivered, counted as failed or dropped, or in the
  spill file, exactly once, from \<open>ph_init\<close> to the end of the sender, and the events counted as sent are
  those of the bodies the transport put on the wire whole, over https in a session whose handshake
  verified the host, and the server acknowledged (this theory). Storage: whichever file operation
  fails and wherever power is lost, the spill file keeps its records, and a spill reported as done is
  on disk. State: the context is well formed in every reachable state, and every queued event
  serializes to a document the library's own reader accepts. Privacy: no denylisted key leaves the
  privacy stage, natively or in the browser. Delivery: responses are read back whatever segments they
  come in, and a cut response is never a success, with or without TLS as long as it is framed. Crash
  reports are published whole and reach the next run. Browser: initialisation commits last, every
  call to the page's client went through the privacy stage, a capture reaches it once, and the super
  properties are those of the native backend. Round trips: packing, JSON, gzip, crash records, flags
  requests, exception lists. Liveness and bounds: stop and shutdown end, reload waiters are released,
  posts respect the byte cap, the token bucket bounds the rate.

  \<^bold>\<open>Interfaces.\<close> The locales state what one part relies on in another; each is interpreted on the
  definitions of the model: the queue as a bounded list with a drop counter (\<open>bounded_fifo\<close>), what any
  call by another thread keeps for the sender (\<open>shared_context\<close>), that a transport acknowledges only
  what it delivered (\<open>transport\<close>), a TLS session as a writer and reader of a byte stream (\<open>tls_session\<close>,
  on OpenSSL and Secure Transport), a crash handler as a publisher of records (\<open>crash_handler\<close>, on POSIX
  and Windows) and the super properties (\<open>super_store\<close>, on the native and the browser backend).

  \<^bold>\<open>Not modelled.\<close> What the TLS libraries, the page's client and the JavaScript engine do themselves,
  which are parameters; mutexes and condition variables, whose locked sections are single steps; the
  vendored DEFLATE encoder; the Windows variants of the sockets; file modes; log messages and user
  callbacks other than \<open>before_send\<close>; data races outside the locks.
\<close>

section \<open>From initialisation to shutdown\<close>

definition sender_at :: "ph_ctx \<Rightarrow> files \<Rightarrow> sender" where
  "sender_at ctx fs = \<lparr>sd_ctx = ctx, sd_files = fs, sd_ticks = 0, sd_sends = 0, sd_spills = 0, sd_rewrites = 0, sd_bodies = 0,
     sd_turns = 0, sd_posted = [], sd_popped = 0\<rparr>"

lemma started_sender_ok:
  assumes "started cfg (pr_ctx p)" "list_all (\<lambda>(t, op). op_ok op \<and> client_op op) ops" "ctx = fold (api_exec D rnd) ops (pr_ctx p)"
    "spill_clean (pr_ctx p) fs"
  shows "sender_ok (sender_at ctx fs)" "offline_spill_path ctx = offline_spill_path (pr_ctx p)" "0 < max_batch ctx"
    "st_sent ctx = 0" "st_failed ctx = 0" "st_before_send_dropped ctx = 0" "build_batch_url ctx = build_batch_url (pr_ctx p)"
proof -
  have a: "list_all (\<lambda>(t, op). op_ok op) ops" "list_all (\<lambda>(t, op). client_op op) ops" using assms(2) by (auto simp: list_all_iff)
  note w = api.run_wf [OF a(1), of "pr_ctx p" D rnd, folded assms(3)]
  have r: "ctx_wf ctx" "hook_ok ctx" "ctx_config.truncate ctx = ctx_config.truncate (pr_ctx p)" using w assms(1) by (simp_all add: started_def)
  note f = config_fields [OF r(3)]
  have g: "length (offline_path (pr_ctx p)) < PH_PATH_CAP" "enabled (pr_ctx p)" using assms(1) by (auto simp: started_def)
  show "sender_ok (sender_at ctx fs)" unfolding sender_ok_def sender_at_def using r(1,2) f g assms(4) by (simp add: spill_clean_def)
  show "offline_spill_path ctx = offline_spill_path (pr_ctx p)" by (rule f(4))
  show "build_batch_url ctx = build_batch_url (pr_ctx p)" by (rule url_config [OF r(3)])
  show "0 < max_batch ctx" using assms(1) f(5) by (simp add: started_def)
  have "same_view (pr_ctx p) ctx" unfolding assms(3) by (rule api.run_view [OF a(2)])
  then show "st_sent ctx = 0" "st_failed ctx = 0" "st_before_send_dropped ctx = 0"
    using assms(1) by (simp_all add: same_view_def sender_view_def started_def)
qed

text \<open>Public calls by other threads are all the sender needs of its environment.\<close>

lemma client_env_ok:
  assumes "\<forall>k. io_clean (env_spill E k) \<and> rewrite_ok (env_rewrite E k)"
    "\<forall>k. env_others E k = fold (api_exec D rnd) (calls k) \<and> list_all (\<lambda>(t, op). op_ok op \<and> client_op op) (calls k)"
  shows "env_ok False E"
proof -
  have "others_ok (env_others E k)" for k
  proof -
    have "list_all (\<lambda>op. (case op of (t, op) \<Rightarrow> op_ok op) \<and> (case op of (t, op) \<Rightarrow> client_op op)) (calls k)"
      using assms(2) by (auto simp: list_all_iff)
    from api.clients_are_others [OF this] show ?thesis by (simp add: spec [OF assms(2), of k])
  qed
  then show ?thesis using assms(1) by (simp add: env_ok_def)
qed


text \<open>A concrete run: initialisation, one captured event, a stop request, and the sender to its end.\<close>

definition sample_ops :: "(u64 \<times> api_op) list" where
  "sample_ops = [(5, Capture (Some ''jump'') None), (6, Request_stop 7)]"

lemma sample_run:
  assumes "env_ok True E"
  obtains p' client ctx s' reports where
    "ph_init sample_init (Some sample_config) sample_process = (p', PH_OK, client)" "pr_files p' = (\<lambda>_. None)"
    "list_all (\<lambda>(t, op). op_ok op \<and> client_op op) sample_ops" "ctx = fold (api_exec rat_dbl id) sample_ops (pr_ctx p')"
    "spill_clean (pr_ctx p') (pr_files p')"
    "sender_main sample_libc rat_dbl E None 1 (ph_queue_size (queue ctx) + 2) 0 [] (sender_at ctx (pr_files p')) = Some (s', reports)"
proof -
  obtain p' client where i: "ph_init sample_init (Some sample_config) sample_process = (p', PH_OK, client)" "pr_files p' = (\<lambda>_. None)"
    using sample_init_ok by blast
  define ctx where "ctx = fold (api_exec rat_dbl id) sample_ops (pr_ctx p')"
  have ops: "list_all (\<lambda>(t, op). op_ok op \<and> client_op op) sample_ops" by (simp add: sample_ops_def)
  have c: "spill_clean (pr_ctx p') (pr_files p')" by (simp add: spill_clean_def i(2))
  note s = started_sender_ok [OF init_success [OF sample_config_ok(1) i(1) sample_config_ok(2)] ops ctx_def c]
  have "stop ctx" by (simp add: ctx_def sample_ops_def request_stop_def ph__sender_wake_def)
  then have r: "ready True (sender_at ctx (pr_files p')) (ph_queue_size (queue ctx))"
    using s(1,3) by (simp add: ready_def sender_at_def ph_queue_size_def)
  obtain s' reports where "sender_main sample_libc rat_dbl E None 1 (ph_queue_size (queue ctx) + 2) 0 [] (sender_at ctx (pr_files p')) = Some (s', reports)"
    using sender_main_ends [OF assms sample_libc_ok r, of "ph_queue_size (queue ctx) + 2" rat_dbl None 0 0 "[]"] by auto
  with i ops ctx_def c show thesis by (rule that)
qed

lemma sample_env_fields:
  "\<forall>k. io_clean (env_spill (sample_env\<lparr>env_send := t\<rparr>) k) \<and> rewrite_ok (env_rewrite (sample_env\<lparr>env_send := t\<rparr>) k)"
  "\<forall>k. env_others (sample_env\<lparr>env_send := t\<rparr>) k = fold (api_exec rat_dbl id) [] \<and> list_all (\<lambda>(t, op). op_ok op \<and> client_op op) []"
  using sample_env_ok [of False] by (simp_all add: env_ok_def sample_env_def id_def)



definition sample_http_env :: sender_env where
  "sample_http_env = sample_env\<lparr>env_send := Some (tr_send (ph_http_transport_create (\<lambda>k. sample_http)
     \<lparr>sdefl_bound = \<lambda>n. 0, sdeflate = Some\<rparr> (\<lambda>k. (True, True)) True))\<rparr>"


end
